(* ===== verification/Prelude.thy ===== *)
theory Prelude
  imports Main "HOL-Library.Word" "HOL-Library.Monad_Syntax"
begin

text \<open>
  The prelude of the development: the machine types the whole library is written over, the
  outcome of the assertion macros of \<^verbatim>\<open>include/fpag/debug/check.h\<close>, and the generic lemmas on
  lists, options and words that the components share.

  Every stateful operation of the C++ code that contains an assertion is modelled in the
  option monad: \<^term>\<open>None\<close> is a process that \<^verbatim>\<open>FPAG_CHECK\<close> or \<^verbatim>\<open>FPAG_DCHECK\<close> stopped, and
  \<^term>\<open>Some r\<close> is a normal return. A nullable pointer inside such a result is an option of its
  own. The first argument \<open>dbg\<close> of an operation says which of the two builds is meant:
  \<^verbatim>\<open>FPAG_DCHECK\<close> is \<^verbatim>\<open>FPAG_CHECK\<close> in a debug build and nothing in a release build.
\<close>

unbundle bit_operations_syntax

section \<open>Machine types\<close>

type_synonym u8 = "8 word"
type_synonym u16 = "16 word"
type_synonym u32 = "32 word"
type_synonym u64 = "64 word"
type_synonym usize = "64 word"

section \<open>Assertions\<close>

definition fpag_check :: "bool \<Rightarrow> unit option" where
  "fpag_check expr = (if expr then Some () else None)"

definition fpag_dcheck :: "bool \<Rightarrow> bool \<Rightarrow> unit option" where
  "fpag_dcheck dbg expr = (if dbg then fpag_check expr else Some ())"

named_theorems checks \<open>rules that evaluate or invert the assertion macros\<close>

lemma fpag_check_True [simp]: "fpag_check True = Some ()"
  by (simp add: fpag_check_def)

lemma fpag_check_False [simp]: "fpag_check False = None"
  by (simp add: fpag_check_def)

lemma fpag_dcheck_True [simp]: "fpag_dcheck dbg True = Some ()"
  by (simp add: fpag_dcheck_def)

lemma fpag_dcheck_release [simp]: "fpag_dcheck False e = Some ()"
  by (simp add: fpag_dcheck_def)

lemma fpag_check_eq_Some [checks]: "fpag_check e = Some u \<longleftrightarrow> e"
  by (simp add: fpag_check_def)

lemma fpag_dcheck_eq_Some [checks]: "fpag_dcheck dbg e = Some u \<longleftrightarrow> (dbg \<longrightarrow> e)"
  by (simp add: fpag_dcheck_def fpag_check_def)

lemma bind_check_eq_Some [checks]:
  "Option.bind (fpag_check e) f = Some r \<longleftrightarrow> e \<and> f () = Some r"
  by (simp add: fpag_check_def)

lemma bind_dcheck_eq_Some [checks]:
  "Option.bind (fpag_dcheck dbg e) f = Some r \<longleftrightarrow> (dbg \<longrightarrow> e) \<and> f () = Some r"
  by (simp add: fpag_dcheck_def fpag_check_def)

lemma bind_check_holds [simp]: "e \<Longrightarrow> Option.bind (fpag_check e) f = f ()"
  by (simp add: fpag_check_def)

lemma bind_dcheck_holds [simp]: "e \<Longrightarrow> Option.bind (fpag_dcheck dbg e) f = f ()"
  by (simp add: fpag_dcheck_def fpag_check_def)

section \<open>Words\<close>

named_theorems word_nat \<open>rules that read a word operation as one on natural numbers\<close>

lemma and_not_mask_eq: "(x :: 'a::len word) AND NOT (mask n) = push_bit n (drop_bit n x)"
  by (rule bit_word_eqI) (auto simp: bit_and_iff bit_not_iff bit_mask_iff bit_push_bit_iff bit_drop_bit_eq)

lemma unat_lt2p: "unat (x :: 'a::len word) < 2 ^ LENGTH('a)"
  by (rule unsigned_less)

lemma unat_mask_lt: "k < LENGTH('a) \<Longrightarrow> unat (mask k :: 'a::len word) = 2 ^ k - 1"
proof -
  assume k: "k < LENGTH('a)"
  have "(mask k :: 'a word) = of_nat (mask k)" by (simp add: of_nat_mask_eq)
  then have "unat (mask k :: 'a word) = take_bit LENGTH('a) (mask k)"
    by (simp only: unsigned_of_nat of_nat_id)
  also have "\<dots> = mask k" using k by (simp add: take_bit_nat_eq_self mask_eq_exp_minus_1 less_imp_diff_less)
  finally show ?thesis by (simp add: mask_eq_exp_minus_1)
qed

lemma unat_power_lt: "k < LENGTH('a) \<Longrightarrow> unat (2 ^ k :: 'a::len word) = 2 ^ k"
proof -
  assume k: "k < LENGTH('a)"
  have "(2 ^ k :: 'a word) = of_nat (2 ^ k)" by simp
  then have "unat (2 ^ k :: 'a word) = take_bit LENGTH('a) (2 ^ k)"
    by (simp only: unsigned_of_nat of_nat_id)
  then show ?thesis using k by (simp add: take_bit_nat_eq_self)
qed

lemma word_eq_power:
  assumes "unat (n :: 'a::len word) = 2 ^ k"
  shows "n = 2 ^ k"
proof -
  have "n = of_nat (unat n)" by simp
  also have "\<dots> = 2 ^ k" by (simp only: assms) simp
  finally show ?thesis .
qed

lemma unat_and_not_mask [word_nat]:
  "unat ((x :: 'a::len word) AND NOT (mask n)) = unat x div 2 ^ n * 2 ^ n"
proof -
  have "unat (push_bit n (drop_bit n x)) = take_bit LENGTH('a) (push_bit n (unat (drop_bit n x)))"
    by (simp add: unsigned_push_bit_eq)
  also have "\<dots> = take_bit LENGTH('a) (unat x div 2 ^ n * 2 ^ n)"
    by (simp only: push_bit_eq_mult unsigned_drop_bit_eq)
      (simp add: drop_bit_eq_div take_bit_nat_eq_self unsigned_less)
  also have "\<dots> = unat x div 2 ^ n * 2 ^ n"
  proof -
    have "unat x div 2 ^ n * 2 ^ n \<le> unat x" by (rule div_times_less_eq_dividend)
    also have "unat x < 2 ^ LENGTH('a)" by (rule unsigned_less)
    finally show ?thesis by (simp add: take_bit_nat_eq_self)
  qed
  finally show ?thesis by (simp add: and_not_mask_eq)
qed

lemma unat_and_mask [word_nat]: "unat ((x :: 'a::len word) AND mask n) = unat x mod 2 ^ n"
  by (simp only: take_bit_eq_mask [symmetric] unsigned_take_bit_eq) (simp add: take_bit_eq_mod)

lemma unat_add_nowrap [word_nat]:
  "unat x + unat y < 2 ^ LENGTH('a) \<Longrightarrow> unat (x + y :: 'a::len word) = unat x + unat y"
  by (simp add: unat_word_ariths)

lemma unat_sub_le [word_nat]: "y \<le> x \<Longrightarrow> unat (x - y :: 'a::len word) = unat x - unat y"
  by (simp add: unat_sub)

lemma unat_of_nat_small: "n < 2 ^ LENGTH('a) \<Longrightarrow> unat (of_nat n :: 'a::len word) = n"
  by (simp add: unat_of_nat take_bit_nat_eq_self_iff)

section \<open>Lists\<close>

lemma unat_room:
  fixes a c n :: "'a::len word"
  assumes "a \<le> c" "\<not> n > c - a"
  shows "unat a + unat n \<le> unat c"
  using assms by (simp add: not_less word_le_nat_alt unat_sub_le)

lemma drop_eq_ConsD:
  assumes "drop i xs = y # ys"
  shows "i < length xs" "xs ! i = y" "drop (Suc i) xs = ys"
proof -
  show i: "i < length xs" using assms by (cases "i < length xs") auto
  then have "drop i xs = xs ! i # drop (Suc i) xs" by (simp add: Cons_nth_drop_Suc)
  then show "xs ! i = y" "drop (Suc i) xs = ys" using assms by simp_all
qed

section \<open>Little-endian numbers\<close>

fun of_le :: "u8 list \<Rightarrow> nat" where
  "of_le [] = 0"
| "of_le (b # bs) = unat b + 256 * of_le bs"

lemma of_le_inj: "length xs = length ys \<Longrightarrow> of_le xs = of_le ys \<longleftrightarrow> xs = ys"
proof (induction xs ys rule: list_induct2)
  case (Cons x xs y ys)
  have "unat x < 256" "unat y < 256" using unat_lt2p [of x] unat_lt2p [of y] by simp_all
  then have "unat x + 256 * of_le xs = unat y + 256 * of_le ys \<longleftrightarrow> unat x = unat y \<and> of_le xs = of_le ys"
    by (auto dest: arg_cong [where f = "\<lambda>n. n mod 256"])
  then show ?case using Cons.IH by (simp add: word_unat_eq_iff)
qed simp

lemma of_le_less: "of_le bs < 256 ^ length bs"
proof (induction bs)
  case (Cons b bs)
  have "unat b < 256" using unat_lt2p [of b] by simp
  then show ?case using Cons.IH by simp
qed simp

lemma or_push_bit_add:
  assumes "unat (v :: 'a::len word) < 2 ^ s"
  shows "v OR push_bit s b = v + push_bit s b"
proof -
  have "take_bit s v = v"
    using assms by (simp only: word_unat_eq_iff unsigned_take_bit_eq take_bit_nat_eq_self)
  then have "bit v m \<Longrightarrow> m < s" for m using bit_take_bit_iff [of s v m] by simp
  then have "v AND push_bit s b = 0" by (intro bit_word_eqI) (force simp: bit_simps)
  then show ?thesis by (simp add: disjunctive_add_eq_or)
qed

end
