(* ===== verification/Result.thy ===== *)
theory Result
  imports Prelude
begin

text \<open>
  \<^verbatim>\<open>base::Result\<close> of \<^verbatim>\<open>include/fpag/base/result.h\<close>: a value that is either a payload or an error.
  An unwrap of the wrong side fails \<^verbatim>\<open>FPAG_CHECK\<close>, which stops the process in every build, so
  the unwraps return an option.
\<close>

section \<open>Definitions\<close>

datatype ('t, 'e) result = Ok 't | Err 'e

definition make_ok :: "'t \<Rightarrow> ('t, 'e) result" where
  "make_ok value = Ok value"

definition make_err :: "'e \<Rightarrow> ('t, 'e) result" where
  "make_err error = Err error"

fun result_is_ok :: "('t, 'e) result \<Rightarrow> bool" where
  "result_is_ok (Ok _) = True"
| "result_is_ok (Err _) = False"

fun result_is_err :: "('t, 'e) result \<Rightarrow> bool" where
  "result_is_err (Ok _) = False"
| "result_is_err (Err _) = True"

fun union_get_ok :: "('t, 'e) result \<Rightarrow> 't option" where
  "union_get_ok (Ok v) = Some v"
| "union_get_ok (Err _) = None"

fun union_get_err :: "('t, 'e) result \<Rightarrow> 'e option" where
  "union_get_err (Ok _) = None"
| "union_get_err (Err e) = Some e"

definition unwrap :: "('t, 'e) result \<Rightarrow> 't option" where
  "unwrap r = do { fpag_check (result_is_ok r); union_get_ok r }"

definition unwrap_err :: "('t, 'e) result \<Rightarrow> 'e option" where
  "unwrap_err r = do { fpag_check (result_is_err r); union_get_err r }"

definition unwrap_or :: "('t, 'e) result \<Rightarrow> 't \<Rightarrow> 't option" where
  "unwrap_or r default_val = (if result_is_ok r then unwrap r else Some default_val)"

definition result_value :: "('t, 'e) result \<Rightarrow> 't option" where
  "result_value r = do { fpag_check (result_is_ok r); union_get_ok r }"

text \<open>The overloads on \<^verbatim>\<open>const&\<close> read the payload or the error in place, those on \<^verbatim>\<open>&&\<close> unwrap it.\<close>

definition result_map :: "('t, 'e) result \<Rightarrow> ('t \<Rightarrow> 'u) \<Rightarrow> ('u, 'e) result option" where
  "result_map r f =
     (if result_is_ok r then do { v \<leftarrow> result_value r; Some (make_ok (f v)) }
      else do { e \<leftarrow> union_get_err r; Some (make_err e) })"

definition result_map_move :: "('t, 'e) result \<Rightarrow> ('t \<Rightarrow> 'u) \<Rightarrow> ('u, 'e) result option" where
  "result_map_move r f =
     (if result_is_ok r then do { v \<leftarrow> unwrap r; Some (make_ok (f v)) }
      else do { e \<leftarrow> unwrap_err r; Some (make_err e) })"

definition result_and_then ::
  "('t, 'e) result \<Rightarrow> ('t \<Rightarrow> ('u, 'e) result) \<Rightarrow> ('u, 'e) result option" where
  "result_and_then r f =
     (if result_is_ok r then do { v \<leftarrow> result_value r; Some (f v) }
      else do { e \<leftarrow> union_get_err r; Some (make_err e) })"

definition result_and_then_move ::
  "('t, 'e) result \<Rightarrow> ('t \<Rightarrow> ('u, 'e) result) \<Rightarrow> ('u, 'e) result option" where
  "result_and_then_move r f =
     (if result_is_ok r then do { v \<leftarrow> unwrap r; Some (f v) }
      else do { e \<leftarrow> unwrap_err r; Some (make_err e) })"

text \<open>
  \<^verbatim>\<open>Result<void, E>\<close>: the payload is empty, and the functions passed to \<^verbatim>\<open>map\<close> and \<^verbatim>\<open>and_then\<close> take no
  argument. A function that returns nothing is one into \<^typ>\<open>unit\<close>.
\<close>

definition void_unwrap :: "(unit, 'e) result \<Rightarrow> unit option" where
  "void_unwrap r = fpag_check (result_is_ok r)"

definition void_unwrap_err :: "(unit, 'e) result \<Rightarrow> 'e option" where
  "void_unwrap_err r = do { fpag_check (result_is_err r); union_get_err r }"

definition void_map :: "(unit, 'e) result \<Rightarrow> (unit \<Rightarrow> 'u) \<Rightarrow> ('u, 'e) result option" where
  "void_map r f =
     (if result_is_ok r then Some (make_ok (f ())) else do { e \<leftarrow> union_get_err r; Some (make_err e) })"

definition void_map_move :: "(unit, 'e) result \<Rightarrow> (unit \<Rightarrow> 'u) \<Rightarrow> ('u, 'e) result option" where
  "void_map_move r f =
     (if result_is_ok r then Some (make_ok (f ())) else do { e \<leftarrow> void_unwrap_err r; Some (make_err e) })"

definition void_and_then :: "(unit, 'e) result \<Rightarrow> (unit \<Rightarrow> (unit, 'e) result) \<Rightarrow> (unit, 'e) result option" where
  "void_and_then r f =
     (if result_is_ok r then Some (f ()) else do { e \<leftarrow> union_get_err r; Some (make_err e) })"

definition void_and_then_move ::
  "(unit, 'e) result \<Rightarrow> (unit \<Rightarrow> ('u, 'e) result) \<Rightarrow> ('u, 'e) result option" where
  "void_and_then_move r f =
     (if result_is_ok r then Some (f ()) else do { e \<leftarrow> void_unwrap_err r; Some (make_err e) })"

section \<open>Lemmas\<close>

lemma result_is_err_iff: "result_is_err r \<longleftrightarrow> \<not> result_is_ok r"
  by (cases r) simp_all

lemma unwrap_simps [simp]: "unwrap (Ok v) = Some v" "unwrap (Err e) = None"
  by (simp_all add: unwrap_def)

lemma unwrap_err_simps [simp]: "unwrap_err (Ok v) = None" "unwrap_err (Err e) = Some e"
  by (simp_all add: unwrap_err_def)

lemma result_map_simps [simp]:
  "result_map (Ok v) f = Some (Ok (f v))" "result_map (Err e) f = Some (Err e)"
  by (simp_all add: result_map_def result_value_def make_ok_def make_err_def)

lemma result_and_then_simps [simp]:
  "result_and_then (Ok v) f = Some (f v)" "result_and_then (Err e) f = Some (Err e)"
  by (simp_all add: result_and_then_def result_value_def make_err_def)

lemma result_move_agree:
  "result_map_move r f = result_map r f" "result_and_then_move r g = result_and_then r g"
  by (cases r; simp add: result_map_move_def result_and_then_move_def make_ok_def make_err_def)+

lemma void_result_agree:
  "void_unwrap r = unwrap r" "void_unwrap_err r = unwrap_err r"
  "void_map r f = result_map r f" "void_map_move r f = result_map r f"
  "void_and_then r g = result_and_then r g" "void_and_then_move r h = result_and_then r h"
  by (cases r; simp add: void_unwrap_def void_unwrap_err_def void_map_def void_map_move_def
        void_and_then_def void_and_then_move_def make_ok_def make_err_def)+

section \<open>The chaining contract\<close>

text \<open>
  A chain of fallible steps that never aborts: what client code such as the accessors of
  \<^verbatim>\<open>arg::Matches\<close> relies on when it chains conversions. The run of a list of steps stops at the
  first error and keeps it.
\<close>

locale fallible_chain =
  fixes ret :: "'t \<Rightarrow> 'r" and fail :: "'e \<Rightarrow> 'r"
    and chain :: "'r \<Rightarrow> ('t \<Rightarrow> 'r) \<Rightarrow> 'r option"
  assumes chain_ret: "chain (ret v) f = Some (f v)"
    and chain_fail: "chain (fail e) f = Some (fail e)"
    and ret_or_fail: "(\<exists>v. r = ret v) \<or> (\<exists>e. r = fail e)"
begin

fun run_chain :: "('t \<Rightarrow> 'r) list \<Rightarrow> 'r \<Rightarrow> 'r option" where
  "run_chain [] r = Some r"
| "run_chain (f # fs) r = Option.bind (chain r f) (run_chain fs)"

lemma run_chain_fail: "run_chain fs (fail e) = Some (fail e)"
  by (induction fs) (simp_all add: chain_fail)

lemma run_chain_total: "\<exists>r'. run_chain fs r = Some r'"
proof (induction fs arbitrary: r)
  case Nil
  then show ?case by simp
next
  case (Cons f fs)
  then show ?case using ret_or_fail [of r] by (auto simp: chain_ret run_chain_fail chain_fail)
qed

lemma run_chain_append:
  "run_chain (fs @ gs) r = Option.bind (run_chain fs r) (run_chain gs)"
  by (induction fs arbitrary: r) (auto split: bind_splits)

end

interpretation rc: fallible_chain Ok Err result_and_then
  by unfold_locales (auto intro: result.exhaust)

section \<open>Properties\<close>

text \<open>
  \<^verbatim>\<open>unwrap\<close> and \<^verbatim>\<open>unwrap_err\<close> stop the process exactly on the other side of the union, and
  \<^verbatim>\<open>map\<close> and \<^verbatim>\<open>and_then\<close> never do: they apply the function to a payload and pass an error on.
\<close>

lemma result_unwrap_exact:
  "(unwrap r = None \<longleftrightarrow> result_is_err r) \<and> (unwrap_err r = None \<longleftrightarrow> result_is_ok r)
   \<and> unwrap_or r d = Some (case r of Ok v \<Rightarrow> v | Err _ \<Rightarrow> d)
   \<and> result_map r f = Some (case r of Ok v \<Rightarrow> Ok (f v) | Err e \<Rightarrow> Err e)
   \<and> result_and_then r g = Some (case r of Ok v \<Rightarrow> g v | Err e \<Rightarrow> Err e)"
  by (cases r) (simp_all add: unwrap_or_def)

end
