(* ===== verification/Text.thy ===== *)
theory Text
  imports Prelude "HOL-Library.Sublist"
begin

text \<open>
  The pieces of the C++ standard library and of fmt that the text-handling components use, on
  strings as character lists: \<^verbatim>\<open>std::string_view::find\<close> and \<^verbatim>\<open>substr\<close>, \<^verbatim>\<open>std::to_string\<close>, the
  integer overloads of \<^verbatim>\<open>std::from_chars\<close> in base ten, the padding of \<^verbatim>\<open>fmt::format\<close>, and
  \<^verbatim>\<open>fmt::vformat\<close> on the plain \<open>{}\<close> placeholders the library writes.
\<close>

section \<open>Definitions\<close>

definition str_find :: "char \<Rightarrow> string \<Rightarrow> nat option" where
  "str_find c s = (if c \<in> set s then Some (length (takeWhile (\<lambda>x. x \<noteq> c) s)) else None)"

definition substr_to :: "string \<Rightarrow> nat option \<Rightarrow> string" where
  "substr_to s pos = (case pos of None \<Rightarrow> s | Some n \<Rightarrow> take n s)"

definition is_digit :: "char \<Rightarrow> bool" where
  "is_digit c \<longleftrightarrow> 48 \<le> (of_char c :: nat) \<and> (of_char c :: nat) \<le> 57"

definition digit_char :: "nat \<Rightarrow> char" where
  "digit_char d = char_of (48 + d)"

definition digit_val :: "char \<Rightarrow> nat" where
  "digit_val c = of_char c - 48"

fun nat_to_string :: "nat \<Rightarrow> string" where
  "nat_to_string n =
     (if n < 10 then [digit_char n] else nat_to_string (n div 10) @ [digit_char (n mod 10)])"

declare nat_to_string.simps [simp del]

definition int_to_string :: "int \<Rightarrow> string" where
  "int_to_string i = (if i < 0 then CHR ''-'' # nat_to_string (nat (- i)) else nat_to_string (nat i))"

definition digits_val :: "string \<Rightarrow> nat" where
  "digits_val ds = foldl (\<lambda>n c. 10 * n + digit_val c) 0 ds"

datatype errc = ErrcNone | ErrcInvalidArgument | ErrcResultOutOfRange

text \<open>
  \<^verbatim>\<open>std::from_chars\<close> reads an optional minus sign when the type is signed, then the longest run
  of digits. It reports how many characters it used.
\<close>

definition from_chars :: "bool \<Rightarrow> int \<Rightarrow> int \<Rightarrow> string \<Rightarrow> nat \<times> errc \<times> int" where
  "from_chars is_signed lo hi s =
     (let neg = (is_signed \<and> s \<noteq> [] \<and> hd s = CHR ''-'');
          rest = (if neg then tl s else s);
          ds = takeWhile is_digit rest;
          used = length ds + (if neg then 1 else 0);
          x = (if neg then - int (digits_val ds) else int (digits_val ds))
      in if ds = [] then (0, ErrcInvalidArgument, 0)
         else if lo \<le> x \<and> x \<le> hi then (used, ErrcNone, x)
         else (used, ErrcResultOutOfRange, 0))"

definition pad_right :: "nat \<Rightarrow> string \<Rightarrow> string" where
  "pad_right width s = s @ replicate (width - length s) CHR '' ''"

text \<open>Bytes of a name as the characters they are, and the end of a line.\<close>

definition text_of :: "u8 list \<Rightarrow> string" where "text_of m = map (\<lambda>b. char_of (unat b :: nat)) m"

definition NEWLINE :: string where "NEWLINE = [CHR 0x0A]"

definition spaces :: "nat \<Rightarrow> string" where
  "spaces n = replicate n CHR '' ''"

fun fmt_args :: "string \<Rightarrow> string list \<Rightarrow> string" where
  "fmt_args [] xs = []"
| "fmt_args [c] xs = [c]"
| "fmt_args (c # d # cs) xs =
     (if c = CHR ''{'' \<and> d = CHR ''}'' then
        (case xs of [] \<Rightarrow> fmt_args cs [] | x # xs' \<Rightarrow> x @ fmt_args cs xs')
      else c # fmt_args (d # cs) xs)"

section \<open>Searching and cutting\<close>

lemma substr_to_find: "substr_to s (str_find c s) = takeWhile (\<lambda>x. x \<noteq> c) s"
proof (cases "c \<in> set s")
  case True
  then show ?thesis by (simp add: substr_to_def str_find_def takeWhile_eq_take [symmetric])
next
  case False
  then have t: "takeWhile (\<lambda>x. x \<noteq> c) s = s" by auto
  show ?thesis using False by (simp add: substr_to_def str_find_def t)
qed

lemma str_find_eq_None: "str_find c s = None \<longleftrightarrow> c \<notin> set s"
  by (simp add: str_find_def)

lemma str_find_append: "c \<notin> set s \<Longrightarrow> str_find c (s @ c # t) = Some (length s)"
proof -
  assume "c \<notin> set s"
  then have "takeWhile (\<lambda>x. x \<noteq> c) (s @ c # t) = s" by (subst takeWhile_append2) auto
  then show ?thesis by (simp add: str_find_def)
qed

section \<open>Decimal numbers\<close>

lemma is_digit_digit_char: "d < 10 \<Longrightarrow> is_digit (digit_char d)"
  by (simp add: is_digit_def digit_char_def)

lemma digit_val_digit_char: "d < 10 \<Longrightarrow> digit_val (digit_char d) = d"
  by (simp add: digit_val_def digit_char_def)

lemma nat_to_string_digits: "\<forall>c \<in> set (nat_to_string n). is_digit c"
proof (induction n rule: nat_to_string.induct)
  case (1 n)
  show ?case
    by (cases "n < 10"; subst nat_to_string.simps) (use 1 in \<open>auto simp: is_digit_digit_char\<close>)
qed

lemma nat_to_string_nonempty [simp]: "nat_to_string n \<noteq> []"
  by (subst nat_to_string.simps) simp

lemma digits_val_snoc: "digits_val (ds @ [c]) = 10 * digits_val ds + digit_val c"
  by (simp add: digits_val_def)

lemma digits_val_nat_to_string [simp]: "digits_val (nat_to_string n) = n"
proof (induction n rule: nat_to_string.induct)
  case (1 n)
  show ?case
  proof (cases "n < 10")
    case True
    then show ?thesis by (subst nat_to_string.simps) (simp add: digits_val_def digit_val_digit_char)
  next
    case False
    then show ?thesis using 1
      by (subst nat_to_string.simps) (simp add: digits_val_snoc digit_val_digit_char)
  qed
qed

lemma minus_not_digit: "\<not> is_digit CHR ''-''"
  by (simp add: is_digit_def)

lemma takeWhile_digits [simp]: "takeWhile is_digit (nat_to_string n) = nat_to_string n"
  by (simp add: takeWhile_eq_all_conv nat_to_string_digits)

lemma hd_nat_to_string: "hd (nat_to_string n) \<noteq> CHR ''-''"
  using nat_to_string_digits [of n] minus_not_digit hd_in_set [OF nat_to_string_nonempty] by metis

lemma from_chars_int_to_string:
  assumes "lo \<le> i" "i \<le> hi" "is_signed \<or> 0 \<le> i"
  shows "from_chars is_signed lo hi (int_to_string i) = (length (int_to_string i), ErrcNone, i)"
proof (cases "i < 0")
  case True
  then show ?thesis using assms by (simp add: from_chars_def int_to_string_def Let_def)
next
  case False
  then show ?thesis using assms by (simp add: from_chars_def int_to_string_def Let_def hd_nat_to_string)
qed

lemma from_chars_complete:
  assumes "from_chars is_signed lo hi s = (length s, ErrcNone, x)"
  shows "lo \<le> x \<and> x \<le> hi
    \<and> (\<exists>ds. ds \<noteq> [] \<and> (\<forall>c \<in> set ds. is_digit c)
         \<and> (s = ds \<and> x = int (digits_val ds)
            \<or> is_signed \<and> s = CHR ''-'' # ds \<and> x = - int (digits_val ds)))"
proof -
  have tw: "takeWhile is_digit r = r \<longleftrightarrow> length (takeWhile is_digit r) = length r" for r
    by (metis length_takeWhile_le takeWhile_eq_take take_all_iff order_refl)
  show ?thesis
  proof (cases "is_signed \<and> s \<noteq> [] \<and> hd s = CHR ''-''")
    case True
    then obtain r where r: "s = CHR ''-'' # r" by (cases s) auto
    then have t: "takeWhile is_digit r = r" using assms True tw [of r]
      by (auto simp: from_chars_def Let_def split: if_splits)
    then have "\<forall>c \<in> set r. is_digit c" by simp
    then show ?thesis using assms True r
      by (intro conjI exI [of _ r]) (simp_all add: from_chars_def Let_def t split: if_splits)
  next
    case False
    then have t: "takeWhile is_digit s = s" using assms tw [of s]
      by (auto simp: from_chars_def Let_def split: if_splits)
    then have "\<forall>c \<in> set s. is_digit c" by simp
    then show ?thesis using assms False
      by (intro conjI exI [of _ s]) (simp_all add: from_chars_def Let_def t split: if_splits)
  qed
qed

end
