(* ===== verification/Arg_Schema.thy ===== *)
theory Arg_Schema
  imports Result Text
begin

text \<open>
  The data of the command line module (\<^verbatim>\<open>include/fpag/arg\<close>): argument definitions and their
  builder, the command tree and its builder and lookups, the matches a parse collects and their
  typed accessors, and the result of a parse. \<^verbatim>\<open>std::string_view\<close> members borrow storage that
  outlives them, so they are strings here.
\<close>

section \<open>Arguments (\<^verbatim>\<open>arg.h\<close>)\<close>

record arg_state =
  as_name :: "string option"
  as_help :: string
  as_long_name :: string
  as_default_value :: string
  as_value_name :: string
  as_choices :: "string list"
  as_short_name :: "char option"
  as_is_required :: bool
  as_is_flag :: bool

type_synonym arg = arg_state

definition arg_name :: "arg \<Rightarrow> string" where
  "arg_name a = (case as_name a of Some n \<Rightarrow> n | None \<Rightarrow> as_long_name a)"

definition ArgBuilder :: "string \<Rightarrow> arg_state" where
  "ArgBuilder long_name =
     \<lparr>as_name = None, as_help = [], as_long_name = long_name, as_default_value = [],
      as_value_name = [], as_choices = [], as_short_name = None,
      as_is_required = False, as_is_flag = False\<rparr>"

definition with_short_name :: "char \<Rightarrow> arg_state \<Rightarrow> arg_state" where
  "with_short_name c st = st\<lparr>as_short_name := Some c\<rparr>"

definition with_long_name :: "string \<Rightarrow> arg_state \<Rightarrow> arg_state" where
  "with_long_name n st = st\<lparr>as_long_name := n\<rparr>"

definition with_name :: "string \<Rightarrow> arg_state \<Rightarrow> arg_state" where
  "with_name n st = st\<lparr>as_name := Some n\<rparr>"

definition with_help :: "string \<Rightarrow> arg_state \<Rightarrow> arg_state" where
  "with_help h st = st\<lparr>as_help := h\<rparr>"

definition with_default_value :: "string \<Rightarrow> arg_state \<Rightarrow> arg_state" where
  "with_default_value d st = st\<lparr>as_default_value := d\<rparr>"

definition with_value_name :: "string \<Rightarrow> arg_state \<Rightarrow> arg_state" where
  "with_value_name v st = st\<lparr>as_value_name := v\<rparr>"

definition with_choices :: "string list \<Rightarrow> arg_state \<Rightarrow> arg_state" where
  "with_choices c st = st\<lparr>as_choices := c\<rparr>"

definition with_required :: "bool \<Rightarrow> arg_state \<Rightarrow> arg_state" where
  "with_required r st = st\<lparr>as_is_required := r\<rparr>"

definition with_is_flag :: "bool \<Rightarrow> arg_state \<Rightarrow> arg_state" where
  "with_is_flag f st = st\<lparr>as_is_flag := f\<rparr>"

definition arg_build :: "arg_state \<Rightarrow> arg" where
  "arg_build st =
     (if as_name st = None \<and> as_long_name st \<noteq> [] then st\<lparr>as_name := Some (as_long_name st)\<rparr>
      else st)"

lemmas arg_builder_defs = ArgBuilder_def with_short_name_def with_long_name_def with_name_def
  with_help_def with_default_value_def with_value_name_def with_choices_def with_required_def
  with_is_flag_def arg_build_def

lemma arg_name_build [simp]: "arg_name (arg_build st) = arg_name st"
  by (simp add: arg_name_def arg_build_def split: option.split)

lemma arg_build_frame [simp]:
  "as_long_name (arg_build st) = as_long_name st" "as_short_name (arg_build st) = as_short_name st"
  "as_choices (arg_build st) = as_choices st" "as_is_required (arg_build st) = as_is_required st"
  "as_is_flag (arg_build st) = as_is_flag st" "as_help (arg_build st) = as_help st"
  by (simp_all add: arg_build_def)

section \<open>Commands (\<^verbatim>\<open>command.h\<close>, \<^verbatim>\<open>command.cc\<close>)\<close>

datatype command =
  Command (cmd_name: string) (cmd_version: string) (cmd_about: string) (cmd_args: "arg list")
    (cmd_subcommands: "command list") (cmd_builtin_enabled: bool)

definition CommandBuilder :: "string \<Rightarrow> string \<Rightarrow> command" where
  "CommandBuilder name version = Command name version [] [] [] True"

fun command_about :: "string \<Rightarrow> command \<Rightarrow> command" where
  "command_about d (Command n v _ as subs b) = Command n v d as subs b"

fun command_builtin_enabled :: "bool \<Rightarrow> command \<Rightarrow> command" where
  "command_builtin_enabled e (Command n v ab as subs _) = Command n v ab as subs e"

fun add_arg :: "arg \<Rightarrow> command \<Rightarrow> command" where
  "add_arg a (Command n v ab as subs b) = Command n v ab (as @ [a]) subs b"

fun add_subcommand :: "command \<Rightarrow> command \<Rightarrow> command" where
  "add_subcommand s (Command n v ab as subs b) = Command n v ab as (subs @ [s]) b"

definition find_arg_by_short :: "command \<Rightarrow> char \<Rightarrow> arg option" where
  "find_arg_by_short cmd c = find (\<lambda>a. as_short_name a = Some c) (cmd_args cmd)"

definition find_arg_by_long :: "command \<Rightarrow> string \<Rightarrow> arg option" where
  "find_arg_by_long cmd long_name = find (\<lambda>a. as_long_name a = long_name) (cmd_args cmd)"

definition find_subcommand :: "command \<Rightarrow> string \<Rightarrow> command option" where
  "find_subcommand cmd sub_name = find (\<lambda>s. cmd_name s = sub_name) (cmd_subcommands cmd)"

lemma find_arg_by_shortD: "find_arg_by_short cmd c = Some a \<Longrightarrow> a \<in> set (cmd_args cmd) \<and> as_short_name a = Some c"
  by (auto simp: find_arg_by_short_def find_Some_iff)

lemma find_arg_by_longD: "find_arg_by_long cmd l = Some a \<Longrightarrow> a \<in> set (cmd_args cmd) \<and> as_long_name a = l"
  by (auto simp: find_arg_by_long_def find_Some_iff)

lemma find_subcommandD: "find_subcommand cmd n = Some s \<Longrightarrow> s \<in> set (cmd_subcommands cmd) \<and> cmd_name s = n"
  by (auto simp: find_subcommand_def find_Some_iff)

lemma find_unique:
  "x \<in> set xs \<Longrightarrow> distinct (map f xs) \<Longrightarrow> find (\<lambda>y. f y = f x) xs = Some x"
  by (induction xs) (auto simp: image_iff)

lemma find_arg_by_long_unique:
  "a \<in> set (cmd_args cmd) \<Longrightarrow> distinct (map as_long_name (cmd_args cmd))
    \<Longrightarrow> find_arg_by_long cmd (as_long_name a) = Some a"
  by (simp add: find_arg_by_long_def find_unique)

section \<open>Conversion (\<^verbatim>\<open>converter.h\<close>)\<close>

datatype get_error = InvalidArgument | OutOfRange

definition convert_string :: "string \<Rightarrow> (string, get_error) result" where
  "convert_string v = make_ok v"

definition convert_bool :: "string \<Rightarrow> (bool, get_error) result" where
  "convert_bool v =
     (if v = ''true'' \<or> v = ''1'' \<or> v = ''y'' then make_ok True
      else if v = ''false'' \<or> v = ''0'' \<or> v = ''n'' then make_ok False
      else make_err InvalidArgument)"

text \<open>
  The converter of the number types is one template over the overloads of \<^verbatim>\<open>std::from_chars\<close>: the one of the
  type is its argument, which for the floating-point types stays open.
\<close>

definition convert_number :: "(string \<Rightarrow> nat \<times> errc \<times> 'n) \<Rightarrow> string \<Rightarrow> ('n, get_error) result" where
  "convert_number chars v =
     (let (ptr, ec, val) = chars v
      in if ec \<noteq> ErrcNone \<or> ptr \<noteq> length v then make_err InvalidArgument else make_ok val)"

definition convert_int :: "bool \<Rightarrow> int \<Rightarrow> int \<Rightarrow> string \<Rightarrow> (int, get_error) result" where
  "convert_int is_signed lo hi v = convert_number (from_chars is_signed lo hi) v"

lemma convert_int_Ok_iff:
  "convert_int is_signed lo hi v = Ok x \<longleftrightarrow> from_chars is_signed lo hi v = (length v, ErrcNone, x)"
  by (auto simp: convert_int_def convert_number_def make_ok_def make_err_def split: prod.splits if_splits)

lemma convert_int_Err: "convert_int is_signed lo hi v = Err e \<Longrightarrow> e = InvalidArgument"
  by (auto simp: convert_int_def convert_number_def make_ok_def make_err_def split: prod.splits if_splits)

section \<open>Matches (\<^verbatim>\<open>matches.h\<close>)\<close>

record matches =
  m_values :: "(string \<times> string) list"
  m_positionals :: "string list"
  m_command_path :: "string list"

definition empty_matches :: matches where
  "empty_matches = \<lparr>m_values = [], m_positionals = [], m_command_path = []\<rparr>"

definition matches_add :: "string \<Rightarrow> string \<Rightarrow> matches \<Rightarrow> matches" where
  "matches_add name value m = m\<lparr>m_values := m_values m @ [(name, value)]\<rparr>"

definition add_positional :: "string \<Rightarrow> matches \<Rightarrow> matches" where
  "add_positional value m = m\<lparr>m_positionals := m_positionals m @ [value]\<rparr>"

definition matches_has :: "matches \<Rightarrow> string \<Rightarrow> bool" where
  "matches_has m name \<longleftrightarrow> list_ex (\<lambda>(n, v). n = name) (m_values m)"

fun get_in :: "(string \<Rightarrow> ('t, get_error) result) \<Rightarrow> string \<Rightarrow> (string \<times> string) list
    \<Rightarrow> ('t, get_error) result" where
  "get_in conv name [] = make_err OutOfRange"
| "get_in conv name ((n, value) # vs) = (if n = name then conv value else get_in conv name vs)"

definition matches_get :: "(string \<Rightarrow> ('t, get_error) result) \<Rightarrow> matches \<Rightarrow> string
    \<Rightarrow> ('t, get_error) result" where
  "matches_get conv m name = get_in conv name (m_values m)"

fun get_all_in :: "(string \<Rightarrow> ('t, get_error) result) \<Rightarrow> string \<Rightarrow> (string \<times> string) list
    \<Rightarrow> 't list \<Rightarrow> bool \<Rightarrow> ('t list, get_error) result" where
  "get_all_in conv name [] results found =
     (if \<not> found then make_err OutOfRange else make_ok results)"
| "get_all_in conv name ((n, v) # vs) results found =
     (if n = name then
        (case conv v of Err e \<Rightarrow> make_err e
         | Ok x \<Rightarrow> get_all_in conv name vs (results @ [x]) True)
      else get_all_in conv name vs results found)"

definition matches_get_all :: "(string \<Rightarrow> ('t, get_error) result) \<Rightarrow> matches \<Rightarrow> string
    \<Rightarrow> ('t list, get_error) result" where
  "matches_get_all conv m name = get_all_in conv name (m_values m) [] False"

definition select_subcommand :: "string \<Rightarrow> matches \<Rightarrow> matches" where
  "select_subcommand name m = m\<lparr>m_command_path := m_command_path m @ [name]\<rparr>"

definition selected_command :: "matches \<Rightarrow> string" where
  "selected_command m = (if m_command_path m = [] then [] else last (m_command_path m))"

text \<open>All values recorded under a name, in the order the parse met them.\<close>

definition values_of :: "matches \<Rightarrow> string \<Rightarrow> string list" where
  "values_of m name = map snd (filter (\<lambda>(n, v). n = name) (m_values m))"

lemma matches_has_iff: "matches_has m name \<longleftrightarrow> values_of m name \<noteq> []"
  by (auto simp: matches_has_def values_of_def list_ex_iff filter_empty_conv)

lemma values_of_add [simp]:
  "values_of (matches_add n v m) name = values_of m name @ (if n = name then [v] else [])"
  by (simp add: values_of_def matches_add_def)

lemma values_of_frame [simp]:
  "values_of (add_positional v m) name = values_of m name"
  "values_of (select_subcommand s m) name = values_of m name"
  by (simp_all add: values_of_def add_positional_def select_subcommand_def)

lemma get_in_first:
  "get_in conv name vs =
     (case map snd (filter (\<lambda>(n, v). n = name) vs) of [] \<Rightarrow> Err OutOfRange | v # _ \<Rightarrow> conv v)"
  by (induction conv name vs rule: get_in.induct) (auto simp: make_err_def)

section \<open>Errors and results (\<^verbatim>\<open>error_code.h\<close>, \<^verbatim>\<open>parse_error.h\<close>, \<^verbatim>\<open>parse_status.h\<close>, \<^verbatim>\<open>parse_result.h\<close>)\<close>

datatype error_code =
  EC_None | InvalidArgCount | NullMatchesPointer | UnknownLongOption | UnknownShortOption
| MissingValueForOption | FlagTakesNoValue | MissingRequiredArgument | DuplicateOption
| InvalidChoice | InvalidValue

record parse_error =
  pe_code :: error_code
  pe_context :: string
  pe_value :: string

datatype parse_status = Success | Error | HelpRequested | VersionRequested

datatype 't parse_storage =
  StoreOk 't | StoreErr "parse_error list" | StoreHelp string | StoreVersion string

record 't parse_result =
  pr_storage :: "'t parse_storage"
  pr_status :: parse_status

definition make_pr_ok :: "'t \<Rightarrow> 't parse_result" where
  "make_pr_ok obj = \<lparr>pr_storage = StoreOk obj, pr_status = Success\<rparr>"

definition make_pr_err :: "parse_error list \<Rightarrow> 't parse_result" where
  "make_pr_err errors = \<lparr>pr_storage = StoreErr errors, pr_status = Error\<rparr>"

definition make_pr_help :: "string \<Rightarrow> 't parse_result" where
  "make_pr_help help = \<lparr>pr_storage = StoreHelp help, pr_status = HelpRequested\<rparr>"

definition make_pr_version :: "string \<Rightarrow> 't parse_result" where
  "make_pr_version version = \<lparr>pr_storage = StoreVersion version, pr_status = VersionRequested\<rparr>"

definition pr_unwrap :: "'t parse_result \<Rightarrow> 't option" where
  "pr_unwrap r = do { fpag_check (pr_status r = Success);
     (case pr_storage r of StoreOk v \<Rightarrow> Some v | _ \<Rightarrow> None) }"

definition pr_unwrap_err :: "'t parse_result \<Rightarrow> parse_error list option" where
  "pr_unwrap_err r = do { fpag_check (pr_status r = Error);
     (case pr_storage r of StoreErr es \<Rightarrow> Some es | _ \<Rightarrow> None) }"

definition pr_unwrap_help :: "'t parse_result \<Rightarrow> string option" where
  "pr_unwrap_help r = do { fpag_check (pr_status r = HelpRequested);
     (case pr_storage r of StoreHelp h \<Rightarrow> Some h | _ \<Rightarrow> None) }"

definition pr_unwrap_version :: "'t parse_result \<Rightarrow> string option" where
  "pr_unwrap_version r = do { fpag_check (pr_status r = VersionRequested);
     (case pr_storage r of StoreVersion v \<Rightarrow> Some v | _ \<Rightarrow> None) }"

lemmas parse_result_defs = make_pr_ok_def make_pr_err_def make_pr_help_def make_pr_version_def
  pr_unwrap_def pr_unwrap_err_def pr_unwrap_help_def pr_unwrap_version_def

text \<open>The tag a result carries agrees with what it stores; every factory establishes it.\<close>

fun tag_of :: "'t parse_storage \<Rightarrow> parse_status" where
  "tag_of (StoreOk _) = Success"
| "tag_of (StoreErr _) = Error"
| "tag_of (StoreHelp _) = HelpRequested"
| "tag_of (StoreVersion _) = VersionRequested"

definition pr_wf :: "'t parse_result \<Rightarrow> bool" where
  "pr_wf r \<longleftrightarrow> pr_status r = tag_of (pr_storage r)"

lemma pr_wf_factories [simp]:
  "pr_wf (make_pr_ok v)" "pr_wf (make_pr_err es)" "pr_wf (make_pr_help h)" "pr_wf (make_pr_version s)"
  by (simp_all add: pr_wf_def parse_result_defs)

section \<open>Properties\<close>

text \<open>
  C34. The integer converter accepts exactly the strings that are one run of digits, with a minus
  sign in front only where the type is signed, whose value fits the type, and returns that value.
\<close>

theorem convert_int_exact:
  "convert_int is_signed lo hi v = Ok x \<longleftrightarrow>
     lo \<le> x \<and> x \<le> hi
     \<and> (\<exists>ds. ds \<noteq> [] \<and> list_all is_digit ds
          \<and> (v = ds \<and> x = int (digits_val ds)
             \<or> is_signed \<and> v = CHR ''-'' # ds \<and> x = - int (digits_val ds)))"
    (is "?l \<longleftrightarrow> ?r")
proof
  assume ?l
  then show ?r by (simp only: convert_int_Ok_iff from_chars_complete list_all_iff)
next
  assume ?r
  then obtain ds where ds: "ds \<noteq> []" "list_all is_digit ds" "lo \<le> x" "x \<le> hi"
    "v = ds \<and> x = int (digits_val ds) \<or> is_signed \<and> v = CHR ''-'' # ds \<and> x = - int (digits_val ds)"
    by blast
  have al: "\<forall>c \<in> set ds. is_digit c" using ds(2) by (simp add: list_all_iff)
  then have t: "takeWhile is_digit ds = ds" by simp
  have "hd ds \<noteq> CHR ''-''" using ds(1) al minus_not_digit by (metis hd_in_set)
  then show ?l using ds by (auto simp: convert_int_Ok_iff from_chars_def Let_def t)
qed

text \<open>
  Writing an integer in decimal and converting it back returns the integer, for every value of
  the type.
\<close>

lemma convert_int_roundtrip:
  assumes "lo \<le> i" "i \<le> hi" "is_signed \<or> 0 \<le> i"
  shows "convert_int is_signed lo hi (int_to_string i) = Ok i"
  using from_chars_int_to_string [OF assms] by (simp add: convert_int_Ok_iff)

lemma convert_int_roundtrip_witness:
  "convert_int True (- 2147483648) 2147483647 (int_to_string (- 2147483648)) = Ok (- 2147483648)"
  using convert_int_roundtrip [of "- 2147483648" "- 2147483648" 2147483647 True] by simp

text \<open>Converting a list of strings, stopping at the first one that does not convert.\<close>

fun convert_list :: "(string \<Rightarrow> ('t, get_error) result) \<Rightarrow> string list \<Rightarrow> ('t list, get_error) result" where
  "convert_list conv [] = Ok []"
| "convert_list conv (v # vs) =
     (case conv v of Err e \<Rightarrow> Err e
      | Ok x \<Rightarrow> (case convert_list conv vs of Err e \<Rightarrow> Err e | Ok xs \<Rightarrow> Ok (x # xs)))"

lemma get_all_in_eq:
  "get_all_in conv name vs results found =
     (case convert_list conv (map snd (filter (\<lambda>(n, v). n = name) vs)) of
        Err e \<Rightarrow> Err e
      | Ok xs \<Rightarrow> if \<not> found \<and> xs = [] then Err OutOfRange else Ok (results @ xs))"
  by (induction conv name vs results found rule: get_all_in.induct)
     (auto simp: make_ok_def make_err_def split: result.splits)

text \<open>
  \<^verbatim>\<open>Matches::get\<close> converts the first value recorded under a name and \<^verbatim>\<open>get_all\<close> all of them in
  order, failing with the first conversion error; both answer \<^verbatim>\<open>OutOfRange\<close> exactly when nothing was
  recorded under the name or a conversion says so.
\<close>

lemma matches_get_spec:
  "matches_get conv m name =
     (case values_of m name of [] \<Rightarrow> Err OutOfRange | v # _ \<Rightarrow> conv v)
   \<and> matches_get_all conv m name =
     (if values_of m name = [] then Err OutOfRange else convert_list conv (values_of m name))"
proof -
  have nonempty: "convert_list conv vs = Ok [] \<Longrightarrow> vs = []" for vs
    by (cases vs) (auto split: result.splits)
  show ?thesis
    using nonempty [of "values_of m name"]
    by (auto simp: matches_get_def matches_get_all_def get_in_first get_all_in_eq values_of_def
        split: result.splits)
qed

end
