(* ===== verification/Arg_Parser.thy ===== *)
theory Arg_Parser
  imports Arg_Schema
begin

text \<open>
  The parsing engine of \<^verbatim>\<open>src/arg/parser.cc\<close>. A \<^verbatim>\<open>Parser\<close> is its command tree, the errors of the
  last run and the command level whose help was asked for. The mutable things a run works on (the
  errors, the help level, the \<^verbatim>\<open>Matches\<close> behind the output pointer and the optional list of
  unparsed arguments) are the record \<open>parse_state\<close>, threaded through the handlers. A handler
  returns the status to stop with, if any, the index of the last argument it consumed, and the new
  state. Command pointers only ever point into the tree and are only read, so they are the commands
  themselves.
\<close>

section \<open>State\<close>

record parser =
  root_cmd :: command
  parser_errors :: "parse_error list"
  help_command :: "command option"

record parse_state =
  ps_errors :: "parse_error list"
  ps_help :: "command option"
  ps_matches :: matches
  ps_unparsed :: "string list option"

definition Parser :: "command \<Rightarrow> parser" where
  "Parser root = \<lparr>root_cmd = root, parser_errors = [], help_command = None\<rparr>"

definition add_error :: "error_code \<Rightarrow> string \<Rightarrow> string \<Rightarrow> parse_error list \<Rightarrow> parse_error list" where
  "add_error code context_arg value_arg errs =
     errs @ [\<lparr>pe_code = code, pe_context = context_arg, pe_value = value_arg\<rparr>]"

definition st_error :: "error_code \<Rightarrow> string \<Rightarrow> string \<Rightarrow> parse_state \<Rightarrow> parse_state" where
  "st_error code c v st = st\<lparr>ps_errors := add_error code c v (ps_errors st)\<rparr>"

definition st_match :: "(matches \<Rightarrow> matches) \<Rightarrow> parse_state \<Rightarrow> parse_state" where
  "st_match f st = st\<lparr>ps_matches := f (ps_matches st)\<rparr>"

definition st_unparsed :: "string \<Rightarrow> parse_state \<Rightarrow> parse_state" where
  "st_unparsed raw st = st\<lparr>ps_unparsed := map_option (\<lambda>u. u @ [raw]) (ps_unparsed st)\<rparr>"

definition is_valid_choice :: "arg \<Rightarrow> string \<Rightarrow> bool" where
  "is_valid_choice a value \<longleftrightarrow> as_choices a = [] \<or> list_ex (\<lambda>choice. choice = value) (as_choices a)"

definition get_from_argv :: "string option list \<Rightarrow> nat \<Rightarrow> string" where
  "get_from_argv argv index = (case argv ! index of Some str \<Rightarrow> str | None \<Rightarrow> [])"

section \<open>Options\<close>

type_synonym handled = "parse_status option \<times> nat \<times> parse_state"

text \<open>
  The value of an option that is not a flag and carries no value of its own: the next argument,
  unless there is none or it is empty.
\<close>

definition next_value :: "string list \<Rightarrow> nat \<Rightarrow> string option" where
  "next_value args i =
     (if i + 1 \<ge> length args \<or> args ! (i + 1) = [] then None else Some (args ! (i + 1)))"

definition record_value :: "arg \<Rightarrow> string \<Rightarrow> parse_state \<Rightarrow> parse_state" where
  "record_value a value st =
     (if \<not> is_valid_choice a value then st_error InvalidChoice (arg_name a) value st
      else st_match (matches_add (arg_name a) value) st)"

definition long_matched :: "string list \<Rightarrow> arg \<Rightarrow> string \<Rightarrow> nat \<Rightarrow> parse_state \<Rightarrow> handled" where
  "long_matched args a content i st =
     (let equal_pos = str_find CHR ''='' content;
          key = substr_to content equal_pos
      in if as_is_flag a then
           (if equal_pos \<noteq> None then (None, i, st_error FlagTakesNoValue (''--'' @ key) [] st)
            else (None, i, record_value a ''1'' st))
         else
           (case equal_pos of
              Some p \<Rightarrow> (None, i, record_value a (drop (p + 1) content) st)
            | None \<Rightarrow>
                (case next_value args i of
                   None \<Rightarrow> (None, i, st_error MissingValueForOption (''--'' @ key) [] st)
                 | Some value \<Rightarrow> (None, i + 1, record_value a value st))))"

fun long_levels :: "string list \<Rightarrow> bool \<Rightarrow> command list \<Rightarrow> string \<Rightarrow> nat \<Rightarrow> parse_state \<Rightarrow> handled" where
  "long_levels args partial_mode [] raw_arg i st =
     (let content = drop 2 raw_arg;
          key = substr_to content (str_find CHR ''='' content)
      in if partial_mode then (None, i, st_unparsed raw_arg st)
         else (None, i, st_error UnknownLongOption key [] st))"
| "long_levels args partial_mode (level # levels) raw_arg i st =
     (let content = drop 2 raw_arg;
          key = substr_to content (str_find CHR ''='' content)
      in case find_arg_by_long level key of
           Some a \<Rightarrow> long_matched args a content i st
         | None \<Rightarrow>
             (if cmd_builtin_enabled level \<and> content = ''help''
              then (Some HelpRequested, i, st\<lparr>ps_help := Some level\<rparr>)
              else if cmd_builtin_enabled level \<and> content = ''version''
              then (Some VersionRequested, i, st)
              else long_levels args partial_mode levels raw_arg i st))"

definition long_option :: "string list \<Rightarrow> bool \<Rightarrow> command list \<Rightarrow> string \<Rightarrow> nat \<Rightarrow> parse_state \<Rightarrow> handled" where
  "long_option args partial_mode scope raw_arg i st = long_levels args partial_mode (rev scope) raw_arg i st"

datatype short_found = ShortArg arg | ShortHelp command | ShortVersion | ShortUnknown

fun short_lookup :: "command list \<Rightarrow> char \<Rightarrow> short_found" where
  "short_lookup [] c = ShortUnknown"
| "short_lookup (level # levels) c =
     (case find_arg_by_short level c of
        Some a \<Rightarrow> ShortArg a
      | None \<Rightarrow>
          (if cmd_builtin_enabled level \<and> c = CHR ''h'' then ShortHelp level
           else if cmd_builtin_enabled level \<and> c = CHR ''v'' then ShortVersion
           else short_lookup levels c))"

fun short_loop :: "string list \<Rightarrow> bool \<Rightarrow> command list \<Rightarrow> string \<Rightarrow> string \<Rightarrow> nat \<Rightarrow> parse_state \<Rightarrow> handled" where
  "short_loop args partial_mode levels raw_arg [] i st = (None, i, st)"
| "short_loop args partial_mode levels raw_arg (c # rest) i st =
     (case short_lookup levels c of
        ShortHelp level \<Rightarrow> (Some HelpRequested, i, st\<lparr>ps_help := Some level\<rparr>)
      | ShortVersion \<Rightarrow> (Some VersionRequested, i, st)
      | ShortUnknown \<Rightarrow>
          (if partial_mode then (None, i, st_unparsed raw_arg st)
           else (None, i, st_error UnknownShortOption [c] [] st))
      | ShortArg a \<Rightarrow>
          (if as_is_flag a then
             (if \<not> is_valid_choice a ''1'' then (None, i, st_error InvalidChoice (arg_name a) ''1'' st)
              else short_loop args partial_mode levels raw_arg rest i
                     (st_match (matches_add (arg_name a) ''1'') st))
           else if rest \<noteq> [] then (None, i, record_value a rest st)
           else
             (case next_value args i of
                None \<Rightarrow> (None, i, st_error MissingValueForOption (''-'' @ [c]) [] st)
              | Some value \<Rightarrow> (None, i + 1, record_value a value st))))"

definition short_options :: "string list \<Rightarrow> bool \<Rightarrow> command list \<Rightarrow> string \<Rightarrow> nat \<Rightarrow> parse_state \<Rightarrow> handled" where
  "short_options args partial_mode scope raw_arg i st =
     short_loop args partial_mode (rev scope) raw_arg (drop 1 raw_arg) i st"

section \<open>The main loop\<close>

definition take_positional :: "bool \<Rightarrow> string \<Rightarrow> parse_state \<Rightarrow> parse_state" where
  "take_positional partial_mode current st =
     (if partial_mode then st_unparsed current st else st_match (add_positional current) st)"

definition handle_option :: "string list \<Rightarrow> bool \<Rightarrow> command list \<Rightarrow> string \<Rightarrow> nat \<Rightarrow> parse_state \<Rightarrow> handled" where
  "handle_option args partial_mode scope current i st =
     (if take 2 current = ''--'' then long_option args partial_mode scope current i st
      else short_options args partial_mode scope current i st)"

definition is_option :: "string \<Rightarrow> bool" where
  "is_option current \<longleftrightarrow> take 2 current = ''--'' \<or> (take 1 current = ''-'' \<and> length current > 1)"

lemma long_matched_idx: "long_matched args a content i st = (r, j, st') \<Longrightarrow> i \<le> j"
  by (auto simp: long_matched_def Let_def split: if_splits option.splits)

lemma long_levels_idx: "long_levels args pm ls raw i st = (r, j, st') \<Longrightarrow> i \<le> j"
  by (induction ls) (auto simp: Let_def split: if_splits option.splits dest: long_matched_idx)

lemma short_loop_idx: "short_loop args pm ls raw cs i st = (r, j, st') \<Longrightarrow> i \<le> j"
  by (induction cs arbitrary: st) (auto split: if_splits option.splits short_found.splits)

lemma handle_option_idx: "handle_option args pm scope cur i st = (r, j, st') \<Longrightarrow> i \<le> j"
  by (auto simp: handle_option_def long_option_def short_options_def split: if_splits
      dest: long_levels_idx short_loop_idx)

text \<open>
  The loop returns the status an option stopped it with, if any, and otherwise the command scope
  for the validation that follows. Its termination is the loop's own progress: an option handler
  never moves the index back.
\<close>

function parse_loop :: "string list \<Rightarrow> bool \<Rightarrow> nat \<Rightarrow> bool \<Rightarrow> command list \<Rightarrow> parse_state
    \<Rightarrow> parse_status option \<times> command list \<times> parse_state" where
  "parse_loop args partial_mode i stop_parsing_flags scope st =
     (if i \<ge> length args then (None, scope, st)
      else let current = args ! i in
        if current = [] then parse_loop args partial_mode (i + 1) stop_parsing_flags scope st
        else if stop_parsing_flags then
          parse_loop args partial_mode (i + 1) stop_parsing_flags scope
            (take_positional partial_mode current st)
        else if current = ''--'' then
          parse_loop args partial_mode (i + 1) True scope
            (if partial_mode then st_unparsed current st else st)
        else if is_option current then
          (let handled = handle_option args partial_mode scope current i st in
           case fst handled of
             Some status \<Rightarrow> (Some status, scope, snd (snd handled))
           | None \<Rightarrow> parse_loop args partial_mode (fst (snd handled) + 1) stop_parsing_flags scope
                       (snd (snd handled)))
        else
          (case find_subcommand (last scope) current of
             Some sub \<Rightarrow> parse_loop args partial_mode (i + 1) stop_parsing_flags (scope @ [sub])
                           (st_match (select_subcommand (cmd_name sub)) st)
           | None \<Rightarrow> parse_loop args partial_mode (i + 1) stop_parsing_flags scope
                       (take_positional partial_mode current st)))"
  by pat_completeness auto
termination
proof (relation "measure (\<lambda>(args, pm, i, stop, scope, st). length args - i)", goal_cases)
  case (5 args pm i stop scope st current handled)
  have "i \<le> fst (snd handled)"
    using handle_option_idx [of args pm scope current i st "fst handled" "fst (snd handled)" "snd (snd handled)"] 5
    by simp
  then show ?case using 5 by simp
qed auto

declare parse_loop.simps [simp del]

definition required_name :: "arg \<Rightarrow> string" where
  "required_name a =
     (if as_long_name a \<noteq> [] then ''--'' @ as_long_name a
      else ''-'' @ [case as_short_name a of Some c \<Rightarrow> c | None \<Rightarrow> CHR ''?''])"

definition check_required :: "matches \<Rightarrow> arg \<Rightarrow> parse_error list \<Rightarrow> parse_error list" where
  "check_required m a errs =
     (if as_is_required a \<and> \<not> matches_has m (arg_name a)
      then add_error MissingRequiredArgument (required_name a) [] errs else errs)"

definition validate_required :: "matches \<Rightarrow> command list \<Rightarrow> parse_error list \<Rightarrow> parse_error list" where
  "validate_required m scope errs =
     fold (\<lambda>cmd errs. fold (check_required m) (cmd_args cmd) errs) scope errs"

definition parse_impl :: "parser \<Rightarrow> string list \<Rightarrow> bool \<Rightarrow> matches option \<Rightarrow> string list option
    \<Rightarrow> parse_status \<times> parser \<times> matches option \<times> string list option" where
  "parse_impl p args partial_mode matches unparsed =
     (case matches of
        None \<Rightarrow> (Error, p\<lparr>parser_errors := add_error NullMatchesPointer [] [] (parser_errors p)\<rparr>, None, unparsed)
      | Some m \<Rightarrow>
          (let (stopped, scope, st) =
                 parse_loop args partial_mode 1 False [root_cmd p]
                   \<lparr>ps_errors = [], ps_help = None, ps_matches = m, ps_unparsed = unparsed\<rparr>
           in case stopped of
                Some status \<Rightarrow>
                  (status, p\<lparr>parser_errors := ps_errors st, help_command := ps_help st\<rparr>,
                   Some (ps_matches st), ps_unparsed st)
              | None \<Rightarrow>
                  (let errs = validate_required (ps_matches st) scope (ps_errors st)
                   in (if errs = [] then Success else Error,
                       p\<lparr>parser_errors := errs, help_command := ps_help st\<rparr>,
                       Some (ps_matches st), ps_unparsed st))))"

section \<open>Entry points\<close>

definition argv_sequence :: "int \<Rightarrow> string option list \<Rightarrow> string list" where
  "argv_sequence argc argv = map (get_from_argv argv) [0..<nat argc]"

definition parse_argv :: "parser \<Rightarrow> int \<Rightarrow> string option list \<Rightarrow> matches option
    \<Rightarrow> parse_status \<times> parser \<times> matches option" where
  "parse_argv p argc argv matches =
     (if argc \<le> 0 then
        (Error, p\<lparr>parser_errors := add_error InvalidArgCount (int_to_string argc) [] (parser_errors p)\<rparr>, matches)
      else (let (s, p', m, u) = parse_impl p (argv_sequence argc argv) False matches None
            in (s, p', m)))"

definition parse :: "parser \<Rightarrow> string list \<Rightarrow> matches option
    \<Rightarrow> parse_status \<times> parser \<times> matches option" where
  "parse p args matches =
     (let (s, p', m, u) = parse_impl p args False matches None in (s, p', m))"

definition parse_partial_argv :: "parser \<Rightarrow> int \<Rightarrow> string option list \<Rightarrow> matches option
    \<Rightarrow> string list option \<Rightarrow> parse_status \<times> parser \<times> matches option \<times> string list option" where
  "parse_partial_argv p argc argv matches unparsed =
     (if argc \<le> 0 then
        (Error, p\<lparr>parser_errors := add_error InvalidArgCount (int_to_string argc) [] (parser_errors p)\<rparr>,
         matches, unparsed)
      else parse_impl p (argv_sequence argc argv) True matches unparsed)"

definition parse_partial :: "parser \<Rightarrow> string list \<Rightarrow> matches option \<Rightarrow> string list option
    \<Rightarrow> parse_status \<times> parser \<times> matches option \<times> string list option" where
  "parse_partial p args matches unparsed = parse_impl p args True matches unparsed"

definition help_message :: "(command \<Rightarrow> string) \<Rightarrow> parser \<Rightarrow> string" where
  "help_message f p = f (case help_command p of Some c \<Rightarrow> c | None \<Rightarrow> root_cmd p)"

definition result_of_status :: "(command \<Rightarrow> string) \<Rightarrow> parse_status \<times> parser \<times> matches option
    \<Rightarrow> matches parse_result \<times> parser" where
  "result_of_status f r =
     (let (status, p, m) = r in
      ((case status of
          Success \<Rightarrow> make_pr_ok (case m of Some m \<Rightarrow> m | None \<Rightarrow> empty_matches)
        | Error \<Rightarrow> make_pr_err (parser_errors p)
        | HelpRequested \<Rightarrow> make_pr_help (help_message f p)
        | VersionRequested \<Rightarrow> make_pr_version (cmd_version (root_cmd p))), p))"

definition try_parse_argv :: "(command \<Rightarrow> string) \<Rightarrow> parser \<Rightarrow> int \<Rightarrow> string option list
    \<Rightarrow> matches parse_result \<times> parser" where
  "try_parse_argv f p argc argv = result_of_status f (parse_argv p argc argv (Some empty_matches))"

definition try_parse :: "(command \<Rightarrow> string) \<Rightarrow> parser \<Rightarrow> string list
    \<Rightarrow> matches parse_result \<times> parser" where
  "try_parse f p args = result_of_status f (parse p args (Some empty_matches))"

section \<open>What an option handler may do\<close>

text \<open>
  Both option handlers keep one contract: they only append. Errors are appended with one of a few
  codes, each recorded value belongs to an argument of the scope and is one of its choices, the
  positionals and the command path are left alone, and raw arguments are set aside in partial mode
  only.
\<close>

definition justified :: "command list \<Rightarrow> string \<times> string \<Rightarrow> bool" where
  "justified scope nv \<longleftrightarrow>
     (\<exists>cmd \<in> set scope. \<exists>a \<in> set (cmd_args cmd). arg_name a = fst nv \<and> is_valid_choice a (snd nv))"

definition option_codes :: "bool \<Rightarrow> error_code set" where
  "option_codes pm = {MissingValueForOption, FlagTakesNoValue, InvalidChoice}
     \<union> (if pm then {} else {UnknownLongOption, UnknownShortOption})"

definition appends :: "bool \<Rightarrow> command list \<Rightarrow> parse_state \<Rightarrow> parse_state \<Rightarrow> bool" where
  "appends pm scope st st' \<longleftrightarrow>
     (\<exists>es vs us.
        ps_errors st' = ps_errors st @ es \<and> pe_code ` set es \<subseteq> option_codes pm
      \<and> m_values (ps_matches st') = m_values (ps_matches st) @ vs \<and> (\<forall>nv \<in> set vs. justified scope nv)
      \<and> m_positionals (ps_matches st') = m_positionals (ps_matches st)
      \<and> m_command_path (ps_matches st') = m_command_path (ps_matches st)
      \<and> ps_unparsed st' = map_option (\<lambda>u. u @ us) (ps_unparsed st) \<and> (\<not> pm \<longrightarrow> us = []))"

named_theorems appends_intros \<open>introduction rules for the append-only contract\<close>

lemma appendsI:
  assumes "ps_errors st' = ps_errors st @ es" "pe_code ` set es \<subseteq> option_codes pm"
    "m_values (ps_matches st') = m_values (ps_matches st) @ vs" "\<And>nv. nv \<in> set vs \<Longrightarrow> justified scope nv"
    "m_positionals (ps_matches st') = m_positionals (ps_matches st)"
    "m_command_path (ps_matches st') = m_command_path (ps_matches st)"
    "ps_unparsed st' = map_option (\<lambda>u. u @ us) (ps_unparsed st)" "\<not> pm \<Longrightarrow> us = []"
  shows "appends pm scope st st'"
  unfolding appends_def using assms by (intro exI [of _ es] exI [of _ vs] exI [of _ us]) simp

lemma map_option_same [simp]: "map_option (\<lambda>u. u) x = x"
  by (cases x) simp_all

lemma appends_refl [appends_intros]: "appends pm scope st st"
  by (rule appendsI [where es = "[]" and vs = "[]" and us = "[]"]) simp_all

lemma appends_help [appends_intros]: "appends pm scope st (st\<lparr>ps_help := h\<rparr>)"
  by (rule appendsI [where es = "[]" and vs = "[]" and us = "[]"]) simp_all

lemma appends_trans:
  assumes "appends pm scope st st'" and "appends pm scope st' st''"
  shows "appends pm scope st st''"
proof -
  obtain es vs us where 1: "ps_errors st' = ps_errors st @ es" "pe_code ` set es \<subseteq> option_codes pm"
    "m_values (ps_matches st') = m_values (ps_matches st) @ vs" "\<forall>nv \<in> set vs. justified scope nv"
    "m_positionals (ps_matches st') = m_positionals (ps_matches st)"
    "m_command_path (ps_matches st') = m_command_path (ps_matches st)"
    "ps_unparsed st' = map_option (\<lambda>u. u @ us) (ps_unparsed st)" "\<not> pm \<longrightarrow> us = []"
    using assms(1) unfolding appends_def by blast
  obtain es' vs' us' where 2: "ps_errors st'' = ps_errors st' @ es'" "pe_code ` set es' \<subseteq> option_codes pm"
    "m_values (ps_matches st'') = m_values (ps_matches st') @ vs'" "\<forall>nv \<in> set vs'. justified scope nv"
    "m_positionals (ps_matches st'') = m_positionals (ps_matches st')"
    "m_command_path (ps_matches st'') = m_command_path (ps_matches st')"
    "ps_unparsed st'' = map_option (\<lambda>u. u @ us') (ps_unparsed st')" "\<not> pm \<longrightarrow> us' = []"
    using assms(2) unfolding appends_def by blast
  show ?thesis
    by (rule appendsI [where es = "es @ es'" and vs = "vs @ vs'" and us = "us @ us'"])
       (use 1 2 in \<open>auto simp: image_Un option.map_comp comp_def\<close>)
qed

lemma appends_error [appends_intros]:
  "code \<in> option_codes pm \<Longrightarrow> appends pm scope st (st_error code c v st)"
  by (rule appendsI [where es = "[\<lparr>pe_code = code, pe_context = c, pe_value = v\<rparr>]" and vs = "[]" and us = "[]"])
     (simp_all add: st_error_def add_error_def)

lemma appends_unparsed [appends_intros]: "pm \<Longrightarrow> appends pm scope st (st_unparsed raw st)"
  by (rule appendsI [where es = "[]" and vs = "[]" and us = "[raw]"]) (simp_all add: st_unparsed_def)

lemma appends_match:
  "cmd \<in> set scope \<Longrightarrow> a \<in> set (cmd_args cmd) \<Longrightarrow> is_valid_choice a v
    \<Longrightarrow> appends pm scope st (st_match (matches_add (arg_name a) v) st)"
  by (rule appendsI [where es = "[]" and vs = "[(arg_name a, v)]" and us = "[]"])
     (auto simp: st_match_def matches_add_def justified_def)

lemma appends_record_value:
  "cmd \<in> set scope \<Longrightarrow> a \<in> set (cmd_args cmd) \<Longrightarrow> appends pm scope st (record_value a v st)"
  by (auto simp: record_value_def option_codes_def intro: appends_intros appends_match)

lemma long_matched_appends:
  assumes "cmd \<in> set scope" "a \<in> set (cmd_args cmd)" "long_matched args a content i st = (r, j, st')"
  shows "appends pm scope st st'"
  using assms
  by (auto simp: long_matched_def Let_def option_codes_def split: if_splits option.splits
      intro: appends_intros appends_record_value)

lemma long_levels_appends:
  assumes "set ls \<subseteq> set scope" "long_levels args pm ls raw i st = (r, j, st')"
  shows "appends pm scope st st'"
  using assms
proof (induction ls)
  case Nil
  then show ?case by (auto simp: Let_def option_codes_def split: if_splits intro: appends_intros)
next
  case (Cons l ls)
  then show ?case
    by (auto simp: Let_def split: if_splits option.splits
        intro: appends_intros dest: find_arg_by_longD long_matched_appends)
qed

lemma short_lookup_arg:
  "short_lookup ls c = ShortArg a \<Longrightarrow> \<exists>cmd \<in> set ls. a \<in> set (cmd_args cmd) \<and> as_short_name a = Some c"
  by (induction ls) (auto split: option.splits if_splits dest: find_arg_by_shortD)

lemma short_loop_appends:
  assumes "set ls \<subseteq> set scope" "short_loop args pm ls raw cs i st = (r, j, st')"
  shows "appends pm scope st st'"
  using assms(2)
proof (induction cs arbitrary: st)
  case Nil
  then show ?case by (auto intro: appends_intros)
next
  case (Cons c cs)
  show ?case
  proof (cases "short_lookup ls c")
    case (ShortArg a)
    then obtain cmd where cmd: "cmd \<in> set scope" "a \<in> set (cmd_args cmd)"
      using short_lookup_arg assms(1) by blast
    show ?thesis
      using Cons.prems ShortArg Cons.IH appends_record_value [OF cmd]
      by (auto simp: option_codes_def split: if_splits option.splits
          intro: appends_intros appends_trans [OF appends_match [OF cmd]])
  qed (use Cons.prems in \<open>auto simp: option_codes_def split: if_splits intro: appends_intros\<close>)
qed

text \<open>
  An option stops the loop for one of the two builtins only, and help names a level of the scope
  that has them.
\<close>

definition stop_ok :: "command list \<Rightarrow> parse_state \<Rightarrow> parse_status option \<Rightarrow> parse_state \<Rightarrow> bool" where
  "stop_ok scope st r st' \<longleftrightarrow>
     (case r of
        None \<Rightarrow> ps_help st' = ps_help st
      | Some s \<Rightarrow> s = VersionRequested \<and> ps_help st' = ps_help st
          \<or> s = HelpRequested \<and> (\<exists>level \<in> set scope. cmd_builtin_enabled level \<and> ps_help st' = Some level))"

lemma ps_help_frame [simp]:
  "ps_help (st_error c x v st) = ps_help st" "ps_help (st_match f st) = ps_help st"
  "ps_help (st_unparsed raw st) = ps_help st" "ps_help (record_value a w st) = ps_help st"
  by (simp_all add: st_error_def st_match_def st_unparsed_def record_value_def)

lemma long_matched_stop: "long_matched args a content i st = (r, j, st') \<Longrightarrow> stop_ok scope st r st'"
  by (auto simp: long_matched_def stop_ok_def Let_def split: if_splits option.splits)

lemma long_levels_stop:
  "set ls \<subseteq> set scope \<Longrightarrow> long_levels args pm ls raw i st = (r, j, st') \<Longrightarrow> stop_ok scope st r st'"
proof (induction ls)
  case Nil
  then show ?case by (auto simp: stop_ok_def Let_def split: if_splits)
next
  case (Cons l ls)
  show ?case
  proof (cases "find_arg_by_long l (substr_to (drop 2 raw) (str_find CHR ''='' (drop 2 raw)))")
    case None
    then show ?thesis using Cons by (auto simp: stop_ok_def Let_def split: if_splits)
  next
    case (Some a)
    then show ?thesis using Cons.prems by (auto simp: Let_def dest: long_matched_stop)
  qed
qed

lemma short_lookup_help:
  "short_lookup ls c = ShortHelp l \<Longrightarrow> l \<in> set ls \<and> cmd_builtin_enabled l"
  by (induction ls) (auto split: option.splits if_splits)

lemma short_loop_stop:
  assumes "set ls \<subseteq> set scope" "short_loop args pm ls raw cs i st = (r, j, st')"
  shows "stop_ok scope st r st'"
  using assms(2)
proof (induction cs arbitrary: st)
  case Nil
  then show ?case by (auto simp: stop_ok_def)
next
  case (Cons c cs)
  show ?case
  proof (cases "short_lookup ls c")
    case (ShortArg a)
    show ?thesis
    proof (cases "as_is_flag a \<and> is_valid_choice a ''1''")
      case True
      then have "stop_ok scope (st_match (matches_add (arg_name a) ''1'') st) r st'"
        using Cons.prems ShortArg by (intro Cons.IH) simp
      then show ?thesis by (simp only: stop_ok_def ps_help_frame)
    next
      case False
      then show ?thesis using Cons.prems ShortArg
        by (auto simp: stop_ok_def split: if_splits option.splits)
    qed
  next
    case (ShortHelp l)
    then show ?thesis using Cons.prems assms(1) short_lookup_help [OF ShortHelp]
      by (auto simp: stop_ok_def)
  qed (use Cons.prems in \<open>auto simp: stop_ok_def split: if_splits\<close>)
qed

text \<open>The interface the main loop relies on, and its two providers.\<close>

locale option_handler =
  fixes handle :: "string list \<Rightarrow> bool \<Rightarrow> command list \<Rightarrow> string \<Rightarrow> nat \<Rightarrow> parse_state \<Rightarrow> handled"
  assumes handle_idx: "handle args pm scope raw i st = (r, j, st') \<Longrightarrow> i \<le> j"
    and handle_appends: "handle args pm scope raw i st = (r, j, st') \<Longrightarrow> appends pm scope st st'"
    and handle_stop: "handle args pm scope raw i st = (r, j, st') \<Longrightarrow> stop_ok scope st r st'"
begin

lemma full_mode_unparsed:
  "handle args False scope raw i st = (r, j, st') \<Longrightarrow> ps_unparsed st' = ps_unparsed st"
  by (drule handle_appends) (auto simp: appends_def)

lemma partial_mode_codes:
  assumes "handle args True scope raw i st = (r, j, st')" "e \<in> set (ps_errors st')"
  shows "e \<in> set (ps_errors st) \<or> pe_code e \<in> {MissingValueForOption, FlagTakesNoValue, InvalidChoice}"
  using handle_appends [OF assms(1)] assms(2) by (fastforce simp: appends_def option_codes_def)

end

interpretation lo: option_handler long_option
  by unfold_locales
     (auto simp: long_option_def dest: long_levels_idx
       intro: long_levels_appends [rotated] long_levels_stop [rotated])

interpretation so: option_handler short_options
  by unfold_locales
     (auto simp: short_options_def dest: short_loop_idx
       intro: short_loop_appends [rotated] short_loop_stop [rotated])

interpretation ho: option_handler handle_option
  by unfold_locales
     (auto simp: handle_option_def split: if_splits
       dest: lo.handle_idx so.handle_idx
       intro: lo.handle_appends so.handle_appends lo.handle_stop so.handle_stop)

section \<open>The loop invariant\<close>

fun cmd_chain :: "command list \<Rightarrow> bool" where
  "cmd_chain [] = False"
| "cmd_chain [c] = True"
| "cmd_chain (c # d # cs) = (d \<in> set (cmd_subcommands c) \<and> cmd_chain (d # cs))"

lemma cmd_chain_snoc:
  "cmd_chain scope \<Longrightarrow> sub \<in> set (cmd_subcommands (last scope)) \<Longrightarrow> cmd_chain (scope @ [sub])"
  by (induction scope rule: cmd_chain.induct) auto

definition loop_inv :: "bool \<Rightarrow> command \<Rightarrow> matches \<Rightarrow> command list \<Rightarrow> parse_state \<Rightarrow> bool" where
  "loop_inv pm root m0 scope st \<longleftrightarrow>
     cmd_chain scope \<and> hd scope = root
   \<and> m_command_path (ps_matches st) = m_command_path m0 @ map cmd_name (tl scope)
   \<and> (\<exists>vs. m_values (ps_matches st) = m_values m0 @ vs \<and> (\<forall>nv \<in> set vs. justified scope nv))
   \<and> pe_code ` set (ps_errors st) \<subseteq> option_codes pm
   \<and> (pm \<longrightarrow> m_positionals (ps_matches st) = m_positionals m0)"

lemma loop_inv_appends:
  assumes "loop_inv pm root m0 scope st" "appends pm scope st st'"
  shows "loop_inv pm root m0 scope st'"
proof -
  obtain vs where vs: "m_values (ps_matches st) = m_values m0 @ vs" "\<forall>nv \<in> set vs. justified scope nv"
    using assms(1) by (auto simp: loop_inv_def)
  obtain es ws where
    "ps_errors st' = ps_errors st @ es" "pe_code ` set es \<subseteq> option_codes pm"
    and ws: "m_values (ps_matches st') = m_values (ps_matches st) @ ws" "\<forall>nv \<in> set ws. justified scope nv"
    using assms(2) by (auto simp: appends_def)
  moreover have "\<exists>us. m_values (ps_matches st') = m_values m0 @ us \<and> (\<forall>nv \<in> set us. justified scope nv)"
    using vs ws by (intro exI [of _ "vs @ ws"]) auto
  ultimately show ?thesis using assms by (auto simp: loop_inv_def appends_def)
qed

lemma loop_inv_positional:
  "loop_inv pm root m0 scope st \<Longrightarrow> loop_inv pm root m0 scope (take_positional pm cur st)"
  by (cases pm)
     (auto simp: take_positional_def loop_inv_def st_unparsed_def st_match_def add_positional_def)

lemma loop_inv_unparsed:
  "loop_inv pm root m0 scope st \<Longrightarrow> loop_inv pm root m0 scope (if pm then st_unparsed cur st else st)"
  by (auto simp: loop_inv_def st_unparsed_def)

lemma loop_inv_select:
  assumes "loop_inv pm root m0 scope st" "find_subcommand (last scope) cur = Some sub"
  shows "loop_inv pm root m0 (scope @ [sub]) (st_match (select_subcommand (cmd_name sub)) st)"
proof -
  have "scope \<noteq> []" using assms(1) by (auto simp: loop_inv_def)
  moreover have "cmd_chain (scope @ [sub])"
    using assms find_subcommandD cmd_chain_snoc by (auto simp: loop_inv_def)
  moreover have "justified (scope @ [sub]) nv" if "justified scope nv" for nv
    using that by (auto simp: justified_def)
  ultimately show ?thesis using assms(1)
    by (auto simp: loop_inv_def st_match_def select_subcommand_def)
qed

lemmas loop_inv_steps = loop_inv_positional loop_inv_unparsed loop_inv_select

text \<open>One equation per branch of the loop body, so that proofs never unfold the loop itself.\<close>

lemma parse_loop_done: "length args \<le> i \<Longrightarrow> parse_loop args pm i stop scope st = (None, scope, st)"
  by (subst parse_loop.simps) simp

lemma parse_loop_empty:
  "i < length args \<Longrightarrow> args ! i = [] \<Longrightarrow>
    parse_loop args pm i stop scope st = parse_loop args pm (i + 1) stop scope st"
  by (subst parse_loop.simps) simp

lemma parse_loop_stopped:
  "i < length args \<Longrightarrow> args ! i \<noteq> [] \<Longrightarrow>
    parse_loop args pm i True scope st
      = parse_loop args pm (i + 1) True scope (take_positional pm (args ! i) st)"
  by (subst parse_loop.simps) simp

lemma parse_loop_dashes:
  "i < length args \<Longrightarrow> args ! i = ''--'' \<Longrightarrow>
    parse_loop args pm i False scope st
      = parse_loop args pm (i + 1) True scope (if pm then st_unparsed (args ! i) st else st)"
  by (subst parse_loop.simps) simp

lemma parse_loop_option:
  assumes "i < length args" "args ! i \<noteq> ''--''" "is_option (args ! i)"
    "handle_option args pm scope (args ! i) i st = (r, j, st')"
  shows "parse_loop args pm i False scope st =
    (case r of Some s \<Rightarrow> (Some s, scope, st') | None \<Rightarrow> parse_loop args pm (j + 1) False scope st')"
proof -
  have "args ! i \<noteq> []" using assms(3) by (auto simp: is_option_def)
  then show ?thesis using assms by (subst parse_loop.simps) (simp split: option.split)
qed

lemma parse_loop_word:
  assumes "i < length args" "args ! i \<noteq> []" "\<not> is_option (args ! i)"
  shows "parse_loop args pm i False scope st =
    (case find_subcommand (last scope) (args ! i) of
       Some sub \<Rightarrow> parse_loop args pm (i + 1) False (scope @ [sub])
                     (st_match (select_subcommand (cmd_name sub)) st)
     | None \<Rightarrow> parse_loop args pm (i + 1) False scope (take_positional pm (args ! i) st))"
proof -
  have "args ! i \<noteq> ''--''" using assms(3) by (auto simp: is_option_def)
  then show ?thesis using assms by (subst parse_loop.simps) (simp split: option.split)
qed

text \<open>
  An invariant of the scope and the state that every branch of the body keeps holds for the result
  of the loop, whether the loop ran to the end or an option stopped it.
\<close>

lemma parse_loop_invariant:
  assumes "parse_loop args pm i stop scope st = (r, scope', st')" and "P scope st"
    and final: "\<And>scope st. P scope st \<Longrightarrow> R None scope st"
    and positional: "\<And>scope st cur. P scope st \<Longrightarrow> P scope (take_positional pm cur st)"
    and dashes: "\<And>scope st cur. P scope st \<Longrightarrow> P scope (if pm then st_unparsed cur st else st)"
    and option: "\<And>scope st cur i r j st'. P scope st \<Longrightarrow>
       handle_option args pm scope cur i st = (r, j, st') \<Longrightarrow> if r = None then P scope st' else R r scope st'"
    and select: "\<And>scope st cur sub. P scope st \<Longrightarrow> find_subcommand (last scope) cur = Some sub \<Longrightarrow>
       P (scope @ [sub]) (st_match (select_subcommand (cmd_name sub)) st)"
  shows "R r scope' st'"
  using assms(1,2)
proof (induction "length args - i" arbitrary: i stop scope st rule: less_induct)
  case less
  show ?case
  proof (cases "i < length args")
    case False
    then show ?thesis using less.prems final by (simp add: parse_loop_done)
  next
    case i: True
    note IH = less.hyps [of "i + 1"]
    consider "args ! i = []" | "args ! i \<noteq> []" stop | "args ! i = ''--''" "\<not> stop"
      | "args ! i \<noteq> ''--''" "is_option (args ! i)" "\<not> stop" | "args ! i \<noteq> []" "\<not> is_option (args ! i)" "\<not> stop"
      by blast
    then show ?thesis
    proof cases
      case 1
      then show ?thesis using less.prems i IH by (simp add: parse_loop_empty)
    next
      case 2
      then show ?thesis using less.prems i IH positional by (simp add: parse_loop_stopped)
    next
      case 3
      let ?st = "if pm then st_unparsed (args ! i) st else st"
      have "parse_loop args pm (i + 1) True scope ?st = (r, scope', st')"
        using less.prems(1) parse_loop_dashes [OF i 3(1)] 3(2) by simp
      then show ?thesis using IH [of True scope ?st] dashes [OF less.prems(2)] i by simp
    next
      case 4
      obtain q j t where h: "handle_option args pm scope (args ! i) i st = (q, j, t)"
        by (cases "handle_option args pm scope (args ! i) i st") auto
      have "i \<le> j" using h by (rule handle_option_idx)
      then show ?thesis using less.prems i 4 parse_loop_option [OF i 4(1,2) h] option [OF less.prems(2) h]
        less.hyps [of "j + 1"] by (auto split: option.splits)
    next
      case 5
      then show ?thesis using less.prems i IH parse_loop_word [OF i 5(1,2)] select positional
        by (auto split: option.splits)
    qed
  qed
qed

definition loop_result :: "bool \<Rightarrow> command \<Rightarrow> matches \<Rightarrow> parse_status option \<Rightarrow> command list \<Rightarrow> parse_state \<Rightarrow> bool" where
  "loop_result pm root m0 r scope st \<longleftrightarrow> loop_inv pm root m0 scope st
     \<and> (\<forall>s. r = Some s \<longrightarrow> s = VersionRequested
          \<or> s = HelpRequested \<and> (\<exists>level \<in> set scope. cmd_builtin_enabled level \<and> ps_help st = Some level))"

lemma parse_loop_inv:
  assumes "parse_loop args pm i stop scope st = (r, scope', st')" "loop_inv pm root m0 scope st"
  shows "loop_result pm root m0 r scope' st'"
  using assms
proof (rule parse_loop_invariant [where P = "loop_inv pm root m0"])
  fix scope st cur and i j :: nat and r st'
  assume "loop_inv pm root m0 scope st" and h: "handle_option args pm scope cur i st = (r, j, st')"
  then have "loop_inv pm root m0 scope st'" by (blast intro: loop_inv_appends ho.handle_appends)
  then show "if r = None then loop_inv pm root m0 scope st' else loop_result pm root m0 r scope st'"
    using ho.handle_stop [OF h] by (auto simp: stop_ok_def loop_result_def)
qed (erule loop_inv_steps | erule (1) loop_inv_steps | simp add: loop_result_def)+

section \<open>Validation and the whole run\<close>

definition missing_required :: "matches \<Rightarrow> command list \<Rightarrow> arg list" where
  "missing_required m scope =
     filter (\<lambda>a. as_is_required a \<and> \<not> matches_has m (arg_name a)) (concat (map cmd_args scope))"

definition missing_error :: "arg \<Rightarrow> parse_error" where
  "missing_error a = \<lparr>pe_code = MissingRequiredArgument, pe_context = required_name a, pe_value = []\<rparr>"

lemma fold_check_required:
  "fold (check_required m) as errs
     = errs @ map missing_error (filter (\<lambda>a. as_is_required a \<and> \<not> matches_has m (arg_name a)) as)"
  by (induction as arbitrary: errs) (simp_all add: check_required_def add_error_def missing_error_def)

lemma validate_required_eq:
  "validate_required m scope errs = errs @ map missing_error (missing_required m scope)"
  by (induction scope arbitrary: errs)
     (simp_all add: validate_required_def missing_required_def fold_check_required)

lemma parse_implE:
  assumes "parse_impl p args pm (Some m) u = (status, p', m', u')"
  obtains r scope st where
    "parse_loop args pm 1 False [root_cmd p]
       \<lparr>ps_errors = [], ps_help = None, ps_matches = m, ps_unparsed = u\<rparr> = (r, scope, st)"
    "m' = Some (ps_matches st)" "u' = ps_unparsed st" "help_command p' = ps_help st"
    "root_cmd p' = root_cmd p"
    "r = Some status \<and> parser_errors p' = ps_errors st
     \<or> r = None \<and> parser_errors p' = ps_errors st @ map missing_error (missing_required (ps_matches st) scope)
        \<and> status = (if parser_errors p' = [] then Success else Error)"
proof -
  obtain r scope st where l: "parse_loop args pm 1 False [root_cmd p]
       \<lparr>ps_errors = [], ps_help = None, ps_matches = m, ps_unparsed = u\<rparr> = (r, scope, st)"
    by (metis prod_cases3)
  show thesis
    by (rule that [OF l]) (use assms l in \<open>auto simp: parse_impl_def validate_required_eq Let_def split: option.splits\<close>)
qed

lemma loop_inv_start:
  "loop_inv pm root m [root] \<lparr>ps_errors = [], ps_help = None, ps_matches = m, ps_unparsed = u\<rparr>"
  by (simp add: loop_inv_def)

lemma parse_impl_inv:
  assumes "parse_impl p args pm (Some m) u = (status, p', m', u')"
  obtains scope st where "loop_inv pm (root_cmd p) m scope st" "m' = Some (ps_matches st)"
    "pe_code ` set (parser_errors p') \<subseteq> option_codes pm \<union> {MissingRequiredArgument}"
    "status = Success \<Longrightarrow> parser_errors p' = [] \<and> missing_required (ps_matches st) scope = []"
    "status = Error \<Longrightarrow> parser_errors p' \<noteq> []"
    "status = HelpRequested \<Longrightarrow>
       \<exists>level \<in> set scope. cmd_builtin_enabled level \<and> help_command p' = Some level"
proof -
  from assms obtain r scope st where l: "parse_loop args pm 1 False [root_cmd p]
       \<lparr>ps_errors = [], ps_help = None, ps_matches = m, ps_unparsed = u\<rparr> = (r, scope, st)"
    and m': "m' = Some (ps_matches st)" and h: "help_command p' = ps_help st"
    and e: "r = Some status \<and> parser_errors p' = ps_errors st
     \<or> r = None \<and> parser_errors p' = ps_errors st @ map missing_error (missing_required (ps_matches st) scope)
        \<and> status = (if parser_errors p' = [] then Success else Error)"
    by (rule parse_implE)
  have inv: "loop_result pm (root_cmd p) m r scope st"
    by (rule parse_loop_inv [OF l loop_inv_start])
  then have li: "loop_inv pm (root_cmd p) m scope st" by (simp add: loop_result_def)
  then have "pe_code ` set (ps_errors st) \<subseteq> option_codes pm" by (simp add: loop_inv_def)
  then have "pe_code ` set (parser_errors p') \<subseteq> option_codes pm \<union> {MissingRequiredArgument}"
    using e by (elim disjE conjE) (auto simp: image_Un missing_error_def)
  then show thesis
    by (rule that [of scope st, OF li m']) (use e inv h in \<open>auto simp: loop_result_def split: if_splits\<close>)
qed

section \<open>Rendering and reading back\<close>

text \<open>
  The canonical spelling of an argument setting: \<open>--flag\<close> for a flag and \<open>--long=value\<close> otherwise.
\<close>

definition render_long :: "arg \<times> string \<Rightarrow> string" where
  "render_long av = (if as_is_flag (fst av) then ''--'' @ as_long_name (fst av)
     else ''--'' @ as_long_name (fst av) @ ''='' @ snd av)"

definition setting_ok :: "command \<Rightarrow> arg \<times> string \<Rightarrow> bool" where
  "setting_ok cmd av \<longleftrightarrow> fst av \<in> set (cmd_args cmd) \<and> as_long_name (fst av) \<noteq> []
     \<and> CHR ''='' \<notin> set (as_long_name (fst av)) \<and> is_valid_choice (fst av) (snd av)
     \<and> (as_is_flag (fst av) \<longrightarrow> snd av = ''1'')"

lemma render_long_option: "setting_ok cmd av \<Longrightarrow> is_option (render_long av) \<and> render_long av \<noteq> ''--''"
  by (auto simp: render_long_def setting_ok_def is_option_def)

lemma handle_render_long:
  assumes ok: "setting_ok cmd av" and d: "distinct (map as_long_name (cmd_args cmd))"
  shows "handle_option args pm [cmd] (render_long av) i st
    = (None, i, st_match (matches_add (arg_name (fst av)) (snd av)) st)"
proof -
  obtain a v where av: "av = (a, v)" by (cases av)
  let ?content = "drop 2 (render_long av)"
  have long: "find_arg_by_long cmd (as_long_name a) = Some a"
    using ok d av by (simp add: setting_ok_def find_arg_by_long_unique)
  have eq: "CHR ''='' \<notin> set (as_long_name a)" using ok av by (simp add: setting_ok_def)
  have h: "handle_option args pm [cmd] (render_long av) i st = long_levels args pm [cmd] (render_long av) i st"
    by (auto simp: handle_option_def long_option_def render_long_def)
  show ?thesis
  proof (cases "as_is_flag a")
    case True
    then have "?content = as_long_name a" by (simp add: render_long_def av)
    moreover have "str_find CHR ''='' (as_long_name a) = None" using eq by (simp add: str_find_eq_None)
    ultimately show ?thesis unfolding h using True long ok
      by (auto simp: Let_def substr_to_def long_matched_def record_value_def setting_ok_def av)
  next
    case False
    then have "?content = as_long_name a @ CHR ''='' # v" by (simp add: render_long_def av)
    moreover have "str_find CHR ''='' (as_long_name a @ CHR ''='' # v) = Some (length (as_long_name a))"
      by (rule str_find_append [OF eq])
    ultimately show ?thesis unfolding h using False long ok
      by (simp add: Let_def substr_to_def long_matched_def record_value_def setting_ok_def av)
  qed
qed

lemma parse_loop_render:
  assumes "\<forall>av \<in> set avs. setting_ok cmd av" "distinct (map as_long_name (cmd_args cmd))"
    "drop i args = map render_long avs"
  shows "parse_loop args pm i False [cmd] st = (None, [cmd],
    fold (\<lambda>av. st_match (matches_add (arg_name (fst av)) (snd av))) avs st)"
  using assms(1,3)
proof (induction avs arbitrary: i st)
  case Nil
  then show ?case by (simp add: parse_loop_done)
next
  case (Cons av avs)
  have i: "i < length args" and ai: "args ! i = render_long av"
    and rest: "drop (i + 1) args = map render_long avs"
    using Cons.prems(2) drop_eq_ConsD [of i args "render_long av" "map render_long avs"] by simp_all
  have ok: "setting_ok cmd av" using Cons.prems(1) by simp
  have "parse_loop args pm i False [cmd] st = parse_loop args pm (i + 1) False [cmd]
      (st_match (matches_add (arg_name (fst av)) (snd av)) st)"
    using parse_loop_option [OF i, of pm "[cmd]" st] handle_render_long [OF ok assms(2)]
      render_long_option [OF ok] ai by simp
  then show ?case using Cons.IH [OF _ rest] Cons.prems(1) by simp
qed

lemma fold_matches_add:
  "ps_matches (fold (\<lambda>av. st_match (matches_add (arg_name (fst av)) (snd av))) avs st)
     = (ps_matches st)\<lparr>m_values := m_values (ps_matches st) @ map (\<lambda>av. (arg_name (fst av), snd av)) avs\<rparr>
   \<and> ps_errors (fold (\<lambda>av. st_match (matches_add (arg_name (fst av)) (snd av))) avs st) = ps_errors st
   \<and> ps_help (fold (\<lambda>av. st_match (matches_add (arg_name (fst av)) (snd av))) avs st) = ps_help st
   \<and> ps_unparsed (fold (\<lambda>av. st_match (matches_add (arg_name (fst av)) (snd av))) avs st) = ps_unparsed st"
  by (induction avs arbitrary: st) (simp_all add: st_match_def matches_add_def)

lemma parse_impl_render:
  assumes "\<forall>av \<in> set avs. setting_ok cmd av" and "distinct (map as_long_name (cmd_args cmd))"
    and "\<forall>a \<in> set (cmd_args cmd). as_is_required a \<longrightarrow> arg_name a \<in> (arg_name \<circ> fst) ` set avs"
  shows "parse_impl (Parser cmd) (prog # map render_long avs) False (Some empty_matches) None
    = (Success, Parser cmd, Some (empty_matches\<lparr>m_values := map (\<lambda>av. (arg_name (fst av), snd av)) avs\<rparr>), None)"
proof -
  let ?st = "\<lparr>ps_errors = [], ps_help = None, ps_matches = empty_matches, ps_unparsed = None\<rparr>"
  let ?fin = "fold (\<lambda>av. st_match (matches_add (arg_name (fst av)) (snd av))) avs ?st"
  have loop: "parse_loop (prog # map render_long avs) False 1 False [cmd] ?st = (None, [cmd], ?fin)"
    by (rule parse_loop_render [OF assms(1,2)]) simp
  have m: "ps_matches ?fin = empty_matches\<lparr>m_values := map (\<lambda>av. (arg_name (fst av), snd av)) avs\<rparr>"
    and e: "ps_errors ?fin = []" "ps_help ?fin = None" "ps_unparsed ?fin = None"
    using fold_matches_add [of avs ?st] by (simp_all add: empty_matches_def)
  have "missing_required (ps_matches ?fin) [cmd] = []"
    unfolding m using assms(3)
    by (auto simp: missing_required_def filter_empty_conv matches_has_def list_ex_iff) force
  then show ?thesis
    using loop m e by (simp add: parse_impl_def Parser_def validate_required_eq)
qed

section \<open>Arguments after a double dash\<close>

lemma parse_loop_after_dashes:
  "parse_loop args False i True scope st = (None, scope,
     st_match (\<lambda>m. m\<lparr>m_positionals := m_positionals m @ filter (\<lambda>s. s \<noteq> []) (drop i args)\<rparr>) st)"
proof (induction "length args - i" arbitrary: i st rule: less_induct)
  case less
  show ?case
  proof (cases "i < length args")
    case False
    then show ?thesis by (simp add: parse_loop_done st_match_def)
  next
    case True
    then have d: "drop i args = args ! i # drop (i + 1) args" by (simp add: Cons_nth_drop_Suc)
    show ?thesis
    proof (cases "args ! i = []")
      case e: True
      then show ?thesis using less [of "i + 1"] True d by (simp add: parse_loop_empty)
    next
      case e: False
      then show ?thesis using less [of "i + 1"] True d
        by (simp add: parse_loop_stopped take_positional_def st_match_def add_positional_def)
    qed
  qed
qed

section \<open>Properties\<close>

definition sample_command :: command where
  "sample_command =
     Command ''tool'' ''1.0'' ''a tool''
       [arg_build (with_required True (with_short_name CHR ''o'' (ArgBuilder ''output''))),
        arg_build (with_is_flag True (with_short_name CHR ''q'' (ArgBuilder ''quiet''))),
        arg_build (with_default_value ''1'' (with_choices [''0'', ''1''] (ArgBuilder ''level'')))]
       [Command ''run'' [] [] [arg_build (with_required True (ArgBuilder ''job''))] [] False] True"

text \<open>
  C2. A run of the full parser into fresh matches selects a chain of commands of the tree that
  starts at the root and is exactly the recorded command path; every recorded value belongs to an
  argument of a command on that chain and is one of its choices; and a successful run has a value
  for every required argument of every command on the chain.
\<close>

theorem parse_sound:
  assumes "parse p args (Some empty_matches) = (status, p', Some m)"
  shows "\<exists>scope. cmd_chain scope \<and> hd scope = root_cmd p \<and> m_command_path m = map cmd_name (tl scope)
    \<and> (\<forall>nv \<in> set (m_values m). justified scope nv)
    \<and> (status = Success \<longrightarrow> (\<forall>cmd \<in> set scope. \<forall>a \<in> set (cmd_args cmd).
          as_is_required a \<longrightarrow> matches_has m (arg_name a)))"
proof -
  obtain u' where "parse_impl p args False (Some empty_matches) None = (status, p', Some m, u')"
    using assms by (auto simp: parse_def split: prod.splits)
  then obtain scope st where inv: "loop_inv False (root_cmd p) empty_matches scope st"
    and m: "Some m = Some (ps_matches st)"
    and ok: "status = Success \<Longrightarrow> parser_errors p' = [] \<and> missing_required (ps_matches st) scope = []"
    by (rule parse_impl_inv) blast
  show ?thesis
    using inv m ok by (intro exI [of _ scope])
      (auto simp: loop_inv_def empty_matches_def missing_required_def filter_empty_conv)
qed

theorem parse_sound_witness:
  "\<exists>m p'. parse (Parser sample_command) [''tool'', ''-q'', ''--output=x'', ''run'', ''--job'', ''7'']
      (Some empty_matches) = (Success, p', Some m)
    \<and> m_values m = [(''quiet'', ''1''), (''output'', ''x''), (''job'', ''7'')]
    \<and> (\<exists>scope. cmd_chain scope \<and> hd scope = sample_command \<and> m_command_path m = map cmd_name (tl scope)
        \<and> (\<forall>nv \<in> set (m_values m). justified scope nv))"
proof -
  let ?args = "[''tool'', ''-q'', ''--output=x'', ''run'', ''--job'', ''7'']"
  let ?m = "\<lparr>m_values = [(''quiet'', ''1''), (''output'', ''x''), (''job'', ''7'')],
        m_positionals = [], m_command_path = [''run'']\<rparr>"
  have run: "parse (Parser sample_command) ?args (Some empty_matches) = (Success, Parser sample_command, Some ?m)"
    by code_simp
  have "root_cmd (Parser sample_command) = sample_command" by (simp add: Parser_def)
  with parse_sound [OF run] run show ?thesis by auto
qed

text \<open>
  C3. The status of a full or partial run agrees with its error list. A run that no builtin stops ends with
  the errors of the loop followed by one for each required argument not given, and its status is Error when
  that list is not empty and Success when it is. A run that \<open>--help\<close> or \<open>--version\<close> stops keeps the errors
  found before and returns the builtin's status instead, without looking for required arguments; for help
  it names a level that has the builtins. Every reported error carries a code the parser can produce, and a
  partial run never complains about an option it does not know.
\<close>

theorem parse_status_errors:
  assumes "parse_impl p args pm (Some m) u = (status, p', m', u')"
  shows "(\<exists>r scope st. parse_loop args pm 1 False [root_cmd p]
         \<lparr>ps_errors = [], ps_help = None, ps_matches = m, ps_unparsed = u\<rparr> = (r, scope, st) \<and>
       (case r of
          None \<Rightarrow> parser_errors p' = ps_errors st @ map missing_error (missing_required (ps_matches st) scope)
            \<and> status = (if parser_errors p' = [] then Success else Error)
        | Some s \<Rightarrow> status = s \<and> parser_errors p' = ps_errors st \<and> (s = VersionRequested \<or>
            s = HelpRequested \<and> (\<exists>level \<in> set scope. cmd_builtin_enabled level \<and> help_command p' = Some level))))
    \<and> (status = Error \<longleftrightarrow> parser_errors p' \<noteq> [] \<and> status \<noteq> HelpRequested \<and> status \<noteq> VersionRequested)
    \<and> pe_code ` set (parser_errors p') \<subseteq>
        {MissingValueForOption, FlagTakesNoValue, InvalidChoice, MissingRequiredArgument}
        \<union> (if pm then {} else {UnknownLongOption, UnknownShortOption})"
    (is "?run \<and> ?error \<and> ?codes")
proof (intro conjI)
  obtain r scope st where l: "parse_loop args pm 1 False [root_cmd p]
       \<lparr>ps_errors = [], ps_help = None, ps_matches = m, ps_unparsed = u\<rparr> = (r, scope, st)"
    and h: "help_command p' = ps_help st"
    and e: "r = Some status \<and> parser_errors p' = ps_errors st
     \<or> r = None \<and> parser_errors p' = ps_errors st @ map missing_error (missing_required (ps_matches st) scope)
        \<and> status = (if parser_errors p' = [] then Success else Error)"
    using assms by (rule parse_implE)
  have "loop_result pm (root_cmd p) m r scope st" by (rule parse_loop_inv [OF l loop_inv_start])
  then show ?run using l e h by (intro exI [of _ r] exI [of _ scope] exI [of _ st]) (auto simp: loop_result_def)
  show ?error using assms by (rule parse_impl_inv) (cases status; auto)
  show ?codes using assms by (rule parse_impl_inv) (auto simp: option_codes_def split: if_splits)
qed

theorem parse_status_errors_witness:
  "(\<exists>p' m' u'. parse_impl (Parser sample_command) [''tool'', ''--nope'', ''-q''] False (Some empty_matches) None
      = (Error, p', m', u') \<and> parser_errors p' \<noteq> [])
   \<and> fst (parse_impl (Parser sample_command) [''tool'', ''--nope'', ''--help''] False (Some empty_matches) None) = HelpRequested"
proof
  let ?r = "parse_impl (Parser sample_command) [''tool'', ''--nope'', ''-q''] False (Some empty_matches) None"
  have "fst ?r = Error" by code_simp
  then obtain p' m' u' where "?r = (Error, p', m', u')" by (metis prod.collapse)
  with parse_status_errors [OF this] show "\<exists>p' m' u'. ?r = (Error, p', m', u') \<and> parser_errors p' \<noteq> []" by auto
  show "fst (parse_impl (Parser sample_command) [''tool'', ''--nope'', ''--help''] False (Some empty_matches) None) = HelpRequested"
    by code_simp
qed

text \<open>
  C1. Reading back what was rendered: for a command whose long names are distinct, spelling any
  list of admissible settings as \<open>--flag\<close> and \<open>--long=value\<close> and parsing the result succeeds when
  every required argument is among them, and records exactly the settings, in order.
\<close>

theorem parse_render_roundtrip:
  assumes "\<forall>av \<in> set avs. setting_ok cmd av" and "distinct (map as_long_name (cmd_args cmd))"
    and "\<forall>a \<in> set (cmd_args cmd). as_is_required a \<longrightarrow> arg_name a \<in> (arg_name \<circ> fst) ` set avs"
  shows "parse (Parser cmd) (prog # map render_long avs) (Some empty_matches)
    = (Success, Parser cmd, Some (empty_matches\<lparr>m_values := map (\<lambda>av. (arg_name (fst av), snd av)) avs\<rparr>))"
  by (simp add: parse_def parse_impl_render [OF assms])

theorem parse_render_roundtrip_witness:
  "\<exists>avs. length avs = 2 \<and> parse (Parser sample_command) (''tool'' # map render_long avs) (Some empty_matches)
    = (Success, Parser sample_command,
       Some (empty_matches\<lparr>m_values := map (\<lambda>av. (arg_name (fst av), snd av)) avs\<rparr>))"
proof -
  let ?avs = "[(cmd_args sample_command ! 0, ''out=1''), (cmd_args sample_command ! 1, ''1'')]"
  have "\<forall>av \<in> set ?avs. setting_ok sample_command av" by code_simp
  moreover have "distinct (map as_long_name (cmd_args sample_command))" by code_simp
  moreover have "\<forall>a \<in> set (cmd_args sample_command). as_is_required a \<longrightarrow> arg_name a \<in> (arg_name \<circ> fst) ` set ?avs"
    by code_simp
  ultimately have "parse (Parser sample_command) (''tool'' # map render_long ?avs) (Some empty_matches)
    = (Success, Parser sample_command,
       Some (empty_matches\<lparr>m_values := map (\<lambda>av. (arg_name (fst av), snd av)) ?avs\<rparr>))"
    by (rule parse_render_roundtrip)
  then show ?thesis by (intro exI [of _ ?avs]) simp
qed

text \<open>
  Everything after a double dash is positional: the non-empty arguments that follow are
  recorded verbatim and in order, whatever they look like, and no value or subcommand is recorded.
\<close>

lemma parse_after_dashes:
  "\<exists>status p' m. parse p (prog # ''--'' # rest) (Some empty_matches) = (status, p', Some m)
    \<and> m_positionals m = filter (\<lambda>s. s \<noteq> []) rest \<and> m_values m = [] \<and> m_command_path m = []"
proof -
  let ?args = "prog # ''--'' # rest"
  let ?st = "\<lparr>ps_errors = [], ps_help = None, ps_matches = empty_matches, ps_unparsed = None\<rparr>"
  have "parse_loop ?args False 1 False [root_cmd p] ?st = parse_loop ?args False 2 True [root_cmd p] ?st"
    using parse_loop_dashes [of 1 ?args False "[root_cmd p]" ?st] by (simp add: numeral_2_eq_2)
  then have "parse_loop ?args False 1 False [root_cmd p] ?st = (None, [root_cmd p],
      ?st\<lparr>ps_matches := empty_matches\<lparr>m_positionals := filter (\<lambda>s. s \<noteq> []) rest\<rparr>\<rparr>)"
    by (simp add: parse_loop_after_dashes st_match_def empty_matches_def)
  then show ?thesis by (simp add: parse_def parse_impl_def Let_def empty_matches_def)
qed

text \<open>
  A run that stops for help names a command level on the selected chain that has the builtins
  enabled, and the help text rendered afterwards is the one of that level.
\<close>

lemma parse_help_level:
  assumes "parse p args (Some empty_matches) = (HelpRequested, p', Some m)"
  shows "\<exists>scope level. cmd_chain scope \<and> hd scope = root_cmd p \<and> m_command_path m = map cmd_name (tl scope)
    \<and> level \<in> set scope \<and> cmd_builtin_enabled level \<and> help_message f p' = f level"
proof -
  obtain u' where "parse_impl p args False (Some empty_matches) None = (HelpRequested, p', Some m, u')"
    using assms by (auto simp: parse_def split: prod.splits)
  then obtain scope st where inv: "loop_inv False (root_cmd p) empty_matches scope st"
    and m: "Some m = Some (ps_matches st)"
    and h: "\<exists>level \<in> set scope. cmd_builtin_enabled level \<and> help_command p' = Some level"
    by (rule parse_impl_inv) blast
  then obtain level where "level \<in> set scope" "cmd_builtin_enabled level" "help_command p' = Some level"
    by blast
  then show ?thesis
    using inv m by (intro exI [of _ scope] exI [of _ level])
      (auto simp: loop_inv_def empty_matches_def help_message_def)
qed

lemma parse_help_level_witness:
  "\<exists>p' m scope level. parse (Parser sample_command) [''tool'', ''run'', ''-h''] (Some empty_matches)
      = (HelpRequested, p', Some m) \<and> cmd_chain scope \<and> hd scope = sample_command
    \<and> level \<in> set scope \<and> cmd_builtin_enabled level \<and> help_message cmd_name p' = cmd_name level"
proof -
  have run: "parse (Parser sample_command) [''tool'', ''run'', ''-h''] (Some empty_matches)
      = (HelpRequested, (Parser sample_command)\<lparr>help_command := Some sample_command\<rparr>,
         Some (empty_matches\<lparr>m_command_path := [''run'']\<rparr>))"
    by code_simp
  have "root_cmd (Parser sample_command) = sample_command" by (simp add: Parser_def)
  with parse_help_level [OF run, of cmd_name] run show ?thesis by auto
qed

text \<open>
  A configured default value never reaches the matches: when the user does not supply the
  argument, the typed accessor reports it as missing, although the builder documents the default
  as the value used in that case.
\<close>

lemma default_value_not_applied:
  "as_default_value (cmd_args sample_command ! 2) = ''1''
   \<and> (\<exists>p' m. parse (Parser sample_command) [''tool'', ''--output=x''] (Some empty_matches) = (Success, p', Some m)
        \<and> matches_get convert_string m ''level'' = Err OutOfRange)"
proof -
  have "parse (Parser sample_command) [''tool'', ''--output=x''] (Some empty_matches)
      = (Success, Parser sample_command, Some (empty_matches\<lparr>m_values := [(''output'', ''x'')]\<rparr>))"
    by code_simp
  moreover have "matches_get convert_string (empty_matches\<lparr>m_values := [(''output'', ''x'')]\<rparr>) ''level'' = Err OutOfRange"
    by (simp add: matches_get_def make_err_def)
  moreover have "as_default_value (cmd_args sample_command ! 2) = ''1''" by code_simp
  ultimately show ?thesis by blast
qed

end
