(* ===== verification/Term.thy ===== *)
theory Term
  imports Text
begin

text \<open>
  Terminal styling (\<^verbatim>\<open>include/fpag/term\<close>, \<^verbatim>\<open>src/term/console.cc\<close>): the ANSI codes, the colour
  policy of the command line and the choice of a colour style from the environment. Whether a
  descriptor is a terminal and the value of an environment variable are arguments of the model.
\<close>

section \<open>Definitions\<close>

datatype color_style = Off | Ansi16 | Ansi256 | AnsiTrueColor

datatype color_mode = Auto | Always | Never | UnknownMode

datatype stream = Stdout | Stderr

definition ESC :: char where
  "ESC = char_of (27::nat)"

definition ansi :: "string \<Rightarrow> string" where
  "ansi code = ESC # CHR ''['' # code @ ''m''"

definition RESET :: string where "RESET = ansi ''0''"
definition BOLD :: string where "BOLD = ansi ''1''"
definition ITALIC :: string where "ITALIC = ansi ''3''"
definition UNDERLINE :: string where "UNDERLINE = ansi ''4''"
definition FG_BLUE :: string where "FG_BLUE = ansi ''34''"
definition FG_GRAY :: string where "FG_GRAY = ansi ''90''"
definition FG_BRIGHT_RED :: string where "FG_BRIGHT_RED = ansi ''91''"
definition FG_BRIGHT_MAGENTA :: string where "FG_BRIGHT_MAGENTA = ansi ''95''"
definition FG_BRIGHT_CYAN :: string where "FG_BRIGHT_CYAN = ansi ''96''"

definition style_code :: "string \<Rightarrow> color_style \<Rightarrow> string" where
  "style_code code mode = (if mode \<noteq> Off then code else [])"

definition str_to_color_mode :: "string \<Rightarrow> color_mode" where
  "str_to_color_mode s =
     (if s = ''auto'' then Auto else if s = ''always'' then Always
      else if s = ''never'' then Never else UnknownMode)"

fun color_mode_to_str :: "color_mode \<Rightarrow> string" where
  "color_mode_to_str Auto = ''auto''"
| "color_mode_to_str Always = ''always''"
| "color_mode_to_str Never = ''never''"
| "color_mode_to_str UnknownMode = ''unknown''"

definition contains :: "string \<Rightarrow> string \<Rightarrow> bool" where
  "contains needle s \<longleftrightarrow> list_ex (\<lambda>i. take (length needle) (drop i s) = needle) [0..<length s + 1]"

text \<open>
  \<^verbatim>\<open>is_ansi_available\<close> asks the system once: its two static variables are filled by its first call, for
  both streams, and answer every later one. They are the cache threaded through the functions below.
\<close>

type_synonym ansi_cache = "(bool \<times> bool) option"

fun fileno :: "stream \<Rightarrow> nat" where
  "fileno Stdout = 1"
| "fileno Stderr = 2"

definition check_ansi_sequence_availability :: "(nat \<Rightarrow> bool) \<Rightarrow> stream \<Rightarrow> bool" where
  "check_ansi_sequence_availability isatty stream = isatty (fileno stream)"

definition is_ansi_available :: "(nat \<Rightarrow> bool) \<Rightarrow> ansi_cache \<Rightarrow> stream \<Rightarrow> bool \<times> ansi_cache" where
  "is_ansi_available isatty cache stream =
     (let (out, err) = (case cache of Some c \<Rightarrow> c
            | None \<Rightarrow> (check_ansi_sequence_availability isatty Stdout, check_ansi_sequence_availability isatty Stderr))
      in (case stream of Stdout \<Rightarrow> out | Stderr \<Rightarrow> err, Some (out, err)))"

definition environment_style :: "(string \<Rightarrow> string option) \<Rightarrow> color_style" where
  "environment_style getenv =
     (let by_term = (case getenv ''TERM'' of
            Some term \<Rightarrow> if contains ''256color'' term then Ansi256 else Ansi16
          | None \<Rightarrow> Ansi16)
      in case getenv ''COLORTERM'' of
           Some color_term \<Rightarrow>
             (if color_term = ''truecolor'' \<or> color_term = ''24bit'' then AnsiTrueColor
              else if color_term = ''256color'' then Ansi256
              else by_term)
         | None \<Rightarrow> by_term)"

definition console_color_style :: "(nat \<Rightarrow> bool) \<Rightarrow> (string \<Rightarrow> string option) \<Rightarrow> ansi_cache
    \<Rightarrow> stream \<Rightarrow> color_mode \<Rightarrow> color_style \<times> ansi_cache" where
  "console_color_style isatty getenv cache stream color_mode =
     (if color_mode = Never then (Off, cache)
      else if color_mode \<noteq> Always then
        (let (available, cache) = is_ansi_available isatty cache stream
         in if \<not> available \<or> getenv ''NO_COLOR'' \<noteq> None then (Off, cache)
            else (environment_style getenv, cache))
      else (environment_style getenv, cache))"

definition register_console :: "(nat \<Rightarrow> bool) \<Rightarrow> (string \<Rightarrow> string option) \<Rightarrow> ansi_cache \<Rightarrow> ansi_cache" where
  "register_console isatty getenv cache =
     snd (console_color_style isatty getenv (snd (console_color_style isatty getenv cache Stdout Auto)) Stderr Auto)"

section \<open>Lemmas\<close>

lemma style_code_Off [simp]: "style_code code Off = []"
  by (simp add: style_code_def)

lemma str_to_color_mode_roundtrip: "str_to_color_mode (color_mode_to_str c) = c"
  by (cases c) (simp_all add: str_to_color_mode_def)

lemmas style_defs = RESET_def BOLD_def ITALIC_def UNDERLINE_def FG_BLUE_def FG_GRAY_def
  FG_BRIGHT_RED_def FG_BRIGHT_MAGENTA_def FG_BRIGHT_CYAN_def ansi_def

section \<open>Properties\<close>

lemma environment_style_on: "environment_style getenv \<noteq> Off"
  by (simp add: environment_style_def split: option.split)

lemma is_ansi_available_cached:
  "is_ansi_available isatty (Some (out, err)) s = (case s of Stdout \<Rightarrow> out | Stderr \<Rightarrow> err, Some (out, err))"
  by (simp add: is_ansi_available_def)

lemma register_console_fills: "register_console isatty getenv None = Some (isatty 1, isatty 2)"
  by (simp add: register_console_def console_color_style_def is_ansi_available_def
      check_ansi_sequence_availability_def)

lemma console_color_style_cached:
  "console_color_style isatty getenv (Some (out, err)) s mode =
     (if mode = Never \<or> mode \<noteq> Always \<and> (\<not> (case s of Stdout \<Rightarrow> out | Stderr \<Rightarrow> err) \<or> getenv ''NO_COLOR'' \<noteq> None)
      then Off else environment_style getenv, Some (out, err))"
  by (simp add: console_color_style_def is_ansi_available_cached)

text \<open>
  The colour policy, once the console is registered: \<open>never\<close> turns styling off, \<open>always\<close> never does, and
  every other mode turns it on exactly for a stream that was a terminal when the console was registered,
  whatever it is redirected to later, and whose environment does not ask for no colour.
\<close>

lemma console_color_style_policy:
  assumes "register_console isatty env0 None = cache"
  shows "fst (console_color_style later env cache s Never) = Off
   \<and> fst (console_color_style later env cache s Always) \<noteq> Off
   \<and> (fst (console_color_style later env cache s Auto) \<noteq> Off \<longleftrightarrow> isatty (fileno s) \<and> env ''NO_COLOR'' = None)
   \<and> console_color_style later env cache s UnknownMode = console_color_style later env cache s Auto
   \<and> snd (console_color_style later env cache s mode) = cache"
  using assms [symmetric]
  by (cases s) (simp_all add: register_console_fills console_color_style_cached environment_style_on)

end
