(* ===== verification/Arg_Format.thy ===== *)
theory Arg_Format
  imports Arg_Parser Term
begin

text \<open>
  The default diagnostics of the command line module: \<^verbatim>\<open>src/arg/help_formatter.cc\<close>,
  \<^verbatim>\<open>error_formatter.cc\<close>, \<^verbatim>\<open>version_formatter.cc\<close> and the message table of \<^verbatim>\<open>error_code.h\<close>. Widths are
  byte counts, as the code's \<^verbatim>\<open>size()\<close> is.
\<close>

section \<open>Definitions\<close>

fun ec_to_format_str :: "error_code \<Rightarrow> string" where
  "ec_to_format_str InvalidArgCount = ''invalid arg count provided: {}''"
| "ec_to_format_str NullMatchesPointer = ''output matches pointer is null''"
| "ec_to_format_str UnknownLongOption = ''unexpected argument '' @ [CHR 0x27] @ ''--{}'' @ [CHR 0x27] @ '' found''"
| "ec_to_format_str UnknownShortOption = ''unexpected argument '' @ [CHR 0x27] @ ''-{}'' @ [CHR 0x27] @ '' found''"
| "ec_to_format_str MissingValueForOption = ''a value is required for '' @ [CHR 0x27] @ ''{}'' @ [CHR 0x27] @ '' but none was supplied''"
| "ec_to_format_str FlagTakesNoValue = ''flag '' @ [CHR 0x27] @ ''{}'' @ [CHR 0x27] @ '' takes no value''"
| "ec_to_format_str MissingRequiredArgument = ''the required argument '' @ [CHR 0x27] @ ''{}'' @ [CHR 0x27] @ '' was not provided''"
| "ec_to_format_str DuplicateOption = ''the argument '' @ [CHR 0x27] @ ''{}'' @ [CHR 0x27] @ '' was provided more than once''"
| "ec_to_format_str InvalidChoice = ''invalid choice for argument '' @ [CHR 0x27] @ ''{}'' @ [CHR 0x27] @ '': '' @ [CHR 0x27] @ ''{}'' @ [CHR 0x27]"
| "ec_to_format_str InvalidValue = ''invalid value for argument '' @ [CHR 0x27] @ ''{}'' @ [CHR 0x27] @ '': '' @ [CHR 0x27] @ ''{}'' @ [CHR 0x27]"
| "ec_to_format_str EC_None = ''unknown error occurred''"

definition newline :: string where
  "newline = [CHR 0x0A]"

fun join_bar :: "string list \<Rightarrow> string" where
  "join_bar [] = []"
| "join_bar [c] = c"
| "join_bar (c # cs) = c @ ''|'' @ join_bar cs"

definition format_option_spec :: "arg \<Rightarrow> string" where
  "format_option_spec a =
     ''  ''
     @ (case as_short_name a of
          Some c \<Rightarrow> ''-'' @ [c] @ (if as_long_name a \<noteq> [] then '', '' else [])
        | None \<Rightarrow> ''    '')
     @ (if as_long_name a \<noteq> [] then ''--'' @ as_long_name a else [])
     @ (if \<not> as_is_flag a then
          '' <'' @ (if as_choices a \<noteq> [] then join_bar (as_choices a)
                    else if as_value_name a = [] then ''value'' else as_value_name a) @ ''>''
        else [])"

definition render_option_line ::
  "string \<Rightarrow> nat \<Rightarrow> string \<Rightarrow> string \<Rightarrow> bool \<Rightarrow> color_style \<Rightarrow> string" where
  "render_option_line opt_spec max_opt_width help_text default_value is_required style =
     style_code FG_BRIGHT_CYAN style @ opt_spec @ style_code RESET style
     @ (if length opt_spec < max_opt_width then spaces (max_opt_width - length opt_spec) else [])
     @ ''  '' @ help_text
     @ (if default_value \<noteq> [] then '' (default: '' @ default_value @ '')'' else [])
     @ (if is_required then '' '' @ style_code FG_GRAY style @ style_code ITALIC style @ ''[required]''
          @ style_code RESET style else [])
     @ newline"

definition TERMINAL_WIDTH :: nat where "TERMINAL_WIDTH = 60"

definition MIN_DESCRIPTION_MARGIN :: nat where "MIN_DESCRIPTION_MARGIN = 20"

definition title_pad :: "string \<Rightarrow> nat" where
  "title_pad s = (if length s < TERMINAL_WIDTH then (TERMINAL_WIDTH - length s) div 2 else 0)"

definition max_width :: "string list \<Rightarrow> nat" where
  "max_width ss = fold (\<lambda>s w. max w (length s)) ss MIN_DESCRIPTION_MARGIN"

definition help_usage :: "command \<Rightarrow> color_style \<Rightarrow> string" where
  "help_usage cmd style =
     (let bold = style_code BOLD style; underline = style_code UNDERLINE style;
          reset = style_code RESET style; bright_magenta = style_code FG_BRIGHT_MAGENTA style
      in if cmd_subcommands cmd \<noteq> [] then
           bold @ underline @ ''Usage'' @ reset @ '': '' @ bold @ cmd_name cmd @ reset @ '' ''
             @ bright_magenta @ bold @ ''[Options]'' @ reset @ '' ''
             @ bright_magenta @ bold @ ''[Command]'' @ reset @ newline
           @ newline @ bold @ underline @ ''Commands'' @ reset @ '':'' @ newline
           @ concat (map (\<lambda>sub. ''  '' @ pad_right (max_width (map cmd_name (cmd_subcommands cmd))) (cmd_name sub)
                              @ ''  '' @ cmd_about sub @ newline) (cmd_subcommands cmd))
         else
           bold @ underline @ ''Usage'' @ reset @ '': '' @ bold @ cmd_name cmd @ reset @ '' ''
             @ bright_magenta @ bold @ ''[Options]'' @ reset @ newline)"

definition option_width :: "command \<Rightarrow> nat" where
  "option_width cmd = max_width (map format_option_spec (cmd_args cmd))"

definition help_options :: "command \<Rightarrow> color_style \<Rightarrow> string" where
  "help_options cmd style =
     concat (map (\<lambda>a. render_option_line (format_option_spec a) (option_width cmd) (as_help a)
                        (as_default_value a) (as_is_required a) style) (cmd_args cmd))
     @ (if cmd_builtin_enabled cmd then
          render_option_line ''  -h, --help'' (option_width cmd) ''Print help message'' [] False style
          @ (if cmd_version cmd \<noteq> [] then
               render_option_line ''  -v, --version'' (option_width cmd) ''Print version information'' [] False style
             else [])
        else [])"

definition DefaultHelpFormatter :: "color_style \<Rightarrow> command \<Rightarrow> string" where
  "DefaultHelpFormatter style cmd =
     (if cmd_name cmd \<noteq> [] then
        spaces (title_pad (cmd_name cmd)) @ style_code BOLD style @ style_code UNDERLINE style
          @ cmd_name cmd @ style_code RESET style @ newline @ newline else [])
     @ (if cmd_about cmd \<noteq> [] then
          spaces (title_pad (cmd_about cmd)) @ style_code FG_BLUE style @ cmd_about cmd
            @ style_code RESET style @ newline @ newline else [])
     @ help_usage cmd style
     @ newline @ style_code BOLD style @ style_code UNDERLINE style @ ''Options''
     @ style_code RESET style @ '':'' @ newline
     @ help_options cmd style"

definition format_error :: "color_style \<Rightarrow> parse_error \<Rightarrow> string" where
  "format_error style err =
     style_code FG_BRIGHT_RED style @ style_code BOLD style @ ''error'' @ style_code RESET style
     @ '': '' @ style_code BOLD style
     @ fmt_args (ec_to_format_str (pe_code err)) [pe_context err, pe_value err]
     @ style_code RESET style @ newline"

definition DefaultErrorFormatter :: "string \<Rightarrow> parse_error list \<Rightarrow> color_style \<Rightarrow> string" where
  "DefaultErrorFormatter command_name errors style =
     concat (map (format_error style) errors)
     @ newline @ ''For more information, try '' @ [CHR 0x27] @ command_name
     @ style_code FG_BRIGHT_CYAN style @ '' --help'' @ style_code RESET style @ [CHR 0x27] @ ''.'' @ newline"

definition DefaultVersionFormatter :: "string \<Rightarrow> string \<Rightarrow> string" where
  "DefaultVersionFormatter command_name version = command_name @ '' version '' @ version"

section \<open>Alignment\<close>

lemma fold_max_ge:
  "(w :: nat) \<le> fold (\<lambda>s w. max w (length s)) ss w"
  "s \<in> set ss \<Longrightarrow> length s \<le> fold (\<lambda>s w. max w (length s)) ss w"
proof (induction ss arbitrary: w)
  case (Cons a ss)
  { case 1 show ?case using Cons(1) [of "max w (length a)"] by simp }
  { case 2 show ?case
      using 2 Cons(1) [of "max w (length a)"] Cons(2) [of "max w (length a)"] by auto }
qed simp_all

lemma max_width_ge: "s \<in> set ss \<Longrightarrow> length s \<le> max_width ss" "MIN_DESCRIPTION_MARGIN \<le> max_width ss"
  using fold_max_ge by (simp_all add: max_width_def)

lemma length_spaces [simp]: "length (spaces n) = n"
  by (simp add: spaces_def)

lemma option_line_prefix:
  assumes "length spec \<le> w"
  shows "render_option_line spec w h d r Off =
    pad_right w spec @ ''  '' @ h @ (if d \<noteq> [] then '' (default: '' @ d @ '')'' else [])
    @ (if r then '' [required]'' else []) @ newline"
  using assms by (auto simp: render_option_line_def pad_right_def spaces_def)

section \<open>Properties\<close>

text \<open>
  The option table of the help text is aligned: without styling, the line of every argument of
  a command is its option text padded to one width that is common to all of them, two spaces, and
  the description.
\<close>

lemma help_lines_aligned:
  assumes "a \<in> set (cmd_args cmd)"
  shows "\<exists>rest. render_option_line (format_option_spec a) (option_width cmd) (as_help a)
      (as_default_value a) (as_is_required a) Off
    = pad_right (option_width cmd) (format_option_spec a) @ ''  '' @ as_help a @ rest
    \<and> length (pad_right (option_width cmd) (format_option_spec a)) = option_width cmd"
proof -
  have "length (format_option_spec a) \<le> option_width cmd"
    using assms by (simp add: option_width_def max_width_ge)
  then show ?thesis by (simp add: option_line_prefix pad_right_def)
qed

lemma help_lines_aligned_witness:
  "\<exists>rest. render_option_line (format_option_spec (hd (cmd_args sample_command))) (option_width sample_command)
      [] [] True Off = pad_right (option_width sample_command)
        (format_option_spec (hd (cmd_args sample_command))) @ ''  '' @ [] @ rest
    \<and> length (pad_right (option_width sample_command) (format_option_spec (hd (cmd_args sample_command)))) = 22"
proof -
  have w: "option_width sample_command = 22" by code_simp
  have a: "as_help (hd (cmd_args sample_command)) = []" "as_default_value (hd (cmd_args sample_command)) = []"
    "as_is_required (hd (cmd_args sample_command)) = True" by code_simp+
  have "hd (cmd_args sample_command) \<in> set (cmd_args sample_command)"
    by (simp add: sample_command_def)
  from help_lines_aligned [OF this] show ?thesis by (simp only: w a)
qed

end
