(* ===== verification/Arg_Macro.thy ===== *)
theory Arg_Macro
  imports Arg_Format
begin

text \<open>
  The declarative layer of \<^verbatim>\<open>include/fpag/arg/macro.h\<close>: binders that tie an argument to a member of a
  user's struct, the macros that spell them, and the parse function they generate, which builds the
  command, runs the parser and converts what it matched into the struct. A struct is any type \<open>'c\<close>, and
  a member pointer of type \<^verbatim>\<open>T Class::*\<close> is the function that assigns the member. Binders of one command
  have members of different types, so a binder holds the assignment already joined with the converter
  of its type, and separately the assignment of a flag, which only a \<^verbatim>\<open>bool\<close> member has.
\<close>

section \<open>Definitions\<close>

record 'c arg_binder =
  bi_arg :: arg
  bi_flag :: "(bool \<Rightarrow> 'c \<Rightarrow> 'c) option"
  bi_from_string :: "string \<Rightarrow> ('c \<Rightarrow> 'c, get_error) result"

definition member_from_string ::
  "(string \<Rightarrow> ('t, get_error) result) \<Rightarrow> ('t \<Rightarrow> 'c \<Rightarrow> 'c) \<Rightarrow> string \<Rightarrow> ('c \<Rightarrow> 'c, get_error) result" where
  "member_from_string conv member v = (case conv v of Ok x \<Rightarrow> make_ok (member x) | Err e \<Rightarrow> make_err e)"

definition bind_member :: "arg \<Rightarrow> (string \<Rightarrow> ('t, get_error) result) \<Rightarrow> ('t \<Rightarrow> 'c \<Rightarrow> 'c) \<Rightarrow> 'c arg_binder" where
  "bind_member a conv member = \<lparr>bi_arg = a, bi_flag = None, bi_from_string = member_from_string conv member\<rparr>"

definition bind_bool :: "arg \<Rightarrow> (bool \<Rightarrow> 'c \<Rightarrow> 'c) \<Rightarrow> 'c arg_binder" where
  "bind_bool a member = \<lparr>bi_arg = a, bi_flag = Some member, bi_from_string = member_from_string convert_bool member\<rparr>"

text \<open>
  The argument is moved into the builder: its views and flags stay readable in the binder, its list of
  choices does not.
\<close>

definition moved_arg :: "arg \<Rightarrow> arg" where
  "moved_arg a = a\<lparr>as_choices := []\<rparr>"

definition apply_to_builder :: "'c arg_binder \<Rightarrow> command \<Rightarrow> 'c arg_binder \<times> command" where
  "apply_to_builder b builder = (b\<lparr>bi_arg := moved_arg (bi_arg b)\<rparr>, add_arg (bi_arg b) builder)"

definition extract_arg :: "'c arg_binder \<Rightarrow> 'c \<Rightarrow> matches \<Rightarrow> parse_error \<Rightarrow> (bool \<times> 'c \<times> parse_error) option" where
  "extract_arg b obj matches out_error =
     (let a = bi_arg b in
      if as_is_flag a then
        Some (True, (case bi_flag b of Some member \<Rightarrow> member (matches_has matches (arg_name a)) obj | None \<Rightarrow> obj),
              out_error)
      else if \<not> matches_has matches (arg_name a) then Some (True, obj, out_error)
      else
        let res = matches_get (bi_from_string b) matches (arg_name a) in
        if \<not> result_is_ok res then do {
          value \<leftarrow> unwrap_or (matches_get convert_string matches (arg_name a)) [];
          Some (False, obj, \<lparr>pe_code = InvalidValue, pe_context = arg_name a, pe_value = value\<rparr>)
        } else do {
          assign \<leftarrow> unwrap res;
          Some (True, assign obj, out_error)
        })"

fun apply_all :: "'c arg_binder list \<Rightarrow> command \<Rightarrow> 'c arg_binder list \<times> command" where
  "apply_all [] builder = ([], builder)"
| "apply_all (b # bs) builder =
     (let (b, builder) = apply_to_builder b builder; (bs, builder) = apply_all bs builder in (b # bs, builder))"

fun extract_all :: "'c arg_binder list \<Rightarrow> 'c \<Rightarrow> matches \<Rightarrow> parse_error \<Rightarrow> (bool \<times> 'c \<times> parse_error) option" where
  "extract_all [] obj matches out_error = Some (True, obj, out_error)"
| "extract_all (b # bs) obj matches out_error = do {
     (ok, obj, out_error) \<leftarrow> extract_arg b obj matches out_error;
     if ok then extract_all bs obj matches out_error else Some (False, obj, out_error)
   }"

definition parse_macro_impl :: "(command \<Rightarrow> string) \<Rightarrow> 'c \<Rightarrow> int \<Rightarrow> string option list \<Rightarrow> command
    \<Rightarrow> 'c arg_binder list \<Rightarrow> 'c parse_result option" where
  "parse_macro_impl f config argc argv builder binders =
     (let (binders, cmd) = apply_all binders builder;
          (result, parser) = try_parse_argv f (Parser cmd) argc argv
      in if pr_status result = Success then do {
           matches \<leftarrow> pr_unwrap result;
           (converted, config, error) \<leftarrow> extract_all binders config matches
              \<lparr>pe_code = EC_None, pe_context = [], pe_value = []\<rparr>;
           Some (if \<not> converted then make_pr_err [error] else make_pr_ok config)
         }
         else if pr_status result = Error then do { es \<leftarrow> pr_unwrap_err result; Some (make_pr_err es) }
         else if pr_status result = HelpRequested then do { h \<leftarrow> pr_unwrap_help result; Some (make_pr_help h) }
         else if pr_status result = VersionRequested then
           do { v \<leftarrow> pr_unwrap_version result; Some (make_pr_version v) }
         else None)"

definition ARGS_OPT_FULL :: "string \<Rightarrow> char \<Rightarrow> string \<Rightarrow> string \<Rightarrow> string \<Rightarrow> string \<Rightarrow> bool \<Rightarrow> string list \<Rightarrow> arg" where
  "ARGS_OPT_FULL field short long default_val vname help required choices =
     arg_build (with_choices choices (with_required required (with_help help (with_value_name vname
       (with_default_value default_val (with_name field (with_short_name short (ArgBuilder long))))))))"

definition ARGS_OPT :: "string \<Rightarrow> char \<Rightarrow> string \<Rightarrow> string \<Rightarrow> bool \<Rightarrow> string list \<Rightarrow> arg" where
  "ARGS_OPT field short long help required choices =
     arg_build (with_choices choices (with_required required (with_help help
       (with_name field (with_short_name short (ArgBuilder long))))))"

definition ARGS_FLAG :: "string \<Rightarrow> char \<Rightarrow> string \<Rightarrow> string \<Rightarrow> arg" where
  "ARGS_FLAG field short long help =
     arg_build (with_is_flag True (with_help help (with_name field (with_short_name short (ArgBuilder long)))))"

definition CREATE_PARSER :: "string \<Rightarrow> string \<Rightarrow> string \<Rightarrow> command" where
  "CREATE_PARSER name version about = command_about about (CommandBuilder name version)"

definition ARGS_FN_DEFINE :: "(command \<Rightarrow> string) \<Rightarrow> 'c \<Rightarrow> string \<Rightarrow> string \<Rightarrow> string
    \<Rightarrow> 'c arg_binder list \<Rightarrow> int \<Rightarrow> string option list \<Rightarrow> 'c parse_result option" where
  "ARGS_FN_DEFINE f config name version about binders argc argv =
     parse_macro_impl f config argc argv (CREATE_PARSER name version about) binders"

section \<open>What a binder does\<close>

text \<open>
  What the values recorded under a binder's name do to its member: nothing when there are none, the
  conversion of the first one otherwise; a flag stores whether there are any. None when the value
  does not convert.
\<close>

definition bound :: "'c arg_binder \<Rightarrow> string list \<Rightarrow> ('c \<Rightarrow> 'c) option" where
  "bound b vs =
     (if as_is_flag (bi_arg b) then Some (case bi_flag b of Some member \<Rightarrow> member (vs \<noteq> []) | None \<Rightarrow> id)
      else case vs of [] \<Rightarrow> Some id
           | v # _ \<Rightarrow> (case bi_from_string b v of Ok assign \<Rightarrow> Some assign | Err _ \<Rightarrow> None))"

definition bound_in :: "matches \<Rightarrow> 'c arg_binder \<Rightarrow> ('c \<Rightarrow> 'c) option" where
  "bound_in m b = bound b (values_of m (arg_name (bi_arg b)))"

definition conversion_error :: "matches \<Rightarrow> 'c arg_binder \<Rightarrow> parse_error" where
  "conversion_error m b = \<lparr>pe_code = InvalidValue, pe_context = arg_name (bi_arg b),
     pe_value = hd (values_of m (arg_name (bi_arg b)))\<rparr>"

lemma moved_arg_frame [simp]:
  "arg_name (moved_arg a) = arg_name a" "as_is_flag (moved_arg a) = as_is_flag a"
  by (simp_all add: moved_arg_def arg_name_def split: option.split)

lemma bound_in_moved [simp]:
  "bound_in m (b\<lparr>bi_arg := moved_arg (bi_arg b)\<rparr>) = bound_in m b"
  "conversion_error m (b\<lparr>bi_arg := moved_arg (bi_arg b)\<rparr>) = conversion_error m b"
  by (simp_all add: bound_in_def bound_def conversion_error_def split: list.split)

lemma apply_all_eq:
  "apply_all bs builder = (map (\<lambda>b. b\<lparr>bi_arg := moved_arg (bi_arg b)\<rparr>) bs, fold (\<lambda>b. add_arg (bi_arg b)) bs builder)"
  by (induction bs arbitrary: builder) (simp_all add: apply_to_builder_def)

lemma fold_add_arg:
  "fold (\<lambda>b. add_arg (bi_arg b)) bs (Command n v ab as subs e) = Command n v ab (as @ map bi_arg bs) subs e"
  by (induction bs arbitrary: as) simp_all

lemma unwrap_or_string:
  "values_of m n = v # vs \<Longrightarrow> unwrap_or (matches_get convert_string m n) d = Some v"
  by (simp add: matches_get_spec convert_string_def make_ok_def unwrap_or_def)

lemma extract_eq:
  "extract_arg b obj m err = Some (case bound_in m b of
     Some assign \<Rightarrow> (True, assign obj, err) | None \<Rightarrow> (False, obj, conversion_error m b))"
proof (cases "values_of m (arg_name (bi_arg b))")
  case Nil
  then show ?thesis
    by (simp add: extract_arg_def Let_def matches_has_iff bound_in_def bound_def split: option.split)
next
  case (Cons v vs)
  then have "matches_get (bi_from_string b) m (arg_name (bi_arg b)) = bi_from_string b v"
    by (simp add: matches_get_spec)
  with Cons show ?thesis
    by (simp add: extract_arg_def Let_def matches_has_iff bound_in_def bound_def conversion_error_def
        unwrap_or_string split: option.split result.split)
qed

lemma extract_all_eq:
  "extract_all bs obj m err = Some (case find (\<lambda>b. bound_in m b = None) bs of
     None \<Rightarrow> (True, fold (\<lambda>b. the (bound_in m b)) bs obj, err)
   | Some b \<Rightarrow> (False, fold (\<lambda>b. the (bound_in m b)) (takeWhile (\<lambda>b. bound_in m b \<noteq> None) bs) obj, conversion_error m b))"
  by (induction bs arbitrary: obj) (auto simp: extract_eq split: option.split)

lemma extract_moved_eq:
  "extract_all (map (\<lambda>b. b\<lparr>bi_arg := moved_arg (bi_arg b)\<rparr>) bs) obj m err = extract_all bs obj m err"
  by (induction bs arbitrary: obj err) (auto simp: extract_eq split: bind_splits option.split)

lemma try_parse_storage:
  "try_parse_argv f p argc argv = (r, p') \<Longrightarrow>
     (\<exists>m. r = make_pr_ok m) \<or> (\<exists>es. r = make_pr_err es) \<or> (\<exists>h. r = make_pr_help h) \<or> (\<exists>v. r = make_pr_version v)"
  by (auto simp: try_parse_argv_def result_of_status_def split: prod.splits parse_status.splits)

lemma argv_sequence_all: "argv_sequence (int (length args)) (map Some args) = args"
  by (auto simp: argv_sequence_def get_from_argv_def intro: nth_equalityI)

text \<open>What the generated function makes of a parse: the fold over the binders stops at the first that fails.\<close>

definition converted :: "'c \<Rightarrow> 'c arg_binder list \<Rightarrow> matches \<Rightarrow> 'c parse_result" where
  "converted config binders m =
     (case find (\<lambda>b. bound_in m b = None) binders of
        None \<Rightarrow> make_pr_ok (fold (\<lambda>b. the (bound_in m b)) binders config)
      | Some b \<Rightarrow> make_pr_err [conversion_error m b])"

definition convert_parsed :: "'c \<Rightarrow> 'c arg_binder list \<Rightarrow> matches parse_storage \<Rightarrow> 'c parse_result" where
  "convert_parsed config binders s =
     (case s of StoreOk m \<Rightarrow> converted config binders m | StoreErr es \<Rightarrow> make_pr_err es
      | StoreHelp h \<Rightarrow> make_pr_help h | StoreVersion v \<Rightarrow> make_pr_version v)"

lemma extract_moved:
  "do { (ok, c, e) \<leftarrow> extract_all (map (\<lambda>b. b\<lparr>bi_arg := moved_arg (bi_arg b)\<rparr>) bs) obj m err;
        Some (if \<not> ok then make_pr_err [e] else make_pr_ok c) } = Some (converted obj bs m)"
  unfolding extract_moved_eq by (simp add: extract_all_eq converted_def split: option.split)

lemma parse_macro_impl_eq:
  "parse_macro_impl f config argc argv builder binders =
     Some (convert_parsed config binders (pr_storage (fst
       (try_parse_argv f (Parser (fold (\<lambda>b. add_arg (bi_arg b)) binders builder)) argc argv))))"
proof -
  obtain r p where r: "try_parse_argv f (Parser (fold (\<lambda>b. add_arg (bi_arg b)) binders builder)) argc argv = (r, p)"
    by (metis prod.collapse)
  from try_parse_storage [OF r] consider m where "r = make_pr_ok m" | es where "r = make_pr_err es"
    | h where "r = make_pr_help h" | v where "r = make_pr_version v"
    by blast
  then show ?thesis
    by cases (use r in \<open>simp_all add: parse_macro_impl_def apply_all_eq extract_moved convert_parsed_def
      parse_result_defs\<close>)
qed

text \<open>
  A flag that is not given stores false, also in a member that starts as true; the character that
  stands for no short name is printed as one.
\<close>

lemma flag_absent_clears: "as_is_flag a \<Longrightarrow> bound (bind_bool a member) [] = Some (member False)"
  by (simp add: bound_def bind_bool_def)

lemma null_short_name_printed:
  "\<exists>rest. format_option_spec (ARGS_OPT field CHR 0x00 long help required choices) = ''  -'' @ [CHR 0x00] @ rest"
  by (simp add: format_option_spec_def ARGS_OPT_def arg_builder_defs)

section \<open>Properties\<close>

record macro_config =
  mc_port :: int
  mc_host :: string
  mc_verbose :: bool

definition macro_binders :: "macro_config arg_binder list" where
  "macro_binders =
     [bind_member (ARGS_OPT ''port'' CHR ''p'' ''port'' ''Port to listen on'' False [])
        (convert_int True (- 2147483648) 2147483647) (\<lambda>v c. c\<lparr>mc_port := v\<rparr>),
      bind_member (ARGS_OPT ''host'' CHR ''h'' ''host'' ''Host address'' False [])
        convert_string (\<lambda>v c. c\<lparr>mc_host := v\<rparr>),
      bind_bool (ARGS_FLAG ''verbose'' CHR ''V'' ''verbose'' ''Enable verbose logging'')
        (\<lambda>v c. c\<lparr>mc_verbose := v\<rparr>)]"

text \<open>
  C4. Spelling any admissible settings of the bound arguments on the command line, the required ones among
  them, and calling the generated function returns the struct in which each member was assigned the
  conversion of the first value given for it, a flag whether it was given, and every other member its
  initial value; when a value does not convert, it returns the one error that names the first such
  binder and its value.
\<close>

theorem macro_roundtrip:
  assumes "builder = CREATE_PARSER name version about"
    and "\<forall>av \<in> set avs. setting_ok (fold (\<lambda>b. add_arg (bi_arg b)) binders builder) av"
    and "distinct (map (as_long_name \<circ> bi_arg) binders)"
    and "\<forall>b \<in> set binders. as_is_required (bi_arg b) \<longrightarrow> arg_name (bi_arg b) \<in> (arg_name \<circ> fst) ` set avs"
    and "given = (\<lambda>b. map snd (filter (\<lambda>av. arg_name (fst av) = arg_name (bi_arg b)) avs))"
  shows "parse_macro_impl f config (int (length avs) + 1) (map Some (prog # map render_long avs)) builder binders
    = Some (case find (\<lambda>b. bound b (given b) = None) binders of
        None \<Rightarrow> make_pr_ok (fold (\<lambda>b. the (bound b (given b))) binders config)
      | Some b \<Rightarrow> make_pr_err [\<lparr>pe_code = InvalidValue, pe_context = arg_name (bi_arg b), pe_value = hd (given b)\<rparr>])"
proof -
  let ?cmd = "fold (\<lambda>b. add_arg (bi_arg b)) binders builder"
  let ?m = "empty_matches\<lparr>m_values := map (\<lambda>av. (arg_name (fst av), snd av)) avs\<rparr>"
  let ?args = "prog # map render_long avs"
  have args: "cmd_args ?cmd = map bi_arg binders"
    by (simp add: assms(1) CREATE_PARSER_def CommandBuilder_def fold_add_arg)
  have "parse_impl (Parser ?cmd) ?args False (Some empty_matches) None = (Success, Parser ?cmd, Some ?m, None)"
    by (rule parse_impl_render [OF assms(2)]) (use assms(3,4) args in \<open>simp_all add: comp_def\<close>)
  moreover have "argv_sequence (int (length avs) + 1) (map Some ?args) = ?args"
    using argv_sequence_all [of ?args] by (simp add: add.commute)
  ultimately have "parse_argv (Parser ?cmd) (int (length avs) + 1) (map Some ?args) (Some empty_matches)
      = (Success, Parser ?cmd, Some ?m)"
    by (simp add: parse_argv_def)
  then have r: "pr_storage (fst (try_parse_argv f (Parser ?cmd) (int (length avs) + 1) (map Some ?args))) = StoreOk ?m"
    by (simp add: try_parse_argv_def result_of_status_def make_pr_ok_def)
  have "values_of ?m (arg_name (bi_arg b)) = given b" for b
    by (simp add: values_of_def assms(5) filter_map comp_def)
  then show ?thesis
    unfolding parse_macro_impl_eq r by (simp add: convert_parsed_def converted_def bound_in_def conversion_error_def split: option.split)
qed

theorem macro_roundtrip_witness:
  "\<exists>avs. map render_long avs = [''--port=9090'', ''--verbose''] \<and>
    parse_macro_impl (\<lambda>c. []) \<lparr>mc_port = 8080, mc_host = ''127.0.0.1'', mc_verbose = False\<rparr> 3
      (map Some (''app'' # map render_long avs)) (CREATE_PARSER ''app'' ''1.0.0'' ''Sample application'') macro_binders
    = Some (make_pr_ok \<lparr>mc_port = 9090, mc_host = ''127.0.0.1'', mc_verbose = True\<rparr>)"
proof -
  let ?b = "CREATE_PARSER ''app'' ''1.0.0'' ''Sample application''"
  let ?avs = "[(bi_arg (macro_binders ! 0), ''9090''), (bi_arg (macro_binders ! 2), ''1'')]"
  let ?given = "\<lambda>b. map snd (filter (\<lambda>av. arg_name (fst av) = arg_name (bi_arg b)) ?avs)"
  let ?c = "\<lparr>mc_port = 8080, mc_host = ''127.0.0.1'', mc_verbose = False\<rparr>"
  have 1: "\<forall>av \<in> set ?avs. setting_ok (fold (\<lambda>b. add_arg (bi_arg b)) macro_binders ?b) av" by code_simp
  have 2: "distinct (map (as_long_name \<circ> bi_arg) macro_binders)" by code_simp
  have 3: "\<forall>b \<in> set macro_binders. as_is_required (bi_arg b) \<longrightarrow> arg_name (bi_arg b) \<in> (arg_name \<circ> fst) ` set ?avs"
    by code_simp
  have conv: "convert_int True (- 2147483648) 2147483647 ''9090'' = Ok 9090" by code_simp
  have names: "map (arg_name \<circ> bi_arg) macro_binders = [''port'', ''host'', ''verbose'']" by code_simp
  have "parse_macro_impl (\<lambda>c. []) ?c (int (length ?avs) + 1) (map Some (''app'' # map render_long ?avs)) ?b macro_binders
    = Some (case find (\<lambda>b. bound b (?given b) = None) macro_binders of
        None \<Rightarrow> make_pr_ok (fold (\<lambda>b. the (bound b (?given b))) macro_binders ?c)
      | Some b \<Rightarrow> make_pr_err [\<lparr>pe_code = InvalidValue, pe_context = arg_name (bi_arg b), pe_value = hd (?given b)\<rparr>])"
    by (rule macro_roundtrip [OF refl 1 2 3 refl])
  also have "\<dots> = Some (make_pr_ok \<lparr>mc_port = 9090, mc_host = ''127.0.0.1'', mc_verbose = True\<rparr>)"
    using names by (simp add: macro_binders_def bound_def bind_member_def bind_bool_def member_from_string_def
        conv make_ok_def ARGS_OPT_def ARGS_FLAG_def arg_builder_defs)
  finally have "parse_macro_impl (\<lambda>c. []) ?c 3 (map Some (''app'' # map render_long ?avs)) ?b macro_binders
    = Some (make_pr_ok \<lparr>mc_port = 9090, mc_host = ''127.0.0.1'', mc_verbose = True\<rparr>)" by simp
  moreover have "map render_long ?avs = [''--port=9090'', ''--verbose'']" by code_simp
  ultimately show ?thesis by (intro exI [of _ ?avs] conjI)
qed

end
