(* ===== verification/Math_Util.thy ===== *)
theory Math_Util
  imports Prelude
begin

text \<open>
  The integer helpers of \<^verbatim>\<open>include/fpag/base/math_util.h\<close>, at an arbitrary unsigned width: the
  power-of-two test, the bit-smearing rounding up to a power of two, and the alignment of an
  offset up and down. The alignment is the arithmetic every allocator and ring of the library
  rests on, so its meaning is stated once here on natural numbers.
\<close>

section \<open>Definitions\<close>

definition is_power_of_two :: "'a::len word \<Rightarrow> bool" where
  "is_power_of_two n \<longleftrightarrow> n > 0 \<and> n AND (n - 1) = 0"

definition smear :: "nat \<Rightarrow> 'a::len word \<Rightarrow> 'a word" where
  "smear k v = v OR drop_bit k v"

definition next_power_of_two :: "bool \<Rightarrow> 'a::len word \<Rightarrow> 'a word option" where
  "next_power_of_two dbg v =
     (if v \<le> 1 then Some 1
      else do {
        let v = v - 1;
        let v = smear 8 (smear 4 (smear 2 (smear 1 v)));
        let v = (if LENGTH('a) > 16 then smear 16 v else v);
        let v = (if LENGTH('a) > 32 then smear 32 v else v);
        let v = v + 1;
        fpag_dcheck dbg (is_power_of_two v);
        Some v
      })"

definition round_up :: "bool \<Rightarrow> usize \<Rightarrow> usize \<Rightarrow> usize option" where
  "round_up dbg value alignment = do {
     fpag_dcheck dbg (is_power_of_two alignment);
     let mask = alignment - 1;
     Some ((value + mask) AND NOT mask)
   }"

definition round_down :: "bool \<Rightarrow> usize \<Rightarrow> usize \<Rightarrow> usize option" where
  "round_down dbg value alignment = do {
     fpag_dcheck dbg (is_power_of_two alignment);
     Some (value AND NOT (alignment - 1))
   }"

section \<open>Powers of two\<close>

lemma nat_and_pred_zero:
  "0 < (n::nat) \<Longrightarrow> n AND (n - 1) = 0 \<Longrightarrow> \<exists>k. n = 2 ^ k"
proof (induction n rule: less_induct)
  case (less n)
  show ?case
  proof (cases "even n")
    case True
    then obtain m where m: "n = 2 * m" by blast
    with less.prems have "0 < m" by simp
    then obtain p where p: "m = Suc p" by (cases m) auto
    have "(n AND (n - 1)) div 2 = (n div 2) AND ((n - 1) div 2)"
      by (subst and_rec) simp
    moreover have "(n - 1) div 2 = m - 1" using m p by simp
    ultimately have "m AND (m - 1) = 0" using less.prems m by simp
    with less.IH [of m] m \<open>0 < m\<close> obtain k where "m = 2 ^ k" by auto
    with m have "n = 2 ^ Suc k" by simp
    then show ?thesis by blast
  next
    case False
    then obtain m where m: "n = 2 * m + 1" by (auto elim: oddE)
    have "(n AND (n - 1)) div 2 = (n div 2) AND ((n - 1) div 2)"
      by (subst and_rec) simp
    then have "m = 0" using less.prems m by simp
    then have "n = 2 ^ 0" using m by simp
    then show ?thesis by blast
  qed
qed

lemma is_power_of_twoD:
  assumes "is_power_of_two (n :: 'a::len word)"
  obtains k where "k < LENGTH('a)" "n = 2 ^ k" "unat n = 2 ^ k"
proof -
  from assms have n0: "0 < unat n" by (simp add: is_power_of_two_def word_less_nat_alt)
  have "unat (n - 1) = unat n - 1"
    using n0 by (metis unat_gt_0 unat_minus_one)
  moreover have "unat (n AND (n - 1)) = unat n AND unat (n - 1)"
    by (rule unsigned_and_eq)
  ultimately have "unat n AND (unat n - 1) = 0"
    using assms by (simp add: is_power_of_two_def)
  with n0 obtain k where k: "unat n = 2 ^ k" using nat_and_pred_zero by blast
  have "unat n < 2 ^ LENGTH('a)" by (rule unsigned_less)
  with k have "k < LENGTH('a)" by simp
  moreover have "n = 2 ^ k"
    using k by (rule word_eq_power)
  ultimately show thesis using k that by blast
qed

lemma is_power_of_two_power: "k < LENGTH('a) \<Longrightarrow> is_power_of_two (2 ^ k :: 'a::len word)"
proof -
  assume k: "k < LENGTH('a)"
  have "(2 ^ k :: 'a word) - 1 = mask k" by (simp add: mask_eq_decr_exp)
  moreover have "(2 ^ k :: 'a word) AND mask k = 0"
    by (rule bit_word_eqI) (auto simp: bit_and_iff bit_mask_iff bit_exp_iff)
  moreover have "(2 ^ k :: 'a word) > 0"
    using k by (simp add: word_gt_0)
  ultimately show ?thesis by (simp add: is_power_of_two_def)
qed

lemma is_power_of_two_iff:
  "is_power_of_two (n :: 'a::len word) \<longleftrightarrow> (\<exists>k < LENGTH('a). unat n = 2 ^ k)"
proof
  assume "is_power_of_two n"
  then show "\<exists>k < LENGTH('a). unat n = 2 ^ k" by (rule is_power_of_twoD) blast
next
  assume "\<exists>k < LENGTH('a). unat n = 2 ^ k"
  then obtain k where k: "k < LENGTH('a)" "unat n = 2 ^ k" by blast
  then have "n = 2 ^ k" by (simp add: word_eq_power)
  with k show "is_power_of_two n" by (simp add: is_power_of_two_power)
qed


section \<open>Smearing\<close>

text \<open>
  Each smearing step doubles the distance over which a set bit has been copied downwards.
\<close>

definition smeared :: "nat \<Rightarrow> 'a::len word \<Rightarrow> 'a word \<Rightarrow> bool" where
  "smeared d v w \<longleftrightarrow> (\<forall>i. bit w i \<longleftrightarrow> (\<exists>j < d. bit v (i + j)))"

lemma smeared_refl: "smeared 1 v v"
  by (simp add: smeared_def)

lemma smeared_step:
  assumes "smeared d v w"
  shows "smeared (d + d) v (smear d w)"
proof -
  have "bit (smear d w) i \<longleftrightarrow> (\<exists>j < d. bit v (i + j)) \<or> (\<exists>j < d. bit v (i + d + j))" for i
    using assms by (simp add: smear_def smeared_def bit_or_iff bit_drop_bit_eq add.commute)
  moreover have "(\<exists>j < d. bit v (i + d + j)) \<longleftrightarrow> (\<exists>j < d + d. d \<le> j \<and> bit v (i + j))" for i
    by (metis add.assoc add_less_cancel_left le_add1 le_add_diff_inverse)
  ultimately show ?thesis
    unfolding smeared_def by (metis less_add_same_cancel1 linorder_not_less trans_less_add1)
qed

lemma smeared_steps:
  "smeared 16 v (smear 8 (smear 4 (smear 2 (smear 1 v))))"
proof -
  have "smeared 2 v (smear 1 v)" 
    using smeared_step [OF smeared_refl [of v]] by (simp add: numeral_2_eq_2)
  from smeared_step [OF this] have "smeared 4 v (smear 2 (smear 1 v))" by simp
  from smeared_step [OF this] have "smeared 8 v (smear 4 (smear 2 (smear 1 v)))" by simp
  from smeared_step [OF this] show ?thesis by simp
qed

lemma smeared_full_mask:
  assumes "smeared d (v :: 'a::len word) w" and "LENGTH('a) \<le> d" and "unat v < 2 ^ m"
    and "2 ^ m \<le> 2 * unat v" and "m \<le> LENGTH('a)"
  shows "w = mask m"
proof (rule bit_word_eqI)
  fix i assume i: "i < LENGTH('a)"
  from assms(3,4) have v0: "unat v > 0" "m > 0" by (cases m; auto)+
  have top: "bit v (m - 1)"
  proof -
    obtain p where p: "m = Suc p" using v0 by (cases m) auto
    have "unat v div 2 ^ p = 1" using assms(3,4) p by (simp add: Suc_le_eq div_nat_eqI)
    then have "bit (unat v) p" by (simp add: bit_iff_odd)
    then show ?thesis using p by (simp add: bit_unsigned_iff)
  qed
  have above: "\<not> bit v k" if "m \<le> k" for k
  proof
    assume "bit v k"
    then have "bit (unat v) k" by (simp add: bit_unsigned_iff bit_imp_le_length)
    then have "odd (unat v div 2 ^ k)" by (simp add: bit_iff_odd)
    moreover have "unat v div 2 ^ k = 0"
      using assms(3) that by (metis div_less nat_less_le less_le_trans one_le_numeral power_increasing)
    ultimately show False by simp
  qed
  have "bit w i \<longleftrightarrow> (\<exists>j < d. bit v (i + j))" using assms(1) by (simp add: smeared_def)
  also have "\<dots> \<longleftrightarrow> i < m"
  proof
    assume "\<exists>j < d. bit v (i + j)"
    then obtain j where "bit v (i + j)" by blast
    with above [of "i + j"] have "i + j < m" by (metis not_le)
    then show "i < m" by simp
  next
    assume "i < m"
    then have "i + (m - 1 - i) = m - 1" "m - 1 - i < d" using assms(2,5) by simp_all
    with top show "\<exists>j < d. bit v (i + j)" by metis
  qed
  finally show "bit w i \<longleftrightarrow> bit (mask m :: 'a word) i" using i by (simp add: bit_mask_iff)
qed

section \<open>Rounding up to a power of two\<close>

lemma bit_width_exists:
  assumes "0 < (u::nat)"
  obtains m where "u < 2 ^ m" "2 ^ m \<le> 2 * u"
proof -
  obtain p where "2 ^ p \<le> u" "u < 2 ^ Suc p"
    using assms ex_power_ivl1 [of 2 u] by auto
  then show thesis using that [of "Suc p"] by simp
qed

lemma smear_all:
  assumes "0 < unat (u :: 'a::len word)" and "LENGTH('a) \<le> 64"
    and "unat u < 2 ^ m" and "2 ^ m \<le> 2 * unat u"
  shows "(let w = smear 8 (smear 4 (smear 2 (smear 1 u)));
              w = (if LENGTH('a) > 16 then smear 16 w else w)
          in if LENGTH('a) > 32 then smear 32 w else w) = mask m"
proof -
  let ?w4 = "smear 8 (smear 4 (smear 2 (smear 1 u)))"
  have w4: "smeared 16 u ?w4" by (rule smeared_steps)
  have w5: "smeared 32 u (smear 16 ?w4)" using smeared_step [OF w4] by simp
  have w6: "smeared 64 u (smear 32 (smear 16 ?w4))" using smeared_step [OF w5] by simp
  have "(2::nat) ^ m \<le> 2 * unat u" by (rule assms(4))
  also have "\<dots> < 2 * 2 ^ LENGTH('a)" using unat_lt2p [of u] by simp
  finally have "m < Suc LENGTH('a)" by (metis power_Suc power_less_imp_less_exp one_less_numeral_iff semiring_norm(76))
  then have m: "m \<le> LENGTH('a)" by simp
  consider "LENGTH('a) \<le> 16" | "16 < LENGTH('a)" "LENGTH('a) \<le> 32" | "32 < LENGTH('a)" by linarith
  then show ?thesis
  proof cases
    case 1 then show ?thesis using smeared_full_mask [OF w4 _ assms(3,4) m] by (simp add: Let_def)
  next
    case 2 then show ?thesis using smeared_full_mask [OF w5 _ assms(3,4) m] by (simp add: Let_def)
  next
    case 3 then show ?thesis using smeared_full_mask [OF w6 _ assms(3,4) m] assms(2) by (simp add: Let_def)
  qed
qed

lemma next_power_of_two_eq:
  assumes "1 < (v :: 'a::len word)" and "LENGTH('a) \<le> 64"
    and "unat v \<le> 2 ^ m" and "2 ^ m \<le> 2 * (unat v - 1)"
  shows "next_power_of_two dbg v = do { fpag_dcheck dbg (is_power_of_two (2 ^ m :: 'a word)); Some (2 ^ m) }"
proof -
  have v1: "1 < unat v" using assms(1) by (simp add: word_less_nat_alt)
  then have u: "unat (v - 1) = unat v - 1" by (metis unat_minus_one unat_0 not_one_less_zero)
  have "mask m + (1 :: 'a word) = 2 ^ m" by (simp add: mask_eq_decr_exp)
  moreover have "(let w = smear 8 (smear 4 (smear 2 (smear 1 (v - 1))));
              w = (if LENGTH('a) > 16 then smear 16 w else w)
          in if LENGTH('a) > 32 then smear 32 w else w) = mask m"
    by (rule smear_all) (use assms v1 u in simp_all)
  moreover have "\<not> v \<le> 1" using assms(1) by simp
  ultimately show ?thesis by (simp add: next_power_of_two_def Let_def)
qed

lemma next_power_of_two_cases:
  assumes "1 < (v :: 'a::len word)" and "LENGTH('a) \<le> 64"
  obtains m where "m \<le> LENGTH('a)" "unat v \<le> 2 ^ m" "2 ^ m \<le> 2 * (unat v - 1)"
    "next_power_of_two dbg v = do { fpag_dcheck dbg (is_power_of_two (2 ^ m :: 'a word)); Some (2 ^ m) }"
proof -
  have v1: "1 < unat v" using assms(1) by (simp add: word_less_nat_alt)
  then obtain m where m: "unat v - 1 < 2 ^ m" "2 ^ m \<le> 2 * (unat v - 1)"
    using bit_width_exists [of "unat v - 1"] by auto
  then have le: "unat v \<le> 2 ^ m" by simp
  have "(2::nat) ^ m < 2 ^ Suc LENGTH('a)"
    using m(2) unat_lt2p [of v] v1 by (simp only: power_Suc)
  then have "m < Suc LENGTH('a)" by (rule power_less_imp_less_exp [rotated]) simp
  then have "m \<le> LENGTH('a)" by simp
  with le m(2) show thesis using next_power_of_two_eq [OF assms le m(2)] that by blast
qed

section \<open>Alignment\<close>

lemma round_up_eq:
  assumes "is_power_of_two a"
  shows "round_up dbg v a = Some ((v + (a - 1)) AND NOT (a - 1))"
  using assms by (simp add: round_up_def Let_def)

lemma pow2_pred_mask: "unat (a :: 'a::len word) = 2 ^ k \<Longrightarrow> a - 1 = mask k"
  by (simp add: word_eq_power mask_eq_decr_exp)

lemma unat_round_up:
  assumes "is_power_of_two a" and "round_up dbg v a = Some r"
  shows "unat r = (unat v + (unat a - 1)) mod 2 ^ 64 div unat a * unat a"
proof -
  obtain k where k: "unat a = 2 ^ k" "k < 64"
    using assms(1) by (auto simp: is_power_of_two_iff)
  have "unat (mask k :: usize) = 2 ^ k - 1"
    using k by (simp add: unat_mask_lt)
  moreover have "r = (v + mask k) AND NOT (mask k)"
    using assms pow2_pred_mask [OF k(1)] by (simp add: round_up_eq)
  ultimately show ?thesis
    by (simp only: unat_and_not_mask unat_word_ariths k(1)) simp
qed

text \<open>The reference meaning of rounding up, on natural numbers.\<close>

definition ceil_to :: "nat \<Rightarrow> nat \<Rightarrow> nat" where
  "ceil_to v a = (v + (a - 1)) div a * a"

lemma ceil_to_props:
  assumes "0 < a"
  shows "a dvd ceil_to v a" "v \<le> ceil_to v a" "ceil_to v a < v + a"
proof -
  show "a dvd ceil_to v a" by (simp add: ceil_to_def)
  have "(v + (a - 1)) div a * a + (v + (a - 1)) mod a = v + (a - 1)" by simp
  moreover have "(v + (a - 1)) mod a < a" using assms by simp
  ultimately show "v \<le> ceil_to v a" "ceil_to v a < v + a"
    using assms unfolding ceil_to_def by linarith+
qed

lemma ceil_to_least: "0 < a \<Longrightarrow> a dvd w \<Longrightarrow> v \<le> w \<Longrightarrow> ceil_to v a \<le> w"
proof -
  assume a: "0 < a" "a dvd w" "v \<le> w"
  then obtain q where q: "w = a * q" by blast
  have "v + (a - 1) < a * Suc q" using a q by simp
  then have "(v + (a - 1)) div a < Suc q"
    by (simp only: mult.commute [of a]) (rule less_mult_imp_div_less)
  then have "(v + (a - 1)) div a \<le> q" by simp
  then have "(v + (a - 1)) div a * a \<le> q * a" by (rule mult_le_mono1)
  then show ?thesis using q by (simp only: ceil_to_def mult.commute)
qed

lemma unat_round_up_ceil:
  assumes "is_power_of_two a" and "round_up dbg v a = Some r" and "unat v + unat a \<le> 2 ^ 64"
  shows "unat r = ceil_to (unat v) (unat a)"
proof -
  have "0 < unat a" using assms(1) by (auto simp: is_power_of_two_iff)
  with assms(3) have "unat v + (unat a - 1) < 2 ^ 64" by linarith
  then show ?thesis using unat_round_up [OF assms(1,2)] by (simp add: ceil_to_def)
qed

section \<open>Properties\<close>

text \<open>
  For a value up to the top power of two of its width, \<^verbatim>\<open>next_power_of_two\<close> passes its own
  debug assertion and returns the least power of two that is at least the value.
\<close>

lemma next_power_of_two_least:
  assumes "unat (v :: 'a::len word) \<le> 2 ^ (LENGTH('a) - 1)" and "LENGTH('a) \<le> 64"
  shows "\<exists>r k. next_power_of_two dbg v = Some r \<and> unat r = 2 ^ k \<and> unat v \<le> 2 ^ k
    \<and> (\<forall>j. unat v \<le> 2 ^ j \<longrightarrow> unat r \<le> 2 ^ j)"
proof (cases "v \<le> 1")
  case True
  then have "next_power_of_two dbg v = Some 1" by (simp add: next_power_of_two_def)
  moreover have "unat v \<le> 1" using True by (simp add: word_le_nat_alt)
  ultimately show ?thesis by (intro exI [of _ 1] exI [of _ 0]) simp
next
  case False
  then have v1: "1 < v" by simp
  then obtain m where m: "m \<le> LENGTH('a)" "unat v \<le> 2 ^ m" "2 ^ m \<le> 2 * (unat v - 1)"
    and eq: "next_power_of_two dbg v = do { fpag_dcheck dbg (is_power_of_two (2 ^ m :: 'a word)); Some (2 ^ m) }"
    by (rule next_power_of_two_cases [OF _ assms(2)])
  have "m \<noteq> LENGTH('a)"
  proof
    assume "m = LENGTH('a)"
    then have "(2::nat) ^ m = 2 * 2 ^ (LENGTH('a) - 1)"
      by (metis len_gt_0 power_eq_if less_numeral_extra(3))
    then show False using m(3) assms(1) v1 by (simp add: word_less_nat_alt)
  qed
  with m(1) have ml: "m < LENGTH('a)" by simp
  then have r: "unat (2 ^ m :: 'a word) = 2 ^ m" by (simp add: unat_power_lt)
  have "2 ^ m \<le> (2::nat) ^ j" if "unat v \<le> 2 ^ j" for j
  proof (rule ccontr)
    assume "\<not> 2 ^ m \<le> (2::nat) ^ j"
    then have "Suc j \<le> m" by (metis linorder_not_le not_less_eq_eq one_le_numeral power_increasing)
    then have "2 * 2 ^ j \<le> (2::nat) ^ m" by (metis one_le_numeral power_Suc power_increasing)
    then show False using that m(3) v1 by (simp add: word_less_nat_alt)
  qed
  then show ?thesis using eq ml r m(2) is_power_of_two_power [OF ml]
    by (intro exI [of _ "2 ^ m"] exI [of _ m]) simp
qed

lemma next_power_of_two_least_witness:
  "\<exists>r k. next_power_of_two True (4097 :: 32 word) = Some r \<and> unat r = 2 ^ k \<and> 4097 \<le> (2::nat) ^ k
    \<and> (\<forall>j. (4097::nat) \<le> 2 ^ j \<longrightarrow> unat r \<le> 2 ^ j)"
  using next_power_of_two_least [of "4097 :: 32 word" True] by simp

text \<open>
  \<^verbatim>\<open>round_up\<close> with a power-of-two alignment, away from the end of the address range, returns
  in both builds the least multiple of the alignment that is not below the value.
\<close>

lemma round_up_least_multiple:
  assumes "is_power_of_two a" and "unat v + unat a \<le> 2 ^ 64"
  shows "\<exists>r. round_up dbg v a = Some r \<and> unat a dvd unat r \<and> unat v \<le> unat r
    \<and> unat r < unat v + unat a \<and> (\<forall>w. unat a dvd w \<longrightarrow> unat v \<le> w \<longrightarrow> unat r \<le> w)"
proof -
  have "0 < unat a" using assms(1) by (auto simp: is_power_of_two_iff)
  moreover obtain r where r: "round_up dbg v a = Some r" using round_up_eq [OF assms(1)] by blast
  moreover have "unat r = ceil_to (unat v) (unat a)" by (rule unat_round_up_ceil [OF assms(1) r assms(2)])
  ultimately show ?thesis using ceil_to_props [of "unat a" "unat v"] ceil_to_least by simp
qed

lemma round_up_least_multiple_witness:
  "\<exists>r. round_up True 4097 4096 = Some r \<and> (4096::nat) dvd unat r \<and> 4097 \<le> unat r
    \<and> unat r < 8193 \<and> (\<forall>w. (4096::nat) dvd w \<longrightarrow> 4097 \<le> w \<longrightarrow> unat r \<le> w)"
proof -
  have "is_power_of_two (4096 :: usize)" by (simp add: is_power_of_two_def)
  from round_up_least_multiple [OF this, of 4097 True] show ?thesis by simp
qed

end
