(* ===== verification/Page_Allocator.thy ===== *)
theory Page_Allocator
  imports Math_Util
begin

text \<open>
  Virtual memory as \<^verbatim>\<open>src/mem/page_allocator.cc\<close> uses it on Linux. The kernel is not part of the
  repository: the record \<open>os\<close> is what it answers to each call the code makes (the address an
  anonymous or huge-page mapping gets, whether \<^verbatim>\<open>mprotect\<close>, \<^verbatim>\<open>ftruncate\<close> and a fixed mapping of a
  file succeed, the descriptor of a memory file, the page size), and \<open>os_ok\<close> states the documented behaviour the library relies on. The state \<open>vm\<close> records which
  address ranges are mapped, which of them are readable and writable, and how many descriptors the
  allocator holds open, so that a client's promise
  to hand out only usable memory is a statement about it. Addresses are 64-bit words and the null
  pointer is \<open>0\<close>.
\<close>

section \<open>Definitions\<close>

record os =
  os_mmap :: "usize \<Rightarrow> usize option"
  os_mprotect :: "usize \<Rightarrow> usize \<Rightarrow> bool"
  os_mmap_huge :: "usize \<Rightarrow> usize option"
  os_memfd_create :: "int option"
  os_ftruncate :: "int \<Rightarrow> usize \<Rightarrow> bool"
  os_mmap_fixed :: "int \<Rightarrow> usize \<Rightarrow> usize \<Rightarrow> bool"
  os_page_size :: usize

record vm =
  vm_mapped :: "(usize \<times> usize) list"
  vm_writable :: "(usize \<times> usize) list"
  vm_fds :: nat

definition page_size :: "os \<Rightarrow> usize" where
  "page_size os = os_page_size os"

definition huge_page_size :: usize where
  "huge_page_size = 2 * 1024 * 1024"

definition mmap_alignment :: "os \<Rightarrow> usize" where
  "mmap_alignment os = os_page_size os"

definition is_huge_page_aligned_size :: "usize \<Rightarrow> bool" where
  "is_huge_page_aligned_size sz \<longleftrightarrow> sz mod huge_page_size = 0"

definition is_mmap_aligned_size :: "os \<Rightarrow> usize \<Rightarrow> bool" where
  "is_mmap_aligned_size os sz \<longleftrightarrow> sz mod mmap_alignment os = 0"

definition is_page_aligned_ptr :: "os \<Rightarrow> usize \<Rightarrow> bool" where
  "is_page_aligned_ptr os ptr \<longleftrightarrow> ptr mod page_size os = 0"

definition is_page_aligned_size :: "os \<Rightarrow> usize \<Rightarrow> bool" where
  "is_page_aligned_size os sz \<longleftrightarrow> sz mod page_size os = 0"

definition reserve_pages :: "os \<Rightarrow> usize \<Rightarrow> vm \<Rightarrow> (usize \<times> vm) option" where
  "reserve_pages os sz v = do {
     fpag_check (is_page_aligned_size os sz);
     (case os_mmap os sz of
        Some ptr \<Rightarrow> Some (ptr, v\<lparr>vm_mapped := (ptr, sz) # vm_mapped v\<rparr>)
      | None \<Rightarrow> Some (0, v))
   }"

definition commit_pages :: "bool \<Rightarrow> os \<Rightarrow> usize \<Rightarrow> usize \<Rightarrow> vm \<Rightarrow> (bool \<times> vm) option" where
  "commit_pages dbg os ptr sz v = do {
     fpag_dcheck dbg (ptr \<noteq> 0);
     fpag_check (is_page_aligned_ptr os ptr);
     fpag_check (is_page_aligned_size os sz);
     (if os_mprotect os ptr sz then Some (True, v\<lparr>vm_writable := (ptr, sz) # vm_writable v\<rparr>)
      else Some (False, v))
   }"

definition outside :: "usize \<Rightarrow> usize \<Rightarrow> usize \<times> usize \<Rightarrow> bool" where
  "outside ptr sz r \<longleftrightarrow> \<not> (unat ptr \<le> unat (fst r) \<and> unat (fst r) < unat ptr + unat sz)"

definition munmap :: "usize \<Rightarrow> usize \<Rightarrow> vm \<Rightarrow> vm" where
  "munmap ptr sz v = v\<lparr>vm_mapped := filter (outside ptr sz) (vm_mapped v),
     vm_writable := filter (outside ptr sz) (vm_writable v)\<rparr>"

definition decommit_pages :: "bool \<Rightarrow> os \<Rightarrow> usize \<Rightarrow> usize \<Rightarrow> vm \<Rightarrow> vm option" where
  "decommit_pages dbg os ptr sz v = do {
     fpag_dcheck dbg (ptr \<noteq> 0);
     fpag_check (is_page_aligned_ptr os ptr);
     fpag_check (is_page_aligned_size os sz);
     Some (v\<lparr>vm_writable := filter (outside ptr sz) (vm_writable v)\<rparr>)
   }"

definition free_pages :: "bool \<Rightarrow> os \<Rightarrow> usize \<Rightarrow> usize \<Rightarrow> vm \<Rightarrow> vm option" where
  "free_pages dbg os ptr sz v = do {
     fpag_dcheck dbg (ptr \<noteq> 0);
     fpag_check (is_page_aligned_ptr os ptr);
     fpag_check (is_page_aligned_size os sz);
     Some (munmap ptr sz v)
   }"

definition allocate_pages :: "bool \<Rightarrow> os \<Rightarrow> usize \<Rightarrow> vm \<Rightarrow> (usize \<times> vm) option" where
  "allocate_pages dbg os sz v = do {
     fpag_check (is_page_aligned_size os sz);
     (ptr, v) \<leftarrow> reserve_pages os sz v;
     (if ptr \<noteq> 0 then do {
        (ok, v) \<leftarrow> commit_pages dbg os ptr sz v;
        (if ok then Some (ptr, v)
         else do { v \<leftarrow> free_pages dbg os ptr sz v; Some (0, v) })
      } else Some (0, v))
   }"

definition allocate_huge_pages :: "bool \<Rightarrow> os \<Rightarrow> usize \<Rightarrow> vm \<Rightarrow> (usize \<times> vm) option" where
  "allocate_huge_pages dbg os sz v = do {
     fpag_check (is_huge_page_aligned_size sz);
     (case os_mmap_huge os sz of
        Some ptr \<Rightarrow> Some (ptr, v\<lparr>vm_mapped := (ptr, sz) # vm_mapped v, vm_writable := (ptr, sz) # vm_writable v\<rparr>)
      | None \<Rightarrow> allocate_pages dbg os sz v)
   }"

definition close_fd :: "vm \<Rightarrow> vm" where
  "close_fd v = v\<lparr>vm_fds := vm_fds v - 1\<rparr>"

definition map_fixed :: "os \<Rightarrow> int \<Rightarrow> usize \<Rightarrow> usize \<Rightarrow> vm \<Rightarrow> bool \<times> vm" where
  "map_fixed os fd ptr sz v =
     (if os_mmap_fixed os fd ptr sz then (True, v\<lparr>vm_writable := (ptr, sz) # vm_writable v\<rparr>)
      else (False, v))"

definition allocate_aliased_pages :: "os \<Rightarrow> usize \<Rightarrow> vm \<Rightarrow> (usize \<times> vm) option" where
  "allocate_aliased_pages os sz v = do {
     fpag_check (is_page_aligned_size os sz);
     (case os_memfd_create os of
        None \<Rightarrow> Some (0, v)
      | Some fd \<Rightarrow>
          let v = v\<lparr>vm_fds := vm_fds v + 1\<rparr> in
          if \<not> os_ftruncate os fd sz then Some (0, close_fd v)
          else
            (case os_mmap os (sz * 2) of
               None \<Rightarrow> Some (0, close_fd v)
             | Some base \<Rightarrow>
                 let v = v\<lparr>vm_mapped := (base, sz * 2) # vm_mapped v\<rparr>;
                     (view1, v) = map_fixed os fd base sz v;
                     (view2, v) = map_fixed os fd (base + sz) sz v;
                     v = close_fd v
                 in if \<not> view1 \<or> \<not> view2 then Some (0, munmap base (sz * 2) v)
                    else Some (base, v)))
   }"

definition free_aliased_pages :: "bool \<Rightarrow> os \<Rightarrow> usize \<Rightarrow> usize \<Rightarrow> vm \<Rightarrow> vm option" where
  "free_aliased_pages dbg os ptr sz v = do {
     fpag_dcheck dbg (ptr \<noteq> 0);
     fpag_check (is_page_aligned_ptr os ptr);
     fpag_check (is_page_aligned_size os sz);
     Some (munmap ptr (sz * 2) v)
   }"

section \<open>What the kernel promises, and what a client may touch\<close>

definition os_ok :: "os \<Rightarrow> bool" where
  "os_ok os \<longleftrightarrow> is_power_of_two (os_page_size os)
     \<and> (\<forall>n p. os_mmap os n = Some p \<longrightarrow> n \<noteq> 0 \<and> p \<noteq> 0 \<and> p mod os_page_size os = 0 \<and> unat p + unat n < 2 ^ 64)"

definition writable :: "vm \<Rightarrow> nat \<Rightarrow> bool" where
  "writable v a \<longleftrightarrow> list_ex (\<lambda>(p, n). unat p \<le> a \<and> a < unat p + unat n) (vm_writable v)"

definition writable_range :: "vm \<Rightarrow> nat \<Rightarrow> nat \<Rightarrow> bool" where
  "writable_range v a n \<longleftrightarrow> (\<forall>x. a \<le> x \<and> x < a + n \<longrightarrow> writable v x)"

lemma writable_add:
  "writable (v\<lparr>vm_writable := (p, n) # vm_writable v\<rparr>) a
     \<longleftrightarrow> unat p \<le> a \<and> a < unat p + unat n \<or> writable v a"
  by (simp add: writable_def)

lemma writable_range_mono:
  "writable_range v a n \<Longrightarrow> a \<le> b \<Longrightarrow> b + m \<le> a + n \<Longrightarrow> writable_range v b m"
  by (simp add: writable_range_def)

lemma writable_range_extend:
  assumes "writable_range v a n" "a + n = unat p"
  shows "writable_range (v\<lparr>vm_writable := (p, k) # vm_writable v\<rparr>) a (n + unat k)"
  using assms by (auto simp: writable_range_def writable_add)

lemma unat_mod: "unat (x mod y :: 'a::len word) = unat x mod unat y"
  by (rule unat_mod_distrib)

lemma word_mod_dvd: "x mod (y :: 'a::len word) = 0 \<longleftrightarrow> unat y dvd unat x"
  by (metis mod_eq_0_iff_dvd unat_mod unsigned_0 unat_eq_zero)

lemma aligned_ptr_iff: "is_page_aligned_ptr os p \<longleftrightarrow> unat (os_page_size os) dvd unat p"
  by (simp add: is_page_aligned_ptr_def page_size_def word_mod_dvd)

lemma aligned_size_iff: "is_page_aligned_size os n \<longleftrightarrow> unat (os_page_size os) dvd unat n"
  by (simp add: is_page_aligned_size_def page_size_def word_mod_dvd)

lemma os_page_pos: "os_ok os \<Longrightarrow> 0 < unat (os_page_size os)"
  by (auto simp: os_ok_def is_power_of_two_iff)

lemma commit_pages_ok:
  assumes "p \<noteq> 0" "unat (os_page_size os) dvd unat p" "unat (os_page_size os) dvd unat n"
  shows "commit_pages dbg os p n v =
    (if os_mprotect os p n then Some (True, v\<lparr>vm_writable := (p, n) # vm_writable v\<rparr>) else Some (False, v))"
  using assms by (simp add: commit_pages_def aligned_ptr_iff aligned_size_iff)

lemma munmap_fresh:
  assumes "sz \<noteq> 0" "\<forall>r \<in> set ms. outside p sz r"
  shows "filter (outside p sz) ((p, sz) # ms) = ms"
proof -
  have "\<not> outside p sz (p, sz)" using assms(1) by (auto simp: outside_def unat_gt_0)
  then show ?thesis using assms(2) by (simp add: filter_id_conv)
qed

lemma allocate_aliased_cases:
  assumes "allocate_aliased_pages os sz v = Some (p, v')" "os_ok os"
    and "\<forall>r \<in> set (vm_mapped v). \<forall>q. os_mmap os (sz * 2) = Some q \<longrightarrow> outside q (sz * 2) r"
  shows "vm_fds v' = vm_fds v \<and> (p = 0 \<and> vm_mapped v' = vm_mapped v
    \<or> p \<noteq> 0 \<and> vm_mapped v' = (p, sz * 2) # vm_mapped v
      \<and> vm_writable v' = (p + sz, sz) # (p, sz) # vm_writable v)"
proof (cases "os_mmap os (sz * 2)")
  case None
  then show ?thesis using assms(1)
    by (auto simp: allocate_aliased_pages_def checks close_fd_def Let_def split: option.splits if_splits)
next
  case (Some q)
  then have q: "q \<noteq> 0" "sz * 2 \<noteq> 0" using assms(2) by (auto simp: os_ok_def)
  have f: "filter (outside q (sz * 2)) ((q, sz * 2) # vm_mapped v) = vm_mapped v"
    using munmap_fresh q(2) assms(3) Some by blast
  show ?thesis using assms(1) q(1) Some f
    by (auto simp: allocate_aliased_pages_def map_fixed_def munmap_def checks close_fd_def Let_def
        simp del: filter.simps split: option.splits if_splits)
qed

lemma allocate_pages_null:
  assumes "allocate_pages dbg os sz v = Some (0, v')" "os_ok os"
    and "\<forall>r \<in> set (vm_mapped v). \<forall>q. os_mmap os sz = Some q \<longrightarrow> outside q sz r"
  shows "vm_mapped v' = vm_mapped v \<and> vm_fds v' = vm_fds v"
proof (cases "os_mmap os sz")
  case None
  then show ?thesis using assms(1) by (auto simp: allocate_pages_def reserve_pages_def checks)
next
  case (Some q)
  then have q: "q \<noteq> 0" "sz \<noteq> 0" using assms(2) by (auto simp: os_ok_def)
  have f: "filter (outside q sz) ((q, sz) # vm_mapped v) = vm_mapped v"
    using munmap_fresh q(2) assms(3) Some by blast
  show ?thesis
    using assms(1) Some q(1) f
    by (auto simp: allocate_pages_def reserve_pages_def commit_pages_def free_pages_def munmap_def checks
        simp del: filter.simps split: if_splits)
qed

definition sample_os :: os where
  "sample_os = \<lparr>os_mmap = (\<lambda>n. if n \<noteq> 0 \<and> n \<le> 65536 then Some 65536 else None), os_mprotect = (\<lambda>p n. True),
     os_mmap_huge = (\<lambda>n. None), os_memfd_create = Some 3, os_ftruncate = (\<lambda>fd n. True),
     os_mmap_fixed = (\<lambda>fd p n. True), os_page_size = 4096\<rparr>"

lemma sample_os_ok: "os_ok sample_os"
  by (auto simp: os_ok_def sample_os_def is_power_of_two_def word_le_nat_alt split: if_splits)

lemmas alloc_defs = allocate_aliased_pages_def sample_os_def map_fixed_def munmap_def close_fd_def
  outside_def is_page_aligned_size_def page_size_def

section \<open>Properties\<close>

text \<open>
  C36. Page allocation cleans up after itself: whatever the kernel refuses, a null result leaves the
  set of mapped ranges as it was, no call leaves a descriptor open, and a non-null result of the
  aliased allocation is a mapping of twice the size asked for whose two halves are both writable.
\<close>

theorem page_allocation_no_leak:
  assumes "os_ok os"
    and "\<forall>r \<in> set (vm_mapped v). \<forall>n q. os_mmap os n = Some q \<longrightarrow> outside q n r"
  shows "(allocate_pages dbg os sz v = Some (0, v1) \<longrightarrow> vm_mapped v1 = vm_mapped v \<and> vm_fds v1 = vm_fds v)
    \<and> (allocate_aliased_pages os sz v = Some (p, v2) \<longrightarrow> vm_fds v2 = vm_fds v
        \<and> (if p = 0 then vm_mapped v2 = vm_mapped v
           else vm_mapped v2 = (p, sz * 2) # vm_mapped v
             \<and> vm_writable v2 = (p + sz, sz) # (p, sz) # vm_writable v))"
  using allocate_pages_null allocate_aliased_cases assms by (metis (no_types, lifting))

theorem page_allocation_no_leak_witness:
  "allocate_aliased_pages (sample_os\<lparr>os_mmap_fixed := (\<lambda>fd p n. p = 65536)\<rparr>) 4096
       \<lparr>vm_mapped = [(4096, 4096)], vm_writable = [], vm_fds = 1\<rparr>
     = Some (0, \<lparr>vm_mapped = [(4096, 4096)], vm_writable = [], vm_fds = 1\<rparr>)
   \<and> (\<exists>v2. allocate_aliased_pages sample_os 4096 \<lparr>vm_mapped = [(4096, 4096)], vm_writable = [], vm_fds = 1\<rparr>
        = Some (65536, v2) \<and> vm_fds v2 = 1 \<and> vm_mapped v2 = [(65536, 8192), (4096, 4096)])"
proof -
  let ?v = "\<lparr>vm_mapped = [(4096, 4096)], vm_writable = [], vm_fds = 1\<rparr> :: vm"
  have d: "\<forall>r \<in> set (vm_mapped ?v). \<forall>n q. os_mmap sample_os n = Some q \<longrightarrow> outside q n r"
    by (simp add: sample_os_def outside_def)
  have e: "allocate_aliased_pages sample_os 4096 ?v
    = Some (65536, \<lparr>vm_mapped = [(65536, 8192), (4096, 4096)],
                   vm_writable = [(69632, 4096), (65536, 4096)], vm_fds = 1\<rparr>)"
    by (simp add: alloc_defs)
  have "allocate_aliased_pages (sample_os\<lparr>os_mmap_fixed := (\<lambda>fd p n. p = 65536)\<rparr>) 4096 ?v = Some (0, ?v)"
    by (simp add: alloc_defs)
  then show ?thesis
    using page_allocation_no_leak [OF sample_os_ok d, of True 4096] e by auto
qed

end
