(* ===== verification/Spsc_Queue.thy ===== *)
theory Spsc_Queue
  imports Page_Allocator
begin

text \<open>
  \<^verbatim>\<open>container::SpscQueue\<close> (\<^verbatim>\<open>include/fpag/container/spsc_queue.h\<close>, \<^verbatim>\<open>src/container/spsc_queue.cc\<close>): a
  ring of bytes between one producer and one consumer. The head and tail indices are 64-bit words
  that only grow and wrap; the buffer is mapped twice in a row, so an index of the second copy reads
  the first. The bytes of the ring are the list \<open>q_ring\<close>, and a copy to or from the address
  \<open>q_data + i\<close> touches the cells \<open>(i + k) mod capacity\<close>.
\<close>

section \<open>Definitions\<close>

datatype mode = Drop | Block

datatype dequeue_status = DequeueOk | Empty

datatype enqueue_status = EnqueueOk | Dropped

record spsc =
  q_data :: usize
  q_capacity :: usize
  q_mode :: mode
  q_dropped_count :: usize
  q_blocked_count :: usize
  q_head :: usize
  q_head_cache :: usize
  q_tail :: usize
  q_tail_cache :: usize
  q_ring :: "u8 list"

definition MAX_CAPACITY :: usize where
  "MAX_CAPACITY = push_bit 35 1"

definition empty_spsc :: spsc where
  "empty_spsc = \<lparr>q_data = 0, q_capacity = 0, q_mode = Drop, q_dropped_count = 0, q_blocked_count = 0,
     q_head = 0, q_head_cache = 0, q_tail = 0, q_tail_cache = 0, q_ring = []\<rparr>"

definition default_capacity :: "bool \<Rightarrow> os \<Rightarrow> usize option" where
  "default_capacity dbg os = next_power_of_two dbg (page_size os)"

definition spsc_init :: "bool \<Rightarrow> os \<Rightarrow> usize \<Rightarrow> mode \<Rightarrow> spsc \<Rightarrow> vm \<Rightarrow> (spsc \<times> vm) option" where
  "spsc_init dbg os capacity mode q v = do {
     fpag_dcheck dbg (q_data q = 0);
     let q = q\<lparr>q_capacity := capacity\<rparr>;
     fpag_check (is_power_of_two (q_capacity q));
     fpag_check (q_capacity q mod page_size os = 0);
     fpag_check (q_capacity q \<le> MAX_CAPACITY);
     let q = q\<lparr>q_mode := mode\<rparr>;
     (data, v) \<leftarrow> allocate_aliased_pages os (q_capacity q) v;
     fpag_check (data \<noteq> 0);
     fpag_dcheck dbg (data mod 8 = 0);
     Some (q\<lparr>q_data := data, q_ring := replicate (unat (q_capacity q)) 0\<rparr>, v)
   }"

definition spsc_reset :: "bool \<Rightarrow> os \<Rightarrow> spsc \<Rightarrow> vm \<Rightarrow> (spsc \<times> vm) option" where
  "spsc_reset dbg os q v = do {
     (q, v) \<leftarrow> (if q_data q \<noteq> 0 then do {
                v \<leftarrow> free_aliased_pages dbg os (q_data q) (q_capacity q) v;
                Some (q\<lparr>q_data := 0, q_ring := []\<rparr>, v)
              } else Some (q, v));
     Some (q\<lparr>q_capacity := 0, q_mode := Drop, q_head := 0, q_head_cache := 0, q_tail := 0, q_tail_cache := 0\<rparr>, v)
   }"

definition spsc_move :: "spsc \<Rightarrow> spsc \<times> spsc" where
  "spsc_move other = (other, empty_spsc)"

definition spsc_move_assign :: "bool \<Rightarrow> os \<Rightarrow> spsc \<Rightarrow> spsc \<Rightarrow> vm \<Rightarrow> (spsc \<times> spsc \<times> vm) option" where
  "spsc_move_assign dbg os self other v = do {
     (self, v) \<leftarrow> spsc_reset dbg os self v;
     let (self, other) = spsc_move other;
     Some (self, other, v)
   }"

definition capacity_mask :: "spsc \<Rightarrow> usize" where
  "capacity_mask q = q_capacity q - 1"

definition spsc_size :: "spsc \<Rightarrow> usize" where
  "spsc_size q = q_tail q - q_head q"

definition spsc_available :: "spsc \<Rightarrow> usize" where
  "spsc_available q = q_capacity q - spsc_size q"

definition size_consumer :: "spsc \<Rightarrow> usize" where
  "size_consumer q = q_tail q - q_head_cache q"

definition size_producer :: "usize \<Rightarrow> spsc \<Rightarrow> usize" where
  "size_producer head q = q_tail_cache q - head"

definition available_producer :: "usize \<Rightarrow> spsc \<Rightarrow> usize" where
  "available_producer head q = q_capacity q - size_producer head q"

text \<open>
  The spin loop of a blocked producer reads the head again and again: \<open>heads\<close> are the values it
  reads, and \<open>None\<close> means that none of them left room, so the call has not returned.
\<close>

fun wait_for_space_producer :: "usize \<Rightarrow> usize list \<Rightarrow> spsc \<Rightarrow> unit option" where
  "wait_for_space_producer sz [] q = None"
| "wait_for_space_producer sz (head # heads) q =
     (if available_producer head q < sz then wait_for_space_producer sz heads q else Some ())"

definition ring_index :: "usize \<Rightarrow> spsc \<Rightarrow> usize" where
  "ring_index idx q = and idx (capacity_mask q)"

fun ring_put :: "nat \<Rightarrow> nat \<Rightarrow> u8 list \<Rightarrow> u8 list \<Rightarrow> u8 list" where
  "ring_put cap i [] ring = ring"
| "ring_put cap i (b # bs) ring = ring_put cap (Suc i) bs (ring[i mod cap := b])"

definition ring_get :: "nat \<Rightarrow> nat \<Rightarrow> nat \<Rightarrow> u8 list \<Rightarrow> u8 list" where
  "ring_get cap i n ring = map (\<lambda>k. ring ! ((i + k) mod cap)) [0..<n]"

definition copy_in :: "usize \<Rightarrow> u8 list \<Rightarrow> spsc \<Rightarrow> spsc" where
  "copy_in ptr bs q = q\<lparr>q_ring := ring_put (unat (q_capacity q)) (unat (ptr - q_data q)) bs (q_ring q)\<rparr>"

definition copy_out :: "usize \<Rightarrow> usize \<Rightarrow> spsc \<Rightarrow> u8 list" where
  "copy_out ptr n q = ring_get (unat (q_capacity q)) (unat (ptr - q_data q)) (unat n) (q_ring q)"

definition spsc_peek :: "bool \<Rightarrow> usize \<Rightarrow> usize \<Rightarrow> spsc \<Rightarrow> usize option" where
  "spsc_peek dbg sz align q = do {
     fpag_dcheck dbg (size_consumer q \<ge> sz);
     aligned_head \<leftarrow> round_up dbg (q_head_cache q) align;
     fpag_dcheck dbg (size_consumer q \<ge> sz + aligned_head - q_head_cache q);
     Some (q_data q + ring_index aligned_head q)
   }"

definition spsc_discard :: "bool \<Rightarrow> usize \<Rightarrow> usize \<Rightarrow> spsc \<Rightarrow> spsc option" where
  "spsc_discard dbg sz align q = do {
     aligned_head \<leftarrow> round_up dbg (q_head_cache q) align;
     let q = q\<lparr>q_head_cache := aligned_head + sz\<rparr>;
     Some (q\<lparr>q_head := q_head_cache q\<rparr>)
   }"

definition dequeue_check :: "bool \<Rightarrow> usize \<Rightarrow> usize \<Rightarrow> spsc \<Rightarrow> bool option" where
  "dequeue_check dbg sz align q = do {
     fpag_dcheck dbg (sz \<le> q_capacity q);
     aligned_head \<leftarrow> round_up dbg (q_head_cache q) align;
     let total_needed = sz + (aligned_head - q_head_cache q);
     Some (\<not> size_consumer q < total_needed)
   }"

definition spsc_dequeue :: "bool \<Rightarrow> usize \<Rightarrow> usize \<Rightarrow> spsc \<Rightarrow> (dequeue_status \<times> u8 list \<times> spsc) option" where
  "spsc_dequeue dbg sz align q = do {
     ready \<leftarrow> dequeue_check dbg sz align q;
     (if \<not> ready then Some (Empty, [], q)
      else do {
        src \<leftarrow> spsc_peek dbg sz align q;
        let dest = copy_out src sz q;
        q \<leftarrow> spsc_discard dbg sz align q;
        Some (DequeueOk, dest, q)
      })
   }"

definition reserve_need :: "bool \<Rightarrow> usize \<Rightarrow> usize \<Rightarrow> spsc \<Rightarrow> (usize \<times> usize) option" where
  "reserve_need dbg sz align q = do {
     fpag_dcheck dbg (sz \<le> q_capacity q);
     let current_tail = q_tail_cache q;
     aligned_tail \<leftarrow> round_up dbg current_tail align;
     let padding = aligned_tail - current_tail;
     Some (aligned_tail, sz + padding)
   }"

definition reserve_take :: "bool \<Rightarrow> usize \<Rightarrow> usize \<Rightarrow> spsc \<Rightarrow> (enqueue_status \<times> usize \<times> spsc) option" where
  "reserve_take dbg aligned_tail align q = do {
     let q = q\<lparr>q_tail_cache := aligned_tail\<rparr>;
     let out = q_data q + ring_index aligned_tail q;
     fpag_dcheck dbg (out mod align = 0);
     Some (EnqueueOk, out, q)
   }"

definition spsc_reserve ::
  "bool \<Rightarrow> usize \<Rightarrow> usize \<Rightarrow> usize list \<Rightarrow> spsc \<Rightarrow> (enqueue_status \<times> usize \<times> spsc) option" where
  "spsc_reserve dbg sz align heads q = do {
     (aligned_tail, total_needed) \<leftarrow> reserve_need dbg sz align q;
     (if available_producer (q_head q) q < total_needed then
        (if q_mode q = Drop then Some (Dropped, 0, q\<lparr>q_dropped_count := q_dropped_count q + 1\<rparr>)
         else do {
           let q = q\<lparr>q_blocked_count := q_blocked_count q + 1\<rparr>;
           _ \<leftarrow> wait_for_space_producer total_needed heads q;
           reserve_take dbg aligned_tail align q
         })
      else reserve_take dbg aligned_tail align q)
   }"

definition spsc_commit :: "usize \<Rightarrow> spsc \<Rightarrow> spsc" where
  "spsc_commit sz q =
     (let q = q\<lparr>q_tail_cache := q_tail_cache q + sz\<rparr> in q\<lparr>q_tail := q_tail_cache q\<rparr>)"

definition spsc_enqueue ::
  "bool \<Rightarrow> u8 list \<Rightarrow> usize \<Rightarrow> usize list \<Rightarrow> spsc \<Rightarrow> (enqueue_status \<times> spsc) option" where
  "spsc_enqueue dbg new_data align heads q = do {
     let sz = of_nat (length new_data);
     fpag_dcheck dbg (sz \<le> q_capacity q);
     (status, buf, q) \<leftarrow> spsc_reserve dbg sz align heads q;
     (if status \<noteq> EnqueueOk then Some (status, q)
      else Some (EnqueueOk, spsc_commit sz (copy_in buf new_data q)))
   }"

section \<open>Indices that wrap\<close>

lemma round_up_of_nat:
  assumes "is_power_of_two (a :: usize)"
  shows "round_up dbg (of_nat n) a = Some (of_nat (ceil_to n (unat a)))"
proof -
  obtain k where k: "k < 64" "a = 2 ^ k" using assms by (auto simp: is_power_of_two_iff word_eq_power)
  have m: "a - 1 = mask k" by (simp add: k(2) mask_eq_decr_exp)
  have ua: "unat a = 2 ^ k" using k by (simp add: unat_power_lt)
  have "of_nat n + (a - 1) = (of_nat (n + (2 ^ k - 1)) :: usize)" 
    unfolding k(2) of_nat_add by (subst of_nat_diff) simp_all
  then have "round_up dbg (of_nat n) a = Some (and (of_nat (n + (2 ^ k - 1))) (not (mask k)))"
    using assms m by (simp add: round_up_eq)
  moreover have "and (of_nat M) (not (mask k)) = (of_nat (M div 2 ^ k * 2 ^ k) :: usize)" for M
  proof -
    have "M div 2 ^ k * 2 ^ k = push_bit k (drop_bit k M)" by (simp add: push_bit_eq_mult drop_bit_eq_div)
    then show ?thesis by (intro bit_word_eqI) (auto simp: bit_simps)
  qed
  ultimately show ?thesis by (simp add: ceil_to_def ua)
qed

lemma unat_of_nat_diff:
  assumes "H \<le> T" "T - H < 2 ^ 64"
  shows "unat (of_nat T - of_nat H :: usize) = T - H"
proof -
  have "of_nat T - of_nat H = (of_nat (T - H) :: usize)" using assms(1) by (simp add: of_nat_diff)
  then show ?thesis using assms(2) by (simp add: unat_of_nat take_bit_nat_eq_self_iff)
qed

lemma unat_ring_index:
  assumes "is_power_of_two (q_capacity q)"
  shows "unat (ring_index (of_nat n) q) = n mod unat (q_capacity q)"
proof -
  obtain k where k: "k < 64" "unat (q_capacity q) = 2 ^ k" using assms by (auto simp: is_power_of_two_iff)
  have "ring_index (of_nat n) q = and (of_nat n) (mask k)"
    using pow2_pred_mask [OF k(2)] by (simp add: ring_index_def capacity_mask_def)
  then have "unat (ring_index (of_nat n) q) = n mod 2 ^ 64 mod 2 ^ k"
    by (simp add: unat_and_mask unat_of_nat take_bit_eq_mod)
  moreover have "(2::nat) ^ k dvd 2 ^ 64" using k(1) by (intro le_imp_power_dvd) simp
  ultimately show ?thesis by (simp only: mod_mod_cancel k(2))
qed

section \<open>The ring\<close>

lemma length_ring_put [simp]: "length (ring_put cap i bs ring) = length ring"
  by (induction bs arbitrary: i ring) simp_all

lemma mod_distinct: "i < j \<Longrightarrow> j < i + cap \<Longrightarrow> i mod cap \<noteq> j mod (cap :: nat)"
proof
  assume "i < j" "j < i + cap" "i mod cap = j mod cap"
  then have "cap dvd j - i" by (metis less_imp_le mod_eq_dvd_iff_nat)
  moreover have "0 < j - i" "j - i < cap" using \<open>i < j\<close> \<open>j < i + cap\<close> by simp_all
  ultimately show False using nat_dvd_not_less by blast
qed

lemma ring_put_other:
  "(\<And>k. k < length bs \<Longrightarrow> (i + k) mod cap \<noteq> c) \<Longrightarrow> ring_put cap i bs ring ! c = ring ! c"
proof (induction bs arbitrary: i ring)
  case (Cons b bs)
  have "ring_put cap (Suc i) bs (ring[i mod cap := b]) ! c = ring[i mod cap := b] ! c"
  proof (rule Cons.IH)
    fix k
    assume "k < length bs"
    then show "(Suc i + k) mod cap \<noteq> c" using Cons.prems [of "Suc k"] by simp
  qed
  then show ?case using Cons.prems [of 0] by simp
qed simp

lemma ring_put_same:
  assumes "k < length bs" "length bs \<le> cap" "length ring = cap"
  shows "ring_put cap i bs ring ! ((i + k) mod cap) = bs ! k"
  using assms
proof (induction bs arbitrary: i k ring)
  case (Cons b bs)
  show ?case
  proof (cases k)
    case 0
    have "ring_put cap (Suc i) bs (ring[i mod cap := b]) ! (i mod cap) = ring[i mod cap := b] ! (i mod cap)"
      using Cons.prems(2) mod_distinct [of i _ cap] by (intro ring_put_other) (metis add_Suc_shift Suc_le_lessD length_Cons less_add_Suc1 nat_add_left_cancel_less order_less_le_trans)
    then show ?thesis using 0 Cons.prems by simp
  next
    case (Suc j)
    then show ?thesis using Cons.IH [of j "ring[i mod cap := b]" "Suc i"] Cons.prems by simp
  qed
qed simp

lemma ring_get_put_same:
  "length bs \<le> cap \<Longrightarrow> length ring = cap \<Longrightarrow> ring_get cap i (length bs) (ring_put cap i bs ring) = bs"
  by (auto simp: ring_get_def ring_put_same intro: nth_equalityI)

lemma ring_get_put_other:
  assumes "j + n \<le> i" "i + length bs \<le> j + cap"
  shows "ring_get cap j n (ring_put cap i bs ring) = ring_get cap j n ring"
  unfolding ring_get_def
proof (rule map_cong [OF refl])
  fix k
  assume "k \<in> set [0..<n]"
  then have "(i + m) mod cap \<noteq> (j + k) mod cap" if "m < length bs" for m
    using assms that mod_distinct [of "j + k" "i + m" cap] by auto
  then show "ring_put cap i bs ring ! ((j + k) mod cap) = ring ! ((j + k) mod cap)"
    by (intro ring_put_other)
qed

lemma ring_put_mod: "ring_put cap (i mod cap) bs ring = ring_put cap i bs ring"
proof (induction bs arbitrary: i ring)
  case (Cons b bs)
  have "ring_put cap (Suc (i mod cap)) bs r = ring_put cap (Suc i) bs r" for r
    by (metis Cons.IH mod_Suc_eq)
  then show ?case by simp
qed simp

lemma ring_get_mod: "ring_get cap (i mod cap) n ring = ring_get cap i n ring"
  by (simp add: ring_get_def mod_add_left_eq)

section \<open>The queue as a sequence of records\<close>

text \<open>
  A record is an alignment and its bytes. On unbounded positions, a record written at \<open>p\<close> starts at
  the next multiple of its alignment; \<open>layout\<close> is where a sequence of records ends and \<open>stored\<close>
  says that the ring holds their bytes there.
\<close>

type_synonym message = "usize \<times> u8 list"

fun layout :: "nat \<Rightarrow> message list \<Rightarrow> nat" where
  "layout p [] = p"
| "layout p ((a, bs) # rs) = layout (ceil_to p (unat a) + length bs) rs"

fun stored :: "nat \<Rightarrow> u8 list \<Rightarrow> nat \<Rightarrow> message list \<Rightarrow> bool" where
  "stored cap ring p [] \<longleftrightarrow> True"
| "stored cap ring p ((a, bs) # rs) \<longleftrightarrow> ring_get cap (ceil_to p (unat a)) (length bs) ring = bs
     \<and> stored cap ring (ceil_to p (unat a) + length bs) rs"

definition message_ok :: "spsc \<Rightarrow> message \<Rightarrow> bool" where
  "message_ok q r \<longleftrightarrow> is_power_of_two (fst r) \<and> fst r \<le> q_capacity q \<and> unat (fst r) dvd unat (q_data q)
     \<and> length (snd r) \<le> unat (q_capacity q)"

definition ring_ok :: "spsc \<Rightarrow> bool" where
  "ring_ok q \<longleftrightarrow> q_data q \<noteq> 0 \<and> is_power_of_two (q_capacity q) \<and> unat (q_capacity q) \<le> 2 ^ 35
     \<and> unat (q_data q) + 2 * unat (q_capacity q) < 2 ^ 64 \<and> length (q_ring q) = unat (q_capacity q)"

text \<open>
  Between \<^verbatim>\<open>reserve\<close> and \<^verbatim>\<open>commit\<close> the private tail of the producer is ahead of the shared one: the
  first relation leaves it out.
\<close>

definition spsc_core :: "spsc \<Rightarrow> nat \<Rightarrow> message list \<Rightarrow> bool" where
  "spsc_core q H rs \<longleftrightarrow> ring_ok q \<and> list_all (message_ok q) rs
     \<and> q_head q = of_nat H \<and> q_head_cache q = of_nat H \<and> q_tail q = of_nat (layout H rs)
     \<and> layout H rs \<le> H + unat (q_capacity q) \<and> stored (unat (q_capacity q)) (q_ring q) H rs"

definition spsc_rep :: "spsc \<Rightarrow> nat \<Rightarrow> message list \<Rightarrow> bool" where
  "spsc_rep q H rs \<longleftrightarrow> spsc_core q H rs \<and> q_tail_cache q = of_nat (layout H rs)"

lemma layout_append [simp]: "layout p (rs @ rs') = layout (layout p rs) rs'"
  by (induction p rs rule: layout.induct) simp_all

lemma stored_append [simp]: "stored cap ring p (rs @ rs') \<longleftrightarrow> stored cap ring p rs \<and> stored cap ring (layout p rs) rs'"
  by (induction cap ring p rs rule: stored.induct) auto

lemma align_pos: "is_power_of_two (a :: usize) \<Longrightarrow> 0 < unat a"
  by (auto simp: is_power_of_two_iff)

lemma layout_ge: "\<forall>r \<in> set rs. is_power_of_two (fst r) \<Longrightarrow> p \<le> layout p rs"
proof (induction p rs rule: layout.induct)
  case (2 p a bs rs)
  have "p \<le> ceil_to p (unat a)" using 2 by (auto intro: ceil_to_props align_pos)
  then show ?case using 2 by auto
qed simp

lemma stored_put:
  assumes "\<forall>r \<in> set rs. is_power_of_two (fst r)" "stored cap ring p rs" "layout p rs \<le> i" "i + length bs \<le> p + cap"
  shows "stored cap (ring_put cap i bs ring) p rs"
  using assms
proof (induction p rs rule: layout.induct)
  case (2 p a cs rs)
  let ?s = "ceil_to p (unat a)"
  have s: "p \<le> ?s" using 2 by (auto intro: ceil_to_props align_pos)
  have l: "?s + length cs \<le> layout (?s + length cs) rs" using 2 by (intro layout_ge) auto
  have "ring_get cap ?s (length cs) (ring_put cap i bs ring) = ring_get cap ?s (length cs) ring"
    using 2 s l by (intro ring_get_put_other) auto
  moreover have "stored cap (ring_put cap i bs ring) (?s + length cs) rs"
    using 2 s by (intro 2(1)) auto
  ultimately show ?case using 2 by simp
qed simp

lemma message_ok_frame [simp]:
  "message_ok (q\<lparr>q_tail_cache := x\<rparr>) = message_ok q" "message_ok (q\<lparr>q_tail := x\<rparr>) = message_ok q"
  "message_ok (q\<lparr>q_head_cache := x\<rparr>) = message_ok q" "message_ok (q\<lparr>q_head := x\<rparr>) = message_ok q"
  "message_ok (q\<lparr>q_ring := r\<rparr>) = message_ok q" "message_ok (q\<lparr>q_dropped_count := x\<rparr>) = message_ok q"
  "message_ok (q\<lparr>q_blocked_count := x\<rparr>) = message_ok q" "message_ok (spsc_commit x q) = message_ok q"
  by (simp_all add: message_ok_def spsc_commit_def Let_def fun_eq_iff)

lemma ring_ok_frame [simp]:
  "ring_ok (q\<lparr>q_tail_cache := x\<rparr>) = ring_ok q" "ring_ok (q\<lparr>q_tail := x\<rparr>) = ring_ok q"
  "ring_ok (q\<lparr>q_head_cache := x\<rparr>) = ring_ok q" "ring_ok (q\<lparr>q_head := x\<rparr>) = ring_ok q"
  "ring_ok (q\<lparr>q_dropped_count := x\<rparr>) = ring_ok q" "ring_ok (q\<lparr>q_blocked_count := x\<rparr>) = ring_ok q"
  "ring_ok (spsc_commit x q) = ring_ok q"
  by (simp_all add: ring_ok_def spsc_commit_def Let_def)

lemma ring_index_frame [simp]:
  "ring_index i (q\<lparr>q_tail_cache := x\<rparr>) = ring_index i q" "ring_index i (q\<lparr>q_ring := r\<rparr>) = ring_index i q"
  "ring_index i (q\<lparr>q_head_cache := x\<rparr>) = ring_index i q" "ring_index i (q\<lparr>q_head := x\<rparr>) = ring_index i q"
  "ring_index i (q\<lparr>q_dropped_count := x\<rparr>) = ring_index i q" "ring_index i (q\<lparr>q_blocked_count := x\<rparr>) = ring_index i q"
  "ring_index i (spsc_commit x q) = ring_index i q"
  by (simp_all add: ring_index_def capacity_mask_def spsc_commit_def Let_def)

lemma core_frame [simp]:
  "spsc_core (q\<lparr>q_tail_cache := x\<rparr>) H rs = spsc_core q H rs"
  "spsc_core (q\<lparr>q_dropped_count := x\<rparr>) H rs = spsc_core q H rs"
  "spsc_core (q\<lparr>q_blocked_count := x\<rparr>) H rs = spsc_core q H rs"
  by (simp_all add: spsc_core_def)

lemma core_layout_ge: "spsc_core q H rs \<Longrightarrow> H \<le> layout H rs"
  by (rule layout_ge) (auto simp: spsc_core_def list_all_iff message_ok_def)

lemma cap_bounds:
  assumes "ring_ok q"
  shows "0 < unat (q_capacity q)" "unat (q_capacity q) \<le> 2 ^ 35"
  using assms by (auto simp: ring_ok_def align_pos)

lemma unat_small: "n \<le> 2 ^ 36 \<Longrightarrow> unat (of_nat n :: usize) = n"
  by (simp add: unat_of_nat take_bit_nat_eq_self_iff)

lemma padded_size:
  assumes "ring_ok q" "message_ok q (a, bs)"
  shows "of_nat (length bs) + (of_nat (ceil_to P (unat a)) - of_nat P)
      = (of_nat (length bs + (ceil_to P (unat a) - P)) :: usize)"
    and "length bs + (ceil_to P (unat a) - P) \<le> 2 ^ 36"
    and "P \<le> ceil_to P (unat a)"
proof -
  have a: "is_power_of_two a" "unat a \<le> unat (q_capacity q)" "length bs \<le> unat (q_capacity q)"
    using assms(2) by (auto simp: message_ok_def word_le_nat_alt)
  note c = ceil_to_props [OF align_pos [OF a(1)], of P]
  show "P \<le> ceil_to P (unat a)" by (rule c(2))
  then show "of_nat (length bs) + (of_nat (ceil_to P (unat a)) - of_nat P)
      = (of_nat (length bs + (ceil_to P (unat a) - P)) :: usize)" by (simp add: of_nat_diff)
  show "length bs + (ceil_to P (unat a) - P) \<le> 2 ^ 36" using c(3) a(2,3) cap_bounds(2) [OF assms(1)] by simp
qed

lemma slot_address:
  assumes "ring_ok q"
  shows "q_data q + ring_index (of_nat A) q - q_data q = ring_index (of_nat A) q"
    and "unat (q_data q + ring_index (of_nat A) q) = unat (q_data q) + A mod unat (q_capacity q)"
proof -
  have i: "unat (ring_index (of_nat A) q) = A mod unat (q_capacity q)"
    using assms by (intro unat_ring_index) (simp add: ring_ok_def)
  have "A mod unat (q_capacity q) < unat (q_capacity q)" using cap_bounds(1) [OF assms] by simp
  then have "unat (q_data q) + unat (ring_index (of_nat A) q) < 2 ^ 64" using assms i by (simp add: ring_ok_def)
  then show "unat (q_data q + ring_index (of_nat A) q) = unat (q_data q) + A mod unat (q_capacity q)"
    using i by (simp add: unat_add_nowrap)
qed simp

lemma pow2_dvd:
  assumes "is_power_of_two (a :: usize)" "is_power_of_two b" "a \<le> b"
  shows "unat a dvd unat b"
proof -
  obtain j k where "unat a = 2 ^ j" "unat b = 2 ^ k" using assms(1,2) by (auto simp: is_power_of_two_iff)
  then show ?thesis using assms(3) by (simp add: word_le_nat_alt le_imp_power_dvd)
qed

lemma copy_in_slot:
  "ring_ok q \<Longrightarrow> copy_in (q_data q + ring_index (of_nat A) q) bs q
     = q\<lparr>q_ring := ring_put (unat (q_capacity q)) A bs (q_ring q)\<rparr>"
  using slot_address(1) [of q A] unat_ring_index [of q A]
  by (simp add: copy_in_def ring_put_mod ring_ok_def)

lemma copy_out_slot:
  "ring_ok q \<Longrightarrow> n \<le> 2 ^ 36 \<Longrightarrow> copy_out (q_data q + ring_index (of_nat A) q) (of_nat n) q
     = ring_get (unat (q_capacity q)) A n (q_ring q)"
  using slot_address(1) [of q A] unat_ring_index [of q A]
  by (simp add: copy_out_def ring_get_mod ring_ok_def unat_small)

text \<open>The producer's side.\<close>

lemma reserve_need_eq:
  assumes "ring_ok q" "message_ok q (a, bs)" "q_tail_cache q = of_nat P"
  shows "reserve_need dbg (of_nat (length bs)) a q
    = Some (of_nat (ceil_to P (unat a)), of_nat (length bs + (ceil_to P (unat a) - P)))"
proof -
  have "length bs \<le> unat (q_capacity q)" using assms(2) by (simp add: message_ok_def)
  then have "of_nat (length bs) \<le> q_capacity q"
    using cap_bounds(2) [OF assms(1)] by (simp add: word_le_nat_alt unat_small)
  moreover have "round_up dbg (of_nat P) a = Some (of_nat (ceil_to P (unat a)))"
    using assms(2) by (intro round_up_of_nat) (simp add: message_ok_def)
  ultimately show ?thesis
    by (simp add: reserve_need_def assms(3) Let_def padded_size(1) [OF assms(1,2)] del: of_nat_add)
qed

lemma producer_room:
  assumes "ring_ok q" "message_ok q (a, bs)" "q_tail_cache q = of_nat P" "H \<le> P" "P \<le> H + unat (q_capacity q)"
  shows "available_producer (of_nat H) q < of_nat (length bs + (ceil_to P (unat a) - P))
    \<longleftrightarrow> H + unat (q_capacity q) < ceil_to P (unat a) + length bs"
proof -
  note c = cap_bounds [OF assms(1)]
  have d: "unat (of_nat P - of_nat H :: usize) = P - H"
    using assms(4,5) c by (intro unat_of_nat_diff) auto
  then have "of_nat P - of_nat H \<le> q_capacity q" using assms(5) by (simp add: word_le_nat_alt)
  then have av: "unat (available_producer (of_nat H) q) = unat (q_capacity q) - (P - H)"
    using assms(3) d by (simp add: available_producer_def size_producer_def unat_sub_le)
  show ?thesis unfolding word_less_nat_alt av unat_small [OF padded_size(2) [OF assms(1,2), of P]]
    using padded_size(3) [OF assms(1,2), of P] assms(4,5) by linarith
qed

lemma reserve_take_eq:
  assumes "ring_ok q" "message_ok q (a, bs)"
  shows "reserve_take dbg (of_nat (ceil_to P (unat a))) a q
    = Some (EnqueueOk, q_data q + ring_index (of_nat (ceil_to P (unat a))) q, q\<lparr>q_tail_cache := of_nat (ceil_to P (unat a))\<rparr>)"
proof -
  let ?A = "ceil_to P (unat a)" and ?q = "q\<lparr>q_tail_cache := of_nat (ceil_to P (unat a))\<rparr>"
  have a: "is_power_of_two a" "a \<le> q_capacity q" "unat a dvd unat (q_data q)"
    using assms(2) by (simp_all add: message_ok_def)
  have i: "ring_index x ?q = ring_index x q" for x by (simp add: ring_index_def capacity_mask_def)
  have "unat a dvd ?A" using ceil_to_props(1) [OF align_pos [OF a(1)]] .
  moreover have "unat a dvd unat (q_capacity q)" using assms(1) a by (intro pow2_dvd) (simp_all add: ring_ok_def)
  ultimately have "unat a dvd ?A mod unat (q_capacity q)" by (simp add: dvd_mod)
  then have "unat a dvd unat (q_data q + ring_index (of_nat ?A) q)"
    using a(3) by (simp add: slot_address(2) [OF assms(1)])
  then have "(q_data q + ring_index (of_nat ?A) q) mod a = 0" by (simp add: word_mod_dvd)
  then show ?thesis by (simp add: reserve_take_def Let_def i)
qed

lemma commit_rep:
  assumes "spsc_core q H rs" "message_ok q (a, bs)"
    and "A = ceil_to (layout H rs) (unat a)" "A + length bs \<le> H + unat (q_capacity q)" "q_tail_cache q = of_nat A"
    and "ring_get (unat (q_capacity q)) A (length bs) (q_ring q) = bs"
  shows "spsc_rep (spsc_commit (of_nat (length bs)) q) H (rs @ [(a, bs)])"
proof -
  show ?thesis
    using assms by (simp add: spsc_rep_def spsc_core_def) (simp add: spsc_commit_def Let_def)
qed

lemma copy_in_core:
  assumes "spsc_core q H rs" "message_ok q (a, bs)" "layout H rs \<le> A" "A + length bs \<le> H + unat (q_capacity q)"
  defines "q' \<equiv> q\<lparr>q_ring := ring_put (unat (q_capacity q)) A bs (q_ring q)\<rparr>"
  shows "spsc_core q' H rs" "ring_get (unat (q_capacity q)) A (length bs) (q_ring q') = bs"
proof -
  have r: "ring_ok q" "list_all (message_ok q) rs" "stored (unat (q_capacity q)) (q_ring q) H rs"
    using assms(1) by (simp_all add: spsc_core_def)
  have f: "ring_ok q' = ring_ok q" "message_ok q' = message_ok q"
    by (simp_all add: q'_def ring_ok_def message_ok_def fun_eq_iff)
  have "stored (unat (q_capacity q)) (ring_put (unat (q_capacity q)) A bs (q_ring q)) H rs"
    using r assms(3,4) by (intro stored_put) (auto simp: list_all_iff message_ok_def)
  then show "spsc_core q' H rs" using assms(1) unfolding spsc_core_def f by (simp add: q'_def)
  show "ring_get (unat (q_capacity q)) A (length bs) (q_ring q') = bs"
    using r(1) assms(2) by (auto simp: q'_def ring_ok_def message_ok_def intro: ring_get_put_same)
qed

text \<open>The consumer's side.\<close>

lemma dequeue_check_eq:
  assumes "spsc_core q H rs" "message_ok q (a, bs)"
  shows "dequeue_check dbg (of_nat (length bs)) a q
    = Some (ceil_to H (unat a) + length bs \<le> layout H rs)"
proof -
  have r: "ring_ok q" "q_head_cache q = of_nat H" "q_tail q = of_nat (layout H rs)"
    "layout H rs \<le> H + unat (q_capacity q)" using assms(1) by (simp_all add: spsc_core_def)
  note c = cap_bounds [OF r(1)] and ge = core_layout_ge [OF assms(1)]
  have "length bs \<le> unat (q_capacity q)" using assms(2) by (simp add: message_ok_def)
  then have le: "of_nat (length bs) \<le> q_capacity q" using c(2) by (simp add: word_le_nat_alt unat_small)
  have ru: "round_up dbg (of_nat H) a = Some (of_nat (ceil_to H (unat a)))"
    using assms(2) by (intro round_up_of_nat) (simp add: message_ok_def)
  have sc: "unat (size_consumer q) = layout H rs - H"
    using r c ge by (simp add: size_consumer_def unat_of_nat_diff)
  have "size_consumer q < of_nat (length bs + (ceil_to H (unat a) - H))
      \<longleftrightarrow> layout H rs < ceil_to H (unat a) + length bs"
    unfolding word_less_nat_alt sc unat_small [OF padded_size(2) [OF r(1) assms(2), of H]]
    using padded_size(3) [OF r(1) assms(2), of H] ge by linarith
  then have "(\<not> size_consumer q < of_nat (length bs + (ceil_to H (unat a) - H)))
      = (ceil_to H (unat a) + length bs \<le> layout H rs)" by (metis not_less)
  then show ?thesis
    by (simp add: dequeue_check_def le r(2) ru Let_def padded_size(1) [OF r(1) assms(2)] del: of_nat_add not_less)
qed

lemma peek_eq:
  assumes "spsc_core q H rs" "message_ok q (a, bs)" "ceil_to H (unat a) + length bs \<le> layout H rs"
  shows "spsc_peek dbg (of_nat (length bs)) a q = Some (q_data q + ring_index (of_nat (ceil_to H (unat a))) q)"
proof -
  have r: "ring_ok q" "q_head_cache q = of_nat H" "q_tail q = of_nat (layout H rs)"
    "layout H rs \<le> H + unat (q_capacity q)" using assms(1) by (simp_all add: spsc_core_def)
  note c = cap_bounds [OF r(1)] and ge = core_layout_ge [OF assms(1)] and pad = padded_size [OF r(1) assms(2), of H]
  have ru: "round_up dbg (of_nat H) a = Some (of_nat (ceil_to H (unat a)))"
    using assms(2) by (intro round_up_of_nat) (simp add: message_ok_def)
  have sc: "unat (size_consumer q) = layout H rs - H"
    using r c ge by (simp add: size_consumer_def unat_of_nat_diff)
  have len: "length bs \<le> 2 ^ 36" using pad(2) by simp
  have k1: "of_nat (length bs) \<le> size_consumer q"
    unfolding word_le_nat_alt sc unat_small [OF len] using assms(3) pad(3) by linarith
  have "of_nat (length bs + (ceil_to H (unat a) - H)) \<le> size_consumer q"
    unfolding word_le_nat_alt sc unat_small [OF pad(2)] using assms(3) pad(3) by linarith
  then have k2: "of_nat (length bs) + of_nat (ceil_to H (unat a)) - of_nat H \<le> size_consumer q"
    unfolding pad(1) [symmetric] by (simp add: algebra_simps)
  show ?thesis by (simp add: spsc_peek_def ru k1 k2 r(2))
qed

lemma discard_eq:
  assumes "q_head_cache q = of_nat H" "is_power_of_two a"
  shows "spsc_discard dbg (of_nat n) a q
    = Some (q\<lparr>q_head_cache := of_nat (ceil_to H (unat a) + n), q_head := of_nat (ceil_to H (unat a) + n)\<rparr>)"
  using assms by (simp add: spsc_discard_def round_up_of_nat Let_def)

lemma discard_core:
  assumes "spsc_core q H ((a, bs) # rs)"
  defines "H' \<equiv> ceil_to H (unat a) + length bs"
  shows "spsc_core (q\<lparr>q_head_cache := of_nat H', q_head := of_nat H'\<rparr>) H' rs"
proof -
  let ?q = "q\<lparr>q_head_cache := of_nat H', q_head := of_nat H'\<rparr>"
  have f: "ring_ok ?q = ring_ok q" "message_ok ?q = message_ok q"
    by (simp_all add: ring_ok_def message_ok_def fun_eq_iff)
  have "H \<le> H'" using assms(1) ceil_to_props(2) [OF align_pos, of a H]
    by (auto simp: H'_def spsc_core_def message_ok_def)
  then show ?thesis using assms(1) unfolding spsc_core_def f by (simp add: H'_def)
qed

lemma head_bytes:
  assumes "spsc_core q H ((a, bs) # rs)"
  shows "ring_get (unat (q_capacity q)) (ceil_to H (unat a)) (length bs) (q_ring q) = bs"
    "ceil_to H (unat a) + length bs \<le> layout H ((a, bs) # rs)" "message_ok q (a, bs)"
  using assms layout_ge [of rs "ceil_to H (unat a) + length bs"]
  by (auto simp: spsc_core_def list_all_iff message_ok_def)

section \<open>One operation at a time\<close>

lemma reserve_spec:
  assumes rep: "spsc_rep q H rs" and ok: "message_ok q (a, bs)"
  defines "A \<equiv> ceil_to (layout H rs) (unat a)"
  shows "if A + length bs \<le> H + unat (q_capacity q)
    then spsc_reserve dbg (of_nat (length bs)) a heads q
      = Some (EnqueueOk, q_data q + ring_index (of_nat A) q, q\<lparr>q_tail_cache := of_nat A\<rparr>)
    else q_mode q = Drop \<longrightarrow> spsc_reserve dbg (of_nat (length bs)) a heads q
      = Some (Dropped, 0, q\<lparr>q_dropped_count := q_dropped_count q + 1\<rparr>)"
proof -
  let ?T = "layout H rs"
  have core: "spsc_core q H rs" and tc: "q_tail_cache q = of_nat ?T" and hd: "q_head q = of_nat H"
    and ring: "ring_ok q" and tl: "?T \<le> H + unat (q_capacity q)"
    using rep by (simp_all add: spsc_rep_def spsc_core_def)
  note need = reserve_need_eq [OF ring ok tc, where dbg = dbg, folded A_def]
  note room = producer_room [OF ring ok tc core_layout_ge [OF core] tl, folded A_def]
  show ?thesis
  proof (cases "A + length bs \<le> H + unat (q_capacity q)")
    case True
    then have nr: "\<not> available_producer (of_nat H) q < of_nat (length bs + (A - ?T))" using room by (metis not_less)
    show ?thesis using True nr reserve_take_eq [OF ring ok, of dbg ?T, folded A_def]
      by (simp add: spsc_reserve_def need hd del: of_nat_add not_less)
  next
    case False
    then show ?thesis using room by (auto simp: spsc_reserve_def need hd Let_def simp del: of_nat_add)
  qed
qed

lemma written_rep:
  assumes rep: "spsc_rep q H rs" and ok: "message_ok q (a, bs)"
  defines "A \<equiv> ceil_to (layout H rs) (unat a)"
  assumes fit: "A + length bs \<le> H + unat (q_capacity q)"
  shows "spsc_rep (spsc_commit (of_nat (length bs))
      (q\<lparr>q_tail_cache := of_nat A, q_ring := ring_put (unat (q_capacity q)) A bs (q_ring q)\<rparr>)) H (rs @ [(a, bs)])"
proof -
  let ?q1 = "q\<lparr>q_tail_cache := of_nat A\<rparr>" and ?q2 = "q\<lparr>q_tail_cache := of_nat A, q_ring := ring_put (unat (q_capacity q)) A bs (q_ring q)\<rparr>"
  have core: "spsc_core ?q1 H rs" and ring: "ring_ok q" using rep by (simp_all add: spsc_rep_def spsc_core_def)
  have ge: "layout H rs \<le> A" using padded_size(3) [OF ring ok] by (simp add: A_def)
  have ok1: "message_ok ?q1 (a, bs)" "message_ok ?q2 (a, bs)" using ok by simp_all
  note c = copy_in_core [OF core ok1(1) ge]
  show ?thesis by (rule commit_rep [OF _ ok1(2) A_def [THEN meta_eq_to_obj_eq]]) (use c fit in simp_all)
qed

lemma enqueue_spec:
  assumes rep: "spsc_rep q H rs" and ok: "message_ok q (a, bs)"
  defines "A \<equiv> ceil_to (layout H rs) (unat a)"
  shows "if A + length bs \<le> H + unat (q_capacity q)
    then \<exists>q'. spsc_enqueue dbg bs a heads q = Some (EnqueueOk, q') \<and> spsc_rep q' H (rs @ [(a, bs)])
      \<and> q_capacity q' = q_capacity q \<and> q_data q' = q_data q
    else q_mode q = Drop \<longrightarrow>
      spsc_enqueue dbg bs a heads q = Some (Dropped, q\<lparr>q_dropped_count := q_dropped_count q + 1\<rparr>)"
proof -
  have ring: "ring_ok q" using rep by (simp add: spsc_rep_def spsc_core_def)
  have le: "of_nat (length bs) \<le> q_capacity q"
    using ok cap_bounds(2) [OF ring] by (simp add: message_ok_def word_le_nat_alt unat_small)
  note res = reserve_spec [OF rep ok, of dbg heads, folded A_def]
  show ?thesis
  proof (cases "A + length bs \<le> H + unat (q_capacity q)")
    case True
    let ?q1 = "q\<lparr>q_tail_cache := of_nat A\<rparr>"
    have "copy_in (q_data q + ring_index (of_nat A) q) bs ?q1
        = q\<lparr>q_tail_cache := of_nat A, q_ring := ring_put (unat (q_capacity q)) A bs (q_ring q)\<rparr>"
      using copy_in_slot [of ?q1 A bs] ring by simp
    then show ?thesis using True res written_rep [OF rep ok] 
      by (simp add: spsc_enqueue_def le Let_def A_def) (simp add: spsc_commit_def Let_def)
  next
    case False
    then show ?thesis using res by (auto simp: spsc_enqueue_def le Let_def)
  qed
qed

lemma dequeue_spec:
  assumes rep: "spsc_rep q H ((a, bs) # rs)"
  shows "\<exists>q'. spsc_dequeue dbg (of_nat (length bs)) a q = Some (DequeueOk, bs, q')
    \<and> spsc_rep q' (ceil_to H (unat a) + length bs) rs \<and> q_capacity q' = q_capacity q \<and> q_data q' = q_data q"
proof -
  let ?A = "ceil_to H (unat a)"
  have core: "spsc_core q H ((a, bs) # rs)" and tc: "q_tail_cache q = of_nat (layout H ((a, bs) # rs))"
    using rep by (simp_all add: spsc_rep_def)
  note hb = head_bytes [OF core]
  have r: "ring_ok q" "q_head_cache q = of_nat H" using core by (simp_all add: spsc_core_def)
  have a: "is_power_of_two a" "length bs \<le> 2 ^ 36"
    using hb(3) cap_bounds(2) [OF r(1)] by (simp_all add: message_ok_def)
  have chk: "dequeue_check dbg (of_nat (length bs)) a q = Some True"
    using dequeue_check_eq [OF core hb(3)] hb(2) by simp
  have out: "copy_out (q_data q + ring_index (of_nat ?A) q) (of_nat (length bs)) q = bs"
    using copy_out_slot [OF r(1) a(2)] hb(1) by simp
  have "spsc_dequeue dbg (of_nat (length bs)) a q = Some (DequeueOk, bs,
      q\<lparr>q_head_cache := of_nat (?A + length bs), q_head := of_nat (?A + length bs)\<rparr>)"
    by (simp add: spsc_dequeue_def chk peek_eq [OF core hb(3,2)] out discard_eq [OF r(2) a(1)] Let_def)
  moreover have "spsc_rep (q\<lparr>q_head_cache := of_nat (?A + length bs), q_head := of_nat (?A + length bs)\<rparr>) (?A + length bs) rs"
    using discard_core [OF core] tc by (simp add: spsc_rep_def)
  ultimately show ?thesis by simp
qed

lemma dequeue_empty:
  assumes "spsc_rep q H []" "message_ok q (a, bs)" "bs \<noteq> []"
  shows "spsc_dequeue dbg (of_nat (length bs)) a q = Some (Empty, [], q)"
proof -
  have core: "spsc_core q H []" "ring_ok q" using assms(1) by (simp_all add: spsc_rep_def spsc_core_def)
  have "\<not> ceil_to H (unat a) + length bs \<le> layout H []"
    using padded_size(3) [OF core(2) assms(2), of H] assms(3) by (cases bs) auto
  then have "dequeue_check dbg (of_nat (length bs)) a q = Some False"
    using dequeue_check_eq [OF core(1) assms(2), of dbg] by simp
  then show ?thesis by (simp add: spsc_dequeue_def)
qed

section \<open>The contract of a message queue\<close>

text \<open>
  A run of a queue: \<open>Inl m\<close> offers a message and reports whether it was taken in, \<open>Inr k\<close> asks for the next
  message of the shape \<open>k\<close> and reports what came out, if anything. The producer and the consumer decide
  nothing by what is in the queue; a run is legal when what they ask fits it.
\<close>

fun queue_run :: "('m \<Rightarrow> 's \<Rightarrow> bool \<times> 's) \<Rightarrow> ('k \<Rightarrow> 's \<Rightarrow> 'm option \<times> 's) \<Rightarrow> ('m + 'k) list \<Rightarrow> 's
    \<Rightarrow> (bool + 'm option) list \<times> 's" where
  "queue_run enq deq [] s = ([], s)"
| "queue_run enq deq (Inl m # ops) s =
     (let (ok, s) = enq m s; (outs, s) = queue_run enq deq ops s in (Inl ok # outs, s))"
| "queue_run enq deq (Inr k # ops) s =
     (let (x, s) = deq k s; (outs, s) = queue_run enq deq ops s in (Inr x # outs, s))"

fun legal_run :: "('m + 'k \<Rightarrow> 's \<Rightarrow> bool) \<Rightarrow> ('m \<Rightarrow> 's \<Rightarrow> bool \<times> 's) \<Rightarrow> ('k \<Rightarrow> 's \<Rightarrow> 'm option \<times> 's)
    \<Rightarrow> ('m + 'k) list \<Rightarrow> 's \<Rightarrow> bool" where
  "legal_run legal enq deq [] s \<longleftrightarrow> True"
| "legal_run legal enq deq (op # ops) s \<longleftrightarrow> legal op s
     \<and> legal_run legal enq deq ops (case op of Inl m \<Rightarrow> snd (enq m s) | Inr k \<Rightarrow> snd (deq k s))"

text \<open>
  What a client relies on: every legal operation of the queue answers as the same operation of an
  abstract queue does, and keeps the relation between the two.
\<close>

locale message_queue =
  fixes holds :: "'s \<Rightarrow> 'a \<Rightarrow> bool" and legal :: "'m + 'k \<Rightarrow> 'a \<Rightarrow> bool"
    and enq :: "'m \<Rightarrow> 's \<Rightarrow> bool \<times> 's" and deq :: "'k \<Rightarrow> 's \<Rightarrow> 'm option \<times> 's"
    and offer :: "'m \<Rightarrow> 'a \<Rightarrow> bool \<times> 'a" and take :: "'k \<Rightarrow> 'a \<Rightarrow> 'm option \<times> 'a"
  assumes enq_offer: "holds s a \<Longrightarrow> legal (Inl m) a \<Longrightarrow> rel_prod (=) holds (enq m s) (offer m a)"
    and deq_take: "holds s a \<Longrightarrow> legal (Inr k) a \<Longrightarrow> rel_prod (=) holds (deq k s) (take k a)"
begin

lemma run_refines:
  "holds s a \<Longrightarrow> legal_run legal offer take ops a
    \<Longrightarrow> rel_prod (=) holds (queue_run enq deq ops s) (queue_run offer take ops a)"
proof (induction ops arbitrary: s a)
  case (Cons op ops)
  show ?case
  proof (cases op)
    case (Inl m)
    then have "rel_prod (=) holds (enq m s) (offer m a)" using Cons.prems by (auto intro: enq_offer)
    then show ?thesis using Inl Cons.IH Cons.prems(2)
      by (cases "enq m s"; cases "offer m a") (fastforce split: prod.splits simp: rel_prod_conv)
  next
    case (Inr k)
    then have "rel_prod (=) holds (deq k s) (take k a)" using Cons.prems by (auto intro: deq_take)
    then show ?thesis using Inr Cons.IH Cons.prems(2)
      by (cases "deq k s"; cases "take k a") (fastforce split: prod.splits simp: rel_prod_conv)
  qed
qed simp

end

definition spsc_enq :: "bool \<Rightarrow> message \<Rightarrow> spsc \<Rightarrow> bool \<times> spsc" where
  "spsc_enq dbg m q = (case spsc_enqueue dbg (snd m) (fst m) [] q of
     Some (st, q) \<Rightarrow> (st = EnqueueOk, q) | None \<Rightarrow> (False, q))"

definition spsc_deq :: "bool \<Rightarrow> usize \<times> nat \<Rightarrow> spsc \<Rightarrow> message option \<times> spsc" where
  "spsc_deq dbg k q = (case spsc_dequeue dbg (of_nat (snd k)) (fst k) q of
     Some (DequeueOk, bs, q) \<Rightarrow> (Some (fst k, bs), q) | Some (Empty, bs, q) \<Rightarrow> (None, q) | None \<Rightarrow> (None, q))"

text \<open>
  The abstract queue: the position its first message may start at, and the messages. A message is taken in
  exactly when its padding and payload end within the capacity. Asking is legal with the shape of the first
  message, and of an empty queue with any shape that is not empty itself.
\<close>

type_synonym message_list = "nat \<times> message list"

definition list_offer :: "usize \<Rightarrow> message \<Rightarrow> message_list \<Rightarrow> bool \<times> message_list" where
  "list_offer cap m a =
     (if ceil_to (layout (fst a) (snd a)) (unat (fst m)) + length (snd m) \<le> fst a + unat cap
      then (True, fst a, snd a @ [m]) else (False, a))"

definition list_take :: "usize \<times> nat \<Rightarrow> message_list \<Rightarrow> message option \<times> message_list" where
  "list_take k a = (case snd a of [] \<Rightarrow> (None, a)
     | m # ms \<Rightarrow> (Some m, ceil_to (fst a) (unat (fst m)) + length (snd m), ms))"

definition asks :: "spsc \<Rightarrow> message list \<Rightarrow> usize \<Rightarrow> nat \<Rightarrow> bool" where
  "asks q ms a n \<longleftrightarrow> (case ms of [] \<Rightarrow> 0 < n \<and> message_ok q (a, replicate n 0)
     | m # _ \<Rightarrow> fst m = a \<and> length (snd m) = n)"

definition spsc_legal :: "spsc \<Rightarrow> message + usize \<times> nat \<Rightarrow> message_list \<Rightarrow> bool" where
  "spsc_legal q op a \<longleftrightarrow> (case op of Inl m \<Rightarrow> message_ok q m | Inr k \<Rightarrow> asks q (snd a) (fst k) (snd k))"

definition spsc_holds :: "spsc \<Rightarrow> spsc \<Rightarrow> message_list \<Rightarrow> bool" where
  "spsc_holds q0 q a \<longleftrightarrow> q_mode q = Drop \<and> q_capacity q = q_capacity q0 \<and> q_data q = q_data q0 \<and> spsc_rep q (fst a) (snd a)"

lemma enqueue_mode: "spsc_enqueue dbg bs a heads q = Some (st, q') \<Longrightarrow> q_mode q' = q_mode q"
  by (auto simp: spsc_enqueue_def spsc_reserve_def reserve_need_def reserve_take_def spsc_commit_def copy_in_def
      checks Let_def bind_eq_Some_conv split: if_splits)

lemma dequeue_mode: "spsc_dequeue dbg n a q = Some (st, bs, q') \<Longrightarrow> q_mode q' = q_mode q"
  by (auto simp: spsc_dequeue_def dequeue_check_def spsc_peek_def spsc_discard_def
      checks Let_def bind_eq_Some_conv split: if_splits)

lemma message_ok_cong: "q_capacity q' = q_capacity q \<Longrightarrow> q_data q' = q_data q \<Longrightarrow> message_ok q' = message_ok q"
  by (simp add: message_ok_def fun_eq_iff)

lemma spsc_rep_dropped: "spsc_rep (q\<lparr>q_dropped_count := n\<rparr>) H ms = spsc_rep q H ms"
  by (simp add: spsc_rep_def)

lemma spsc_enq_offer:
  assumes "spsc_holds q0 q a" "message_ok q0 m"
  shows "rel_prod (=) (spsc_holds q0) (spsc_enq dbg m q) (list_offer (q_capacity q0) m a)"
proof -
  obtain b bs where m: "m = (b, bs)" by (cases m)
  have h: "spsc_rep q (fst a) (snd a)" "q_mode q = Drop" "q_capacity q = q_capacity q0" "q_data q = q_data q0"
    using assms(1) by (simp_all add: spsc_holds_def)
  have ok: "message_ok q (b, bs)" using assms(2) message_ok_cong [OF h(3,4)] m by simp
  note spec = enqueue_spec [OF h(1) ok, of dbg "[]"]
  show ?thesis
  proof (cases "ceil_to (layout (fst a) (snd a)) (unat b) + length bs \<le> fst a + unat (q_capacity q)")
    case True
    then obtain q' where e: "spsc_enqueue dbg bs b [] q = Some (EnqueueOk, q')" "spsc_rep q' (fst a) (snd a @ [(b, bs)])"
      "q_capacity q' = q_capacity q" "q_data q' = q_data q" using spec by auto
    then show ?thesis using True h enqueue_mode [OF e(1)] by (simp add: spsc_enq_def list_offer_def spsc_holds_def m)
  next
    case False
    then show ?thesis using spec h by (simp add: spsc_enq_def list_offer_def spsc_holds_def m spsc_rep_dropped)
  qed
qed

lemma spsc_deq_take:
  assumes "spsc_holds q0 q a" "asks q0 (snd a) (fst k) (snd k)"
  shows "rel_prod (=) (spsc_holds q0) (spsc_deq dbg k q) (list_take k a)"
proof -
  have h: "spsc_rep q (fst a) (snd a)" "q_mode q = Drop" "q_capacity q = q_capacity q0" "q_data q = q_data q0"
    using assms(1) by (simp_all add: spsc_holds_def)
  show ?thesis
  proof (cases "snd a")
    case Nil
    then have n: "0 < snd k" "message_ok q (fst k, replicate (snd k) 0)"
      using assms(2) message_ok_cong [OF h(3,4)] by (simp_all add: asks_def)
    have "spsc_dequeue dbg (of_nat (snd k)) (fst k) q = Some (Empty, [], q)"
      using dequeue_empty [OF h(1) [unfolded Nil] n(2), of dbg] n(1) by simp
    then show ?thesis using assms(1) Nil by (simp add: spsc_deq_def list_take_def)
  next
    case (Cons m ms)
    obtain b bs where m: "m = (b, bs)" by (cases m)
    then have k: "fst k = b" "snd k = length bs" using assms(2) Cons by (simp_all add: asks_def)
    obtain q' where d: "spsc_dequeue dbg (of_nat (length bs)) b q = Some (DequeueOk, bs, q')"
      "spsc_rep q' (ceil_to (fst a) (unat b) + length bs) ms" "q_capacity q' = q_capacity q" "q_data q' = q_data q"
      using dequeue_spec h(1) Cons m by metis
    then show ?thesis using Cons m k h dequeue_mode [OF d(1)] by (simp add: spsc_deq_def list_take_def spsc_holds_def)
  qed
qed

interpretation sq: message_queue "spsc_holds q0" "spsc_legal q0" "spsc_enq dbg" "spsc_deq dbg"
    "list_offer (q_capacity q0)" list_take for q0 dbg
  by unfold_locales (simp_all add: spsc_enq_offer spsc_deq_take spsc_legal_def)

section \<open>Producer and consumer at once\<close>

text \<open>
  The producer is idle, spins for room, is about to copy a message to the address it reserved, or is
  about to publish it; the consumer is idle, is about to copy a message from the address it peeked,
  or is about to release it. Each step makes at most one access to a shared index. The consumer may ask
  at any moment, whether there is a message or not: with the shape of the next message, or, while there
  is none, with any shape that is not empty; only the check of \<^verbatim>\<open>dequeue\<close> keeps it from reading. The messages
  sent, in the ring and received are recorded beside the queue.
\<close>

datatype producer_at = PIdle | PWait message | PWrite message usize | PCommit message

datatype consumer_at = CIdle | CRead usize nat usize | CDiscard usize "u8 list"

record spsc_system =
  sy_q :: spsc
  sy_prod :: producer_at
  sy_cons :: consumer_at
  sy_sent :: "message list"
  sy_pending :: "message list"
  sy_received :: "message list"

inductive spsc_step :: "bool \<Rightarrow> spsc_system \<Rightarrow> spsc_system \<Rightarrow> bool" for dbg :: bool where
  p_reserve: "sy_prod s = PIdle \<or> sy_prod s = PWait (a, bs) \<Longrightarrow> message_ok (sy_q s) (a, bs)
    \<Longrightarrow> reserve_need dbg (of_nat (length bs)) a (sy_q s) = Some (t, n)
    \<Longrightarrow> \<not> available_producer (q_head (sy_q s)) (sy_q s) < n
    \<Longrightarrow> reserve_take dbg t a (sy_q s) = Some (st, p, q)
    \<Longrightarrow> spsc_step dbg s (s\<lparr>sy_q := q, sy_prod := PWrite (a, bs) p\<rparr>)"
| p_full: "sy_prod s = PIdle \<Longrightarrow> message_ok (sy_q s) (a, bs)
    \<Longrightarrow> reserve_need dbg (of_nat (length bs)) a (sy_q s) = Some (t, n)
    \<Longrightarrow> available_producer (q_head (sy_q s)) (sy_q s) < n
    \<Longrightarrow> spsc_step dbg s (if q_mode (sy_q s) = Drop
         then s\<lparr>sy_q := (sy_q s)\<lparr>q_dropped_count := q_dropped_count (sy_q s) + 1\<rparr>\<rparr>
         else s\<lparr>sy_q := (sy_q s)\<lparr>q_blocked_count := q_blocked_count (sy_q s) + 1\<rparr>, sy_prod := PWait (a, bs)\<rparr>)"
| p_write: "sy_prod s = PWrite (a, bs) p
    \<Longrightarrow> spsc_step dbg s (s\<lparr>sy_q := copy_in p bs (sy_q s), sy_prod := PCommit (a, bs)\<rparr>)"
| p_commit: "sy_prod s = PCommit (a, bs)
    \<Longrightarrow> spsc_step dbg s (s\<lparr>sy_q := spsc_commit (of_nat (length bs)) (sy_q s), sy_prod := PIdle,
          sy_sent := sy_sent s @ [(a, bs)], sy_pending := sy_pending s @ [(a, bs)]\<rparr>)"
| c_check: "sy_cons s = CIdle \<Longrightarrow> asks (sy_q s) (sy_pending s) a n
    \<Longrightarrow> dequeue_check dbg (of_nat n) a (sy_q s) = Some True
    \<Longrightarrow> spsc_peek dbg (of_nat n) a (sy_q s) = Some src
    \<Longrightarrow> spsc_step dbg s (s\<lparr>sy_cons := CRead a n src\<rparr>)"
| c_empty: "sy_cons s = CIdle \<Longrightarrow> asks (sy_q s) (sy_pending s) a n
    \<Longrightarrow> dequeue_check dbg (of_nat n) a (sy_q s) = Some False
    \<Longrightarrow> spsc_step dbg s s"
| c_read: "sy_cons s = CRead a n src
    \<Longrightarrow> spsc_step dbg s (s\<lparr>sy_cons := CDiscard a (copy_out src (of_nat n) (sy_q s))\<rparr>)"
| c_discard: "sy_cons s = CDiscard a bs \<Longrightarrow> spsc_discard dbg (of_nat (length bs)) a (sy_q s) = Some q
    \<Longrightarrow> spsc_step dbg s (s\<lparr>sy_q := q, sy_cons := CIdle, sy_pending := tl (sy_pending s),
          sy_received := sy_received s @ [(a, bs)]\<rparr>)"

fun prod_ok :: "spsc \<Rightarrow> nat \<Rightarrow> nat \<Rightarrow> producer_at \<Rightarrow> bool" where
  "prod_ok q H T PIdle \<longleftrightarrow> q_tail_cache q = of_nat T"
| "prod_ok q H T (PWait m) \<longleftrightarrow> q_tail_cache q = of_nat T"
| "prod_ok q H T (PWrite (a, bs) p) \<longleftrightarrow> message_ok q (a, bs) \<and> q_tail_cache q = of_nat (ceil_to T (unat a))
     \<and> p = q_data q + ring_index (of_nat (ceil_to T (unat a))) q
     \<and> ceil_to T (unat a) + length bs \<le> H + unat (q_capacity q)"
| "prod_ok q H T (PCommit (a, bs)) \<longleftrightarrow> message_ok q (a, bs) \<and> q_tail_cache q = of_nat (ceil_to T (unat a))
     \<and> ring_get (unat (q_capacity q)) (ceil_to T (unat a)) (length bs) (q_ring q) = bs
     \<and> ceil_to T (unat a) + length bs \<le> H + unat (q_capacity q)"

fun cons_ok :: "spsc \<Rightarrow> nat \<Rightarrow> message list \<Rightarrow> consumer_at \<Rightarrow> bool" where
  "cons_ok q H ms CIdle \<longleftrightarrow> True"
| "cons_ok q H ms (CRead a n src) \<longleftrightarrow> ms \<noteq> [] \<and> fst (hd ms) = a \<and> length (snd (hd ms)) = n
     \<and> src = q_data q + ring_index (of_nat (ceil_to H (unat a))) q"
| "cons_ok q H ms (CDiscard a bs) \<longleftrightarrow> ms \<noteq> [] \<and> hd ms = (a, bs)"

definition system_rep :: "spsc_system \<Rightarrow> nat \<Rightarrow> bool" where
  "system_rep s H \<longleftrightarrow> spsc_core (sy_q s) H (sy_pending s) \<and> sy_sent s = sy_received s @ sy_pending s
     \<and> prod_ok (sy_q s) H (layout H (sy_pending s)) (sy_prod s) \<and> cons_ok (sy_q s) H (sy_pending s) (sy_cons s)"

lemma cons_ok_frame:
  "cons_ok q H ms c \<Longrightarrow> q_data q' = q_data q \<Longrightarrow> q_capacity q' = q_capacity q \<Longrightarrow> cons_ok q' H (ms @ ms') c"
  by (cases c) (auto simp: ring_index_def capacity_mask_def)

lemmas cons_ok_same = cons_ok_frame [where ms' = "[]", simplified]

lemma prod_ok_discard:
  "prod_ok q H T p \<Longrightarrow> H \<le> H' \<Longrightarrow> prod_ok (q\<lparr>q_head_cache := x, q_head := x\<rparr>) H' T p"
  by (cases "(q, H, T, p)" rule: prod_ok.cases) auto

lemma asks_answer:
  assumes "spsc_core q H ms" "asks q ms a n"
  shows "dequeue_check dbg (of_nat n) a q = Some (ms \<noteq> [])"
proof (cases ms)
  case Nil
  then have n: "0 < n" "message_ok q (a, replicate n 0)" using assms(2) by (simp_all add: asks_def)
  moreover have "H \<le> ceil_to H (unat a)" using n(2) by (auto simp: message_ok_def intro: ceil_to_props align_pos)
  ultimately show ?thesis using dequeue_check_eq [OF assms(1) n(2), of dbg] Nil by simp
next
  case (Cons m rs)
  then obtain bs where m: "m = (a, bs)" "n = length bs" using assms(2) by (cases m) (simp add: asks_def)
  note hb = head_bytes [OF assms(1) [unfolded Cons m]]
  show ?thesis using dequeue_check_eq [OF assms(1) hb(3), of dbg] hb(2) Cons m by simp
qed

lemma system_step:
  assumes "spsc_step dbg s s'" "system_rep s H"
  shows "\<exists>H'. system_rep s' H'"
  using assms
proof (induction rule: spsc_step.induct)
  case (p_reserve s a bs t n st p q)
  let ?q = "sy_q s" and ?T = "layout H (sy_pending s)"
  have core: "spsc_core ?q H (sy_pending s)" "ring_ok ?q" "q_head ?q = of_nat H" "?T \<le> H + unat (q_capacity ?q)"
    using p_reserve.prems by (simp_all add: system_rep_def spsc_core_def)
  have tc: "q_tail_cache ?q = of_nat ?T" using p_reserve.prems p_reserve.hyps(1) by (auto simp: system_rep_def)
  have tn: "t = of_nat (ceil_to ?T (unat a))" "n = of_nat (length bs + (ceil_to ?T (unat a) - ?T))"
    using p_reserve.hyps(3) reserve_need_eq [OF core(2) p_reserve.hyps(2) tc] by (simp_all del: of_nat_add)
  have room: "ceil_to ?T (unat a) + length bs \<le> H + unat (q_capacity ?q)"
    using p_reserve.hyps(4) producer_room [OF core(2) p_reserve.hyps(2) tc core_layout_ge [OF core(1)] core(4)]
    by (metis core(3) not_less tn(2))
  have r: "p = q_data ?q + ring_index (of_nat (ceil_to ?T (unat a))) ?q" "q = ?q\<lparr>q_tail_cache := of_nat (ceil_to ?T (unat a))\<rparr>"
    using p_reserve.hyps(5) reserve_take_eq [OF core(2) p_reserve.hyps(2), of dbg ?T] tn(1) by auto
  show ?case
    using p_reserve.prems room p_reserve.hyps(2) cons_ok_same [of ?q H "sy_pending s" _ q]
    by (intro exI [of _ H]) (auto simp: system_rep_def r)
next
  case (p_full s a bs t n)
  then show ?case
    using cons_ok_same [of "sy_q s" H "sy_pending s" "sy_cons s"] by (intro exI [of _ H]) (auto simp: system_rep_def)
next
  case (p_write s a bs p)
  let ?q = "sy_q s" and ?A = "ceil_to (layout H (sy_pending s)) (unat a)"
  have core: "spsc_core ?q H (sy_pending s)" "ring_ok ?q" and ok: "message_ok ?q (a, bs)"
    and p: "p = q_data ?q + ring_index (of_nat ?A) ?q" and room: "?A + length bs \<le> H + unat (q_capacity ?q)"
    and tc: "q_tail_cache ?q = of_nat ?A"
    using p_write by (simp_all add: system_rep_def spsc_core_def)
  have cp: "copy_in p bs ?q = ?q\<lparr>q_ring := ring_put (unat (q_capacity ?q)) ?A bs (q_ring ?q)\<rparr>"
    using copy_in_slot [OF core(2)] p by simp
  note c = copy_in_core [OF core(1) ok padded_size(3) [OF core(2) ok] room]
  show ?case using p_write.prems c ok room tc cons_ok_same [of ?q H "sy_pending s" "sy_cons s"]
    by (intro exI [of _ H]) (auto simp: system_rep_def cp)
next
  case (p_commit s a bs)
  let ?q = "sy_q s" and ?A = "ceil_to (layout H (sy_pending s)) (unat a)"
  have core: "spsc_core ?q H (sy_pending s)" and ok: "message_ok ?q (a, bs)"
    and room: "?A + length bs \<le> H + unat (q_capacity ?q)" and tc: "q_tail_cache ?q = of_nat ?A"
    and got: "ring_get (unat (q_capacity ?q)) ?A (length bs) (q_ring ?q) = bs"
    using p_commit by (simp_all add: system_rep_def)
  have "spsc_rep (spsc_commit (of_nat (length bs)) ?q) H (sy_pending s @ [(a, bs)])"
    by (rule commit_rep [OF core ok refl room tc got])
  moreover have "cons_ok (spsc_commit (of_nat (length bs)) ?q) H (sy_pending s @ [(a, bs)]) (sy_cons s)"
    using p_commit.prems by (intro cons_ok_frame [of ?q]) (auto simp: system_rep_def spsc_commit_def Let_def)
  ultimately show ?case using p_commit.prems
    by (intro exI [of _ H]) (auto simp: system_rep_def spsc_rep_def)
next
  case (c_check s a n src)
  let ?q = "sy_q s"
  have core: "spsc_core ?q H (sy_pending s)" using c_check by (simp add: system_rep_def)
  then obtain bs rs where ms: "sy_pending s = (a, bs) # rs" "n = length bs"
    using c_check.hyps(2,3) asks_answer [OF core c_check.hyps(2), of dbg] by (cases "sy_pending s") (auto simp: asks_def)
  then have core: "spsc_core ?q H ((a, bs) # rs)" using core by simp
  have "src = q_data ?q + ring_index (of_nat (ceil_to H (unat a))) ?q"
    using c_check.hyps(4) ms(2) peek_eq [OF core head_bytes(3,2) [OF core]] by simp
  then show ?case using c_check ms by (intro exI [of _ H]) (auto simp: system_rep_def)
next
  case (c_empty s a n)
  then show ?case by blast
next
  case (c_read s a n src)
  obtain bs rs where ms: "sy_pending s = (a, bs) # rs" "n = length bs"
    using c_read by (cases "sy_pending s") (auto simp: system_rep_def)
  have core: "spsc_core (sy_q s) H ((a, bs) # rs)" "ring_ok (sy_q s)"
    using c_read.prems ms by (simp_all add: system_rep_def spsc_core_def)
  have "length bs \<le> 2 ^ 36" using head_bytes(3) [OF core(1)] cap_bounds(2) [OF core(2)] by (simp add: message_ok_def)
  then have "copy_out src (of_nat n) (sy_q s) = bs"
    using copy_out_slot [OF core(2)] head_bytes(1) [OF core(1)] c_read ms by (simp add: system_rep_def)
  then show ?case using c_read ms by (intro exI [of _ H]) (auto simp: system_rep_def)
next
  case (c_discard s a bs q)
  let ?H = "ceil_to H (unat a) + length bs"
  obtain rs where ms: "sy_pending s = (a, bs) # rs" using c_discard by (cases "sy_pending s") (auto simp: system_rep_def)
  have core: "spsc_core (sy_q s) H ((a, bs) # rs)" using c_discard.prems ms by (simp add: system_rep_def)
  have a: "is_power_of_two a" using head_bytes(3) [OF core] by (simp add: message_ok_def)
  have q: "q = (sy_q s)\<lparr>q_head_cache := of_nat ?H, q_head := of_nat ?H\<rparr>"
    using c_discard.hyps(2) discard_eq [OF _ a, of "sy_q s" H dbg] core by (simp add: spsc_core_def)
  have "H \<le> ?H" using ceil_to_props(2) [OF align_pos [OF a], of H] by simp
  then show ?case using c_discard.prems ms discard_core [OF core]
    by (intro exI [of _ ?H]) (auto simp: system_rep_def q prod_ok_discard simp del: of_nat_add)
qed

lemma system_reachable:
  "(spsc_step dbg)\<^sup>*\<^sup>* s s' \<Longrightarrow> system_rep s H \<Longrightarrow> \<exists>H'. system_rep s' H'"
  by (induction rule: rtranclp_induct) (blast dest: system_step)+

lemma step3: "R s t \<Longrightarrow> R t u \<Longrightarrow> R u v \<Longrightarrow> R\<^sup>*\<^sup>* s v"
  by (meson converse_rtranclp_into_rtranclp rtranclp.rtrancl_refl)

lemma system_receive:
  assumes rep: "system_rep s H" and idle: "sy_cons s = CIdle" and p: "sy_pending s = m # ms"
  shows "\<exists>s'. (spsc_step dbg)\<^sup>*\<^sup>* s s' \<and> sy_received s' = sy_received s @ [m] \<and> sy_pending s' = ms"
proof -
  obtain a bs where m: "m = (a, bs)" by (cases m)
  let ?q = "sy_q s" and ?src = "q_data (sy_q s) + ring_index (of_nat (ceil_to H (unat a))) (sy_q s)"
  have core: "spsc_core ?q H ((a, bs) # ms)" "ring_ok ?q" "q_head_cache ?q = of_nat H"
    using rep p m by (simp_all add: system_rep_def spsc_core_def)
  note hb = head_bytes [OF core(1)]
  have a: "is_power_of_two a" "length bs \<le> 2 ^ 36" using hb(3) cap_bounds(2) [OF core(2)] by (simp_all add: message_ok_def)
  let ?s1 = "s\<lparr>sy_cons := CRead a (length bs) ?src\<rparr>" and ?s2 = "s\<lparr>sy_cons := CDiscard a bs\<rparr>"
  obtain q' where d: "spsc_discard dbg (of_nat (length bs)) a ?q = Some q'" using discard_eq [OF core(3) a(1)] by blast
  let ?s3 = "?s2\<lparr>sy_q := q', sy_cons := CIdle, sy_pending := tl (sy_pending s), sy_received := sy_received s @ [(a, bs)]\<rparr>"
  have "spsc_step dbg s ?s1"
    by (rule spsc_step.c_check [OF idle])
       (use p m dequeue_check_eq [OF core(1) hb(3)] hb(2) peek_eq [OF core(1) hb(3,2)] in \<open>simp_all add: asks_def\<close>)
  moreover have "spsc_step dbg ?s1 ?s2"
    using spsc_step.c_read [of ?s1 a "length bs" ?src dbg] copy_out_slot [OF core(2) a(2)] hb(1) by simp
  moreover have "spsc_step dbg ?s2 ?s3"
    using spsc_step.c_discard [of ?s2 a bs dbg q'] d by simp
  ultimately have "(spsc_step dbg)\<^sup>*\<^sup>* s ?s3" by (rule step3)
  then show ?thesis using p m by (intro exI [of _ ?s3]) simp
qed

lemma system_send:
  assumes rep: "system_rep s H" and idle: "sy_prod s = PIdle \<or> sy_prod s = PWait (a, bs)"
    and ok: "message_ok (sy_q s) (a, bs)"
    and room: "ceil_to (layout H (sy_pending s)) (unat a) + length bs \<le> H + unat (q_capacity (sy_q s))"
  shows "\<exists>s'. (spsc_step dbg)\<^sup>*\<^sup>* s s' \<and> sy_sent s' = sy_sent s @ [(a, bs)] \<and> sy_pending s' = sy_pending s @ [(a, bs)]
    \<and> sy_cons s' = sy_cons s"
proof -
  let ?q = "sy_q s" and ?T = "layout H (sy_pending s)"
  have core: "spsc_core ?q H (sy_pending s)" "ring_ok ?q" "q_head ?q = of_nat H" "?T \<le> H + unat (q_capacity ?q)"
    and tc: "q_tail_cache ?q = of_nat ?T"
    using rep idle by (auto simp: system_rep_def spsc_core_def)
  have nr: "\<not> available_producer (q_head ?q) ?q < of_nat (length bs + (ceil_to ?T (unat a) - ?T))"
    using producer_room [OF core(2) ok tc core_layout_ge [OF core(1)] core(4)] room by (metis core(3) not_less)
  obtain p q1 where t: "reserve_take dbg (of_nat (ceil_to ?T (unat a))) a ?q = Some (EnqueueOk, p, q1)"
    using reserve_take_eq [OF core(2) ok] by blast
  let ?s1 = "s\<lparr>sy_q := q1, sy_prod := PWrite (a, bs) p\<rparr>"
  let ?s2 = "?s1\<lparr>sy_q := copy_in p bs q1, sy_prod := PCommit (a, bs)\<rparr>"
  let ?s3 = "?s2\<lparr>sy_q := spsc_commit (of_nat (length bs)) (copy_in p bs q1), sy_prod := PIdle,
          sy_sent := sy_sent s @ [(a, bs)], sy_pending := sy_pending s @ [(a, bs)]\<rparr>"
  have "spsc_step dbg s ?s1"
    by (rule spsc_step.p_reserve [OF idle ok reserve_need_eq [OF core(2) ok tc] nr t])
  moreover have "spsc_step dbg ?s1 ?s2" using spsc_step.p_write [of ?s1 a bs p dbg] by simp
  moreover have "spsc_step dbg ?s2 ?s3" using spsc_step.p_commit [of ?s2 a bs dbg] by simp
  ultimately have "(spsc_step dbg)\<^sup>*\<^sup>* s ?s3" by (rule step3)
  then show ?thesis by (intro exI [of _ ?s3]) simp
qed

definition write_cells :: "spsc_system \<Rightarrow> nat set" where
  "write_cells s = (case sy_prod s of
     PWrite m p \<Rightarrow> (\<lambda>k. (unat (p - q_data (sy_q s)) + k) mod unat (q_capacity (sy_q s))) ` {..<length (snd m)}
   | _ \<Rightarrow> {})"

definition read_cells :: "spsc_system \<Rightarrow> nat set" where
  "read_cells s = (case sy_cons s of
     CRead a n src \<Rightarrow> (\<lambda>k. (unat (src - q_data (sy_q s)) + k) mod unat (q_capacity (sy_q s))) ` {..<n}
   | _ \<Rightarrow> {})"

lemma no_race:
  assumes "system_rep s H"
  shows "write_cells s \<inter> read_cells s = {}"
proof (rule ccontr)
  let ?cap = "unat (q_capacity (sy_q s))"
  assume "write_cells s \<inter> read_cells s \<noteq> {}"
  then obtain m p a n src j k where st: "sy_prod s = PWrite m p" "sy_cons s = CRead a n src"
    and jk: "j < length (snd m)" "k < n"
    and eq: "(unat (p - q_data (sy_q s)) + j) mod ?cap = (unat (src - q_data (sy_q s)) + k) mod ?cap"
    by (fastforce simp: write_cells_def read_cells_def split: producer_at.splits consumer_at.splits)
  obtain b cs where m: "m = (b, cs)" by (cases m)
  obtain bs rs where ms: "sy_pending s = (a, bs) # rs" "n = length bs"
    using assms st(2) by (cases "sy_pending s") (auto simp: system_rep_def)
  have core: "spsc_core (sy_q s) H ((a, bs) # rs)" "ring_ok (sy_q s)"
    using assms ms by (simp_all add: system_rep_def spsc_core_def)
  let ?T = "layout H ((a, bs) # rs)" and ?R = "ceil_to H (unat a)"
  let ?W = "ceil_to (layout H ((a, bs) # rs)) (unat b)"
  have w: "p = q_data (sy_q s) + ring_index (of_nat ?W) (sy_q s)" "message_ok (sy_q s) (b, cs)"
    "?W + length cs \<le> H + ?cap" and r: "src = q_data (sy_q s) + ring_index (of_nat ?R) (sy_q s)"
    using assms st m ms(1) by (auto simp: system_rep_def)
  have "(?W mod ?cap + j) mod ?cap = (?R mod ?cap + k) mod ?cap"
    using eq core(2) unat_ring_index [of "sy_q s"] by (simp add: w(1) r slot_address(1) ring_ok_def)
  then have md: "(?W + j) mod ?cap = (?R + k) mod ?cap" by (simp add: mod_add_left_eq)
  have "?R + length bs \<le> ?T" by (rule head_bytes(2) [OF core(1)])
  moreover have "?T \<le> ?W" by (rule padded_size(3) [OF core(2) w(2)])
  moreover have "H \<le> ?R" by (rule padded_size(3) [OF core(2) head_bytes(3) [OF core(1)]])
  ultimately have "?R + k < ?W + j" "?W + j < ?R + k + ?cap" using w(3) jk ms(2) m by auto
  from mod_distinct [OF this] md show False by simp
qed

lemma init_rep:
  assumes "os_ok os" "spsc_init dbg os capacity mode empty_spsc v = Some (q, v')"
  shows "spsc_rep q 0 [] \<and> q_capacity q = capacity \<and> q_mode q = mode \<and> unat (os_page_size os) dvd unat (q_data q)"
proof -
  obtain d where c: "is_power_of_two capacity" "capacity \<le> MAX_CAPACITY"
    and al: "allocate_aliased_pages os capacity v = Some (d, v')" "d \<noteq> 0"
    and q: "q = empty_spsc\<lparr>q_capacity := capacity, q_mode := mode, q_data := d, q_ring := replicate (unat capacity) 0\<rparr>"
    using assms(2) by (auto simp: spsc_init_def checks Let_def empty_spsc_def bind_eq_Some_conv fpag_check_eq_Some)
  have "os_mmap os (capacity * 2) = Some d"
    using al by (auto simp: allocate_aliased_pages_def map_fixed_def checks Let_def split: option.splits if_splits prod.splits)
  then have m: "unat d + unat (capacity * 2) < 2 ^ 64" "d mod os_page_size os = 0"
    using assms(1) by (auto simp: os_ok_def)
  have cb: "unat capacity \<le> 2 ^ 35" using c(2) by (simp add: MAX_CAPACITY_def word_le_nat_alt push_bit_eq_mult)
  then have "unat (capacity * 2) = unat capacity * 2" by (subst unat_mult_lem [THEN iffD1]) simp_all
  then show ?thesis using c(1) cb al(2) m
    by (simp add: q empty_spsc_def spsc_rep_def spsc_core_def ring_ok_def word_mod_dvd)
qed

section \<open>Properties\<close>

text \<open>
  C10. With the producer and the consumer running at once and their steps interleaved in any order,
  the messages received, followed by those still in the ring, are exactly the messages sent, in
  order and byte for byte, also across the wrap of the 64-bit indices; the cells the producer is
  about to write are never cells the consumer is about to read; and a consumer that asks, at any
  moment and also of an empty ring, is told \<^verbatim>\<open>Empty\<close> exactly when no message has been published.
\<close>

theorem spsc_interleaved_fifo:
  assumes "spsc_rep q H []"
    and "(spsc_step dbg)\<^sup>*\<^sup>* \<lparr>sy_q = q, sy_prod = PIdle, sy_cons = CIdle, sy_sent = [], sy_pending = [], sy_received = []\<rparr> s"
  shows "sy_sent s = sy_received s @ sy_pending s \<and> write_cells s \<inter> read_cells s = {}
    \<and> (\<forall>a n. asks (sy_q s) (sy_pending s) a n \<longrightarrow> dequeue_check dbg (of_nat n) a (sy_q s) = Some (sy_pending s \<noteq> []))"
proof -
  have "system_rep \<lparr>sy_q = q, sy_prod = PIdle, sy_cons = CIdle, sy_sent = [], sy_pending = [], sy_received = []\<rparr> H"
    using assms(1) by (simp add: system_rep_def spsc_rep_def)
  then obtain H' where "system_rep s H'" using system_reachable [OF assms(2)] by blast
  then show ?thesis using no_race asks_answer by (auto simp: system_rep_def)
qed

definition sample_spsc :: spsc where
  "sample_spsc = \<lparr>q_data = 65536, q_capacity = 16, q_mode = Drop, q_dropped_count = 0, q_blocked_count = 0,
     q_head = - 8, q_head_cache = - 8, q_tail = - 8, q_tail_cache = - 8, q_ring = replicate 16 0\<rparr>"

lemma sample_spsc_rep: "spsc_rep sample_spsc (2 ^ 64 - 8) []"
  by (simp add: spsc_rep_def spsc_core_def ring_ok_def sample_spsc_def is_power_of_two_def)

lemma sample_message_ok: "q_data q = 65536 \<Longrightarrow> q_capacity q = 16 \<Longrightarrow> message_ok q (4, [1, 2, 3, 4, 5, 6, 7, 8, 9, 10])"
  by (simp add: message_ok_def is_power_of_two_def)

theorem spsc_interleaved_fifo_witness:
  "\<exists>s. (spsc_step True)\<^sup>*\<^sup>* \<lparr>sy_q = sample_spsc, sy_prod = PIdle, sy_cons = CIdle, sy_sent = [], sy_pending = [], sy_received = []\<rparr> s
     \<and> sy_received s = [(4, [1, 2, 3, 4, 5, 6, 7, 8, 9, 10])] \<and> sy_sent s = sy_received s @ sy_pending s"
proof -
  let ?s0 = "\<lparr>sy_q = sample_spsc, sy_prod = PIdle, sy_cons = CIdle, sy_sent = [], sy_pending = [], sy_received = []\<rparr>"
  let ?m = "(4, [1, 2, 3, 4, 5, 6, 7, 8, 9, 10]) :: message"
  have r0: "system_rep ?s0 (2 ^ 64 - 8)" using sample_spsc_rep by (simp add: system_rep_def spsc_rep_def)
  obtain s1 where s1: "(spsc_step True)\<^sup>*\<^sup>* ?s0 s1" "sy_pending s1 = [?m]" "sy_cons s1 = CIdle" "sy_sent s1 = [?m]"
    using system_send [OF r0, of 4 "snd ?m" True] sample_message_ok [of sample_spsc]
    by (auto simp: sample_spsc_def ceil_to_def)
  obtain H1 where r1: "system_rep s1 H1" using system_reachable [OF s1(1) r0] by blast
  have c1: "sy_sent s1 = sy_received s1 @ sy_pending s1" using spsc_interleaved_fifo [OF sample_spsc_rep s1(1)] by simp
  obtain s2 where s2: "(spsc_step True)\<^sup>*\<^sup>* s1 s2" "sy_received s2 = sy_received s1 @ [?m]"
    using system_receive [OF r1 s1(3,2)] by blast
  have r: "(spsc_step True)\<^sup>*\<^sup>* ?s0 s2" using s1(1) s2(1) by (rule rtranclp_trans)
  have "sy_received s1 = []" using c1 s1(2,4) by simp
  then show ?thesis using r s2(2) spsc_interleaved_fifo [OF sample_spsc_rep r] by (intro exI [of _ s2]) simp
qed

text \<open>
  C11. Neither side can be stuck: from every state the two sides can reach, an idle consumer with a
  message in the ring can take it, and a producer that is idle or waiting with a message whose
  padding and payload fit can send it, in three of their own steps and in both builds.
\<close>

theorem spsc_progress:
  assumes "spsc_rep q H0 []"
    and "(spsc_step dbg)\<^sup>*\<^sup>* \<lparr>sy_q = q, sy_prod = PIdle, sy_cons = CIdle, sy_sent = [], sy_pending = [], sy_received = []\<rparr> s"
  shows "\<exists>H. system_rep s H
    \<and> (\<forall>m ms. sy_cons s = CIdle \<and> sy_pending s = m # ms \<longrightarrow>
         (\<exists>s'. (spsc_step dbg)\<^sup>*\<^sup>* s s' \<and> sy_received s' = sy_received s @ [m] \<and> sy_pending s' = ms))
    \<and> (\<forall>a bs. (sy_prod s = PIdle \<or> sy_prod s = PWait (a, bs)) \<and> message_ok (sy_q s) (a, bs)
         \<and> ceil_to (layout H (sy_pending s)) (unat a) + length bs \<le> H + unat (q_capacity (sy_q s)) \<longrightarrow>
         (\<exists>s'. (spsc_step dbg)\<^sup>*\<^sup>* s s' \<and> sy_sent s' = sy_sent s @ [(a, bs)]))"
proof -
  have "system_rep \<lparr>sy_q = q, sy_prod = PIdle, sy_cons = CIdle, sy_sent = [], sy_pending = [], sy_received = []\<rparr> H0"
    using assms(1) by (simp add: system_rep_def spsc_rep_def)
  then obtain H where "system_rep s H" using system_reachable [OF assms(2)] by blast
  then show ?thesis using system_receive system_send by (intro exI [of _ H]) blast
qed

theorem spsc_progress_witness:
  "\<exists>s'. (spsc_step True)\<^sup>*\<^sup>* \<lparr>sy_q = sample_spsc, sy_prod = PIdle, sy_cons = CIdle, sy_sent = [], sy_pending = [], sy_received = []\<rparr> s'
     \<and> sy_sent s' = [(4, [1, 2, 3, 4, 5, 6, 7, 8, 9, 10])]"
proof -
  let ?s0 = "\<lparr>sy_q = sample_spsc, sy_prod = PIdle, sy_cons = CIdle, sy_sent = [], sy_pending = [], sy_received = []\<rparr>"
  obtain H where H: "system_rep ?s0 H"
    "\<forall>a bs. message_ok sample_spsc (a, bs) \<and> ceil_to H (unat a) + length bs \<le> H + unat (q_capacity sample_spsc) \<longrightarrow>
         (\<exists>s'. (spsc_step True)\<^sup>*\<^sup>* ?s0 s' \<and> sy_sent s' = [(a, bs)])"
    using spsc_progress [OF sample_spsc_rep rtranclp.rtrancl_refl, of True] by auto
  have "ceil_to H 4 < H + 4" by (rule ceil_to_props) simp
  then have "ceil_to H (unat (4 :: usize)) + length ([1, 2, 3, 4, 5, 6, 7, 8, 9, 10] :: u8 list) \<le> H + unat (q_capacity sample_spsc)"
    by (simp add: sample_spsc_def)
  then show ?thesis using H(2) sample_message_ok [of sample_spsc] by (simp add: sample_spsc_def)
qed

text \<open>
  \<^verbatim>\<open>enqueue\<close> accepts a message exactly when its padding and payload fit beside what the ring
  holds, and then the ring holds it behind the others; otherwise, in \<^verbatim>\<open>Mode::Drop\<close>, it changes
  nothing but the count of dropped messages. \<^verbatim>\<open>dequeue\<close> returns the oldest message's bytes, and on
  an empty ring reports \<^verbatim>\<open>Empty\<close> without moving.
\<close>

lemma spsc_enqueue_dequeue_exact:
  assumes "spsc_rep q H ms" "message_ok q (a, bs)" "bs \<noteq> []" "q_mode q = Drop"
  shows "(if ceil_to (layout H ms) (unat a) + length bs \<le> H + unat (q_capacity q)
      then \<exists>q'. spsc_enqueue dbg bs a heads q = Some (EnqueueOk, q') \<and> spsc_rep q' H (ms @ [(a, bs)])
      else spsc_enqueue dbg bs a heads q = Some (Dropped, q\<lparr>q_dropped_count := q_dropped_count q + 1\<rparr>))
    \<and> (case ms of
         [] \<Rightarrow> spsc_dequeue dbg (of_nat (length bs)) a q = Some (Empty, [], q)
       | (b, cs) # ms' \<Rightarrow> \<exists>q' H'. spsc_dequeue dbg (of_nat (length cs)) b q = Some (DequeueOk, cs, q') \<and> spsc_rep q' H' ms')"
proof -
  have "case ms of
         [] \<Rightarrow> spsc_dequeue dbg (of_nat (length bs)) a q = Some (Empty, [], q)
       | (b, cs) # ms' \<Rightarrow> \<exists>q' H'. spsc_dequeue dbg (of_nat (length cs)) b q = Some (DequeueOk, cs, q') \<and> spsc_rep q' H' ms'"
  proof (cases ms)
    case Nil
    then show ?thesis using dequeue_empty assms by simp
  next
    case (Cons m ms')
    obtain b cs where m: "m = (b, cs)" by (cases m)
    obtain q' where "spsc_dequeue dbg (of_nat (length cs)) b q = Some (DequeueOk, cs, q')"
      "spsc_rep q' (ceil_to H (unat b) + length cs) ms'"
      using dequeue_spec assms(1) Cons m by blast
    then show ?thesis using Cons m by auto
  qed
  then show ?thesis using enqueue_spec [OF assms(1,2), of dbg heads] assms(4) by auto
qed

lemma spsc_enqueue_dequeue_exact_witness:
  "\<exists>q' q'' H'. spsc_enqueue True [1, 2, 3, 4, 5, 6, 7, 8, 9, 10] 4 [] sample_spsc = Some (EnqueueOk, q')
     \<and> spsc_dequeue True 10 4 q' = Some (DequeueOk, [1, 2, 3, 4, 5, 6, 7, 8, 9, 10], q'') \<and> spsc_rep q'' H' []"
proof -
  let ?bs = "[1, 2, 3, 4, 5, 6, 7, 8, 9, 10] :: u8 list"
  have ok: "message_ok sample_spsc (4, ?bs)" by (rule sample_message_ok) (simp_all add: sample_spsc_def)
  obtain q' where q': "spsc_enqueue True ?bs 4 [] sample_spsc = Some (EnqueueOk, q')" "spsc_rep q' (2 ^ 64 - 8) [(4, ?bs)]"
    using spsc_enqueue_dequeue_exact [OF sample_spsc_rep ok, of True "[]"] by (auto simp: sample_spsc_def ceil_to_def)
  have "message_ok q' (4, ?bs)" using q'(2) by (simp add: spsc_rep_def spsc_core_def)
  moreover have "q_mode q' = Drop" using enqueue_mode [OF q'(1)] by (simp add: sample_spsc_def)
  ultimately show ?thesis using spsc_enqueue_dequeue_exact [OF q'(2), of 4 ?bs True "[]"] q'(1) by auto
qed

text \<open>
  C32. \<^verbatim>\<open>init\<close> on a fresh queue either stops the process or yields an empty ring of the capacity asked for, and
  any offers and requests that follow answer as a list does: a message is accepted exactly when its padding
  and payload fit the capacity beside what the ring holds and is otherwise dropped, and a request, made
  also when the ring is empty, returns the oldest accepted message that was not returned before, or
  \<^verbatim>\<open>Empty\<close> exactly when there is none. Messages and requests are of admissible shapes, and a request of a
  ring that is not empty names the shape of the next message.
\<close>

theorem spsc_init_fifo:
  assumes "os_ok os" "spsc_init dbg0 os capacity Drop empty_spsc v = Some (q, v')"
    and "legal_run (spsc_legal q) (list_offer capacity) list_take ops (0, [])"
  shows "fst (queue_run (spsc_enq dbg) (spsc_deq dbg) ops q) = fst (queue_run (list_offer capacity) list_take ops (0, []))"
proof -
  have "spsc_holds q q (0, [])" "q_capacity q = capacity" using init_rep [OF assms(1,2)] by (auto simp: spsc_holds_def)
  with sq.run_refines [of q q "(0, [])" ops dbg] assms(3) show ?thesis by (auto simp: rel_prod_conv split: prod.splits)
qed

theorem spsc_init_fifo_witness:
  "\<exists>q v'. spsc_init True sample_os 4096 Drop empty_spsc \<lparr>vm_mapped = [], vm_writable = [], vm_fds = 0\<rparr> = Some (q, v')
     \<and> fst (queue_run (spsc_enq True) (spsc_deq True) [Inr (8, 2), Inl (8, [7, 9]), Inr (8, 2), Inr (8, 2)] q)
       = [Inr None, Inl True, Inr (Some (8, [7, 9])), Inr None]"
proof -
  let ?ops = "[Inr (8, 2), Inl (8, [7, 9]), Inr (8, 2), Inr (8, 2)] :: (message + usize \<times> nat) list"
  let ?v = "\<lparr>vm_mapped = [], vm_writable = [], vm_fds = 0\<rparr> :: vm"
  obtain q v' where i: "spsc_init True sample_os 4096 Drop empty_spsc ?v = Some (q, v')"
    by (simp add: spsc_init_def alloc_defs empty_spsc_def is_power_of_two_def MAX_CAPACITY_def push_bit_eq_mult)
  have r: "q_capacity q = 4096" "4096 dvd unat (q_data q)"
    using init_rep [OF sample_os_ok i] by (simp_all add: sample_os_def)
  have "(8::nat) dvd unat (q_data q)" using r(2) by (rule dvd_trans [rotated]) simp
  then have ok: "message_ok q (8, bs)" if "length bs = 2" for bs using r(1) that by (simp add: message_ok_def is_power_of_two_def)
  have l: "legal_run (spsc_legal q) (list_offer 4096) list_take ?ops (0, [])"
    by (simp add: spsc_legal_def list_offer_def list_take_def asks_def ok ceil_to_def)
  have "fst (queue_run (list_offer 4096) list_take ?ops (0, [])) = [Inr None, Inl True, Inr (Some (8, [7, 9])), Inr None]"
    by (simp add: list_offer_def list_take_def ceil_to_def)
  then show ?thesis using i spsc_init_fifo [OF sample_os_ok i l, of True] by auto
qed

end
