(* ===== verification/Arena.thy ===== *)
theory Arena
  imports Page_Allocator
begin

text \<open>
  \<^verbatim>\<open>mem::Arena\<close> (\<^verbatim>\<open>include/fpag/mem/arena.h\<close>, \<^verbatim>\<open>src/mem/arena.cc\<close>): a bump allocator over one
  reservation that commits pages as the frontier reaches them. The pointer is an address word with
  \<open>0\<close> for null. The theory also states the contract of a bump allocator as a locale: whoever
  keeps it hands out pairwise disjoint blocks, however long the run.
\<close>

section \<open>Definitions\<close>

record arena =
  ar_ptr :: usize
  ar_capacity :: usize
  ar_size :: usize
  ar_committed :: usize

definition empty_arena :: arena where
  "empty_arena = \<lparr>ar_ptr = 0, ar_capacity = 0, ar_size = 0, ar_committed = 0\<rparr>"

definition arena_reserve :: "bool \<Rightarrow> os \<Rightarrow> usize \<Rightarrow> arena \<Rightarrow> vm \<Rightarrow> (arena \<times> vm) option" where
  "arena_reserve dbg os capacity ar v = do {
     fpag_dcheck dbg (ar_ptr ar = 0);
     let ar = ar\<lparr>ar_capacity := capacity\<rparr>;
     fpag_dcheck dbg (is_page_aligned_size os (ar_capacity ar));
     (ptr, v) \<leftarrow> reserve_pages os (ar_capacity ar) v;
     let ar = ar\<lparr>ar_ptr := ptr\<rparr>;
     fpag_dcheck dbg (ar_ptr ar \<noteq> 0);
     Some (ar, v)
   }"

definition arena_reset :: "bool \<Rightarrow> os \<Rightarrow> arena \<Rightarrow> vm \<Rightarrow> (arena \<times> vm) option" where
  "arena_reset dbg os ar v = do {
     fpag_dcheck dbg (ar_ptr ar \<noteq> 0);
     v \<leftarrow> free_pages dbg os (ar_ptr ar) (ar_capacity ar) v;
     Some (ar\<lparr>ar_ptr := 0, ar_capacity := 0, ar_size := 0, ar_committed := 0\<rparr>, v)
   }"

definition arena_move :: "arena \<Rightarrow> arena \<times> arena" where
  "arena_move other =
     (\<lparr>ar_ptr = ar_ptr other, ar_capacity = ar_capacity other, ar_size = ar_size other,
       ar_committed = ar_committed other\<rparr>,
      other\<lparr>ar_ptr := 0, ar_capacity := 0, ar_size := 0, ar_committed := 0\<rparr>)"

definition arena_move_assign :: "bool \<Rightarrow> os \<Rightarrow> arena \<Rightarrow> arena \<Rightarrow> vm \<Rightarrow> (arena \<times> arena \<times> vm) option" where
  "arena_move_assign dbg os self other v = do {
     (self, v) \<leftarrow> (if ar_ptr self \<noteq> 0 then arena_reset dbg os self v else Some (self, v));
     let (self, other) = arena_move other;
     Some (self, other, v)
   }"

definition arena_commit_until :: "bool \<Rightarrow> os \<Rightarrow> usize \<Rightarrow> arena \<Rightarrow> vm \<Rightarrow> (arena \<times> vm) option" where
  "arena_commit_until dbg os end_offset ar v = do {
     fpag_dcheck dbg (ar_ptr ar \<noteq> 0);
     fpag_dcheck dbg (end_offset \<le> ar_capacity ar);
     (if end_offset \<le> ar_committed ar then Some (ar, v)
      else do {
        target_end \<leftarrow> round_up dbg end_offset (page_size os);
        let target_end = (if target_end > ar_capacity ar then ar_capacity ar else target_end);
        let commit_diff = target_end - ar_committed ar;
        fpag_dcheck dbg (commit_diff > 0);
        let commit_ptr = ar_ptr ar + ar_committed ar;
        (ok, v) \<leftarrow> commit_pages dbg os commit_ptr commit_diff v;
        (if \<not> ok then do { fpag_dcheck dbg False; Some (ar, v) }
         else Some (ar\<lparr>ar_committed := target_end\<rparr>, v))
      })
   }"

definition arena_alloc :: "bool \<Rightarrow> os \<Rightarrow> usize \<Rightarrow> usize \<Rightarrow> arena \<Rightarrow> vm \<Rightarrow> (usize \<times> arena \<times> vm) option" where
  "arena_alloc dbg os sz align ar v = do {
     fpag_dcheck dbg (ar_ptr ar \<noteq> 0);
     current_offset \<leftarrow> round_up dbg (ar_size ar) align;
     (if sz > ar_capacity ar - current_offset then do {
        fpag_dcheck dbg False;
        Some (0, ar, v)
      } else do {
        let next_offset = current_offset + sz;
        fpag_dcheck dbg (next_offset \<le> ar_capacity ar);
        (ar, v) \<leftarrow> arena_commit_until dbg os next_offset ar v;
        let ar = ar\<lparr>ar_size := next_offset\<rparr>;
        Some (ar_ptr ar + current_offset, ar, v)
      })
   }"

section \<open>The bump allocator contract\<close>

text \<open>
  A state has a frontier and a limit. A granted request is a block that starts at or after the
  frontier and ends at the new one, which stays within the limit.
\<close>

locale bump_allocator =
  fixes alloc :: "'q \<Rightarrow> 's \<Rightarrow> (nat \<times> 's) option"
    and len :: "'q \<Rightarrow> nat" and frontier :: "'s \<Rightarrow> nat" and limit :: "'s \<Rightarrow> nat"
    and inv :: "'s \<Rightarrow> bool" and admissible :: "'q \<Rightarrow> 's \<Rightarrow> bool"
  assumes alloc_inv: "inv s \<Longrightarrow> admissible q s \<Longrightarrow> alloc q s = Some (off, s') \<Longrightarrow> inv s'"
    and alloc_block: "inv s \<Longrightarrow> admissible q s \<Longrightarrow> alloc q s = Some (off, s') \<Longrightarrow>
       frontier s \<le> off \<and> off + len q \<le> frontier s'"
    and alloc_limit: "inv s \<Longrightarrow> admissible q s \<Longrightarrow> alloc q s = Some (off, s') \<Longrightarrow>
       frontier s' \<le> limit s' \<and> limit s' = limit s"
    and admissible_stable: "inv s \<Longrightarrow> admissible q s \<Longrightarrow> alloc q s = Some (off, s') \<Longrightarrow>
       admissible q' s \<Longrightarrow> admissible q' s'"
begin

fun run :: "'q list \<Rightarrow> 's \<Rightarrow> (nat \<times> nat) list \<times> 's" where
  "run [] s = ([], s)"
| "run (q # qs) s =
     (case alloc q s of
        None \<Rightarrow> run qs s
      | Some (off, s') \<Rightarrow> (let (bs, s'') = run qs s' in ((off, len q) # bs, s'')))"

lemma run_sound:
  assumes "inv s" "\<And>q. q \<in> set qs \<Longrightarrow> admissible q s" "run qs s = (bs, s')"
  shows "inv s' \<and> limit s' = limit s \<and> frontier s \<le> frontier s'
    \<and> (\<forall>(off, n) \<in> set bs. frontier s \<le> off \<and> off + n \<le> frontier s')"
  using assms
proof (induction qs arbitrary: s bs)
  case Nil
  then show ?case by auto
next
  case (Cons q qs)
  show ?case
  proof (cases "alloc q s")
    case None
    then show ?thesis using Cons.IH [OF Cons.prems(1)] Cons.prems by auto
  next
    case (Some r)
    then obtain off t where r: "alloc q s = Some (off, t)" by (cases r) auto
    obtain bs' where bs': "run qs t = (bs', s')" "bs = (off, len q) # bs'"
      using Cons.prems(3) r by (auto split: prod.splits)
    have q: "admissible q s" using Cons.prems(2) by simp
    have t: "inv t" "limit t = limit s" "frontier s \<le> off" "off + len q \<le> frontier t"
      using alloc_inv [OF Cons.prems(1) q r] alloc_block [OF Cons.prems(1) q r] alloc_limit [OF Cons.prems(1) q r]
      by auto
    have "admissible q' t" if "q' \<in> set qs" for q'
      using admissible_stable [OF Cons.prems(1) q r] Cons.prems(2) that by simp
    with Cons.IH [OF t(1) _ bs'(1)] have "inv s' \<and> limit s' = limit t \<and> frontier t \<le> frontier s'
      \<and> (\<forall>(off, n) \<in> set bs'. frontier t \<le> off \<and> off + n \<le> frontier s')" by blast
    then show ?thesis using t bs'(2) by fastforce
  qed
qed

lemma run_disjoint:
  assumes "inv s" "\<And>q. q \<in> set qs \<Longrightarrow> admissible q s" "run qs s = (bs, s')"
  shows "sorted_wrt (\<lambda>(a, n) (b, m). a + n \<le> b) bs"
  using assms
proof (induction qs arbitrary: s bs)
  case Nil
  then show ?case by auto
next
  case (Cons q qs)
  show ?case
  proof (cases "alloc q s")
    case None
    then show ?thesis using Cons.IH [OF Cons.prems(1)] Cons.prems by auto
  next
    case (Some r)
    then obtain off t where r: "alloc q s = Some (off, t)" by (cases r) auto
    obtain bs' where bs': "run qs t = (bs', s')" "bs = (off, len q) # bs'"
      using Cons.prems(3) r by (auto split: prod.splits)
    have q: "admissible q s" using Cons.prems(2) by simp
    have it: "inv t" by (rule alloc_inv [OF Cons.prems(1) q r])
    have ad: "admissible q' t" if "q' \<in> set qs" for q'
      using admissible_stable [OF Cons.prems(1) q r] Cons.prems(2) that by simp
    have "sorted_wrt (\<lambda>(a, n) (b, m). a + n \<le> b) bs'" by (rule Cons.IH [OF it ad bs'(1)])
    moreover have "\<forall>(b, m) \<in> set bs'. off + len q \<le> b"
      using run_sound [OF it ad bs'(1)] alloc_block [OF Cons.prems(1) q r] by fastforce
    ultimately show ?thesis using bs'(2) by auto
  qed
qed

end

section \<open>Invariant\<close>

definition arena_inv :: "os \<Rightarrow> arena \<Rightarrow> vm \<Rightarrow> bool" where
  "arena_inv os ar v \<longleftrightarrow> os_ok os \<and> ar_ptr ar \<noteq> 0
     \<and> unat (os_page_size os) dvd unat (ar_ptr ar) \<and> unat (os_page_size os) dvd unat (ar_capacity ar)
     \<and> unat (ar_ptr ar) + unat (ar_capacity ar) < 2 ^ 64
     \<and> ar_size ar \<le> ar_capacity ar \<and> ar_committed ar \<le> ar_capacity ar
     \<and> unat (os_page_size os) dvd unat (ar_committed ar)
     \<and> writable_range v (unat (ar_ptr ar)) (unat (ar_committed ar))"

lemma arena_inv_room:
  assumes "arena_inv os ar v" "e \<le> ar_capacity ar"
  shows "unat e + unat (os_page_size os) \<le> 2 ^ 64"
proof -
  have "0 < unat (ar_ptr ar)" using assms(1) by (simp add: arena_inv_def unat_gt_0)
  then have "unat (os_page_size os) \<le> unat (ar_ptr ar)"
    using assms(1) by (auto simp: arena_inv_def intro: dvd_imp_le)
  then show ?thesis using assms by (simp add: arena_inv_def word_le_nat_alt)
qed

lemma arena_reserve_inv:
  assumes "os_ok os" "arena_reserve dbg os capacity empty_arena v = Some (ar, v')" "ar_ptr ar \<noteq> 0"
  shows "arena_inv os ar v' \<and> ar_capacity ar = capacity \<and> ar_size ar = 0"
proof -
  have al: "is_page_aligned_size os capacity"
    and "ar_capacity ar = capacity" "ar_size ar = 0" "ar_committed ar = 0"
    and m: "os_mmap os capacity = Some (ar_ptr ar)"
    using assms(2,3)
    by (auto simp: arena_reserve_def reserve_pages_def checks empty_arena_def Let_def split: option.splits)
  then show ?thesis using assms(1,3)
    by (auto simp: arena_inv_def os_ok_def empty_arena_def aligned_size_iff word_mod_dvd writable_range_def)
qed

text \<open>
  Whether the pages up to the offset \<open>e\<close> are there, or the kernel makes those writable that are asked of it.
\<close>

definition arena_grants :: "os \<Rightarrow> arena \<Rightarrow> nat \<Rightarrow> bool" where
  "arena_grants os ar e \<longleftrightarrow> e \<le> unat (ar_committed ar)
     \<or> os_mprotect os (ar_ptr ar + ar_committed ar) (of_nat (ceil_to e (unat (os_page_size os))) - ar_committed ar)"

lemma arena_commit_until_spec:
  assumes inv: "arena_inv os ar v" and e: "e \<le> ar_capacity ar"
  obtains (granted) ar' v' where "arena_grants os ar (unat e)" "arena_commit_until dbg os e ar v = Some (ar', v')"
      "arena_inv os ar' v'" "ar_ptr ar' = ar_ptr ar" "ar_capacity ar' = ar_capacity ar" "e \<le> ar_committed ar'"
    | (refused) "\<not> arena_grants os ar (unat e)"
      "arena_commit_until dbg os e ar v = (if dbg then None else Some (ar, v))"
proof (cases "e \<le> ar_committed ar")
  case True
  then show thesis using inv e
    by (intro granted [of ar v]) (simp_all add: arena_commit_until_def arena_inv_def arena_grants_def word_le_nat_alt)
next
  case False
  let ?pg = "unat (os_page_size os)"
  have i: "os_ok os" "ar_ptr ar \<noteq> 0" "?pg dvd unat (ar_ptr ar)" "?pg dvd unat (ar_capacity ar)"
    "unat (ar_ptr ar) + unat (ar_capacity ar) < 2 ^ 64" "ar_size ar \<le> ar_capacity ar"
    "unat (ar_committed ar) \<le> unat (ar_capacity ar)" "?pg dvd unat (ar_committed ar)"
    "writable_range v (unat (ar_ptr ar)) (unat (ar_committed ar))"
    using inv by (simp_all add: arena_inv_def word_le_nat_alt)
  have pg: "0 < ?pg" "is_power_of_two (os_page_size os)"
    using i(1) os_page_pos by (auto simp: os_ok_def)
  obtain t where t: "round_up dbg e (os_page_size os) = Some t"
    using round_up_eq [OF pg(2)] by blast
  have ut: "unat t = ceil_to (unat e) ?pg"
    by (rule unat_round_up_ceil [OF pg(2) t arena_inv_room [OF inv e]])
  have tc: "unat t \<le> unat (ar_capacity ar)" "?pg dvd unat t" "unat e \<le> unat t"
    using ceil_to_least [OF pg(1) i(4)] ceil_to_props [OF pg(1)] e ut by (simp_all add: word_le_nat_alt)
  then have lt: "ar_committed ar < t" using False by (simp add: word_le_nat_alt word_less_nat_alt)
  have d: "unat (t - ar_committed ar) = unat t - unat (ar_committed ar)" using lt by (simp add: unat_sub_le)
  have p: "unat (ar_ptr ar + ar_committed ar) = unat (ar_ptr ar) + unat (ar_committed ar)"
    using i(5,7) by (intro unat_add_nowrap) simp
  have pn: "ar_ptr ar + ar_committed ar \<noteq> 0" using p i(2) by (metis add_is_0 unat_eq_zero)
  have cp: "commit_pages dbg os (ar_ptr ar + ar_committed ar) (t - ar_committed ar) v =
    (if os_mprotect os (ar_ptr ar + ar_committed ar) (t - ar_committed ar)
     then Some (True, v\<lparr>vm_writable := (ar_ptr ar + ar_committed ar, t - ar_committed ar) # vm_writable v\<rparr>)
     else Some (False, v))"
    by (rule commit_pages_ok [OF pn]) (use p d i(3,8) tc(2) in \<open>simp_all add: dvd_diff_nat\<close>)
  have c: "\<not> t > ar_capacity ar" "t - ar_committed ar > 0"
    using tc(1) d lt by (simp_all add: word_less_nat_alt)
  have eq: "arena_commit_until dbg os e ar v = do {
     (ok, v) \<leftarrow> commit_pages dbg os (ar_ptr ar + ar_committed ar) (t - ar_committed ar) v;
     (if \<not> ok then do { fpag_dcheck dbg False; Some (ar, v) } else Some (ar\<lparr>ar_committed := t\<rparr>, v)) }"
    using False e i(2) t c by (simp add: arena_commit_until_def page_size_def Let_def)
  have grants: "arena_grants os ar (unat e) \<longleftrightarrow> os_mprotect os (ar_ptr ar + ar_committed ar) (t - ar_committed ar)"
    using False ut [symmetric] by (simp add: arena_grants_def word_le_nat_alt)
  show thesis
  proof (cases "os_mprotect os (ar_ptr ar + ar_committed ar) (t - ar_committed ar)")
    case True
    let ?v = "v\<lparr>vm_writable := (ar_ptr ar + ar_committed ar, t - ar_committed ar) # vm_writable v\<rparr>"
    have "writable_range ?v (unat (ar_ptr ar)) (unat (ar_committed ar) + unat (t - ar_committed ar))"
      by (rule writable_range_extend [OF i(9)]) (simp add: p)
    then have "arena_inv os (ar\<lparr>ar_committed := t\<rparr>) ?v"
      using i tc lt d by (simp add: arena_inv_def word_le_nat_alt word_less_nat_alt)
    then show thesis using True eq cp tc(3) grants
      by (intro granted [of "ar\<lparr>ar_committed := t\<rparr>" ?v]) (simp_all add: word_le_nat_alt)
  next
    case False
    then show thesis using eq cp grants by (intro refused) (auto simp: fpag_dcheck_def)
  qed
qed

lemma arena_aligned_offset:
  assumes inv: "arena_inv os ar v" and al: "is_power_of_two align" "align \<le> os_page_size os"
  obtains r where "round_up dbg (ar_size ar) align = Some r"
    "unat r = ceil_to (unat (ar_size ar)) (unat align)" "r \<le> ar_capacity ar"
proof -
  have pos: "0 < unat align" using al(1) by (auto simp: is_power_of_two_iff)
  obtain r where r: "round_up dbg (ar_size ar) align = Some r" using round_up_eq [OF al(1)] by blast
  have "unat align dvd unat (os_page_size os)"
  proof -
    obtain j k where "unat align = 2 ^ j" "unat (os_page_size os) = 2 ^ k"
      using al(1) inv by (auto simp: arena_inv_def os_ok_def is_power_of_two_iff)
    then show ?thesis using al(2) by (simp add: word_le_nat_alt le_imp_power_dvd)
  qed
  then have dv: "unat align dvd unat (ar_capacity ar)"
    using inv by (auto simp: arena_inv_def intro: dvd_trans)
  have "unat (ar_size ar) + unat align \<le> 2 ^ 64"
    using arena_inv_room [OF inv, of "ar_size ar"] inv al(2) by (simp add: arena_inv_def word_le_nat_alt)
  then have ur: "unat r = ceil_to (unat (ar_size ar)) (unat align)" by (rule unat_round_up_ceil [OF al(1) r])
  have "r \<le> ar_capacity ar" unfolding word_le_nat_alt ur
    using inv by (intro ceil_to_least [OF pos dv]) (simp add: arena_inv_def word_le_nat_alt)
  with r ur show thesis by (rule that)
qed

lemma arena_alloc_fits:
  assumes inv: "arena_inv os ar v" and al: "is_power_of_two align" "align \<le> os_page_size os"
    and off: "off = ceil_to (unat (ar_size ar)) (unat align)" and fits: "off + unat sz \<le> unat (ar_capacity ar)"
  obtains (granted) p ar' v' where "arena_grants os ar (off + unat sz)" "arena_alloc dbg os sz align ar v = Some (p, ar', v')"
      "arena_inv os ar' v'" "unat p = unat (ar_ptr ar) + off" "unat (ar_size ar') = off + unat sz"
      "ar_ptr ar' = ar_ptr ar" "ar_capacity ar' = ar_capacity ar" "writable_range v' (unat p) (unat sz)"
    | (refused) p where "\<not> arena_grants os ar (off + unat sz)" "unat p = unat (ar_ptr ar) + off"
      "arena_alloc dbg os sz align ar v = (if dbg then None else Some (p, ar\<lparr>ar_size := of_nat (off + unat sz)\<rparr>, v))"
      "unat (of_nat (off + unat sz) :: usize) = off + unat sz"
proof -
  obtain r where r: "round_up dbg (ar_size ar) align = Some r" "unat r = off" "r \<le> ar_capacity ar"
    using arena_aligned_offset [OF inv al] off by metis
  have nofit: "\<not> sz > ar_capacity ar - r"
    using fits r(2,3) by (simp add: word_less_nat_alt unat_sub_le)
  have cap: "unat (ar_capacity ar) < 2 ^ 64" using unat_lt2p [of "ar_capacity ar"] by simp
  have un: "unat (r + sz) = off + unat sz" using fits r(2) cap by (subst unat_add_nowrap) simp_all
  have next_at: "of_nat (off + unat sz) = r + sz" unfolding un [symmetric] by simp
  have le: "r + sz \<le> ar_capacity ar" using fits un by (simp add: word_le_nat_alt)
  have p0: "ar_ptr ar \<noteq> 0" using inv by (simp add: arena_inv_def)
  have up: "unat (ar_ptr ar + r) = unat (ar_ptr ar) + off"
    using inv r(2,3) by (subst unat_add_nowrap) (simp_all add: arena_inv_def word_le_nat_alt)
  show thesis
  proof (rule arena_commit_until_spec [OF inv le, of dbg])
    fix ar1 v1
    assume c: "arena_grants os ar (unat (r + sz))" "arena_commit_until dbg os (r + sz) ar v = Some (ar1, v1)" "arena_inv os ar1 v1"
      "ar_ptr ar1 = ar_ptr ar" "ar_capacity ar1 = ar_capacity ar" "r + sz \<le> ar_committed ar1"
    have "writable_range v1 (unat (ar_ptr ar1)) (unat (ar_committed ar1))" using c(3) by (simp add: arena_inv_def)
    then have w: "writable_range v1 (unat (ar_ptr ar + r)) (unat sz)"
      by (rule writable_range_mono) (use c(4,6) up un in \<open>simp_all add: word_le_nat_alt\<close>)
    have "arena_alloc dbg os sz align ar v = Some (ar_ptr ar + r, ar1\<lparr>ar_size := r + sz\<rparr>, v1)"
      using p0 r(1) nofit le c(2,4) by (simp add: arena_alloc_def Let_def)
    then show thesis using c(1,3-5) w up un le
      by (intro granted [of "ar_ptr ar + r" "ar1\<lparr>ar_size := r + sz\<rparr>" v1]) (simp_all add: arena_inv_def)
  next
    assume c: "\<not> arena_grants os ar (unat (r + sz))" "arena_commit_until dbg os (r + sz) ar v = (if dbg then None else Some (ar, v))"
    have "arena_alloc dbg os sz align ar v = (if dbg then None else Some (ar_ptr ar + r, ar\<lparr>ar_size := r + sz\<rparr>, v))"
      using p0 r(1) nofit le c(2) by (simp add: arena_alloc_def Let_def)
    then show thesis using c(1) up un by (intro refused [of "ar_ptr ar + r"]) (simp_all add: next_at del: of_nat_add)
  qed
qed

lemma arena_alloc_full:
  assumes inv: "arena_inv os ar v" and al: "is_power_of_two align" "align \<le> os_page_size os"
    and full: "unat (ar_capacity ar) < ceil_to (unat (ar_size ar)) (unat align) + unat sz"
  shows "arena_alloc dbg os sz align ar v = (if dbg then None else Some (0, ar, v))"
proof -
  obtain r where r: "round_up dbg (ar_size ar) align = Some r"
    "unat r = ceil_to (unat (ar_size ar)) (unat align)" "r \<le> ar_capacity ar"
    by (rule arena_aligned_offset [OF inv al])
  have "sz > ar_capacity ar - r"
    using full r(2,3) unat_sub_le [OF r(3)] unfolding word_less_nat_alt word_le_nat_alt by linarith
  then show ?thesis using inv r(1) by (simp add: arena_alloc_def arena_inv_def fpag_dcheck_def)
qed

section \<open>The arena is a bump allocator\<close>

definition arena_request :: "os \<Rightarrow> usize \<times> usize \<Rightarrow> arena \<times> vm \<Rightarrow> (nat \<times> arena \<times> vm) option" where
  "arena_request os q s =
     (case arena_alloc False os (fst q) (snd q) (fst s) (snd s) of
        None \<Rightarrow> None
      | Some (p, ar, v) \<Rightarrow> if p = 0 then None else Some (unat p - unat (ar_ptr (fst s)), ar, v))"

definition arena_admissible :: "os \<Rightarrow> usize \<times> usize \<Rightarrow> bool" where
  "arena_admissible os q \<longleftrightarrow> is_power_of_two (snd q) \<and> snd q \<le> os_page_size os"

lemma arena_requestE:
  assumes "arena_inv os (fst s) (snd s)" "arena_admissible os q" "arena_request os q s = Some (off, s')"
  shows "arena_inv os (fst s') (snd s') \<and> off = ceil_to (unat (ar_size (fst s))) (unat (snd q))
    \<and> unat (ar_size (fst s')) = off + unat (fst q)
    \<and> off + unat (fst q) \<le> unat (ar_capacity (fst s)) \<and> ar_capacity (fst s') = ar_capacity (fst s)"
proof (cases "ceil_to (unat (ar_size (fst s))) (unat (snd q)) + unat (fst q) \<le> unat (ar_capacity (fst s))")
  case True
  have al: "is_power_of_two (snd q)" "snd q \<le> os_page_size os" using assms(2) by (simp_all add: arena_admissible_def)
  from assms(1) al refl [of "ceil_to (unat (ar_size (fst s))) (unat (snd q))"] True show ?thesis
  proof (cases rule: arena_alloc_fits [where dbg = False])
    case (granted p ar' v')
    then show ?thesis using assms(3) True by (auto simp: arena_request_def split: if_splits)
  next
    case (refused p)
    then show ?thesis using assms(1,3) True
      by (auto simp: arena_request_def arena_inv_def word_le_nat_alt simp del: of_nat_add split: if_splits)
  qed
next
  case False
  have "arena_alloc False os (fst q) (snd q) (fst s) (snd s) = Some (0, fst s, snd s)"
    using arena_alloc_full [OF assms(1), of "snd q" "fst q" False] assms(2) False
    by (simp add: arena_admissible_def)
  then show ?thesis using assms(3) by (simp add: arena_request_def)
qed

interpretation arb: bump_allocator "arena_request os" "\<lambda>q. unat (fst q)" "\<lambda>s. unat (ar_size (fst s))"
    "\<lambda>s. unat (ar_capacity (fst s))" "\<lambda>s. arena_inv os (fst s) (snd s)" "\<lambda>q s. arena_admissible os q"
  for os
proof (unfold_locales, goal_cases)
  case (1 s q off s')
  then show ?case by (blast dest: arena_requestE)
next
  case (2 s q off s')
  have "0 < unat (snd q)" using 2(2) by (auto simp: arena_admissible_def is_power_of_two_iff)
  then show ?case using arena_requestE [OF 2] ceil_to_props(2) [of "unat (snd q)"] by simp
next
  case (3 s q off s')
  then show ?case using arena_requestE [OF 3] by simp
qed

section \<open>Properties\<close>

text \<open>
  C33. One allocation from a reserved arena, at a power-of-two alignment of at most a page. If the aligned
  request fits and the pages it needs are writable already or the kernel makes them so, the returned address is
  aligned relative to the reservation, its bytes lie past everything handed out before and inside the
  reservation, all of them are writable, and the invariant holds again. If it fits and the kernel refuses the
  pages, a debug build stops, and a release build hands out the same address all the same, with the frontier
  moved past what is committed. If it does not fit, a release build answers null and changes nothing, and a debug
  build stops.
\<close>

theorem arena_alloc_correct:
  assumes "arena_inv os ar v" "is_power_of_two align" "align \<le> os_page_size os"
    and "off = ceil_to (unat (ar_size ar)) (unat align)"
  shows "if off + unat sz \<le> unat (ar_capacity ar)
    then if arena_grants os ar (off + unat sz)
      then \<exists>p ar' v'. arena_alloc dbg os sz align ar v = Some (p, ar', v') \<and> arena_inv os ar' v'
        \<and> unat align dvd unat p - unat (ar_ptr ar) \<and> unat (ar_ptr ar) + unat (ar_size ar) \<le> unat p
        \<and> unat p + unat sz = unat (ar_ptr ar) + unat (ar_size ar')
        \<and> unat (ar_size ar') \<le> unat (ar_capacity ar) \<and> writable_range v' (unat p) (unat sz)
      else \<exists>p. unat p = unat (ar_ptr ar) + off \<and> unat (ar_committed ar) < off + unat sz
        \<and> arena_alloc dbg os sz align ar v = (if dbg then None else Some (p, ar\<lparr>ar_size := of_nat (off + unat sz)\<rparr>, v))
    else arena_alloc dbg os sz align ar v = (if dbg then None else Some (0, ar, v))"
proof (cases "off + unat sz \<le> unat (ar_capacity ar)")
  case True
  have "0 < unat align" using assms(2) by (auto simp: is_power_of_two_iff)
  note ceil = ceil_to_props [OF this, of "unat (ar_size ar)", folded assms(4)]
  from assms True show ?thesis
  proof (cases rule: arena_alloc_fits [where dbg = dbg])
    case (granted p ar' v')
    then show ?thesis using True ceil by auto
  next
    case (refused p)
    have "unat (ar_committed ar) < off + unat sz" using refused(1) by (simp add: arena_grants_def)
    then show ?thesis using True refused by auto
  qed
next
  case False
  then show ?thesis using arena_alloc_full [OF assms(1-3)] assms(4) by simp
qed

definition sample_arena :: arena where
  "sample_arena = \<lparr>ar_ptr = 65536, ar_capacity = 8192, ar_size = 10, ar_committed = 4096\<rparr>"

definition sample_vm :: vm where
  "sample_vm = \<lparr>vm_mapped = [(65536, 8192)], vm_writable = [(65536, 4096)], vm_fds = 0\<rparr>"

lemma sample_arena_inv: "arena_inv sample_os sample_arena sample_vm"
  using sample_os_ok
  by (simp add: arena_inv_def sample_arena_def sample_vm_def writable_range_def writable_def)
     (simp add: sample_os_def)

theorem arena_alloc_correct_witness:
  "\<exists>p ar' v'. arena_alloc True sample_os 5000 16 sample_arena sample_vm = Some (p, ar', v')
    \<and> arena_inv sample_os ar' v' \<and> 16 dvd unat p - 65536 \<and> writable_range v' (unat p) 5000"
proof -
  have h: "is_power_of_two (16 :: usize)" "(16 :: usize) \<le> os_page_size sample_os"
    "arena_grants sample_os sample_arena n" for n
    by (simp_all add: is_power_of_two_def sample_os_def arena_grants_def)
  have "ceil_to (unat (ar_size sample_arena)) (unat (16 :: usize)) + unat (5000 :: usize)
      \<le> unat (ar_capacity sample_arena)"
    by (simp add: sample_arena_def ceil_to_def)
  then show ?thesis
    using arena_alloc_correct [OF sample_arena_inv h(1,2) refl, of 5000 True] h(3) by (auto simp: sample_arena_def)
qed

text \<open>
  Any sequence of requests to a release-build arena, granted or refused, yields blocks that lie
  one after the other: no two granted blocks overlap and all of them are inside the reservation.
\<close>

lemma arena_run_disjoint:
  assumes "arena_inv os ar v" "\<forall>q \<in> set qs. arena_admissible os q"
    and "arb.run os qs (ar, v) = (bs, s')"
  shows "sorted_wrt (\<lambda>(a, n) (b, m). a + n \<le> b) bs \<and> (\<forall>(a, n) \<in> set bs. a + n \<le> unat (ar_capacity ar))"
proof -
  have i: "arena_inv os (fst (ar, v)) (snd (ar, v))" using assms(1) by simp
  have q: "\<And>q. q \<in> set qs \<Longrightarrow> arena_admissible os q" using assms(2) by blast
  have "sorted_wrt (\<lambda>(a, n) (b, m). a + n \<le> b) bs" by (rule arb.run_disjoint [OF i q assms(3)])
  moreover have "\<forall>(a, n) \<in> set bs. a + n \<le> unat (ar_capacity ar)"
  proof -
    have "unat (ar_size (fst s')) \<le> unat (ar_capacity (fst s'))" "unat (ar_capacity (fst s')) = unat (ar_capacity ar)"
      using arb.run_sound [OF i q assms(3)] by (auto simp: arena_inv_def word_le_nat_alt)
    then show ?thesis using arb.run_sound [OF i q assms(3)] by fastforce
  qed
  ultimately show ?thesis ..
qed

lemma arena_run_disjoint_witness:
  "\<exists>bs s'. arb.run sample_os [(100, 8), (200, 64), (9000, 8), (300, 16)] (sample_arena, sample_vm) = (bs, s')
    \<and> sorted_wrt (\<lambda>(a, n) (b, m). a + n \<le> b) bs"
proof -
  obtain bs s' where r: "arb.run sample_os [(100, 8), (200, 64), (9000, 8), (300, 16)] (sample_arena, sample_vm) = (bs, s')"
    by (metis prod.collapse)
  have "\<forall>q \<in> set [(100, 8), (200, 64), (9000, 8), (300, 16)]. arena_admissible sample_os q"
    by (simp add: arena_admissible_def is_power_of_two_def sample_os_def)
  from arena_run_disjoint [OF sample_arena_inv this r] r show ?thesis by blast
qed

text \<open>
  With an alignment above the page size the overflow guard of a release-build \<^verbatim>\<open>Arena::alloc\<close> does
  not hold: the aligned offset can pass the capacity, the subtraction wraps, and the call returns an
  address outside the reservation. \<^verbatim>\<open>ConcurrentArena::alloc\<close> compares the aligned offset first.
\<close>

lemma arena_alloc_overaligned_escapes:
  "\<exists>ar v p ar' v'. arena_inv sample_os ar v \<and> arena_alloc False sample_os 16 16384 ar v = Some (p, ar', v')
    \<and> p \<noteq> 0 \<and> unat (ar_ptr ar) + unat (ar_capacity ar) \<le> unat p"
proof -
  have "arena_alloc False sample_os 16 16384 sample_arena sample_vm =
    Some (81920, sample_arena\<lparr>ar_size := 16400, ar_committed := 8192\<rparr>,
      sample_vm\<lparr>vm_writable := [(69632, 4096), (65536, 4096)]\<rparr>)"
    by code_simp
  moreover have "unat (ar_ptr sample_arena) + unat (ar_capacity sample_arena) \<le> unat (81920 :: usize)"
    by (simp add: sample_arena_def)
  ultimately show ?thesis using sample_arena_inv by fastforce
qed

text \<open>
  A release-build \<^verbatim>\<open>Arena::alloc\<close> ignores a refused commit: when the kernel does not make the
  pages writable it still moves the frontier and returns an address that is not writable.
\<close>

lemma arena_alloc_ignores_failed_commit:
  "\<exists>p ar' v'. arena_alloc False (sample_os\<lparr>os_mprotect := (\<lambda>p n. False)\<rparr>) 16 16
      (sample_arena\<lparr>ar_size := 4096\<rparr>) sample_vm = Some (p, ar', v')
    \<and> p \<noteq> 0 \<and> ar_size ar' = 4112 \<and> \<not> writable v' (unat p)"
proof -
  have "arena_alloc False (sample_os\<lparr>os_mprotect := (\<lambda>p n. False)\<rparr>) 16 16
      (sample_arena\<lparr>ar_size := 4096\<rparr>) sample_vm = Some (69632, sample_arena\<lparr>ar_size := 4112\<rparr>, sample_vm)"
    by code_simp
  moreover have "\<not> writable sample_vm (unat (69632 :: usize))" by (simp add: writable_def sample_vm_def)
  ultimately show ?thesis by simp
qed

end
