(* ===== verification/Concurrent_Arena.thy ===== *)
theory Concurrent_Arena
  imports Arena
begin

text \<open>
  \<^verbatim>\<open>mem::ConcurrentArena\<close> (\<^verbatim>\<open>include/fpag/mem/concurrent_arena.h\<close>, \<^verbatim>\<open>src/mem/concurrent_arena.cc\<close>):
  a bump allocator that several threads use at once. Every atomic operation of \<^verbatim>\<open>alloc\<close>,
  \<^verbatim>\<open>alloc_exact\<close>, \<^verbatim>\<open>alloc_from\<close> and \<^verbatim>\<open>commit_until\<close> is one step of a call: \<open>call\<close> lists the points
  between them, \<open>ca_step\<close> runs one of them, and \<open>arena_step\<close> interleaves any number of calls in
  any order. A weak compare-and-exchange may fail spuriously, which the flag of a step decides. The
  cursor of a lane has one writer, so taking from it is one step. The atomics are sequentially
  consistent here; the code orders them with acquire and release.
\<close>

section \<open>Definitions\<close>

record lane =
  ln_cursor :: usize
  ln_begin :: usize
  ln_end :: usize

record carena =
  ca_ptr :: usize
  ca_capacity :: usize
  ca_lane_unit :: usize
  ca_pool_begin :: usize
  ca_lanes :: "lane list"
  ca_size :: usize
  ca_committed :: usize

definition COMMIT_CHUNK_BYTES :: usize where
  "COMMIT_CHUNK_BYTES = push_bit 10 256"

definition empty_carena :: carena where
  "empty_carena = \<lparr>ca_ptr = 0, ca_capacity = 0, ca_lane_unit = 1, ca_pool_begin = 0, ca_lanes = [],
     ca_size = 0, ca_committed = 0\<rparr>"

definition ca_reserve :: "bool \<Rightarrow> os \<Rightarrow> usize \<Rightarrow> carena \<Rightarrow> vm \<Rightarrow> (carena \<times> vm) option" where
  "ca_reserve dbg os capacity ca v = do {
     fpag_dcheck dbg (ca_ptr ca = 0);
     let ca = ca\<lparr>ca_capacity := capacity\<rparr>;
     fpag_dcheck dbg (is_page_aligned_size os (ca_capacity ca));
     (ptr, v) \<leftarrow> reserve_pages os (ca_capacity ca) v;
     let ca = ca\<lparr>ca_ptr := ptr\<rparr>;
     fpag_dcheck dbg (ca_ptr ca \<noteq> 0);
     Some (ca\<lparr>ca_size := 0, ca_committed := 0\<rparr>, v)
   }"

definition ca_reset :: "bool \<Rightarrow> os \<Rightarrow> carena \<Rightarrow> vm \<Rightarrow> (carena \<times> vm) option" where
  "ca_reset dbg os ca v = do {
     fpag_dcheck dbg (ca_ptr ca \<noteq> 0);
     v \<leftarrow> free_pages dbg os (ca_ptr ca) (ca_capacity ca) v;
     Some (ca\<lparr>ca_ptr := 0, ca_capacity := 0, ca_lanes := [], ca_pool_begin := 0, ca_size := 0,
              ca_committed := 0\<rparr>, v)
   }"

definition ca_move :: "carena \<Rightarrow> carena \<times> carena" where
  "ca_move other =
     (empty_carena\<lparr>ca_ptr := ca_ptr other, ca_capacity := ca_capacity other, ca_lanes := ca_lanes other,
        ca_size := ca_size other, ca_committed := ca_committed other\<rparr>,
      other\<lparr>ca_ptr := 0, ca_capacity := 0, ca_lanes := [], ca_size := 0, ca_committed := 0\<rparr>)"

definition ca_move_assign :: "bool \<Rightarrow> os \<Rightarrow> carena \<Rightarrow> carena \<Rightarrow> vm \<Rightarrow> (carena \<times> carena \<times> vm) option" where
  "ca_move_assign dbg os self other v = do {
     (self, v) \<leftarrow> (if ca_ptr self \<noteq> 0 then ca_reset dbg os self v else Some (self, v));
     Some (self\<lparr>ca_ptr := ca_ptr other, ca_capacity := ca_capacity other, ca_lanes := ca_lanes other,
             ca_size := ca_size other, ca_committed := ca_committed other\<rparr>,
           other\<lparr>ca_ptr := 0, ca_capacity := 0, ca_lanes := [], ca_size := 0, ca_committed := 0\<rparr>, v)
   }"

definition cut_lane :: "usize \<Rightarrow> usize \<Rightarrow> usize \<Rightarrow> nat \<Rightarrow> lane" where
  "cut_lane lane_room lanes unit i =
     (let b = ((lane_room * of_nat i) div lanes div unit) * unit;
          e = ((lane_room * (of_nat i + 1)) div lanes div unit) * unit
      in \<lparr>ln_cursor = b, ln_begin = b, ln_end = (if e > b then e else b)\<rparr>)"

definition set_lanes :: "bool \<Rightarrow> usize \<Rightarrow> usize \<Rightarrow> usize \<Rightarrow> carena \<Rightarrow> carena option" where
  "set_lanes dbg lanes unit pool_bytes ca = do {
     fpag_dcheck dbg (ca_lanes ca = []);
     fpag_dcheck dbg (ca_pool_begin ca = 0 \<and> ca_size ca = 0);
     fpag_dcheck dbg (lanes > 0);
     fpag_dcheck dbg (unit > 0);
     let asked = (if pool_bytes > ca_capacity ca then ca_capacity ca else pool_bytes);
     let pool = (asked div unit) * unit;
     let lane_room = ((ca_capacity ca - pool) div unit) * unit;
     Some (ca\<lparr>ca_lane_unit := unit, ca_pool_begin := lane_room,
              ca_lanes := map (cut_lane lane_room lanes unit) [0..<unat lanes],
              ca_size := lane_room\<rparr>)
   }"

text \<open>
  The checks of the lane's number are those of a debug build; in a release build a lane that is not there is an
  access outside the vector, which has no result either.
\<close>

definition lane_at :: "carena \<Rightarrow> nat \<Rightarrow> lane option" where
  "lane_at ca lane = (if lane < length (ca_lanes ca) then Some (ca_lanes ca ! lane) else None)"

definition lane_size :: "bool \<Rightarrow> nat \<Rightarrow> carena \<Rightarrow> usize option" where
  "lane_size dbg lane ca =
     (if ca_lanes ca = [] then do { fpag_dcheck dbg (lane = 0); Some (ca_size ca) }
      else do {
        fpag_dcheck dbg (lane < length (ca_lanes ca));
        l \<leftarrow> lane_at ca lane;
        Some (ln_cursor l - ln_begin l)
      })"

definition lane_begin :: "bool \<Rightarrow> nat \<Rightarrow> carena \<Rightarrow> usize option" where
  "lane_begin dbg lane ca =
     (if ca_lanes ca = [] then do { fpag_dcheck dbg (lane = 0); Some 0 }
      else do { fpag_dcheck dbg (lane < length (ca_lanes ca)); l \<leftarrow> lane_at ca lane; Some (ln_begin l) })"

definition lane_end :: "bool \<Rightarrow> nat \<Rightarrow> carena \<Rightarrow> usize option" where
  "lane_end dbg lane ca =
     (if ca_lanes ca = [] then do { fpag_dcheck dbg (lane = 0); Some (ca_size ca) }
      else do { fpag_dcheck dbg (lane < length (ca_lanes ca)); l \<leftarrow> lane_at ca lane; Some (ln_end l) })"

definition pool_size :: "carena \<Rightarrow> usize" where
  "pool_size ca = ca_size ca - ca_pool_begin ca"

text \<open>
  A call that has taken its room carries the offsets it took, with the lane it took them from. The
  other points carry the local variables that are live there.
\<close>

record taken =
  tk_lane :: "nat option"
  tk_at :: usize
  tk_end :: usize

datatype call =
    AllocLoad usize usize
  | AllocCas usize usize usize usize
  | ExactAdd usize usize
  | LaneTake nat usize usize
  | CommitLoad taken
  | CommitPages taken usize
  | CommitCas taken usize usize
  | Returned "taken option" usize

definition alloc_load :: "bool \<Rightarrow> usize \<Rightarrow> usize \<Rightarrow> carena \<Rightarrow> call option" where
  "alloc_load dbg sz align ca = do {
     fpag_dcheck dbg (ca_ptr ca \<noteq> 0);
     let old_size = ca_size ca;
     aligned \<leftarrow> round_up dbg old_size align;
     (if aligned > ca_capacity ca \<or> sz > ca_capacity ca - aligned then do {
        fpag_dcheck dbg False;
        Some (Returned None 0)
      } else Some (AllocCas sz align old_size aligned))
   }"

definition alloc_cas :: "bool \<Rightarrow> usize \<Rightarrow> usize \<Rightarrow> usize \<Rightarrow> usize \<Rightarrow> carena \<Rightarrow> call \<times> carena" where
  "alloc_cas ok sz align old_size aligned ca =
     (let new_size = aligned + sz in
      if ok \<and> ca_size ca = old_size
      then (CommitLoad \<lparr>tk_lane = None, tk_at = aligned, tk_end = new_size\<rparr>, ca\<lparr>ca_size := new_size\<rparr>)
      else (AllocLoad sz align, ca))"

definition exact_add :: "bool \<Rightarrow> usize \<Rightarrow> usize \<Rightarrow> carena \<Rightarrow> (call \<times> carena) option" where
  "exact_add dbg sz align ca = do {
     fpag_dcheck dbg (ca_ptr ca \<noteq> 0);
     fpag_dcheck dbg (align \<noteq> 0 \<and> sz mod align = 0);
     let at = ca_size ca;
     let ca = ca\<lparr>ca_size := at + sz\<rparr>;
     fpag_dcheck dbg (at mod align = 0);
     fpag_dcheck dbg (sz \<le> ca_capacity ca - at);
     Some (CommitLoad \<lparr>tk_lane = None, tk_at = at, tk_end = at + sz\<rparr>, ca)
   }"

definition lane_take :: "bool \<Rightarrow> nat \<Rightarrow> usize \<Rightarrow> usize \<Rightarrow> carena \<Rightarrow> (call \<times> carena) option" where
  "lane_take dbg lane sz align ca = do {
     fpag_dcheck dbg (ca_ptr ca \<noteq> 0);
     fpag_dcheck dbg (lane < length (ca_lanes ca));
     fpag_dcheck dbg (align \<noteq> 0 \<and> sz mod ca_lane_unit ca = 0);
     cursor \<leftarrow> lane_at ca lane;
     let at = ln_cursor cursor;
     fpag_dcheck dbg (at mod align = 0);
     (if sz > ln_end cursor - at then Some (Returned None 0, ca)
      else Some (CommitLoad \<lparr>tk_lane = Some lane, tk_at = at, tk_end = at + sz\<rparr>,
             ca\<lparr>ca_lanes := (ca_lanes ca)[lane := cursor\<lparr>ln_cursor := at + sz\<rparr>]\<rparr>))
   }"

definition commit_load :: "taken \<Rightarrow> carena \<Rightarrow> call" where
  "commit_load t ca =
     (let committed = ca_committed ca in
      if tk_end t \<le> committed then Returned (Some t) (ca_ptr ca + tk_at t) else CommitPages t committed)"

definition commit_chunk :: "bool \<Rightarrow> os \<Rightarrow> taken \<Rightarrow> usize \<Rightarrow> carena \<Rightarrow> vm \<Rightarrow> (call \<times> vm) option" where
  "commit_chunk dbg os t committed ca v = do {
     next_end \<leftarrow> round_up dbg (tk_end t) COMMIT_CHUNK_BYTES;
     let next_end = (if next_end > ca_capacity ca then ca_capacity ca else next_end);
     (ok, v) \<leftarrow> commit_pages dbg os (ca_ptr ca + committed) (next_end - committed) v;
     (if \<not> ok then do { fpag_dcheck dbg False; Some (Returned (Some t) 0, v) }
      else Some (CommitCas t committed next_end, v))
   }"

definition commit_cas :: "bool \<Rightarrow> taken \<Rightarrow> usize \<Rightarrow> usize \<Rightarrow> carena \<Rightarrow> call \<times> carena" where
  "commit_cas ok t committed next_end ca =
     (if ok \<and> ca_committed ca = committed
      then (Returned (Some t) (ca_ptr ca + tk_at t), ca\<lparr>ca_committed := next_end\<rparr>)
      else (CommitLoad t, ca))"

fun ca_step :: "bool \<Rightarrow> os \<Rightarrow> bool \<Rightarrow> call \<Rightarrow> carena \<Rightarrow> vm \<Rightarrow> (call \<times> carena \<times> vm) option" where
  "ca_step dbg os ok (AllocLoad sz align) ca v =
     do { c \<leftarrow> alloc_load dbg sz align ca; Some (c, ca, v) }"
| "ca_step dbg os ok (AllocCas sz align old_size aligned) ca v =
     (let (c, ca) = alloc_cas ok sz align old_size aligned ca in Some (c, ca, v))"
| "ca_step dbg os ok (ExactAdd sz align) ca v =
     do { (c, ca) \<leftarrow> exact_add dbg sz align ca; Some (c, ca, v) }"
| "ca_step dbg os ok (LaneTake lane sz align) ca v =
     do { (c, ca) \<leftarrow> lane_take dbg lane sz align ca; Some (c, ca, v) }"
| "ca_step dbg os ok (CommitLoad t) ca v = Some (commit_load t ca, ca, v)"
| "ca_step dbg os ok (CommitPages t committed) ca v =
     do { (c, v) \<leftarrow> commit_chunk dbg os t committed ca v; Some (c, ca, v) }"
| "ca_step dbg os ok (CommitCas t committed next_end) ca v =
     (let (c, ca) = commit_cas ok t committed next_end ca in Some (c, ca, v))"
| "ca_step dbg os ok (Returned t p) ca v = Some (Returned t p, ca, v)"

text \<open>One call alone, with no spurious failure: a call has at most five steps left.\<close>

fun ca_run :: "nat \<Rightarrow> bool \<Rightarrow> os \<Rightarrow> call \<Rightarrow> carena \<Rightarrow> vm \<Rightarrow> (usize \<times> carena \<times> vm) option" where
  "ca_run 0 dbg os (Returned t p) ca v = Some (p, ca, v)"
| "ca_run 0 dbg os c ca v = None"
| "ca_run (Suc n) dbg os c ca v = do { (c, ca, v) \<leftarrow> ca_step dbg os True c ca v; ca_run n dbg os c ca v }"

definition ca_alloc :: "bool \<Rightarrow> os \<Rightarrow> usize \<Rightarrow> usize \<Rightarrow> carena \<Rightarrow> vm \<Rightarrow> (usize \<times> carena \<times> vm) option" where
  "ca_alloc dbg os sz align ca v = ca_run 5 dbg os (AllocLoad sz align) ca v"

definition ca_alloc_exact :: "bool \<Rightarrow> os \<Rightarrow> usize \<Rightarrow> usize \<Rightarrow> carena \<Rightarrow> vm \<Rightarrow> (usize \<times> carena \<times> vm) option" where
  "ca_alloc_exact dbg os sz align ca v = ca_run 5 dbg os (ExactAdd sz align) ca v"

definition ca_alloc_from :: "bool \<Rightarrow> os \<Rightarrow> nat \<Rightarrow> usize \<Rightarrow> usize \<Rightarrow> carena \<Rightarrow> vm \<Rightarrow> (usize \<times> carena \<times> vm) option" where
  "ca_alloc_from dbg os lane sz align ca v = ca_run 5 dbg os (LaneTake lane sz align) ca v"

section \<open>Interleaving\<close>

text \<open>
  A configuration is the arena, the pages, the calls made so far and the size each asked for. A step starts a call or runs one
  step of one of them. The two caller promises of the header are premises: an alignment is a power
  of two that does not wrap the address space, and \<^verbatim>\<open>alloc_exact\<close> is called with room.
\<close>

record config =
  cf_arena :: carena
  cf_vm :: vm
  cf_calls :: "call list"
  cf_asked :: "usize list"

definition align_ok :: "carena \<Rightarrow> usize \<Rightarrow> bool" where
  "align_ok ca align \<longleftrightarrow> is_power_of_two align \<and> unat (ca_capacity ca) + unat align \<le> 2 ^ 64"

fun starts :: "carena \<Rightarrow> call \<Rightarrow> bool" where
  "starts ca (AllocLoad sz align) = align_ok ca align"
| "starts ca (ExactAdd sz align) = True"
| "starts ca (LaneTake lane sz align) = True"
| "starts ca _ = False"

fun asked_size :: "call \<Rightarrow> usize" where
  "asked_size (AllocLoad sz align) = sz"
| "asked_size (ExactAdd sz align) = sz"
| "asked_size (LaneTake lane sz align) = sz"
| "asked_size _ = 0"

fun caller_ok :: "carena \<Rightarrow> call \<Rightarrow> bool" where
  "caller_ok ca (ExactAdd sz align) \<longleftrightarrow> unat (ca_size ca) + unat sz \<le> unat (ca_capacity ca)"
| "caller_ok ca _ \<longleftrightarrow> True"

inductive arena_step :: "bool \<Rightarrow> os \<Rightarrow> config \<Rightarrow> config \<Rightarrow> bool" for dbg :: bool and os :: os where
  start_call: "starts (cf_arena s) c \<Longrightarrow> arena_step dbg os s
    (s\<lparr>cf_calls := cf_calls s @ [c], cf_asked := cf_asked s @ [asked_size c]\<rparr>)"
| run_call: "i < length (cf_calls s) \<Longrightarrow> caller_ok (cf_arena s) (cf_calls s ! i)
    \<Longrightarrow> ca_step dbg os ok (cf_calls s ! i) (cf_arena s) (cf_vm s) = Some (c, ca, v)
    \<Longrightarrow> arena_step dbg os s (s\<lparr>cf_arena := ca, cf_vm := v, cf_calls := (cf_calls s)[i := c]\<rparr>)"

section \<open>Invariants\<close>

definition lane_ok :: "carena \<Rightarrow> nat \<Rightarrow> bool" where
  "lane_ok ca l \<longleftrightarrow> ln_begin (ca_lanes ca ! l) \<le> ln_cursor (ca_lanes ca ! l)
     \<and> ln_cursor (ca_lanes ca ! l) \<le> ln_end (ca_lanes ca ! l) \<and> ln_end (ca_lanes ca ! l) \<le> ca_pool_begin ca"

definition lanes_ok :: "carena \<Rightarrow> bool" where
  "lanes_ok ca \<longleftrightarrow> (\<forall>l < length (ca_lanes ca). lane_ok ca l)
     \<and> (\<forall>l m. l < m \<and> m < length (ca_lanes ca) \<longrightarrow> ln_end (ca_lanes ca ! l) \<le> ln_begin (ca_lanes ca ! m))"

definition ca_inv :: "os \<Rightarrow> carena \<Rightarrow> vm \<Rightarrow> bool" where
  "ca_inv os ca v \<longleftrightarrow> os_ok os \<and> ca_ptr ca \<noteq> 0 \<and> unat (os_page_size os) dvd 2 ^ 18
     \<and> unat (os_page_size os) dvd unat (ca_ptr ca) \<and> unat (os_page_size os) dvd unat (ca_capacity ca)
     \<and> unat (ca_ptr ca) + unat (ca_capacity ca) < 2 ^ 64 \<and> unat (ca_capacity ca) + 2 ^ 18 \<le> 2 ^ 64
     \<and> ca_pool_begin ca \<le> ca_size ca \<and> ca_size ca \<le> ca_capacity ca \<and> ca_committed ca \<le> ca_capacity ca
     \<and> unat (os_page_size os) dvd unat (ca_committed ca) \<and> lanes_ok ca
     \<and> writable_range v (unat (ca_ptr ca)) (unat (ca_committed ca))"

definition taken_ok :: "carena \<Rightarrow> taken \<Rightarrow> bool" where
  "taken_ok ca t \<longleftrightarrow> tk_at t \<le> tk_end t \<and> tk_end t \<le> ca_capacity ca
     \<and> (case tk_lane t of
          None \<Rightarrow> ca_pool_begin ca \<le> tk_at t \<and> tk_end t \<le> ca_size ca
        | Some l \<Rightarrow> l < length (ca_lanes ca) \<and> ln_begin (ca_lanes ca ! l) \<le> tk_at t
            \<and> tk_end t \<le> ln_cursor (ca_lanes ca ! l))"

fun call_ok :: "os \<Rightarrow> carena \<Rightarrow> vm \<Rightarrow> call \<Rightarrow> bool" where
  "call_ok os ca v (AllocLoad sz align) \<longleftrightarrow> align_ok ca align"
| "call_ok os ca v (AllocCas sz align old_size aligned) \<longleftrightarrow>
     align_ok ca align \<and> old_size \<le> aligned \<and> unat aligned + unat sz \<le> unat (ca_capacity ca)"
| "call_ok os ca v (ExactAdd sz align) \<longleftrightarrow> True"
| "call_ok os ca v (LaneTake lane sz align) \<longleftrightarrow> True"
| "call_ok os ca v (CommitLoad t) \<longleftrightarrow> taken_ok ca t"
| "call_ok os ca v (CommitPages t committed) \<longleftrightarrow> taken_ok ca t \<and> committed \<le> ca_committed ca
     \<and> unat (os_page_size os) dvd unat committed \<and> committed < tk_end t"
| "call_ok os ca v (CommitCas t committed next_end) \<longleftrightarrow> taken_ok ca t \<and> tk_end t \<le> next_end
     \<and> next_end \<le> ca_capacity ca \<and> committed \<le> next_end \<and> unat (os_page_size os) dvd unat next_end
     \<and> writable_range v (unat (ca_ptr ca)) (unat next_end)"
| "call_ok os ca v (Returned None p) \<longleftrightarrow> p = 0"
| "call_ok os ca v (Returned (Some t) p) \<longleftrightarrow> taken_ok ca t
     \<and> (p = 0 \<or> p = ca_ptr ca + tk_at t \<and> writable_range v (unat (ca_ptr ca)) (unat (tk_end t)))"

fun taken_of :: "call \<Rightarrow> taken option" where
  "taken_of (CommitLoad t) = Some t"
| "taken_of (CommitPages t _) = Some t"
| "taken_of (CommitCas t _ _) = Some t"
| "taken_of (Returned t _) = t"
| "taken_of _ = None"

definition apart :: "taken \<Rightarrow> taken \<Rightarrow> bool" where
  "apart t u \<longleftrightarrow> tk_end t \<le> tk_at u \<or> tk_end u \<le> tk_at t"

definition calls_apart :: "call list \<Rightarrow> bool" where
  "calls_apart cs \<longleftrightarrow> (\<forall>i j t u. i < length cs \<and> j < length cs \<and> i \<noteq> j
     \<and> taken_of (cs ! i) = Some t \<and> taken_of (cs ! j) = Some u \<longrightarrow> apart t u)"

fun asked_ok :: "usize \<Rightarrow> call \<Rightarrow> bool" where
  "asked_ok n (AllocLoad sz align) \<longleftrightarrow> sz = n"
| "asked_ok n (AllocCas sz align old_size aligned) \<longleftrightarrow> sz = n"
| "asked_ok n (ExactAdd sz align) \<longleftrightarrow> sz = n"
| "asked_ok n (LaneTake lane sz align) \<longleftrightarrow> sz = n"
| "asked_ok n (CommitLoad t) \<longleftrightarrow> tk_end t = tk_at t + n"
| "asked_ok n (CommitPages t committed) \<longleftrightarrow> tk_end t = tk_at t + n"
| "asked_ok n (CommitCas t committed next_end) \<longleftrightarrow> tk_end t = tk_at t + n"
| "asked_ok n (Returned t p) \<longleftrightarrow> (case t of None \<Rightarrow> True | Some t \<Rightarrow> tk_end t = tk_at t + n)"

definition config_inv :: "os \<Rightarrow> config \<Rightarrow> bool" where
  "config_inv os s \<longleftrightarrow> list_all2 asked_ok (cf_asked s) (cf_calls s) \<and> ca_inv os (cf_arena s) (cf_vm s)
     \<and> (\<forall>c \<in> set (cf_calls s). call_ok os (cf_arena s) (cf_vm s) c) \<and> calls_apart (cf_calls s)"

text \<open>What other calls may do to the arena while one call is between two steps.\<close>

definition grows :: "carena \<Rightarrow> vm \<Rightarrow> carena \<Rightarrow> vm \<Rightarrow> bool" where
  "grows ca v ca' v' \<longleftrightarrow> ca_ptr ca' = ca_ptr ca \<and> ca_capacity ca' = ca_capacity ca
     \<and> ca_pool_begin ca' = ca_pool_begin ca \<and> length (ca_lanes ca') = length (ca_lanes ca)
     \<and> (\<forall>l < length (ca_lanes ca). ln_begin (ca_lanes ca' ! l) = ln_begin (ca_lanes ca ! l)
          \<and> ln_cursor (ca_lanes ca ! l) \<le> ln_cursor (ca_lanes ca' ! l))
     \<and> ca_size ca \<le> ca_size ca' \<and> ca_committed ca \<le> ca_committed ca'
     \<and> (\<forall>a. writable v a \<longrightarrow> writable v' a)"

lemma grows_refl [simp]: "grows ca v ca v"
  by (simp add: grows_def)

lemma taken_ok_grows: "taken_ok ca t \<Longrightarrow> grows ca v ca' v' \<Longrightarrow> taken_ok ca' t"
  by (auto simp: taken_ok_def grows_def split: option.splits intro: order_trans)

lemma writable_range_grows: "writable_range v a n \<Longrightarrow> grows ca v ca' v' \<Longrightarrow> writable_range v' a n"
  by (auto simp: writable_range_def grows_def)

lemma call_ok_grows:
  assumes "call_ok os ca v c" "grows ca v ca' v'"
  shows "call_ok os ca' v' c"
proof (cases c)
  case (CommitPages t committed)
  have "ca_committed ca \<le> ca_committed ca'" using assms(2) by (simp add: grows_def)
  then show ?thesis using assms CommitPages taken_ok_grows [OF _ assms(2)] by auto
next
  case (CommitCas t committed next_end)
  then show ?thesis using assms taken_ok_grows [OF _ assms(2)] writable_range_grows [OF _ assms(2)]
    by (auto simp: grows_def)
next
  case (Returned t p)
  then show ?thesis using assms taken_ok_grows [OF _ assms(2)] writable_range_grows [OF _ assms(2)]
    by (cases t) (auto simp: grows_def)
qed (use assms taken_ok_grows [OF _ assms(2)] in \<open>auto simp: align_ok_def grows_def\<close>)

lemma pool_take_fresh:
  assumes "ca_inv os ca v" "taken_ok ca u" "tk_lane t = None" "ca_size ca \<le> tk_at t"
  shows "apart t u"
proof (cases "tk_lane u")
  case None
  then show ?thesis using assms by (auto simp: taken_ok_def apart_def)
next
  case (Some l)
  then have "tk_end u \<le> ca_pool_begin ca"
    using assms(1,2) by (fastforce simp: taken_ok_def ca_inv_def lanes_ok_def lane_ok_def)
  then have "tk_end u \<le> tk_at t" using assms(1,4) by (auto simp: ca_inv_def)
  then show ?thesis by (simp add: apart_def)
qed

lemma lane_take_fresh:
  assumes inv: "ca_inv os ca v" and u: "taken_ok ca u" and l: "l < length (ca_lanes ca)"
    and t: "tk_at t = ln_cursor (ca_lanes ca ! l)" "tk_end t \<le> ln_end (ca_lanes ca ! l)"
  shows "apart t u"
proof -
  have ok: "\<And>k. k < length (ca_lanes ca) \<Longrightarrow> lane_ok ca k"
    and ord: "\<And>k m. k < m \<Longrightarrow> m < length (ca_lanes ca) \<Longrightarrow> ln_end (ca_lanes ca ! k) \<le> ln_begin (ca_lanes ca ! m)"
    using inv by (auto simp: ca_inv_def lanes_ok_def)
  show ?thesis
  proof (cases "tk_lane u")
    case None
    then have "tk_end t \<le> tk_at u" using u t(2) ok [OF l] by (auto simp: taken_ok_def lane_ok_def)
    then show ?thesis by (simp add: apart_def)
  next
    case (Some m)
    then have m: "m < length (ca_lanes ca)" "ln_begin (ca_lanes ca ! m) \<le> tk_at u"
      "tk_end u \<le> ln_cursor (ca_lanes ca ! m)" using u by (auto simp: taken_ok_def)
    consider "m = l" | "m < l" | "l < m" by linarith
    then show ?thesis
    proof cases
      case 1
      then show ?thesis using m(3) t(1) by (simp add: apart_def)
    next
      case 2
      have "tk_end u \<le> tk_at t"
        using m(3) t(1) ok [OF m(1)] ok [OF l] ord [OF 2 l] by (auto simp: lane_ok_def)
      then show ?thesis by (simp add: apart_def)
    next
      case 3
      have "tk_end t \<le> tk_at u" using m(2) t(2) ord [OF 3 m(1)] by auto
      then show ?thesis by (simp add: apart_def)
    qed
  qed
qed

text \<open>What one step of one call keeps, and what it may add.\<close>

definition fresh :: "carena \<Rightarrow> taken \<Rightarrow> bool" where
  "fresh ca t \<longleftrightarrow> (\<forall>u. taken_ok ca u \<longrightarrow> apart t u)"

definition step_good :: "os \<Rightarrow> call \<Rightarrow> carena \<Rightarrow> vm \<Rightarrow> call \<times> carena \<times> vm \<Rightarrow> bool" where
  "step_good os c ca v r \<longleftrightarrow> (case r of (c', ca', v') \<Rightarrow>
     ca_inv os ca' v' \<and> grows ca v ca' v' \<and> call_ok os ca' v' c'
     \<and> (taken_of c' = taken_of c \<or> taken_of c = None \<and> (\<exists>t. taken_of c' = Some t \<and> fresh ca t)))"

lemma step_good_same:
  "ca_inv os ca v \<Longrightarrow> call_ok os ca v c' \<Longrightarrow> taken_of c' = taken_of c \<Longrightarrow> step_good os c ca v (c', ca, v)"
  by (simp add: step_good_def)

lemma alloc_load_good:
  assumes inv: "ca_inv os ca v" and al: "align_ok ca align" and run: "alloc_load dbg sz align ca = Some c'"
  shows "step_good os (AllocLoad sz align) ca v (c', ca, v)"
proof -
  obtain r where r: "round_up dbg (ca_size ca) align = Some r"
    using round_up_eq [of align] al by (auto simp: align_ok_def)
  have "unat (ca_size ca) + unat align \<le> 2 ^ 64"
    using inv al by (simp add: ca_inv_def align_ok_def word_le_nat_alt)
  then have ur: "unat r = ceil_to (unat (ca_size ca)) (unat align)"
    using unat_round_up_ceil [OF _ r] al by (simp add: align_ok_def)
  have "0 < unat align" using al by (auto simp: align_ok_def is_power_of_two_iff)
  then have le: "ca_size ca \<le> r" using ceil_to_props ur by (simp add: word_le_nat_alt)
  show ?thesis
  proof (cases "r > ca_capacity ca \<or> sz > ca_capacity ca - r")
    case True
    then have "c' = Returned None 0" using run r by (auto simp: alloc_load_def checks Let_def)
    then show ?thesis using inv by (intro step_good_same) simp_all
  next
    case False
    then have "c' = AllocCas sz align (ca_size ca) r" using run r by (auto simp: alloc_load_def checks Let_def)
    moreover have "unat r + unat sz \<le> unat (ca_capacity ca)"
      using False by (intro unat_room) auto
    ultimately show ?thesis using inv al le by (intro step_good_same) simp_all
  qed
qed

lemma pool_take_good:
  assumes inv: "ca_inv os ca v" and le: "ca_size ca \<le> at"
    and room: "unat at + unat sz \<le> unat (ca_capacity ca)" and n: "taken_of c = None"
  shows "step_good os c ca v (CommitLoad \<lparr>tk_lane = None, tk_at = at, tk_end = at + sz\<rparr>, ca\<lparr>ca_size := at + sz\<rparr>, v)"
proof -
  let ?t = "\<lparr>tk_lane = None, tk_at = at, tk_end = at + sz\<rparr>"
  have un: "unat (at + sz) = unat at + unat sz"
    using room unat_lt2p [of "ca_capacity ca"] by (intro unat_add_nowrap) simp
  have ord: "at \<le> at + sz" "at + sz \<le> ca_capacity ca" "ca_pool_begin ca \<le> at"
    using un room inv le by (auto simp: ca_inv_def word_le_nat_alt)
  have "fresh ca ?t" using pool_take_fresh [OF inv, of _ ?t] le by (simp add: fresh_def)
  moreover have "ca_inv os (ca\<lparr>ca_size := at + sz\<rparr>) v"
    using inv ord by (auto simp: ca_inv_def lanes_ok_def lane_ok_def)
  moreover have "grows ca v (ca\<lparr>ca_size := at + sz\<rparr>) v" using le ord by (auto simp: grows_def)
  moreover have "taken_ok (ca\<lparr>ca_size := at + sz\<rparr>) ?t" using ord by (simp add: taken_ok_def)
  ultimately show ?thesis using n by (simp add: step_good_def)
qed

lemma alloc_cas_good:
  assumes inv: "ca_inv os ca v" and ok: "call_ok os ca v (AllocCas sz align old_size aligned)"
    and run: "alloc_cas b sz align old_size aligned ca = (c', ca')"
  shows "step_good os (AllocCas sz align old_size aligned) ca v (c', ca', v)"
proof (cases "b \<and> ca_size ca = old_size")
  case True
  then have "c' = CommitLoad \<lparr>tk_lane = None, tk_at = aligned, tk_end = aligned + sz\<rparr>"
    "ca' = ca\<lparr>ca_size := aligned + sz\<rparr>" using run by (auto simp: alloc_cas_def Let_def)
  then show ?thesis using pool_take_good [OF inv] True ok by simp
next
  case False
  then have "c' = AllocLoad sz align" "ca' = ca" using run by (auto simp: alloc_cas_def Let_def split: if_splits)
  then show ?thesis using inv ok by (simp add: step_good_same)
qed

lemma exact_add_good:
  assumes inv: "ca_inv os ca v" and room: "caller_ok ca (ExactAdd sz align)"
    and run: "exact_add dbg sz align ca = Some (c', ca')"
  shows "step_good os (ExactAdd sz align) ca v (c', ca', v)"
proof -
  have "c' = CommitLoad \<lparr>tk_lane = None, tk_at = ca_size ca, tk_end = ca_size ca + sz\<rparr>"
    "ca' = ca\<lparr>ca_size := ca_size ca + sz\<rparr>" using run by (auto simp: exact_add_def checks Let_def)
  then show ?thesis using pool_take_good [OF inv] room by simp
qed

lemma lane_take_good:
  assumes inv: "ca_inv os ca v" and run: "lane_take dbg lane sz align ca = Some (c', ca')"
  shows "step_good os (LaneTake lane sz align) ca v (c', ca', v)"
proof -
  let ?L = "ca_lanes ca ! lane"
  have l: "lane < length (ca_lanes ca)" using run by (auto simp: lane_take_def lane_at_def checks Let_def split: if_splits)
  have lo: "lane_ok ca lane" using inv l by (simp add: ca_inv_def lanes_ok_def)
  show ?thesis
  proof (cases "sz > ln_end ?L - ln_cursor ?L")
    case True
    then have "c' = Returned None 0" "ca' = ca" using run by (auto simp: lane_take_def lane_at_def checks Let_def split: if_splits)
    then show ?thesis using inv by (simp add: step_good_same)
  next
    case False
    let ?t = "\<lparr>tk_lane = Some lane, tk_at = ln_cursor ?L, tk_end = ln_cursor ?L + sz\<rparr>"
    let ?ca = "ca\<lparr>ca_lanes := (ca_lanes ca)[lane := ?L\<lparr>ln_cursor := ln_cursor ?L + sz\<rparr>]\<rparr>"
    have eq: "c' = CommitLoad ?t" "ca' = ?ca" using run False by (auto simp: lane_take_def lane_at_def checks Let_def split: if_splits)
    have nat: "unat (ln_cursor ?L) + unat sz \<le> unat (ln_end ?L)"
      using False lo by (intro unat_room) (auto simp: lane_ok_def)
    then have un: "unat (ln_cursor ?L + sz) = unat (ln_cursor ?L) + unat sz"
      using unat_lt2p [of "ln_end ?L"] by (intro unat_add_nowrap) simp
    have ord: "ln_cursor ?L \<le> ln_cursor ?L + sz" "ln_cursor ?L + sz \<le> ln_end ?L"
      using un nat by (auto simp: word_le_nat_alt)
    have pb: "ca_pool_begin ca \<le> ca_capacity ca" using inv by (auto simp: ca_inv_def)
    have lk: "lane_ok ?ca k" if "k < length (ca_lanes ca)" for k
      using inv that ord lo l by (auto simp: ca_inv_def lanes_ok_def lane_ok_def nth_list_update)
    have "lanes_ok ?ca" using inv lk l by (auto simp: ca_inv_def lanes_ok_def nth_list_update)
    then have "ca_inv os ?ca v" using inv by (auto simp: ca_inv_def)
    moreover have "grows ca v ?ca v" using ord l by (auto simp: grows_def nth_list_update)
    moreover have "taken_ok ?ca ?t" using ord l lo pb by (auto simp: taken_ok_def lane_ok_def)
    moreover have "fresh ca ?t" using lane_take_fresh [OF inv _ l, of _ ?t] ord by (simp add: fresh_def)
    ultimately show ?thesis by (simp add: step_good_def eq)
  qed
qed

lemma commit_load_good:
  assumes inv: "ca_inv os ca v" and ok: "taken_ok ca t"
  shows "step_good os (CommitLoad t) ca v (commit_load t ca, ca, v)"
proof (cases "tk_end t \<le> ca_committed ca")
  case True
  have "writable_range v (unat (ca_ptr ca)) (unat (tk_end t))"
    by (rule writable_range_mono) (use True inv in \<open>auto simp: ca_inv_def word_le_nat_alt\<close>)
  then show ?thesis using True inv ok by (simp add: step_good_same commit_load_def)
next
  case False
  then show ?thesis using inv ok
    by (intro step_good_same) (auto simp: commit_load_def Let_def not_le, auto simp: ca_inv_def)
qed

lemma chunk_end_ceil:
  assumes "ca_inv os ca v" "e \<le> ca_capacity ca" "round_up dbg e COMMIT_CHUNK_BYTES = Some r"
  shows "unat r = ceil_to (unat e) (2 ^ 18)"
proof -
  have c: "is_power_of_two COMMIT_CHUNK_BYTES" "unat COMMIT_CHUNK_BYTES = 2 ^ 18"
    by (simp_all add: COMMIT_CHUNK_BYTES_def is_power_of_two_def push_bit_eq_mult)
  then show ?thesis using unat_round_up_ceil [OF c(1) assms(3)] assms(1,2) by (simp add: ca_inv_def word_le_nat_alt)
qed

lemma chunk_end:
  assumes inv: "ca_inv os ca v" and e: "e \<le> ca_capacity ca"
  obtains r where "round_up dbg e COMMIT_CHUNK_BYTES = Some r" "e \<le> r" "unat (os_page_size os) dvd unat r"
proof -
  have "is_power_of_two COMMIT_CHUNK_BYTES" by (simp add: COMMIT_CHUNK_BYTES_def is_power_of_two_def push_bit_eq_mult)
  then obtain r where r: "round_up dbg e COMMIT_CHUNK_BYTES = Some r" using round_up_eq by blast
  have "unat r = ceil_to (unat e) (2 ^ 18)" by (rule chunk_end_ceil [OF inv e r])
  then have "e \<le> r" "(2 ^ 18) dvd unat r" using ceil_to_props [of "2 ^ 18"] by (simp_all add: word_le_nat_alt)
  with r show thesis using inv by (intro that [of r]) (auto simp: ca_inv_def intro: dvd_trans)
qed

lemma commit_chunk_good:
  assumes inv: "ca_inv os ca v" and ok: "call_ok os ca v (CommitPages t committed)"
    and run: "commit_chunk dbg os t committed ca v = Some (c', v')"
  shows "step_good os (CommitPages t committed) ca v (c', ca, v')"
proof -
  have t: "taken_ok ca t" "committed \<le> ca_committed ca" "committed < tk_end t"
    "unat (os_page_size os) dvd unat committed" "tk_end t \<le> ca_capacity ca"
    using ok by (auto simp: taken_ok_def)
  obtain r where r: "round_up dbg (tk_end t) COMMIT_CHUNK_BYTES = Some r" "tk_end t \<le> r"
    "unat (os_page_size os) dvd unat r" by (rule chunk_end [OF inv t(5)])
  define n where "n = (if r > ca_capacity ca then ca_capacity ca else r)"
  have n: "tk_end t \<le> n" "n \<le> ca_capacity ca" "unat (os_page_size os) dvd unat n" "committed \<le> n"
    using r t inv by (auto simp: n_def ca_inv_def not_less)
  obtain b v1 where cp: "commit_pages dbg os (ca_ptr ca + committed) (n - committed) v = Some (b, v1)"
    and res: "if b then c' = CommitCas t committed n else c' = Returned (Some t) 0" and "v' = v1"
  proof -
    have "commit_chunk dbg os t committed ca v = do {
        (ok, v) \<leftarrow> commit_pages dbg os (ca_ptr ca + committed) (n - committed) v;
        (if \<not> ok then do { fpag_dcheck dbg False; Some (Returned (Some t) 0, v) }
         else Some (CommitCas t committed n, v)) }"
      unfolding commit_chunk_def r(1) n_def Let_def by simp
    with run that show thesis by (fastforce simp: bind_eq_Some_conv fpag_dcheck_eq_Some split: if_splits)
  qed
  have p: "unat (ca_ptr ca + committed) = unat (ca_ptr ca) + unat committed"
    using inv n(2,4) by (intro unat_add_nowrap) (auto simp: ca_inv_def word_le_nat_alt)
  show ?thesis
  proof (cases b)
    case True
    have v1: "v1 = v\<lparr>vm_writable := (ca_ptr ca + committed, n - committed) # vm_writable v\<rparr>"
      using cp True by (auto simp: commit_pages_def checks split: if_splits)
    have "writable_range v (unat (ca_ptr ca)) (unat committed)"
      by (rule writable_range_mono) (use inv t(2) in \<open>auto simp: ca_inv_def word_le_nat_alt\<close>)
    then have "writable_range v1 (unat (ca_ptr ca)) (unat n)"
      using writable_range_extend [of v "unat (ca_ptr ca)" "unat committed" "ca_ptr ca + committed" "n - committed"]
        p n(4) by (simp add: v1 unat_sub_le word_le_nat_alt)
    moreover have g: "grows ca v ca v1" by (simp add: grows_def v1 writable_add)
    moreover have "ca_inv os ca v1" using inv writable_range_grows [OF _ g] by (simp add: ca_inv_def)
    ultimately show ?thesis using True res t n \<open>v' = v1\<close> by (simp add: step_good_def)
  next
    case False
    then have "v1 = v" using cp by (auto simp: commit_pages_def checks split: if_splits)
    then show ?thesis using False res t(1) inv \<open>v' = v1\<close> by (auto intro: step_good_same)
  qed
qed

lemma commit_cas_good:
  assumes inv: "ca_inv os ca v" and ok: "call_ok os ca v (CommitCas t committed n)"
    and run: "commit_cas b t committed n ca = (c', ca')"
  shows "step_good os (CommitCas t committed n) ca v (c', ca', v)"
proof (cases "b \<and> ca_committed ca = committed")
  case True
  then have eq: "c' = Returned (Some t) (ca_ptr ca + tk_at t)" "ca' = ca\<lparr>ca_committed := n\<rparr>"
    using run by (auto simp: commit_cas_def)
  have "ca_inv os ca' v" using inv ok True by (auto simp: eq ca_inv_def lanes_ok_def lane_ok_def)
  moreover have g: "grows ca v ca' v" using ok True by (auto simp: eq grows_def)
  moreover have "writable_range v (unat (ca_ptr ca)) (unat (tk_end t))"
    by (rule writable_range_mono [of v _ "unat n"]) (use ok in \<open>auto simp: word_le_nat_alt\<close>)
  moreover have "taken_ok ca' t" using ok taken_ok_grows [OF _ g] by simp
  ultimately show ?thesis by (simp add: step_good_def eq)
next
  case False
  then have "c' = CommitLoad t" "ca' = ca" using run by (auto simp: commit_cas_def split: if_splits)
  then show ?thesis using inv ok by (simp add: step_good_same)
qed

lemma ca_step_good:
  assumes inv: "ca_inv os ca v" and ok: "call_ok os ca v c" "caller_ok ca c"
    and run: "ca_step dbg os b c ca v = Some (c', ca', v')"
  shows "step_good os c ca v (c', ca', v')"
proof (cases c)
  case (AllocLoad sz align)
  then show ?thesis using run ok alloc_load_good [OF inv] by (auto simp: bind_eq_Some_conv)
next
  case (AllocCas sz align old_size aligned)
  then show ?thesis using run ok alloc_cas_good [OF inv] by (auto split: prod.splits simp del: call_ok.simps)
next
  case (ExactAdd sz align)
  then show ?thesis using run ok exact_add_good [OF inv] by (auto simp: bind_eq_Some_conv simp del: caller_ok.simps)
next
  case (LaneTake lane sz align)
  then show ?thesis using run lane_take_good [OF inv] by (auto simp: bind_eq_Some_conv)
next
  case (CommitLoad t)
  then show ?thesis using run ok commit_load_good [OF inv] by auto
next
  case (CommitPages t committed)
  then show ?thesis using run ok commit_chunk_good [OF inv] by (auto simp: bind_eq_Some_conv simp del: call_ok.simps)
next
  case (CommitCas t committed n)
  then show ?thesis using run ok commit_cas_good [OF inv] by (auto split: prod.splits simp del: call_ok.simps)
next
  case (Returned t p)
  then show ?thesis using run ok inv by (auto intro: step_good_same)
qed

lemma ca_step_asked:
  assumes "ca_step dbg os b c ca v = Some (c', ca', v')" "asked_ok n c"
  shows "asked_ok n c'"
  using assms
  by (cases c)
     (auto simp: alloc_load_def alloc_cas_def exact_add_def lane_take_def lane_at_def commit_load_def commit_chunk_def
        commit_cas_def checks Let_def bind_eq_Some_conv fpag_dcheck_eq_Some split: if_splits option.splits)

lemma call_ok_taken: "call_ok os ca v c \<Longrightarrow> taken_of c = Some t \<Longrightarrow> taken_ok ca t"
  by (cases "(os, ca, v, c)" rule: call_ok.cases) auto

lemma apart_sym: "apart t u \<Longrightarrow> apart u t"
  by (auto simp: apart_def)

lemma arena_step_inv:
  assumes "arena_step dbg os s s'" "config_inv os s"
  shows "config_inv os s'"
  using assms
proof (induction rule: arena_step.induct)
  case (start_call s c)
  have c: "taken_of c = None" "call_ok os (cf_arena s) (cf_vm s) c" "asked_ok (asked_size c) c"
    using start_call.hyps by (cases c; simp)+
  have "calls_apart (cf_calls s @ [c])"
    using start_call.prems c(1) by (auto simp: config_inv_def calls_apart_def nth_append split: if_splits)
  then show ?case using start_call.prems c by (auto simp: config_inv_def list_all2_appendI)
next
  case (run_call i s ok c ca v)
  have inv: "ca_inv os (cf_arena s) (cf_vm s)" "calls_apart (cf_calls s)"
    and okj: "\<And>j. j < length (cf_calls s) \<Longrightarrow> call_ok os (cf_arena s) (cf_vm s) (cf_calls s ! j)"
    using run_call.prems by (auto simp: config_inv_def)
  have good: "step_good os (cf_calls s ! i) (cf_arena s) (cf_vm s) (c, ca, v)"
    by (rule ca_step_good [OF inv(1) okj run_call.hyps(2,3)]) (rule run_call.hyps)
  then have g: "ca_inv os ca v" "grows (cf_arena s) (cf_vm s) ca v" "call_ok os ca v c" by (simp_all add: step_good_def)
  have new: "apart t u" if "taken_of c = Some t" "j < length (cf_calls s)" "j \<noteq> i" "taken_of (cf_calls s ! j) = Some u"
    for t u j
  proof (cases "taken_of c = taken_of (cf_calls s ! i)")
    case True
    then show ?thesis using that inv(2) run_call.hyps(1) unfolding calls_apart_def by metis
  next
    case False
    then have "fresh (cf_arena s) t" using good that(1) by (auto simp: step_good_def)
    then show ?thesis using call_ok_taken [OF okj] that by (auto simp: fresh_def)
  qed
  have "calls_apart ((cf_calls s)[i := c])"
    unfolding calls_apart_def
  proof (intro allI impI, elim conjE)
    fix j k t u
    assume jk: "j < length ((cf_calls s)[i := c])" "k < length ((cf_calls s)[i := c])" "j \<noteq> k"
      "taken_of ((cf_calls s)[i := c] ! j) = Some t" "taken_of ((cf_calls s)[i := c] ! k) = Some u"
    consider "j = i" | "k = i" | "j \<noteq> i" "k \<noteq> i" by blast
    then show "apart t u"
    proof cases
      case 1
      then show ?thesis using jk new [of t k u] by simp
    next
      case 2
      then show ?thesis using jk new [of u j t] by (simp add: apart_sym)
    next
      case 3
      then show ?thesis using jk inv(2) unfolding calls_apart_def by (metis length_list_update nth_list_update_neq)
    qed
  qed
  moreover have "\<forall>d \<in> set ((cf_calls s)[i := c]). call_ok os ca v d"
    using call_ok_grows [OF okj g(2)] g(3) run_call.hyps(1) by (auto simp: in_set_conv_nth nth_list_update)
  moreover have "list_all2 asked_ok (cf_asked s) ((cf_calls s)[i := c])"
  proof -
    have "asked_ok (cf_asked s ! i) c"
      using run_call ca_step_asked by (auto simp: config_inv_def dest: list_all2_nthD2)
    then have "list_all2 asked_ok ((cf_asked s)[i := cf_asked s ! i]) ((cf_calls s)[i := c])"
      using run_call.prems by (intro list_all2_update_cong) (simp_all add: config_inv_def)
    then show ?thesis by simp
  qed
  ultimately show ?case using g by (simp add: config_inv_def)
qed

section \<open>One call alone\<close>

text \<open>
  Whether the bytes up to \<open>e\<close> are there, or the kernel makes the pages writable that are asked of it: up to a whole
  number of chunks, or the capacity.
\<close>

definition ca_grants :: "os \<Rightarrow> carena \<Rightarrow> nat \<Rightarrow> bool" where
  "ca_grants os ca e \<longleftrightarrow> e \<le> unat (ca_committed ca)
     \<or> os_mprotect os (ca_ptr ca + ca_committed ca)
         (of_nat (min (ceil_to e (2 ^ 18)) (unat (ca_capacity ca))) - ca_committed ca)"

lemma commit_chunk_cases:
  assumes inv: "ca_inv os ca v" and ok: "call_ok os ca v (CommitPages t (ca_committed ca))"
  obtains (granted) n v' where "ca_grants os ca (unat (tk_end t))"
      "commit_chunk dbg os t (ca_committed ca) ca v = Some (CommitCas t (ca_committed ca) n, v')"
    | (refused) "\<not> ca_grants os ca (unat (tk_end t))"
      "commit_chunk dbg os t (ca_committed ca) ca v = (if dbg then None else Some (Returned (Some t) 0, v))"
proof -
  let ?c = "ca_committed ca"
  have t: "?c \<le> ca_capacity ca" "unat (os_page_size os) dvd unat ?c" "?c < tk_end t"
    "tk_end t \<le> ca_capacity ca" using ok inv by (auto simp: taken_ok_def ca_inv_def)
  obtain r where r: "round_up dbg (tk_end t) COMMIT_CHUNK_BYTES = Some r" "tk_end t \<le> r"
    "unat (os_page_size os) dvd unat r" by (rule chunk_end [OF inv t(4)])
  have ur: "unat r = ceil_to (unat (tk_end t)) (2 ^ 18)" by (rule chunk_end_ceil [OF inv t(4) r(1)])
  define n where "n = (if r > ca_capacity ca then ca_capacity ca else r)"
  have n: "unat (os_page_size os) dvd unat n" "?c \<le> n" using r t inv by (auto simp: n_def ca_inv_def)
  have un: "of_nat (min (ceil_to (unat (tk_end t)) (2 ^ 18)) (unat (ca_capacity ca))) = n"
    unfolding ur [symmetric] by (simp add: n_def min_def word_less_nat_alt)
  have p: "unat (ca_ptr ca + ?c) = unat (ca_ptr ca) + unat ?c"
    using inv t(1) by (intro unat_add_nowrap) (auto simp: ca_inv_def word_le_nat_alt)
  have "ca_ptr ca + ?c \<noteq> 0" using p inv by (metis add_is_0 unat_eq_zero ca_inv_def)
  then have cp: "commit_pages dbg os (ca_ptr ca + ?c) (n - ?c) v =
      (if os_mprotect os (ca_ptr ca + ?c) (n - ?c)
       then Some (True, v\<lparr>vm_writable := (ca_ptr ca + ?c, n - ?c) # vm_writable v\<rparr>) else Some (False, v))"
    using commit_pages_ok [of "ca_ptr ca + ?c" os "n - ?c" dbg v] inv n t(2)
    by (simp add: p unat_sub_le ca_inv_def dvd_diff_nat)
  have grants: "ca_grants os ca (unat (tk_end t)) \<longleftrightarrow> os_mprotect os (ca_ptr ca + ?c) (n - ?c)"
    unfolding ca_grants_def un using t(3) by (simp add: word_less_nat_alt)
  have "commit_chunk dbg os t ?c ca v = do {
      (ok, v) \<leftarrow> commit_pages dbg os (ca_ptr ca + ?c) (n - ?c) v;
      (if \<not> ok then do { fpag_dcheck dbg False; Some (Returned (Some t) 0, v) } else Some (CommitCas t ?c n, v)) }"
    unfolding commit_chunk_def r(1) n_def Let_def by simp
  then show thesis using cp grants granted refused
    by (cases "os_mprotect os (ca_ptr ca + ?c) (n - ?c)") (simp_all add: fpag_dcheck_def)
qed

lemma step_goodD:
  assumes "step_good os c ca v (c', ca', v')"
  shows "ca_inv os ca' v'" "call_ok os ca' v' c'"
  using assms by (simp_all add: step_good_def)

lemma commit_run:
  assumes inv: "ca_inv os ca v" and ok: "taken_ok ca t"
  obtains (granted) k v' where "ca_grants os ca (unat (tk_end t))"
      "ca_run 3 dbg os (CommitLoad t) ca v = Some (ca_ptr ca + tk_at t, ca\<lparr>ca_committed := k\<rparr>, v')"
      "ca_inv os (ca\<lparr>ca_committed := k\<rparr>) v'" "writable_range v' (unat (ca_ptr ca)) (unat (tk_end t))"
    | (refused) "\<not> ca_grants os ca (unat (tk_end t))"
      "ca_run 3 dbg os (CommitLoad t) ca v = (if dbg then None else Some (0, ca, v))"
proof (cases "tk_end t \<le> ca_committed ca")
  case True
  have "writable_range v (unat (ca_ptr ca)) (unat (tk_end t))"
    by (rule writable_range_mono) (use True inv in \<open>auto simp: ca_inv_def word_le_nat_alt\<close>)
  then show thesis using True inv
    by (intro granted [of "ca_committed ca" v]) (simp_all add: numeral_3_eq_3 commit_load_def ca_grants_def word_le_nat_alt)
next
  case False
  let ?k = "ca_committed ca"
  have l: "commit_load t ca = CommitPages t ?k" using False by (simp add: commit_load_def)
  have cp: "call_ok os ca v (CommitPages t ?k)"
    using step_goodD(2) [OF commit_load_good [OF inv ok]] by (simp only: l)
  from inv cp show thesis
  proof (cases rule: commit_chunk_cases [where dbg = dbg])
    case c: (granted n v')
    note g = step_goodD [OF commit_chunk_good [OF inv cp c(2)]]
    have cas: "commit_cas True t ?k n ca = (Returned (Some t) (ca_ptr ca + tk_at t), ca\<lparr>ca_committed := n\<rparr>)"
      by (simp add: commit_cas_def)
    note g2 = step_goodD [OF commit_cas_good [OF g cas]]
    have "tk_end t \<le> n" "writable_range v' (unat (ca_ptr ca)) (unat n)" using g(2) by simp_all
    then have "writable_range v' (unat (ca_ptr ca)) (unat (tk_end t))"
      by (auto intro: writable_range_mono simp: word_le_nat_alt)
    moreover have "ca_run 3 dbg os (CommitLoad t) ca v = Some (ca_ptr ca + tk_at t, ca\<lparr>ca_committed := n\<rparr>, v')"
      by (simp add: numeral_3_eq_3 l c(2) cas)
    ultimately show thesis using g2(1) c(1) by (intro granted)
  next
    case c: refused
    then show thesis by (intro refused) (simp_all add: numeral_3_eq_3 l)
  qed
qed

lemma ca_run_Suc: "ca_run (Suc n) dbg os c ca v = do { (c, ca, v) \<leftarrow> ca_step dbg os True c ca v; ca_run n dbg os c ca v }"
  by simp

lemma ca_alloc_commits:
  assumes inv: "ca_inv os ca v" and al: "align_ok ca align"
    and off: "off = ceil_to (unat (ca_size ca)) (unat align)" and fits: "off + unat sz \<le> unat (ca_capacity ca)"
  obtains (granted) p ca' v' where "ca_grants os ca (off + unat sz)" "ca_alloc dbg os sz align ca v = Some (p, ca', v')"
      "ca_inv os ca' v'" "unat p = unat (ca_ptr ca) + off" "unat (ca_size ca') = off + unat sz"
      "ca_ptr ca' = ca_ptr ca" "ca_capacity ca' = ca_capacity ca" "ca_lanes ca' = ca_lanes ca"
      "writable_range v' (unat p) (unat sz)"
    | (refused) "\<not> ca_grants os ca (off + unat sz)"
      "ca_alloc dbg os sz align ca v = (if dbg then None else Some (0, ca\<lparr>ca_size := of_nat (off + unat sz)\<rparr>, v))"
proof -
  obtain r where r: "round_up dbg (ca_size ca) align = Some r"
    using round_up_eq [of align] al by (auto simp: align_ok_def)
  have "unat (ca_size ca) + unat align \<le> 2 ^ 64" using inv al by (simp add: ca_inv_def align_ok_def word_le_nat_alt)
  then have ur: "unat r = off" unfolding off using unat_round_up_ceil [OF _ r] al by (simp add: align_ok_def)
  have room: "unat r + unat sz \<le> unat (ca_capacity ca)" using fits ur by simp
  then have nf: "\<not> (r > ca_capacity ca \<or> sz > ca_capacity ca - r)"
    by (simp add: word_less_nat_alt unat_sub_le word_le_nat_alt)
  have ld: "alloc_load dbg sz align ca = Some (AllocCas sz align (ca_size ca) r)"
    using inv nf by (simp add: alloc_load_def r Let_def ca_inv_def)
  let ?t = "\<lparr>tk_lane = None, tk_at = r, tk_end = r + sz\<rparr>" and ?ca = "ca\<lparr>ca_size := r + sz\<rparr>"
  have cs: "alloc_cas True sz align (ca_size ca) r ca = (CommitLoad ?t, ?ca)"
    by (simp add: alloc_cas_def Let_def)
  note g1 = step_goodD [OF alloc_load_good [OF inv al ld]]
  note g2 = step_goodD [OF alloc_cas_good [OF g1 cs]]
  have tok: "taken_ok ?ca ?t" using g2(2) by simp
  have us: "unat (r + sz) = off + unat sz"
    using room ur unat_lt2p [of "ca_capacity ca"] by (subst unat_add_nowrap) simp_all
  have next_at: "of_nat (off + unat sz) = r + sz" unfolding us [symmetric] by simp
  have same: "ca_grants os ?ca (unat (tk_end ?t)) = ca_grants os ca (off + unat sz)" by (simp add: ca_grants_def us)
  have run: "ca_alloc dbg os sz align ca v = ca_run 3 dbg os (CommitLoad ?t) ?ca v"
  proof -
    have five: "(5::nat) = Suc (Suc 3)" by simp
    show ?thesis unfolding ca_alloc_def five ca_run_Suc by (simp add: ld cs)
  qed
  from g2(1) tok show thesis
  proof (cases rule: commit_run [where dbg = dbg])
    case c: (granted k v')
    have up: "unat (ca_ptr ca + r) = unat (ca_ptr ca) + unat r"
      using inv room by (intro unat_add_nowrap) (simp add: ca_inv_def)
    have "writable_range v' (unat (ca_ptr ca)) (unat (r + sz))" using c(4) by simp
    then have "writable_range v' (unat (ca_ptr ca + r)) (unat sz)"
      by (rule writable_range_mono) (simp_all add: up us ur)
    then show thesis using run c(1-3) up us ur same
      by (intro granted [of "ca_ptr ca + r" "?ca\<lparr>ca_committed := k\<rparr>" v']) simp_all
  next
    case c: refused
    show thesis by (rule refused) (use run c same in \<open>simp_all only: next_at, simp_all\<close>)
  qed
qed

lemma ca_alloc_fits:
  assumes inv: "ca_inv os ca v" and al: "align_ok ca align" and mp: "\<forall>p n. os_mprotect os p n"
    and fits: "ceil_to (unat (ca_size ca)) (unat align) + unat sz \<le> unat (ca_capacity ca)"
  obtains p ca' v' where "ca_alloc dbg os sz align ca v = Some (p, ca', v')" "ca_inv os ca' v'"
    "unat p = unat (ca_ptr ca) + ceil_to (unat (ca_size ca)) (unat align)"
    "unat (ca_size ca') = ceil_to (unat (ca_size ca)) (unat align) + unat sz"
    "ca_ptr ca' = ca_ptr ca" "ca_capacity ca' = ca_capacity ca" "ca_lanes ca' = ca_lanes ca"
    "writable_range v' (unat p) (unat sz)"
  by (rule ca_alloc_commits [OF inv al refl fits, of dbg]) (use mp that in \<open>auto simp: ca_grants_def\<close>)

lemma ca_alloc_full:
  assumes inv: "ca_inv os ca v" and al: "align_ok ca align"
    and full: "unat (ca_capacity ca) < ceil_to (unat (ca_size ca)) (unat align) + unat sz"
  shows "ca_alloc dbg os sz align ca v = (if dbg then None else Some (0, ca, v))"
proof -
  obtain r where r: "round_up dbg (ca_size ca) align = Some r"
    using round_up_eq [of align] al by (auto simp: align_ok_def)
  have "unat (ca_size ca) + unat align \<le> 2 ^ 64" using inv al by (simp add: ca_inv_def align_ok_def word_le_nat_alt)
  then have ur: "unat r = ceil_to (unat (ca_size ca)) (unat align)"
    using unat_round_up_ceil [OF _ r] al by (simp add: align_ok_def)
  have "\<not> (r \<le> ca_capacity ca \<and> \<not> sz > ca_capacity ca - r)"
    using full unat_room [of r "ca_capacity ca" sz] by (auto simp: ur)
  then have "r > ca_capacity ca \<or> sz > ca_capacity ca - r" by (simp only: not_le not_less de_Morgan_conj not_not)
  then have ld: "alloc_load dbg sz align ca = (if dbg then None else Some (Returned None 0))"
    using inv by (auto simp: alloc_load_def r Let_def ca_inv_def fpag_dcheck_def)
  have five: "(5::nat) = Suc (Suc (Suc (Suc (Suc 0))))" by simp
  show ?thesis unfolding ca_alloc_def five by (simp add: ld)
qed

section \<open>Lanes\<close>

text \<open>The boundaries of the lanes on natural numbers: lane \<open>i\<close> runs from \<open>cut i\<close> to \<open>cut (Suc i)\<close>.\<close>

definition cut :: "nat \<Rightarrow> nat \<Rightarrow> nat \<Rightarrow> nat \<Rightarrow> nat" where
  "cut room lanes unit i = (room * i) div lanes div unit * unit"

lemma cut_mono: "i \<le> j \<Longrightarrow> cut room lanes unit i \<le> cut room lanes unit j"
  by (simp add: cut_def div_le_mono)

lemma cut_0 [simp]: "cut room lanes unit 0 = 0"
  by (simp add: cut_def)

lemma cut_all: "0 < lanes \<Longrightarrow> unit dvd room \<Longrightarrow> cut room lanes unit lanes = room"
  by (simp add: cut_def)

lemma unat_cut:
  assumes "unat room * unat lanes < 2 ^ 64" "i \<le> unat lanes"
  shows "unat (((room * of_nat i) div lanes div unit) * unit :: usize) = cut (unat room) (unat lanes) (unat unit) i"
proof -
  have i: "unat (of_nat i :: usize) = i"
    using assms(2) unat_lt2p [of lanes] by (simp add: unat_of_nat take_bit_nat_eq_self_iff)
  have "unat room * i \<le> unat room * unat lanes" using assms(2) by simp
  then have ri: "unat room * i < 2 ^ 64" using assms(1) by (rule le_less_trans)
  then have m: "unat (room * of_nat i) = unat room * i"
    using i by (subst unat_mult_lem [THEN iffD1]) simp_all
  have le: "unat room * i div unat lanes div unat unit * unat unit \<le> unat room * i"
    by (meson div_le_dividend div_times_less_eq_dividend order_trans)
  have "unat ((room * of_nat i) div lanes div unit) * unat unit < 2 ^ 64"
    using le_less_trans [OF le ri] by (simp add: unat_div_distrib m)
  then show ?thesis
    by (subst unat_mult_lem [THEN iffD1]) (simp_all add: unat_div_distrib m cut_def)
qed

lemma cut_lane_bounds:
  assumes "unat room * unat lanes < 2 ^ 64" "i < unat lanes"
  shows "unat (ln_begin (cut_lane room lanes unit i)) = cut (unat room) (unat lanes) (unat unit) i"
    "unat (ln_end (cut_lane room lanes unit i)) = cut (unat room) (unat lanes) (unat unit) (Suc i)"
    "ln_cursor (cut_lane room lanes unit i) = ln_begin (cut_lane room lanes unit i)"
proof -
  have b: "unat (((room * of_nat i) div lanes div unit) * unit) = cut (unat room) (unat lanes) (unat unit) i"
    using assms by (intro unat_cut) simp_all
  have e: "unat (((room * (of_nat i + 1)) div lanes div unit) * unit) = cut (unat room) (unat lanes) (unat unit) (Suc i)"
    using unat_cut [OF assms(1), of "Suc i" unit] assms(2) by (simp add: add.commute)
  show "unat (ln_begin (cut_lane room lanes unit i)) = cut (unat room) (unat lanes) (unat unit) i"
    "ln_cursor (cut_lane room lanes unit i) = ln_begin (cut_lane room lanes unit i)"
    by (simp_all add: cut_lane_def Let_def b)
  show "unat (ln_end (cut_lane room lanes unit i)) = cut (unat room) (unat lanes) (unat unit) (Suc i)"
    using cut_mono [of i "Suc i" "unat room" "unat lanes" "unat unit"]
    by (auto simp: cut_lane_def Let_def b e word_less_nat_alt)
qed

definition lane_room :: "carena \<Rightarrow> usize \<Rightarrow> usize \<Rightarrow> nat" where
  "lane_room ca unit pool_bytes =
     (let pool = min (unat pool_bytes) (unat (ca_capacity ca)) div unat unit * unat unit
      in (unat (ca_capacity ca) - pool) div unat unit * unat unit)"

lemma unat_down: "unat ((x div u) * u :: usize) = unat x div unat u * unat u"
proof -
  have "unat x div unat u * unat u < 2 ^ 64"
    using le_less_trans [OF div_times_less_eq_dividend unat_lt2p [of x], of "unat u"] by simp
  then show ?thesis by (subst unat_mult_lem [THEN iffD1]) (simp_all add: unat_div_distrib)
qed

lemma set_lanes_eq:
  assumes "set_lanes dbg lanes unit pool_bytes ca = Some ca'"
  obtains room where "unat room = lane_room ca unit pool_bytes" "ca' = ca\<lparr>ca_lane_unit := unit,
    ca_pool_begin := room, ca_lanes := map (cut_lane room lanes unit) [0..<unat lanes], ca_size := room\<rparr>"
proof -
  define asked where "asked = (if pool_bytes > ca_capacity ca then ca_capacity ca else pool_bytes)"
  define pool where "pool = (asked div unit) * unit"
  define room where "room = ((ca_capacity ca - pool) div unit) * unit"
  have ua: "unat asked = min (unat pool_bytes) (unat (ca_capacity ca))"
    by (simp add: asked_def word_less_nat_alt)
  have up: "unat pool = unat asked div unat unit * unat unit" by (simp add: pool_def unat_down)
  then have "unat pool \<le> unat (ca_capacity ca)"
    using div_times_less_eq_dividend [of "unat asked" "unat unit"] ua by simp
  then have "unat (ca_capacity ca - pool) = unat (ca_capacity ca) - unat pool"
    by (simp add: unat_sub_le word_le_nat_alt)
  then have ur: "unat room = lane_room ca unit pool_bytes"
    by (simp add: room_def unat_down lane_room_def Let_def up ua)
  have "ca' = ca\<lparr>ca_lane_unit := unit, ca_pool_begin := room,
      ca_lanes := map (cut_lane room lanes unit) [0..<unat lanes], ca_size := room\<rparr>"
    using assms by (auto simp: set_lanes_def checks Let_def room_def pool_def asked_def)
  with ur show thesis by (rule that)
qed

lemma set_lanes_inv:
  assumes inv: "ca_inv os ca v" and nowrap: "unat (ca_capacity ca) * unat lanes < 2 ^ 64"
    and pos: "lanes \<noteq> 0" "unit \<noteq> 0" and run: "set_lanes dbg lanes unit pool_bytes ca = Some ca'"
  obtains room where "unat room = lane_room ca unit pool_bytes" "ca_pool_begin ca' = room" "ca_size ca' = room"
    "ca_lanes ca' = map (cut_lane room lanes unit) [0..<unat lanes]" "unat room * unat lanes < 2 ^ 64"
    "unat unit dvd unat room" "unat room \<le> unat (ca_capacity ca)" "ca_inv os ca' v"
proof -
  obtain room where r: "unat room = lane_room ca unit pool_bytes" "ca' = ca\<lparr>ca_lane_unit := unit,
    ca_pool_begin := room, ca_lanes := map (cut_lane room lanes unit) [0..<unat lanes], ca_size := room\<rparr>"
    by (rule set_lanes_eq [OF run])
  have le: "unat room \<le> unat (ca_capacity ca)"
    unfolding r(1) lane_room_def Let_def
    by (meson diff_le_self div_times_less_eq_dividend order_trans)
  have dv: "unat unit dvd unat room" by (simp add: r(1) lane_room_def Let_def)
  have nw: "unat room * unat lanes < 2 ^ 64" using mult_le_mono1 [OF le] nowrap by (rule le_less_trans)
  have all: "cut (unat room) (unat lanes) (unat unit) (unat lanes) = unat room"
    using cut_all dv pos by (simp add: unat_gt_0)
  have cl: "ca_lanes ca' ! l = cut_lane room lanes unit l" if "l < unat lanes" for l using that by (simp add: r(2))
  have lo: "lane_ok ca' l" if "l < unat lanes" for l
  proof -
    have "cut (unat room) (unat lanes) (unat unit) (Suc l) \<le> unat room"
      using cut_mono [of "Suc l" "unat lanes"] that all by (metis Suc_leI)
    then show ?thesis using cut_mono [of l "Suc l"] cut_lane_bounds [OF nw that]
      by (simp add: lane_ok_def cl that) (simp add: r(2) word_le_nat_alt)
  qed
  have ord: "ln_end (ca_lanes ca' ! l) \<le> ln_begin (ca_lanes ca' ! m)" if "l < m" "m < unat lanes" for l m
    using that cut_lane_bounds [OF nw] cut_mono [of "Suc l" m] by (simp add: cl word_le_nat_alt)
  have "lanes_ok ca'" using lo ord by (simp add: lanes_ok_def r(2))
  then have i: "ca_inv os ca' v" using inv le by (simp add: ca_inv_def r(2) word_le_nat_alt)
  show thesis by (rule that [OF r(1) _ _ _ nw dv le i]) (simp_all add: r(2))
qed

section \<open>The concurrent arena is a bump allocator\<close>

definition ca_request :: "os \<Rightarrow> usize \<times> usize \<Rightarrow> carena \<times> vm \<Rightarrow> (nat \<times> carena \<times> vm) option" where
  "ca_request os q s =
     (case ca_alloc False os (fst q) (snd q) (fst s) (snd s) of
        None \<Rightarrow> None
      | Some (p, ca, v) \<Rightarrow> if p = 0 then None else Some (unat p - unat (ca_ptr (fst s)), ca, v))"

definition ca_admissible :: "os \<Rightarrow> usize \<times> usize \<Rightarrow> carena \<Rightarrow> bool" where
  "ca_admissible os q ca \<longleftrightarrow> align_ok ca (snd q) \<and> (\<forall>p n. os_mprotect os p n)"

lemma ca_requestE:
  assumes "ca_inv os (fst s) (snd s)" "ca_admissible os q (fst s)" "ca_request os q s = Some (off, s')"
  shows "ca_inv os (fst s') (snd s') \<and> off = ceil_to (unat (ca_size (fst s))) (unat (snd q))
    \<and> unat (ca_size (fst s')) = off + unat (fst q)
    \<and> off + unat (fst q) \<le> unat (ca_capacity (fst s)) \<and> ca_capacity (fst s') = ca_capacity (fst s)"
proof (cases "ceil_to (unat (ca_size (fst s))) (unat (snd q)) + unat (fst q) \<le> unat (ca_capacity (fst s))")
  case True
  have al: "align_ok (fst s) (snd q)" "\<forall>p n. os_mprotect os p n" using assms(2) by (auto simp: ca_admissible_def)
  show ?thesis
    by (rule ca_alloc_fits [where dbg = False, OF assms(1) al True])
       (use assms(3) True in \<open>auto simp: ca_request_def split: if_splits\<close>)
next
  case False
  have "ca_alloc False os (fst q) (snd q) (fst s) (snd s) = Some (0, fst s, snd s)"
    using ca_alloc_full [OF assms(1), of "snd q" "fst q" False] assms(2) False by (simp add: ca_admissible_def)
  then show ?thesis using assms(3) by (simp add: ca_request_def)
qed

interpretation cab: bump_allocator "ca_request os" "\<lambda>q. unat (fst q)" "\<lambda>s. unat (ca_size (fst s))"
    "\<lambda>s. unat (ca_capacity (fst s))" "\<lambda>s. ca_inv os (fst s) (snd s)" "\<lambda>q s. ca_admissible os q (fst s)"
  for os
proof (unfold_locales, goal_cases)
  case (1 s q off s')
  then show ?case by (blast dest: ca_requestE)
next
  case (2 s q off s')
  have "0 < unat (snd q)" using 2(2) by (auto simp: ca_admissible_def align_ok_def is_power_of_two_iff)
  then show ?case using ca_requestE [OF 2] ceil_to_props(2) [of "unat (snd q)"] by simp
next
  case (3 s q off s')
  then show ?case using ca_requestE [OF 3] by simp
next
  case (4 s q off s' q')
  then show ?case using ca_requestE [OF 4(1,2,3)] by (simp add: ca_admissible_def align_ok_def)
qed

section \<open>Running a schedule\<close>

definition sched_step :: "bool \<Rightarrow> os \<Rightarrow> nat \<times> bool \<Rightarrow> config \<Rightarrow> config option" where
  "sched_step dbg os d s =
     (if fst d < length (cf_calls s) \<and> caller_ok (cf_arena s) (cf_calls s ! fst d)
      then (case ca_step dbg os (snd d) (cf_calls s ! fst d) (cf_arena s) (cf_vm s) of
              None \<Rightarrow> None
            | Some (c, ca, v) \<Rightarrow> Some (s\<lparr>cf_arena := ca, cf_vm := v, cf_calls := (cf_calls s)[fst d := c]\<rparr>))
      else None)"

fun run_schedule :: "bool \<Rightarrow> os \<Rightarrow> (nat \<times> bool) list \<Rightarrow> config \<Rightarrow> config option" where
  "run_schedule dbg os [] s = Some s"
| "run_schedule dbg os (d # ds) s =
     (case sched_step dbg os d s of None \<Rightarrow> None | Some s' \<Rightarrow> run_schedule dbg os ds s')"

lemma run_schedule_steps: "run_schedule dbg os ds s = Some s' \<Longrightarrow> (arena_step dbg os)\<^sup>*\<^sup>* s s'"
proof (induction ds arbitrary: s)
  case (Cons d ds)
  obtain t where t: "sched_step dbg os d s = Some t" "run_schedule dbg os ds t = Some s'"
    using Cons.prems by (auto split: option.splits)
  have "arena_step dbg os s t"
    using t(1) by (auto simp: sched_step_def split: if_splits option.splits intro: arena_step.run_call)
  then show ?case using Cons.IH [OF t(2)] by (rule converse_rtranclp_into_rtranclp)
qed simp

lemma start_calls:
  "list_all (starts (cf_arena s)) cs \<Longrightarrow>
    (arena_step dbg os)\<^sup>*\<^sup>* s (s\<lparr>cf_calls := cf_calls s @ cs, cf_asked := cf_asked s @ map asked_size cs\<rparr>)"
proof (induction cs arbitrary: s)
  case (Cons c cs)
  let ?s = "s\<lparr>cf_calls := cf_calls s @ [c], cf_asked := cf_asked s @ [asked_size c]\<rparr>"
  have "arena_step dbg os s ?s" using Cons.prems by (simp add: arena_step.start_call)
  moreover have "(arena_step dbg os)\<^sup>*\<^sup>* ?s (s\<lparr>cf_calls := cf_calls s @ c # cs, cf_asked := cf_asked s @ map asked_size (c # cs)\<rparr>)"
    using Cons.IH [of ?s] Cons.prems by simp
  ultimately show ?case by (rule converse_rtranclp_into_rtranclp)
qed simp

lemma reachable_inv:
  "(arena_step dbg os)\<^sup>*\<^sup>* s s' \<Longrightarrow> config_inv os s \<Longrightarrow> config_inv os s'"
  by (induction rule: rtranclp_induct) (blast intro: arena_step_inv)+

lemma arena_step_frame:
  assumes "arena_step dbg os s s'" "config_inv os s"
  shows "ca_ptr (cf_arena s') = ca_ptr (cf_arena s) \<and> ca_capacity (cf_arena s') = ca_capacity (cf_arena s)"
  using assms
proof (induction rule: arena_step.induct)
  case (run_call i s ok c ca v)
  have "step_good os (cf_calls s ! i) (cf_arena s) (cf_vm s) (c, ca, v)"
    using run_call by (intro ca_step_good) (auto simp: config_inv_def)
  then show ?case by (simp add: step_good_def grows_def)
qed simp

lemma reachable_frame:
  "(arena_step dbg os)\<^sup>*\<^sup>* s s' \<Longrightarrow> config_inv os s \<Longrightarrow>
    ca_ptr (cf_arena s') = ca_ptr (cf_arena s) \<and> ca_capacity (cf_arena s') = ca_capacity (cf_arena s)"
  by (induction rule: rtranclp_induct) (use reachable_inv arena_step_frame in \<open>fastforce+\<close>)

lemma returned_block:
  assumes inv: "config_inv os s" and i: "i < length (cf_calls s)" "cf_calls s ! i = Returned t p" "p \<noteq> 0"
  obtains u where "t = Some u" "unat p = unat (ca_ptr (cf_arena s)) + unat (tk_at u)"
    "unat (tk_end u) = unat (tk_at u) + unat (cf_asked s ! i)" "tk_end u \<le> ca_capacity (cf_arena s)"
    "writable_range (cf_vm s) (unat p) (unat (cf_asked s ! i))"
proof -
  let ?ca = "cf_arena s"
  have ok: "call_ok os ?ca (cf_vm s) (Returned t p)"
    using inv i nth_mem [OF i(1)] unfolding config_inv_def by metis
  obtain u where u: "t = Some u" using ok i(3) by (cases t) auto
  have t: "taken_ok ?ca u" "p = ca_ptr ?ca + tk_at u"
    and wr: "writable_range (cf_vm s) (unat (ca_ptr ?ca)) (unat (tk_end u))" using ok u i(3) by auto
  have "asked_ok (cf_asked s ! i) (cf_calls s ! i)"
    using inv i(1) by (auto simp: config_inv_def dest: list_all2_nthD2)
  then have e: "tk_end u = tk_at u + cf_asked s ! i" using i(2) u by simp
  have "tk_at u \<le> tk_end u" "tk_end u \<le> ca_capacity ?ca" using t(1) by (auto simp: taken_ok_def)
  moreover from this have un: "unat (tk_end u) = unat (tk_at u) + unat (cf_asked s ! i)"
    using e unat_sub_le [of "tk_at u" "tk_end u"] by (simp add: word_le_nat_alt)
  moreover have "unat (ca_ptr ?ca) + unat (ca_capacity ?ca) < 2 ^ 64" using inv by (auto simp: config_inv_def ca_inv_def)
  ultimately have up: "unat p = unat (ca_ptr ?ca) + unat (tk_at u)"
    unfolding t(2) by (intro unat_add_nowrap) (simp add: word_le_nat_alt)
  have "writable_range (cf_vm s) (unat p) (unat (cf_asked s ! i))"
    by (rule writable_range_mono [OF wr]) (simp_all add: up un)
  then show thesis using that u up un \<open>tk_end u \<le> ca_capacity ?ca\<close> by blast
qed

section \<open>Properties\<close>

text \<open>
  C5. Any number of calls of \<^verbatim>\<open>alloc\<close>, \<^verbatim>\<open>alloc_exact\<close> and \<^verbatim>\<open>alloc_from\<close>, interleaved in any order at
  the granularity of their atomic operations and with spurious failures of the weak exchanges: each
  call that returned a non-null pointer owns as many bytes as it asked for, all inside the
  reservation and already writable, and no two of them overlap.
\<close>

theorem concurrent_alloc_safe:
  assumes "ca_inv os (cf_arena s0) (cf_vm s0)" "cf_calls s0 = []" "cf_asked s0 = []"
    and "(arena_step dbg os)\<^sup>*\<^sup>* s0 s"
    and "i < length (cf_calls s)" "cf_calls s ! i = Returned t p" "p \<noteq> 0"
  shows "unat (ca_ptr (cf_arena s0)) \<le> unat p
    \<and> unat p + unat (cf_asked s ! i) \<le> unat (ca_ptr (cf_arena s0)) + unat (ca_capacity (cf_arena s0))
    \<and> writable_range (cf_vm s) (unat p) (unat (cf_asked s ! i))
    \<and> (\<forall>j u q. j < length (cf_calls s) \<and> j \<noteq> i \<and> cf_calls s ! j = Returned u q \<and> q \<noteq> 0 \<longrightarrow>
         unat p + unat (cf_asked s ! i) \<le> unat q \<or> unat q + unat (cf_asked s ! j) \<le> unat p)"
proof -
  have inv0: "config_inv os s0" using assms(1-3) by (simp add: config_inv_def calls_apart_def)
  have inv: "config_inv os s" by (rule reachable_inv [OF assms(4) inv0])
  have fr: "ca_ptr (cf_arena s) = ca_ptr (cf_arena s0)" "ca_capacity (cf_arena s) = ca_capacity (cf_arena s0)"
    using reachable_frame [OF assms(4) inv0] by auto
  obtain x where x: "t = Some x" "unat p = unat (ca_ptr (cf_arena s)) + unat (tk_at x)"
    "unat (tk_end x) = unat (tk_at x) + unat (cf_asked s ! i)" "tk_end x \<le> ca_capacity (cf_arena s)"
    "writable_range (cf_vm s) (unat p) (unat (cf_asked s ! i))"
    by (rule returned_block [OF inv assms(5-7)])
  have "unat p + unat (cf_asked s ! i) \<le> unat q \<or> unat q + unat (cf_asked s ! j) \<le> unat p"
    if j: "j < length (cf_calls s)" "j \<noteq> i" "cf_calls s ! j = Returned u q" "q \<noteq> 0" for j u q
  proof -
    obtain y where y: "u = Some y" "unat q = unat (ca_ptr (cf_arena s)) + unat (tk_at y)"
      "unat (tk_end y) = unat (tk_at y) + unat (cf_asked s ! j)"
      by (rule returned_block [OF inv j(1,3,4)])
    have "taken_of (cf_calls s ! i) = Some x" "taken_of (cf_calls s ! j) = Some y"
      using assms(6) j(3) x(1) y(1) by simp_all
    then have "apart x y" using inv assms(5) j(1,2) unfolding config_inv_def calls_apart_def by metis
    then show ?thesis using x(2,3) y(2,3) by (auto simp: apart_def word_le_nat_alt)
  qed
  then show ?thesis using x fr by (auto simp: word_le_nat_alt)
qed

definition sample_carena :: carena where
  "sample_carena = \<lparr>ca_ptr = 65536, ca_capacity = 16384, ca_lane_unit = 1, ca_pool_begin = 0, ca_lanes = [],
     ca_size = 10, ca_committed = 4096\<rparr>"

lemma sample_carena_inv: "ca_inv sample_os sample_carena sample_vm"
  using sample_os_ok
  by (simp add: ca_inv_def sample_carena_def sample_vm_def writable_range_def writable_def lanes_ok_def)
     (simp add: sample_os_def)

theorem concurrent_alloc_safe_witness:
  "\<exists>s p q. (arena_step False sample_os)\<^sup>*\<^sup>* \<lparr>cf_arena = sample_carena, cf_vm = sample_vm, cf_calls = [], cf_asked = []\<rparr> s
     \<and> cf_calls s = [Returned (Some \<lparr>tk_lane = None, tk_at = 16, tk_end = 116\<rparr>) p,
                      Returned (Some \<lparr>tk_lane = None, tk_at = 120, tk_end = 144\<rparr>) q]
     \<and> unat p + 100 \<le> unat q"
proof -
  let ?s0 = "\<lparr>cf_arena = sample_carena, cf_vm = sample_vm, cf_calls = [], cf_asked = []\<rparr>"
  let ?s1 = "\<lparr>cf_arena = sample_carena, cf_vm = sample_vm, cf_calls = [AllocLoad 100 16, AllocLoad 24 8], cf_asked = [100, 24]\<rparr>"
  let ?s2 = "\<lparr>cf_arena = sample_carena\<lparr>ca_size := 144\<rparr>, cf_vm = sample_vm,
     cf_calls = [Returned (Some \<lparr>tk_lane = None, tk_at = 16, tk_end = 116\<rparr>) 65552,
                 Returned (Some \<lparr>tk_lane = None, tk_at = 120, tk_end = 144\<rparr>) 65656], cf_asked = [100, 24]\<rparr>"
  have "(arena_step False sample_os)\<^sup>*\<^sup>* ?s0 ?s1"
    using start_calls [of ?s0 "[AllocLoad 100 16, AllocLoad 24 8]" False sample_os]
    by (simp add: align_ok_def sample_carena_def is_power_of_two_def)
  moreover have "run_schedule False sample_os
      [(0, True), (1, True), (0, True), (1, True), (1, True), (1, False), (1, True), (1, True), (0, True), (1, True)] ?s1 = Some ?s2"
    by code_simp
  ultimately have r: "(arena_step False sample_os)\<^sup>*\<^sup>* ?s0 ?s2"
    using run_schedule_steps by (meson rtranclp_trans)
  have inv: "ca_inv sample_os (cf_arena ?s0) (cf_vm ?s0)" using sample_carena_inv by simp
  note c = concurrent_alloc_safe [OF inv _ _ r, of 0 "Some \<lparr>tk_lane = None, tk_at = 16, tk_end = 116\<rparr>" 65552]
  have "unat (65552 :: usize) + unat (100 :: usize) \<le> unat (65656 :: usize)
     \<or> unat (65656 :: usize) + unat (24 :: usize) \<le> unat (65552 :: usize)"
    using c by fastforce
  then show ?thesis using r by auto
qed

text \<open>
  C29. A call of \<^verbatim>\<open>alloc\<close> that runs alone finishes within five atomic steps, for every power-of-two alignment that
  does not wrap the address space. If the aligned request fits and the pages it needs are writable already or the
  kernel makes them so, it returns the aligned offset past everything the shared cursor handed out, writable and
  inside the reservation, and it leaves the lanes alone. If it fits and the kernel refuses the pages, a debug
  build stops and a release build answers null, but the offset has moved past the request. If it does not fit, a
  release build answers null and leaves the arena as it was, offset included, and a debug build stops.
\<close>

theorem ca_alloc_correct:
  assumes "ca_inv os ca v" "align_ok ca align" "off = ceil_to (unat (ca_size ca)) (unat align)"
  shows "if off + unat sz \<le> unat (ca_capacity ca)
    then if ca_grants os ca (off + unat sz)
      then \<exists>p ca' v'. ca_alloc dbg os sz align ca v = Some (p, ca', v') \<and> ca_inv os ca' v'
        \<and> unat align dvd unat p - unat (ca_ptr ca) \<and> unat (ca_ptr ca) + unat (ca_size ca) \<le> unat p
        \<and> unat p + unat sz = unat (ca_ptr ca) + unat (ca_size ca')
        \<and> ca_size ca' \<le> ca_capacity ca \<and> ca_lanes ca' = ca_lanes ca \<and> writable_range v' (unat p) (unat sz)
      else ca_alloc dbg os sz align ca v = (if dbg then None else Some (0, ca\<lparr>ca_size := of_nat (off + unat sz)\<rparr>, v))
    else ca_alloc dbg os sz align ca v = (if dbg then None else Some (0, ca, v))"
proof (cases "off + unat sz \<le> unat (ca_capacity ca)")
  case True
  have "0 < unat align" using assms(2) by (auto simp: align_ok_def is_power_of_two_iff)
  note ceil = ceil_to_props [OF this, of "unat (ca_size ca)", folded assms(3)]
  from assms True show ?thesis
  proof (cases rule: ca_alloc_commits [where dbg = dbg])
    case (granted p ca' v')
    then show ?thesis using True ceil by (auto simp: word_le_nat_alt)
  next
    case refused
    then show ?thesis using True by auto
  qed
next
  case False
  then show ?thesis using ca_alloc_full [OF assms(1,2)] assms(3) by simp
qed

theorem ca_alloc_correct_witness:
  "(\<exists>p ca' v'. ca_alloc True sample_os 5000 8192 sample_carena sample_vm = Some (p, ca', v')
     \<and> unat p = 73728 \<and> writable_range v' 73728 5000)
   \<and> ca_alloc False sample_os 5000 32768 sample_carena sample_vm = Some (0, sample_carena, sample_vm)"
proof -
  have mp: "ca_grants sample_os ca n" for ca n by (simp add: sample_os_def ca_grants_def)
  have al: "align_ok sample_carena 8192" "align_ok sample_carena 32768"
    by (simp_all add: align_ok_def sample_carena_def is_power_of_two_def)
  note a = ca_alloc_correct [OF sample_carena_inv al(1) refl, where dbg = True and sz = 5000]
  note b = ca_alloc_correct [OF sample_carena_inv al(2) refl, where dbg = False and sz = 5000]
  obtain p ca' v' where p: "ca_alloc True sample_os 5000 8192 sample_carena sample_vm = Some (p, ca', v')"
    "8192 dvd unat p - 65536" "65546 \<le> unat p" "unat p + 5000 = 65536 + unat (ca_size ca')"
    "unat (ca_size ca') \<le> 16384" "writable_range v' (unat p) 5000"
    using a mp by (auto simp: sample_carena_def ceil_to_def word_le_nat_alt)
  obtain k where k: "unat p - 65536 = 8192 * k" using p(2) by (elim dvdE)
  have "\<not> 2 \<le> k" using p(3-5) k by linarith
  moreover have "k \<noteq> 0" using p(3) k by (intro notI) simp
  ultimately have "k = 1" by linarith
  then have "unat p = 73728" using p(3) k by linarith
  moreover have "ca_alloc False sample_os 5000 32768 sample_carena sample_vm = Some (0, sample_carena, sample_vm)"
    using b by (simp add: sample_carena_def ceil_to_def)
  ultimately show ?thesis using p(1,6) by auto
qed

text \<open>
  \<^verbatim>\<open>set_lanes\<close> tiles the room below the pool: the first lane begins at zero, each begins where
  the one before ends, the last ends where the pool begins, every boundary is a whole number of
  units, the pool keeps at least the whole units asked for, and the arena is well formed again.
\<close>

lemma set_lanes_tiles:
  assumes "ca_inv os ca v" "unat (ca_capacity ca) * unat lanes < 2 ^ 64" "lanes \<noteq> 0" "unit \<noteq> 0"
    and "set_lanes dbg lanes unit pool_bytes ca = Some ca'"
  shows "ca_inv os ca' v \<and> length (ca_lanes ca') = unat lanes
    \<and> ln_begin (ca_lanes ca' ! 0) = 0
    \<and> (\<forall>i. Suc i < unat lanes \<longrightarrow> ln_begin (ca_lanes ca' ! Suc i) = ln_end (ca_lanes ca' ! i))
    \<and> ln_end (ca_lanes ca' ! (unat lanes - 1)) = ca_pool_begin ca' \<and> ca_size ca' = ca_pool_begin ca'
    \<and> (\<forall>i < unat lanes. unat unit dvd unat (ln_begin (ca_lanes ca' ! i)) \<and> unat unit dvd unat (ln_end (ca_lanes ca' ! i)))
    \<and> min (unat pool_bytes) (unat (ca_capacity ca)) div unat unit * unat unit
        \<le> unat (ca_capacity ca) - unat (ca_pool_begin ca')"
proof -
  obtain room where r: "unat room = lane_room ca unit pool_bytes" "ca_pool_begin ca' = room" "ca_size ca' = room"
    "ca_lanes ca' = map (cut_lane room lanes unit) [0..<unat lanes]" "unat room * unat lanes < 2 ^ 64"
    "unat unit dvd unat room" "unat room \<le> unat (ca_capacity ca)" "ca_inv os ca' v"
    by (rule set_lanes_inv [OF assms])
  have pos: "0 < unat lanes" using assms(3) by (simp add: unat_gt_0)
  have nth: "ca_lanes ca' ! i = cut_lane room lanes unit i" if "i < unat lanes" for i using that r(4) by simp
  note b = cut_lane_bounds [OF r(5)]
  have "unat (ln_begin (ca_lanes ca' ! 0)) = 0" using nth b pos by simp
  then have first: "ln_begin (ca_lanes ca' ! 0) = 0" by (simp add: unat_eq_zero)
  have next_lane: "ln_begin (ca_lanes ca' ! Suc i) = ln_end (ca_lanes ca' ! i)" if "Suc i < unat lanes" for i
    using that nth b by (simp add: word_unat_eq_iff)
  have "unat (ln_end (ca_lanes ca' ! (unat lanes - 1))) = unat room"
    using nth [of "unat lanes - 1"] b [of "unat lanes - 1"] pos cut_all [OF pos r(6)] by simp
  then have last_lane: "ln_end (ca_lanes ca' ! (unat lanes - 1)) = room" by (simp add: word_unat_eq_iff)
  have whole: "unat unit dvd unat (ln_begin (ca_lanes ca' ! i)) \<and> unat unit dvd unat (ln_end (ca_lanes ca' ! i))"
    if "i < unat lanes" for i
    using that nth b by (simp add: cut_def)
  let ?pool = "min (unat pool_bytes) (unat (ca_capacity ca)) div unat unit * unat unit"
  have "?pool \<le> unat (ca_capacity ca)"
    using div_times_less_eq_dividend [of "min (unat pool_bytes) (unat (ca_capacity ca))" "unat unit"]
    by (meson min.cobounded2 order_trans)
  moreover have "unat room \<le> unat (ca_capacity ca) - ?pool"
    unfolding r(1) lane_room_def Let_def by (rule div_times_less_eq_dividend)
  ultimately have "?pool \<le> unat (ca_capacity ca) - unat room" by linarith
  then show ?thesis using r first next_lane last_lane whole by simp
qed

lemma set_lanes_tiles_witness:
  "\<exists>ca'. set_lanes True 3 24 1000 (sample_carena\<lparr>ca_size := 0\<rparr>) = Some ca'
     \<and> ln_begin (ca_lanes ca' ! 1) = ln_end (ca_lanes ca' ! 0) \<and> ln_end (ca_lanes ca' ! 2) = ca_pool_begin ca'
     \<and> ca_pool_begin ca' = 15384"
proof -
  have inv: "ca_inv sample_os (sample_carena\<lparr>ca_size := 0\<rparr>) sample_vm"
    using sample_carena_inv by (simp add: ca_inv_def sample_carena_def lanes_ok_def)
  let ?run = "set_lanes True 3 24 1000 (sample_carena\<lparr>ca_size := 0\<rparr>)"
  obtain ca' where c: "?run = Some ca'" "ca_pool_begin ca' = 15384"
    by (simp add: set_lanes_def sample_carena_def Let_def)
  show ?thesis using set_lanes_tiles [OF inv _ _ _ c(1)] c by (simp add: sample_carena_def)
qed

text \<open>
  Moving a concurrent arena does not carry \<^verbatim>\<open>pool_begin_\<close> and \<^verbatim>\<open>lane_unit_\<close>: a moved arena that
  was cut into lanes reports the lanes' room as handed out by the pool, and the source it was moved
  from still names a pool, so that a debug build refuses to cut it again after a new reservation.
\<close>

lemma ca_move_loses_pool:
  "\<exists>ca ca' other. set_lanes True 4 16 4096 (sample_carena\<lparr>ca_size := 0\<rparr>) = Some ca
     \<and> ca_move ca = (ca', other) \<and> pool_size ca = 0 \<and> pool_size ca' = 12288
     \<and> ca_lane_unit ca = 16 \<and> ca_lane_unit ca' = 1
     \<and> set_lanes True 4 16 4096 (other\<lparr>ca_ptr := 65536, ca_capacity := 16384\<rparr>) = None"
  by (simp add: set_lanes_def sample_carena_def Let_def ca_move_def pool_size_def empty_carena_def fpag_dcheck_def)

end
