(* ===== verification/String_Pool.thy ===== *)
theory String_Pool
  imports Concurrent_Arena
begin

text \<open>
  \<^verbatim>\<open>str::StringPool\<close> (\<^verbatim>\<open>include/fpag/str/string_pool.h\<close>, \<^verbatim>\<open>src/str/string_pool.cc\<close>,
  \<^verbatim>\<open>string_pool_id.h\<close>): an append-only store of names in a concurrent arena. A name is preceded by
  its length in four bytes and its id is the offset of its first byte. The bytes of the reservation
  are a function of the offset from its base; a u32 is stored low byte first. One append at a
  time is modelled here; the arena below it is verified for concurrent callers.
\<close>

section \<open>Definitions\<close>

type_synonym name = "u8 list"
type_synonym memory = "nat \<Rightarrow> u8"
type_synonym pool_id = u32

definition LENGTH_PREFIX_BYTES :: usize where
  "LENGTH_PREFIX_BYTES = 4"

definition EMPTY_STRING_ID :: pool_id where
  "EMPTY_STRING_ID = ucast LENGTH_PREFIX_BYTES"

definition BYTES_SHIFT :: nat where
  "BYTES_SHIFT = 32"

definition STRING_COUNT_MASK :: u64 where
  "STRING_COUNT_MASK = 0xFFFFFFFF"

definition mem_write :: "nat \<Rightarrow> u8 list \<Rightarrow> memory \<Rightarrow> memory" where
  "mem_write off bs m = (\<lambda>i. if off \<le> i \<and> i < off + length bs then bs ! (i - off) else m i)"

definition mem_read :: "nat \<Rightarrow> nat \<Rightarrow> memory \<Rightarrow> u8 list" where
  "mem_read off n m = map (\<lambda>k. m (off + k)) [0..<n]"

definition le32 :: "u32 \<Rightarrow> u8 list" where
  "le32 x = [ucast x, ucast (drop_bit 8 x), ucast (drop_bit 16 x), ucast (drop_bit 24 x)]"

record pool =
  sp_arena :: carena
  sp_capacity :: usize
  sp_totals :: u64
  sp_mem :: memory

definition reserve_empty_name :: "bool \<Rightarrow> os \<Rightarrow> pool \<Rightarrow> vm \<Rightarrow> (pool \<times> vm) option" where
  "reserve_empty_name dbg os sp v = do {
     (ptr, ca, v) \<leftarrow> ca_alloc dbg os LENGTH_PREFIX_BYTES 4 (sp_arena sp) v;
     fpag_check (ptr \<noteq> 0);
     Some (sp\<lparr>sp_arena := ca, sp_mem := mem_write (unat (ptr - ca_ptr ca)) (le32 0) (sp_mem sp)\<rparr>, v)
   }"

definition StringPool :: "bool \<Rightarrow> os \<Rightarrow> usize \<Rightarrow> vm \<Rightarrow> (pool \<times> vm) option" where
  "StringPool dbg os capacity v = do {
     fpag_check (capacity > 0);
     fpag_check (capacity \<le> 0xFFFFFFFF);
     fpag_check (is_page_aligned_size os capacity);
     (ca, v) \<leftarrow> ca_reserve dbg os capacity empty_carena v;
     reserve_empty_name dbg os \<lparr>sp_arena = ca, sp_capacity = capacity, sp_totals = 0, sp_mem = (\<lambda>_. 0)\<rparr> v
   }"

definition pool_move :: "pool \<Rightarrow> pool \<times> pool" where
  "pool_move other = (let (ca, oca) = ca_move (sp_arena other) in
     (\<lparr>sp_arena = ca, sp_capacity = sp_capacity other, sp_totals = sp_totals other, sp_mem = sp_mem other\<rparr>,
      other\<lparr>sp_arena := oca, sp_capacity := 0, sp_totals := 0\<rparr>))"

definition pool_move_assign :: "bool \<Rightarrow> os \<Rightarrow> pool \<Rightarrow> pool \<Rightarrow> vm \<Rightarrow> (pool \<times> pool \<times> vm) option" where
  "pool_move_assign dbg os self other v = do {
     (ca, oca, v) \<leftarrow> ca_move_assign dbg os (sp_arena self) (sp_arena other) v;
     Some (\<lparr>sp_arena = ca, sp_capacity = sp_capacity other, sp_totals = sp_totals other, sp_mem = sp_mem other\<rparr>,
           other\<lparr>sp_arena := oca, sp_capacity := 0, sp_totals := 0\<rparr>, v)
   }"

definition pool_reset :: "bool \<Rightarrow> os \<Rightarrow> pool \<Rightarrow> vm \<Rightarrow> (pool \<times> vm) option" where
  "pool_reset dbg os sp v = do {
     (ca, v) \<leftarrow> ca_reset dbg os (sp_arena sp) v;
     (ca, v) \<leftarrow> ca_reserve dbg os (sp_capacity sp) ca v;
     reserve_empty_name dbg os (sp\<lparr>sp_arena := ca, sp_totals := 0, sp_mem := (\<lambda>_. 0)\<rparr>) v
   }"

definition pool_append :: "bool \<Rightarrow> os \<Rightarrow> name \<Rightarrow> pool \<Rightarrow> vm \<Rightarrow> (pool_id \<times> pool \<times> vm) option" where
  "pool_append dbg os str sp v =
     (if str = [] then Some (EMPTY_STRING_ID, sp, v)
      else do {
        let sz = (of_nat (length str) :: usize);
        (ptr, ca, v) \<leftarrow> ca_alloc dbg os (LENGTH_PREFIX_BYTES + sz) 4 (sp_arena sp) v;
        fpag_check (ptr \<noteq> 0);
        let at = unat (ptr - ca_ptr ca);
        let m = mem_write at (le32 (ucast sz)) (sp_mem sp);
        let m = mem_write (at + unat LENGTH_PREFIX_BYTES) str m;
        let offset = (ptr - ca_ptr ca) + LENGTH_PREFIX_BYTES;
        let sp = sp\<lparr>sp_arena := ca, sp_mem := m,
                    sp_totals := sp_totals sp + or (push_bit BYTES_SHIFT sz) 1\<rparr>;
        fpag_dcheck dbg (offset \<le> 0xFFFFFFFF);
        fpag_dcheck dbg (sz \<le> 0xFFFFFFFF);
        Some (ucast offset, sp, v)
      })"

definition pool_length_at :: "pool \<Rightarrow> nat \<Rightarrow> nat" where
  "pool_length_at sp off = of_le (mem_read (off - unat LENGTH_PREFIX_BYTES) 4 (sp_mem sp))"

definition pool_get :: "pool \<Rightarrow> pool_id \<Rightarrow> name" where
  "pool_get sp i = mem_read (unat i) (pool_length_at sp (unat i)) (sp_mem sp)"

definition pool_size_bytes :: "pool \<Rightarrow> u64" where
  "pool_size_bytes sp = drop_bit BYTES_SHIFT (sp_totals sp)"

definition string_count :: "pool \<Rightarrow> u64" where
  "string_count sp = and (sp_totals sp) STRING_COUNT_MASK"

section \<open>Bytes\<close>

lemma length_le32 [simp]: "length (le32 x) = 4"
  by (simp add: le32_def)

lemma of_le_le32: "of_le (le32 x) = unat x"
proof -
  have n: "unat x < 2 ^ 32" using unat_lt2p [of x] by simp
  have b: "unat (ucast (drop_bit (8 * k) x) :: u8) = unat x div 2 ^ (8 * k) mod 256" for k
    by (simp only: unsigned_ucast_eq unsigned_drop_bit_eq) (use n in \<open>simp add: drop_bit_eq_div take_bit_eq_mod\<close>)
  define y where "y = unat x"
  have d: "y div 65536 = y div 256 div 256" "y div 16777216 = y div 256 div 256 div 256"
    by (simp_all add: div_mult2_eq [symmetric])
  have c: "y div 16777216 mod 256 = y div 16777216" using n by (simp add: y_def less_mult_imp_div_less)
  have "y = y mod 256 + 256 * (y div 256 mod 256 + 256 * (y div 256 div 256 mod 256 + 256 * (y div 256 div 256 div 256)))"
    by (simp only: mod_mult_div_eq)
  then have "unat x = unat x mod 256 + 256 * (unat x div 256 mod 256 + 256 * (unat x div 65536 mod 256 + 256 * (unat x div 16777216 mod 256)))"
    unfolding y_def [symmetric] c unfolding d .
  then show ?thesis using b [of 0] b [of 1] b [of 2] b [of 3] by (simp add: le32_def)
qed

lemma length_mem_read [simp]: "length (mem_read off n m) = n"
  by (simp add: mem_read_def)

lemma mem_read_write_same: "mem_read off (length bs) (mem_write off bs m) = bs"
  by (auto simp: mem_read_def mem_write_def intro: nth_equalityI)

lemma mem_read_write_other:
  "off + n \<le> at \<or> at + length bs \<le> off \<Longrightarrow> mem_read off n (mem_write at bs m) = mem_read off n m"
  by (auto simp: mem_read_def mem_write_def)

section \<open>What the arena hands to the pool\<close>

lemma commit_run_result:
  assumes inv: "ca_inv os ca v" and ok: "taken_ok ca t" and run: "ca_run 3 dbg os (CommitLoad t) ca v = Some (p, ca', v')"
  shows "(p = 0 \<or> p = ca_ptr ca + tk_at t) \<and> (\<exists>k. ca' = ca\<lparr>ca_committed := k\<rparr>) \<and> ca_inv os ca' v'"
proof (cases "tk_end t \<le> ca_committed ca")
  case True
  then have "p = ca_ptr ca + tk_at t" "ca' = ca" "v' = v" using run by (auto simp: numeral_3_eq_3 commit_load_def)
  then show ?thesis using inv by (auto intro!: exI [of _ "ca_committed ca"])
next
  case False
  let ?k = "ca_committed ca"
  have l: "commit_load t ca = CommitPages t ?k" using False by (simp add: commit_load_def)
  have cp: "call_ok os ca v (CommitPages t ?k)"
    using step_goodD(2) [OF commit_load_good [OF inv ok]] by (simp only: l)
  obtain c v1 where c: "commit_chunk dbg os t ?k ca v = Some (c, v1)"
    using run by (auto simp: numeral_3_eq_3 l bind_eq_Some_conv)
  note g = step_goodD [OF commit_chunk_good [OF inv cp c]]
  have "c = Returned (Some t) 0 \<or> (\<exists>n. c = CommitCas t ?k n)"
    using c by (auto simp: commit_chunk_def Let_def bind_eq_Some_conv split: if_splits)
  then show ?thesis
  proof
    assume "c = Returned (Some t) 0"
    then have "p = 0" "ca' = ca" "v' = v1" using run c by (auto simp: numeral_3_eq_3 l)
    then show ?thesis using g(1) by (auto intro!: exI [of _ "ca_committed ca"])
  next
    assume "\<exists>n. c = CommitCas t ?k n"
    then obtain n where n: "c = CommitCas t ?k n" by blast
    have cas: "commit_cas True t ?k n ca = (Returned (Some t) (ca_ptr ca + tk_at t), ca\<lparr>ca_committed := n\<rparr>)"
      by (simp add: commit_cas_def)
    then have "p = ca_ptr ca + tk_at t" "ca' = ca\<lparr>ca_committed := n\<rparr>" "v' = v1"
      using run c n by (auto simp: numeral_3_eq_3 l)
    moreover have "ca_inv os (ca\<lparr>ca_committed := n\<rparr>) v1"
      using step_goodD(1) [OF commit_cas_good [OF g(1) _ cas]] g(2) n by simp
    ultimately show ?thesis by blast
  qed
qed

lemma alloc_result:
  assumes inv: "ca_inv os ca v" and al: "align_ok ca align"
    and run: "ca_alloc dbg os sz align ca v = Some (p, ca', v')" and p: "p \<noteq> 0"
  shows "ca_inv os ca' v' \<and> ca_ptr ca' = ca_ptr ca \<and> ca_capacity ca' = ca_capacity ca
    \<and> unat (p - ca_ptr ca') = ceil_to (unat (ca_size ca)) (unat align)
    \<and> unat (ca_size ca') = ceil_to (unat (ca_size ca)) (unat align) + unat sz"
proof -
  obtain r where r: "round_up dbg (ca_size ca) align = Some r"
    using round_up_eq [of align] al by (auto simp: align_ok_def)
  have "unat (ca_size ca) + unat align \<le> 2 ^ 64" using inv al by (simp add: ca_inv_def align_ok_def word_le_nat_alt)
  then have ur: "unat r = ceil_to (unat (ca_size ca)) (unat align)"
    using unat_round_up_ceil [OF _ r] al by (simp add: align_ok_def)
  have five: "(5::nat) = Suc (Suc 3)" by simp
  have nf: "\<not> (r > ca_capacity ca \<or> sz > ca_capacity ca - r)"
  proof
    assume "r > ca_capacity ca \<or> sz > ca_capacity ca - r"
    then have "unat (ca_capacity ca) < unat r + unat sz"
      by (cases "r \<le> ca_capacity ca") (auto simp: word_less_nat_alt unat_sub_le word_le_nat_alt)
    then have "ca_alloc dbg os sz align ca v = (if dbg then None else Some (0, ca, v))"
      using ca_alloc_full [OF inv al] ur by simp
    then show False using run p by (cases dbg) auto
  qed
  have ld: "alloc_load dbg sz align ca = Some (AllocCas sz align (ca_size ca) r)"
    using inv nf by (simp add: alloc_load_def r Let_def ca_inv_def)
  let ?t = "\<lparr>tk_lane = None, tk_at = r, tk_end = r + sz\<rparr>" and ?ca = "ca\<lparr>ca_size := r + sz\<rparr>"
  have cs: "alloc_cas True sz align (ca_size ca) r ca = (CommitLoad ?t, ?ca)" by (simp add: alloc_cas_def Let_def)
  note g2 = step_goodD [OF alloc_cas_good [OF step_goodD [OF alloc_load_good [OF inv al ld]] cs]]
  have tok: "taken_ok ?ca ?t" using g2(2) by simp
  have "ca_run 3 dbg os (CommitLoad ?t) ?ca v = Some (p, ca', v')"
    using run unfolding ca_alloc_def five ca_run_Suc by (simp add: ld cs)
  from commit_run_result [OF g2(1) tok this] p obtain k where
    res: "p = ca_ptr ca + r" "ca' = ?ca\<lparr>ca_committed := k\<rparr>" "ca_inv os ca' v'" by auto
  have "unat r + unat sz \<le> unat (ca_capacity ca)" using nf by (intro unat_room) auto
  then have "unat (r + sz) = unat r + unat sz"
    using unat_lt2p [of "ca_capacity ca"] by (intro unat_add_nowrap) simp
  then show ?thesis using res ur by simp
qed

section \<open>Invariant\<close>

definition pool_ok :: "os \<Rightarrow> pool \<Rightarrow> vm \<Rightarrow> bool" where
  "pool_ok os sp v \<longleftrightarrow> ca_inv os (sp_arena sp) v \<and> unat (ca_capacity (sp_arena sp)) < 2 ^ 32
     \<and> 4 \<le> unat (ca_size (sp_arena sp)) \<and> mem_read 0 4 (sp_mem sp) = le32 0"

definition pool_valid :: "pool \<Rightarrow> pool_id \<Rightarrow> bool" where
  "pool_valid sp i \<longleftrightarrow> 4 \<le> unat i \<and> unat i + pool_length_at sp (unat i) \<le> unat (ca_size (sp_arena sp))"

text \<open>The packed counters: \<open>B\<close> bytes in \<open>N\<close> non-empty names.\<close>

definition totals_are :: "pool \<Rightarrow> nat \<Rightarrow> nat \<Rightarrow> bool" where
  "totals_are sp N B \<longleftrightarrow> sp_totals sp = of_nat (B * 2 ^ 32 + N) \<and> N \<le> B
     \<and> B + 4 * N + 4 \<le> unat (ca_size (sp_arena sp))"

lemma pool_get_frame:
  assumes "pool_valid sp i" "\<And>k. k < unat (ca_size (sp_arena sp)) \<Longrightarrow> sp_mem sp' k = sp_mem sp k"
  shows "pool_length_at sp' (unat i) = pool_length_at sp (unat i)" "pool_get sp' i = pool_get sp i"
proof -
  have "mem_read (unat i - 4) 4 (sp_mem sp') = mem_read (unat i - 4) 4 (sp_mem sp)"
    using assms by (auto simp: mem_read_def pool_valid_def)
  then show l: "pool_length_at sp' (unat i) = pool_length_at sp (unat i)"
    by (simp add: pool_length_at_def LENGTH_PREFIX_BYTES_def)
  show "pool_get sp' i = pool_get sp i"
    using assms by (auto simp: pool_get_def l mem_read_def pool_valid_def)
qed

lemma empty_name:
  assumes "pool_ok os sp v"
  shows "pool_valid sp EMPTY_STRING_ID \<and> pool_get sp EMPTY_STRING_ID = []"
proof -
  have "pool_length_at sp 4 = 0"
    using assms of_le_le32 [of 0] by (simp add: pool_length_at_def LENGTH_PREFIX_BYTES_def pool_ok_def)
  then show ?thesis using assms
    by (simp add: pool_valid_def pool_get_def pool_ok_def EMPTY_STRING_ID_def LENGTH_PREFIX_BYTES_def mem_read_def)
qed

lemma or_push_1: "or (push_bit 32 sz) 1 = (sz * 2 ^ 32 + 1 :: u64)"
proof -
  have "and (push_bit 32 sz) 1 = (0 :: u64)" by (rule bit_word_eqI) (auto simp: bit_simps)
  then have "push_bit 32 sz + 1 = or (push_bit 32 sz) 1" by (rule disjunctive_add_eq_or)
  then show ?thesis by (simp add: push_bit_eq_mult)
qed

text \<open>A \<^verbatim>\<open>string_view\<close> is shorter than half the address space.\<close>

definition name_ok :: "name \<Rightarrow> bool" where
  "name_ok n \<longleftrightarrow> length n < 2 ^ 63"

lemma append_cases:
  assumes ok: "pool_ok os sp v" and run: "pool_append dbg os str sp v = Some (i, sp', v')" and ne: "str \<noteq> []"
    and len: "name_ok str"
  obtains at where "at = ceil_to (unat (ca_size (sp_arena sp))) 4" "unat i = at + 4" "length str < 2 ^ 32"
    "sp_mem sp' = mem_write (at + 4) str (mem_write at (le32 (of_nat (length str))) (sp_mem sp))"
    "unat (ca_size (sp_arena sp')) = at + 4 + length str" "unat (ca_capacity (sp_arena sp')) < 2 ^ 32"
    "ca_inv os (sp_arena sp') v'" "sp_totals sp' = sp_totals sp + of_nat (length str * 2 ^ 32 + 1)"
proof -
  let ?sz = "of_nat (length str) :: usize"
  obtain ptr ca where a: "ca_alloc dbg os (LENGTH_PREFIX_BYTES + ?sz) 4 (sp_arena sp) v = Some (ptr, ca, v')" "ptr \<noteq> 0"
    and sp': "sp' = sp\<lparr>sp_arena := ca, sp_mem := mem_write (unat (ptr - ca_ptr ca) + unat LENGTH_PREFIX_BYTES) str
        (mem_write (unat (ptr - ca_ptr ca)) (le32 (ucast ?sz)) (sp_mem sp)),
        sp_totals := sp_totals sp + or (push_bit BYTES_SHIFT ?sz) 1\<rparr>"
    and i: "i = ucast (ptr - ca_ptr ca + LENGTH_PREFIX_BYTES)"
    using run ne by (auto simp: pool_append_def Let_def bind_eq_Some_conv fpag_check_eq_Some)
  define at where "at = ceil_to (unat (ca_size (sp_arena sp))) 4"
  have inv: "ca_inv os (sp_arena sp) v" and cap: "unat (ca_capacity (sp_arena sp)) < 2 ^ 32"
    using ok by (simp_all add: pool_ok_def)
  have "align_ok (sp_arena sp) 4" using cap by (simp add: align_ok_def is_power_of_two_def)
  note res = alloc_result [OF inv this a]
  have e4: "unat (4 :: usize) = 4" by simp
  have r: "ca_inv os ca v'" "ca_capacity ca = ca_capacity (sp_arena sp)"
    "unat (ptr - ca_ptr ca) = at" "unat (ca_size ca) = at + unat (LENGTH_PREFIX_BYTES + ?sz)"
    using res unfolding at_def e4 by blast+
  have us: "unat ?sz = length str" using len by (simp add: name_ok_def unat_of_nat take_bit_nat_eq_self_iff)
  have u4: "unat (LENGTH_PREFIX_BYTES + ?sz) = 4 + length str"
    using len us by (subst unat_add_nowrap) (simp_all add: LENGTH_PREFIX_BYTES_def name_ok_def)
  have "unat (ca_size ca) \<le> unat (ca_capacity ca)" using r(1) by (simp add: ca_inv_def word_le_nat_alt)
  then have small: "at + 4 + length str < 2 ^ 32" using r(2,4) u4 cap by simp
  have uo: "unat (ptr - ca_ptr ca + LENGTH_PREFIX_BYTES) = at + 4"
    using r(3) small by (subst unat_add_nowrap) (simp_all add: LENGTH_PREFIX_BYTES_def)
  have ui: "unat i = at + 4"
    using uo small unfolding i by (simp add: unsigned_ucast_eq take_bit_nat_eq_self_iff)
  have uc: "(ucast ?sz :: u32) = of_nat (length str)"
    by (rule word_unat_eq_iff [THEN iffD2])
       (use us small in \<open>simp add: unsigned_ucast_eq unat_of_nat take_bit_nat_eq_self_iff\<close>)
  have ul: "unat LENGTH_PREFIX_BYTES = 4" by (simp add: LENGTH_PREFIX_BYTES_def)
  have "or (push_bit BYTES_SHIFT ?sz) 1 = (of_nat (length str * 2 ^ 32 + 1) :: u64)"
    by (simp add: BYTES_SHIFT_def or_push_1)
  then show thesis
    by (intro that [OF at_def ui]) (use r u4 small uc cap in \<open>simp_all only: sp' pool.simps ul\<close>, simp_all)
qed

lemma append_spec:
  assumes ok: "pool_ok os sp v" and run: "pool_append dbg os str sp v = Some (i, sp', v')" and len: "name_ok str"
  shows "pool_ok os sp' v'" "pool_valid sp' i" "pool_get sp' i = str"
    "pool_valid sp j \<Longrightarrow> pool_valid sp' j \<and> pool_get sp' j = pool_get sp j"
    "str \<noteq> [] \<Longrightarrow> \<not> pool_valid sp i"
proof -
  have "pool_ok os sp' v' \<and> pool_valid sp' i \<and> pool_get sp' i = str
    \<and> (\<forall>j. pool_valid sp j \<longrightarrow> pool_valid sp' j \<and> pool_get sp' j = pool_get sp j) \<and> (str \<noteq> [] \<longrightarrow> \<not> pool_valid sp i)"
  proof (cases "str = []")
    case True
    then have "i = EMPTY_STRING_ID" "sp' = sp" "v' = v" using run by (auto simp: pool_append_def)
    then show ?thesis using ok empty_name [OF ok] True by simp
  next
    case False
    obtain at where a: "at = ceil_to (unat (ca_size (sp_arena sp))) 4" "unat i = at + 4" "length str < 2 ^ 32"
      "sp_mem sp' = mem_write (at + 4) str (mem_write at (le32 (of_nat (length str))) (sp_mem sp))"
      "unat (ca_size (sp_arena sp')) = at + 4 + length str" "unat (ca_capacity (sp_arena sp')) < 2 ^ 32"
      "ca_inv os (sp_arena sp') v'"
      by (rule append_cases [OF ok run False len]) blast
    have ge: "unat (ca_size (sp_arena sp)) \<le> at" using ceil_to_props(2) [of 4] a(1) by simp
    have old: "sp_mem sp' k = sp_mem sp k" if "k < unat (ca_size (sp_arena sp))" for k
      using that ge by (simp add: a(4) mem_write_def)
    have "mem_read at 4 (sp_mem sp') = le32 (of_nat (length str))"
      using mem_read_write_same [of at "le32 (of_nat (length str))"]
      by (simp add: a(4) mem_read_write_other)
    then have la: "pool_length_at sp' (unat i) = length str"
      using a(3) by (simp add: pool_length_at_def a(2) LENGTH_PREFIX_BYTES_def of_le_le32 unat_of_nat take_bit_nat_eq_self_iff)
    have "pool_get sp' i = mem_read (unat i) (length str) (sp_mem sp')" by (simp only: pool_get_def la)
    then have get: "pool_get sp' i = str" by (simp only: a(2,4) mem_read_write_same)
    have ok0: "4 \<le> unat (ca_size (sp_arena sp))" "mem_read 0 4 (sp_mem sp) = le32 0" using ok by (simp_all add: pool_ok_def)
    have "mem_read 0 4 (sp_mem sp') = mem_read 0 4 (sp_mem sp)" using old ok0(1) by (simp add: mem_read_def)
    then have "pool_ok os sp' v'" using a ok0 ge by (simp add: pool_ok_def)
    moreover have "pool_valid sp' j \<and> pool_get sp' j = pool_get sp j" if "pool_valid sp j" for j
      using pool_get_frame [OF that old] that ge a(5) by (simp add: pool_valid_def)
    moreover have "\<not> pool_valid sp i" using a(2) ge by (simp add: pool_valid_def)
    moreover have "pool_valid sp' i" using la a(2,5) by (simp add: pool_valid_def)
    ultimately show ?thesis using get by blast
  qed
  then show "pool_ok os sp' v'" "pool_valid sp' i" "pool_get sp' i = str"
    "pool_valid sp j \<Longrightarrow> pool_valid sp' j \<and> pool_get sp' j = pool_get sp j"
    "str \<noteq> [] \<Longrightarrow> \<not> pool_valid sp i" by blast+
qed

lemma append_totals:
  assumes ok: "pool_ok os sp v" and run: "pool_append dbg os str sp v = Some (i, sp', v')" and len: "name_ok str"
    and t: "totals_are sp N B"
  shows "totals_are sp' (if str = [] then N else N + 1) (B + length str)"
proof (cases "str = []")
  case True
  then show ?thesis using run t by (auto simp: pool_append_def)
next
  case False
  obtain at where a: "at = ceil_to (unat (ca_size (sp_arena sp))) 4"
    "unat (ca_size (sp_arena sp')) = at + 4 + length str" "sp_totals sp' = sp_totals sp + of_nat (length str * 2 ^ 32 + 1)"
    by (rule append_cases [OF ok run False len]) blast
  have ge: "unat (ca_size (sp_arena sp)) \<le> at" using ceil_to_props(2) [of 4] a(1) by simp
  obtain b bs where "str = b # bs" using False by (cases str) auto
  then show ?thesis using t a(2,3) ge by (simp add: totals_are_def algebra_simps)
qed

lemma totals_read:
  assumes ok: "pool_ok os sp v" and t: "totals_are sp N B"
  shows "unat (string_count sp) = N" "unat (pool_size_bytes sp) = B"
proof -
  have "unat (ca_size (sp_arena sp)) < 2 ^ 32" using ok by (auto simp: pool_ok_def ca_inv_def word_le_nat_alt)
  then have small: "N < 2 ^ 32" "B < 2 ^ 32" using t by (auto simp: totals_are_def)
  have "B * 2 ^ 32 + N < 2 ^ 64" using small by simp
  moreover have "sp_totals sp = of_nat (B * 2 ^ 32 + N)" using t unfolding totals_are_def by blast
  ultimately have ut: "unat (sp_totals sp) = B * 2 ^ 32 + N" by (simp add: unat_of_nat_small del: of_nat_add of_nat_mult)
  have m: "STRING_COUNT_MASK = mask 32" by (simp add: STRING_COUNT_MASK_def mask_eq_decr_exp)
  show "unat (string_count sp) = N" using small by (simp add: string_count_def m unat_and_mask ut)
  show "unat (pool_size_bytes sp) = B"
    using small unfolding pool_size_bytes_def BYTES_SHIFT_def unsigned_drop_bit_eq ut
    by (simp add: take_bit_nat_eq_self) (simp add: drop_bit_eq_div)
qed

lemma reserve_carena_inv:
  assumes "os_ok os" "unat (os_page_size os) dvd 2 ^ 18" "is_page_aligned_size os capacity" "unat capacity < 2 ^ 32"
    and "os_mmap os capacity = Some p"
  shows "\<exists>ca v'. ca_reserve dbg os capacity empty_carena v = Some (ca, v') \<and> ca_inv os ca v'
    \<and> ca_capacity ca = capacity \<and> ca_size ca = 0"
proof -
  have p: "p \<noteq> 0" "p mod os_page_size os = 0" "unat p + unat capacity < 2 ^ 64" using assms(1,5) by (auto simp: os_ok_def)
  then show ?thesis using assms
    by (auto simp: ca_reserve_def reserve_pages_def empty_carena_def ca_inv_def lanes_ok_def word_mod_dvd
        aligned_size_iff writable_range_def)
qed

lemma StringPool_ok:
  assumes os: "os_ok os" "unat (os_page_size os) dvd 2 ^ 18" "os_mmap os capacity \<noteq> None"
    and run: "StringPool dbg os capacity v = Some (sp, v')"
  shows "pool_ok os sp v' \<and> totals_are sp 0 0"
proof -
  have c: "is_page_aligned_size os capacity" "unat capacity < 2 ^ 32"
    using run by (auto simp: StringPool_def bind_eq_Some_conv fpag_check_eq_Some word_le_nat_alt)
  obtain q where m: "os_mmap os capacity = Some q" using os(3) by blast
  obtain ca v1 where ca: "ca_reserve dbg os capacity empty_carena v = Some (ca, v1)" "ca_inv os ca v1"
    "ca_capacity ca = capacity" "ca_size ca = 0"
    using reserve_carena_inv [OF os(1,2) c m] by blast
  obtain ptr ca' where al: "ca_alloc dbg os LENGTH_PREFIX_BYTES 4 ca v1 = Some (ptr, ca', v')" "ptr \<noteq> 0"
    and sp: "sp = \<lparr>sp_arena = ca', sp_capacity = capacity, sp_totals = 0,
        sp_mem = mem_write (unat (ptr - ca_ptr ca')) (le32 0) (\<lambda>_. 0)\<rparr>"
    using run ca(1) by (auto simp: StringPool_def reserve_empty_name_def bind_eq_Some_conv fpag_check_eq_Some)
  have "align_ok ca 4" using c(2) ca(3) by (simp add: align_ok_def is_power_of_two_def)
  note res = alloc_result [OF ca(2) this al]
  have z: "ceil_to (unat (ca_size ca)) (unat (4 :: usize)) = 0" "unat LENGTH_PREFIX_BYTES = 4"
    using ca(4) by (simp_all add: ceil_to_def LENGTH_PREFIX_BYTES_def)
  have r: "unat (ptr - ca_ptr ca') = 0" "unat (ca_size ca') = 4" "ca_inv os ca' v'" "ca_capacity ca' = capacity"
    using res ca(3) unfolding z add_0 by blast+
  have "mem_read 0 4 (mem_write 0 (le32 0) (\<lambda>_. 0)) = le32 0"
    using mem_read_write_same [of 0 "le32 0"] by simp
  then show ?thesis using r c(2) by (simp add: sp pool_ok_def totals_are_def)
qed

section \<open>The contract of a name store\<close>

text \<open>
  What a table of names relies on: an append hands out an id that reads back as the name, and no
  later append changes what an id reads as.
\<close>

locale name_store =
  fixes append :: "'n \<Rightarrow> 's \<Rightarrow> ('i \<times> 's) option" and get :: "'s \<Rightarrow> 'i \<Rightarrow> 'n"
    and inv :: "'s \<Rightarrow> bool" and valid :: "'s \<Rightarrow> 'i \<Rightarrow> bool" and storable :: "'n \<Rightarrow> bool"
  assumes append_inv: "inv s \<Longrightarrow> storable n \<Longrightarrow> append n s = Some (i, s') \<Longrightarrow> inv s'"
    and append_get: "inv s \<Longrightarrow> storable n \<Longrightarrow> append n s = Some (i, s') \<Longrightarrow> valid s' i \<and> get s' i = n"
    and append_keeps: "inv s \<Longrightarrow> storable n \<Longrightarrow> append n s = Some (i, s') \<Longrightarrow> valid s j \<Longrightarrow> valid s' j \<and> get s' j = get s j"
begin

fun append_all :: "'n list \<Rightarrow> 's \<Rightarrow> ('i list \<times> 's) option" where
  "append_all [] s = Some ([], s)"
| "append_all (n # ns) s = (case append n s of
     None \<Rightarrow> None
   | Some (i, s') \<Rightarrow> (case append_all ns s' of None \<Rightarrow> None | Some (is, t) \<Rightarrow> Some (i # is, t)))"

lemma append_all_spec:
  assumes "inv s" "list_all storable ns" "append_all ns s = Some (is, t)"
  shows "inv t \<and> list_all2 (\<lambda>i n. valid t i \<and> get t i = n) is ns
    \<and> (\<forall>j. valid s j \<longrightarrow> valid t j \<and> get t j = get s j)"
  using assms
proof (induction ns arbitrary: s "is")
  case (Cons n ns)
  obtain i s' is' where a: "append n s = Some (i, s')" "append_all ns s' = Some (is', t)" "is = i # is'"
    using Cons.prems(3) by (auto split: option.splits)
  have n: "storable n" "list_all storable ns" using Cons.prems(2) by simp_all
  note ih = Cons.IH [OF append_inv [OF Cons.prems(1) n(1) a(1)] n(2) a(2)]
  have "valid t i \<and> get t i = n" using append_get [OF Cons.prems(1) n(1) a(1)] ih by auto
  moreover have "\<forall>j. valid s j \<longrightarrow> valid t j \<and> get t j = get s j"
    using append_keeps [OF Cons.prems(1) n(1) a(1)] ih by auto
  ultimately show ?case using ih a(3) by auto
qed simp

end

definition pool_store :: "bool \<Rightarrow> os \<Rightarrow> name \<Rightarrow> pool \<times> vm \<Rightarrow> (pool_id \<times> pool \<times> vm) option" where
  "pool_store dbg os n s = pool_append dbg os n (fst s) (snd s)"

interpretation ps: name_store "pool_store dbg os" "\<lambda>s. pool_get (fst s)" "\<lambda>s. pool_ok os (fst s) (snd s)"
    "\<lambda>s. pool_valid (fst s)" name_ok
  for dbg os
proof (unfold_locales, goal_cases)
  case (1 s n i s')
  then show ?case using append_spec(1) [of os "fst s" "snd s" dbg n i "fst s'" "snd s'"] by (simp add: pool_store_def)
next
  case (2 s n i s')
  then show ?case using append_spec(2,3) [of os "fst s" "snd s" dbg n i "fst s'" "snd s'"] by (simp add: pool_store_def)
next
  case (3 s n i s' j)
  then show ?case using append_spec(4) [of os "fst s" "snd s" dbg n i "fst s'" "snd s'" j] by (simp add: pool_store_def)
qed

section \<open>Properties\<close>

text \<open>
  C22. Every name appended to a pool reads back from its id byte for byte, also after any number of
  later appends; the empty name included.
\<close>

theorem pool_append_get:
  assumes "pool_ok os sp v" "list_all name_ok ns" "ps.append_all dbg os ns (sp, v) = Some (is, sp', v')"
  shows "pool_ok os sp' v' \<and> map (pool_get sp') is = ns
    \<and> (\<forall>j. pool_valid sp j \<longrightarrow> pool_valid sp' j \<and> pool_get sp' j = pool_get sp j)"
proof -
  have i: "pool_ok os (fst (sp, v)) (snd (sp, v))" using assms(1) by simp
  note r = ps.append_all_spec [OF i assms(2,3)]
  have "map (pool_get sp') is = ns"
    using r by (auto simp: list_all2_conv_all_nth intro: nth_equalityI)
  then show ?thesis using r by simp
qed

text \<open>
  C28. The two counters of a pool share one 64-bit word and never disturb each other: after any
  appends to a fresh pool the count is the number of non-empty names and the size is the sum of
  their lengths.
\<close>

theorem pool_totals_exact:
  assumes "pool_ok os sp v" "totals_are sp N B" "name_ok str" "pool_append dbg os str sp v = Some (i, sp', v')"
  shows "totals_are sp' (if str = [] then N else N + 1) (B + length str)
    \<and> unat (string_count sp') = (if str = [] then N else N + 1) \<and> unat (pool_size_bytes sp') = B + length str"
  using append_totals [OF assms(1,4,3,2)] totals_read [OF append_spec(1) [OF assms(1,4,3)]] by blast

definition sample_pool :: pool where
  "sample_pool = \<lparr>sp_arena = \<lparr>ca_ptr = 65536, ca_capacity = 16384, ca_lane_unit = 1, ca_pool_begin = 0, ca_lanes = [],
       ca_size = 4, ca_committed = 4096\<rparr>, sp_capacity = 16384, sp_totals = 0, sp_mem = (\<lambda>_. 0)\<rparr>"

lemma sample_pool_ok: "pool_ok sample_os sample_pool sample_vm" "totals_are sample_pool 0 0"
proof -
  have "ca_inv sample_os (sp_arena sample_pool) sample_vm"
    using sample_carena_inv by (simp add: sample_pool_def sample_carena_def ca_inv_def lanes_ok_def)
  moreover have "mem_read 0 4 (\<lambda>_. 0) = le32 0" by (simp add: le32_def mem_read_def upt_rec)
  ultimately show "pool_ok sample_os sample_pool sample_vm" by (simp add: pool_ok_def sample_pool_def)
  show "totals_are sample_pool 0 0" by (simp add: totals_are_def sample_pool_def)
qed

lemma sample_append:
  "\<exists>i sp' v'. pool_append False sample_os str sample_pool sample_vm = Some (i, sp', v')"
  if "length str \<le> 16376" for str
proof (cases "str = []")
  case True
  then show ?thesis by (simp add: pool_append_def)
next
  case False
  let ?ca = "sp_arena sample_pool" and ?sz = "LENGTH_PREFIX_BYTES + of_nat (length str) :: usize"
  have us: "unat (of_nat (length str) :: usize) = length str" using that by (simp add: unat_of_nat_small)
  have u: "unat ?sz = 4 + length str"
    using that us by (subst unat_add_nowrap) (simp_all add: LENGTH_PREFIX_BYTES_def)
  have inv: "ca_inv sample_os ?ca sample_vm" using sample_pool_ok(1) by (simp add: pool_ok_def)
  have al: "align_ok ?ca 4" by (simp add: align_ok_def sample_pool_def is_power_of_two_def)
  have mp: "\<forall>p n. os_mprotect sample_os p n" by (simp add: sample_os_def)
  have fits: "ceil_to (unat (ca_size ?ca)) (unat (4 :: usize)) + unat ?sz \<le> unat (ca_capacity ?ca)"
    using that u by (simp add: sample_pool_def ceil_to_def)
  obtain p ca' v' where a: "ca_alloc False sample_os ?sz 4 ?ca sample_vm = Some (p, ca', v')"
    "unat p = unat (ca_ptr ?ca) + ceil_to (unat (ca_size ?ca)) (unat (4 :: usize))"
    by (rule ca_alloc_fits [OF inv al mp fits, where dbg = False]) blast
  have "p \<noteq> 0" using a(2) by (auto simp: sample_pool_def ceil_to_def)
  then show ?thesis using a(1) False by (simp add: pool_append_def Let_def)
qed

theorem pool_append_get_witness:
  "\<exists>i sp' v'. ps.append_all False sample_os [[102, 111, 111]] (sample_pool, sample_vm) = Some ([i], sp', v')
     \<and> pool_get sp' i = [102, 111, 111]"
proof -
  obtain i sp' v' where a: "pool_append False sample_os [102, 111, 111] sample_pool sample_vm = Some (i, sp', v')"
    using sample_append [of "[102, 111, 111]"] by auto
  then have r: "ps.append_all False sample_os [[102, 111, 111]] (sample_pool, sample_vm) = Some ([i], sp', v')"
    by (simp add: pool_store_def)
  have "list_all name_ok [[102, 111, 111]]" by (simp add: name_ok_def)
  then show ?thesis using pool_append_get [OF sample_pool_ok(1) _ r] r by simp
qed

theorem pool_totals_exact_witness:
  "\<exists>i sp' v'. pool_append False sample_os [102, 111, 111] sample_pool sample_vm = Some (i, sp', v')
     \<and> unat (string_count sp') = 1 \<and> unat (pool_size_bytes sp') = 3"
proof -
  obtain i sp' v' where a: "pool_append False sample_os [102, 111, 111] sample_pool sample_vm = Some (i, sp', v')"
    using sample_append [of "[102, 111, 111]"] by auto
  have "name_ok [102, 111, 111]" by (simp add: name_ok_def)
  from pool_totals_exact [OF sample_pool_ok this a] a show ?thesis by simp
qed

end
