(* ===== verification/Intern_Table.thy ===== *)
theory Intern_Table
  imports String_Pool
begin

text \<open>
  \<^verbatim>\<open>str::InternTable\<close> (\<^verbatim>\<open>include/fpag/str/intern_table.h\<close>) and \<^verbatim>\<open>str::StringInterner\<close>: an open-addressing
  table of names that many threads intern into at once. A slot is a control byte and a pool id. The
  hash function is third-party code and an argument here. \<open>walk_step\<close> is one round of the loop in
  \<^verbatim>\<open>lookup\<close>: it reads one control byte. The sequential operations run it to the end; \<open>intern_step\<close>
  interleaves any number of calls one control byte at a time. An append to the string pool is one step
  there; the atomic accesses it makes to the arena are interleaved in the theory of the concurrent arena.
\<close>

section \<open>Definitions\<close>

definition EMPTY_CONTROL :: u8 where "EMPTY_CONTROL = 0x00"
definition CLAIMED_CONTROL :: u8 where "CLAIMED_CONTROL = 0x7F"
definition PUBLISHED_BIT :: u8 where "PUBLISHED_BIT = 0x80"
definition SLOT_BYTES :: usize where "SLOT_BYTES = 4 + 1"
definition LOAD_NUMERATOR :: usize where "LOAD_NUMERATOR = 4"
definition LOAD_DENOMINATOR :: usize where "LOAD_DENOMINATOR = 3"
definition MAX_SLOTS :: u32 where "MAX_SLOTS = push_bit 30 1"
definition MAX_NAMES :: usize where
  "MAX_NAMES = ucast MAX_SLOTS div LOAD_NUMERATOR * LOAD_DENOMINATOR"
definition DEFAULT_NAMES :: usize where "DEFAULT_NAMES = push_bit 24 1"

record slot =
  sl_control :: u8
  sl_entry :: pool_id

record itable =
  it_region :: usize
  it_region_bytes :: usize
  it_slots :: usize
  it_count :: usize
  it_table :: "slot list"

record probe =
  pr_id :: pool_id
  pr_index :: u32
  pr_found :: bool
  pr_blocked :: bool
  pr_full :: bool

definition empty_slot :: slot where
  "empty_slot = \<lparr>sl_control = 0, sl_entry = 0\<rparr>"

definition empty_itable :: itable where
  "empty_itable = \<lparr>it_region = 0, it_region_bytes = 0, it_slots = 0, it_count = 0, it_table = []\<rparr>"

definition itable_release :: "bool \<Rightarrow> os \<Rightarrow> itable \<Rightarrow> vm \<Rightarrow> (itable \<times> vm) option" where
  "itable_release dbg os it v = do {
     v \<leftarrow> (if it_region it \<noteq> 0 then free_pages dbg os (it_region it) (it_region_bytes it) v else Some v);
     Some (it\<lparr>it_region := 0, it_slots := 0, it_region_bytes := 0, it_count := 0, it_table := []\<rparr>, v)
   }"

definition itable_reserve :: "bool \<Rightarrow> os \<Rightarrow> usize \<Rightarrow> itable \<Rightarrow> vm \<Rightarrow> (itable \<times> vm) option" where
  "itable_reserve dbg os names it v = do {
     (it, v) \<leftarrow> itable_release dbg os it v;
     let wanted = (if names = 0 then DEFAULT_NAMES else names);
     fpag_check (wanted \<le> MAX_NAMES);
     slots \<leftarrow> next_power_of_two dbg ((wanted div LOAD_DENOMINATOR) * LOAD_NUMERATOR);
     fpag_dcheck dbg (slots \<le> ucast MAX_SLOTS);
     fpag_check (slots \<le> (- 1) div SLOT_BYTES);
     region_bytes \<leftarrow> round_up dbg (slots * SLOT_BYTES) (page_size os);
     (region, v) \<leftarrow> allocate_pages dbg os region_bytes v;
     fpag_check (region \<noteq> 0);
     let it = it\<lparr>it_region := region, it_region_bytes := region_bytes, it_slots := slots,
                 it_table := replicate (unat slots) empty_slot\<rparr>;
     fpag_dcheck dbg (sl_control (it_table it ! 0) = EMPTY_CONTROL
       \<and> sl_entry (it_table it ! unat (ucast (slots - 1) :: u32)) = 0);
     Some (it, v)
   }"

definition published :: "u64 \<Rightarrow> u8" where
  "published h = or (and (ucast (drop_bit 56 h)) 0x7F) PUBLISHED_BIT"

definition word_at :: "u8 list \<Rightarrow> nat \<Rightarrow> nat" where
  "word_at bs i = of_le (take 8 (drop i bs))"

function same_words :: "u8 list \<Rightarrow> u8 list \<Rightarrow> nat \<Rightarrow> nat \<Rightarrow> nat option" where
  "same_words lhs rhs n i =
     (if i + 8 \<le> n then (if word_at lhs i \<noteq> word_at rhs i then None else same_words lhs rhs n (i + 8))
      else Some i)"
  by pat_completeness auto
termination by (relation "measure (\<lambda>(lhs, rhs, n, i). n - i)") auto

function same_bytes :: "u8 list \<Rightarrow> u8 list \<Rightarrow> nat \<Rightarrow> nat \<Rightarrow> bool" where
  "same_bytes lhs rhs n i =
     (if i < n then (if lhs ! i \<noteq> rhs ! i then False else same_bytes lhs rhs n (Suc i)) else True)"
  by pat_completeness auto
termination by (relation "measure (\<lambda>(lhs, rhs, n, i). n - i)") auto

definition same_name :: "u8 list \<Rightarrow> u8 list \<Rightarrow> nat \<Rightarrow> bool" where
  "same_name lhs rhs n =
     (case same_words lhs rhs n 0 of
        None \<Rightarrow> False
      | Some i \<Rightarrow> if i = n then True
                else if n \<ge> 8 then word_at lhs (n - 8) = word_at rhs (n - 8)
                else same_bytes lhs rhs n i)"

definition table_mask :: "itable \<Rightarrow> u32" where
  "table_mask it = ucast (it_slots it - 1)"

definition entry_is :: "pool \<Rightarrow> pool_id \<Rightarrow> name \<Rightarrow> bool" where
  "entry_is sp i content \<longleftrightarrow> pool_length_at sp (unat i) = length content
     \<and> same_name (mem_read (unat i) (length content) (sp_mem sp)) content (length content)"

datatype walk = Stop probe | Go u32 bool

definition walk_step :: "pool \<Rightarrow> itable \<Rightarrow> u8 \<Rightarrow> name \<Rightarrow> u32 \<Rightarrow> bool \<Rightarrow> walk" where
  "walk_step sp it fingerprint content index claimed =
     (let s = it_table it ! unat index;
          next_index = and (index + 1) (table_mask it)
      in if sl_control s = fingerprint then
           (let i = sl_entry s in
            if entry_is sp i content
            then Stop \<lparr>pr_id = i, pr_index = index, pr_found = True, pr_blocked = False, pr_full = False\<rparr>
            else Go next_index claimed)
         else if sl_control s = EMPTY_CONTROL then
           Stop \<lparr>pr_id = 0, pr_index = index, pr_found = False, pr_blocked = claimed, pr_full = False\<rparr>
         else if sl_control s = CLAIMED_CONTROL then Go next_index True
         else Go next_index claimed)"

fun walk_from :: "nat \<Rightarrow> pool \<Rightarrow> itable \<Rightarrow> u8 \<Rightarrow> name \<Rightarrow> u32 \<Rightarrow> bool \<Rightarrow> probe" where
  "walk_from 0 sp it fp content index claimed =
     \<lparr>pr_id = 0, pr_index = index, pr_found = False, pr_blocked = claimed, pr_full = True\<rparr>"
| "walk_from (Suc steps) sp it fp content index claimed =
     (case walk_step sp it fp content index claimed of
        Stop p \<Rightarrow> p
      | Go index claimed \<Rightarrow> walk_from steps sp it fp content index claimed)"

definition lookup :: "pool \<Rightarrow> itable \<Rightarrow> u64 \<Rightarrow> u8 \<Rightarrow> name \<Rightarrow> probe" where
  "lookup sp it h fingerprint content =
     walk_from (Suc (unat (table_mask it))) sp it fingerprint content (and (ucast h) (table_mask it)) False"

definition claim :: "u32 \<Rightarrow> itable \<Rightarrow> bool \<times> itable" where
  "claim index it =
     (if sl_control (it_table it ! unat index) = EMPTY_CONTROL
      then (True, it\<lparr>it_table := (it_table it)[unat index := (it_table it ! unat index)\<lparr>sl_control := CLAIMED_CONTROL\<rparr>]\<rparr>)
      else (False, it))"

definition write_entry :: "u32 \<Rightarrow> pool_id \<Rightarrow> itable \<Rightarrow> itable" where
  "write_entry index i it =
     it\<lparr>it_table := (it_table it)[unat index := (it_table it ! unat index)\<lparr>sl_entry := i\<rparr>]\<rparr>"

definition publish :: "u32 \<Rightarrow> u8 \<Rightarrow> itable \<Rightarrow> itable" where
  "publish index fp it =
     it\<lparr>it_table := (it_table it)[unat index := (it_table it ! unat index)\<lparr>sl_control := fp\<rparr>],
        it_count := it_count it + 1\<rparr>"

text \<open>
  The retry loop of \<^verbatim>\<open>try_intern\<close>, with a bound on its rounds: \<open>None\<close> is a stopped process or a
  call that is still spinning.
\<close>

fun try_intern :: "nat \<Rightarrow> (name \<Rightarrow> u64) \<Rightarrow> bool \<Rightarrow> os \<Rightarrow> name \<Rightarrow> itable \<Rightarrow> pool \<Rightarrow> vm
    \<Rightarrow> (pool_id option \<times> itable \<times> pool \<times> vm) option" where
  "try_intern 0 hash dbg os content it sp v = None"
| "try_intern (Suc rounds) hash dbg os content it sp v =
     (let h = hash content; fp = published h; p = lookup sp it h fp content in
      if pr_found p then Some (Some (pr_id p), it, sp, v)
      else if pr_full p then Some (None, it, sp, v)
      else
        (let (ok, it') = (if \<not> pr_blocked p then claim (pr_index p) it else (False, it)) in
         if ok then do {
           (i, sp, v) \<leftarrow> pool_append dbg os content sp v;
           Some (Some i, publish (pr_index p) fp (write_entry (pr_index p) i it'), sp, v)
         }
         else try_intern rounds hash dbg os content it' sp v))"

definition intern :: "nat \<Rightarrow> (name \<Rightarrow> u64) \<Rightarrow> bool \<Rightarrow> os \<Rightarrow> name \<Rightarrow> itable \<Rightarrow> pool \<Rightarrow> vm
    \<Rightarrow> (pool_id \<times> itable \<times> pool \<times> vm) option" where
  "intern rounds hash dbg os content it sp v = do {
     (r, it, sp, v) \<leftarrow> try_intern rounds hash dbg os content it sp v;
     (case r of Some i \<Rightarrow> Some (i, it, sp, v) | None \<Rightarrow> None)
   }"

definition itable_find :: "(name \<Rightarrow> u64) \<Rightarrow> name \<Rightarrow> itable \<Rightarrow> pool \<Rightarrow> pool_id option" where
  "itable_find hash content it sp =
     (let h = hash content; p = lookup sp it h (published h) content in
      if pr_found p then Some (pr_id p) else None)"

text \<open>
  \<^verbatim>\<open>str::StringInterner\<close> is a pool and a table over it, built in that order.
\<close>

definition DEFAULT_POOL_CAPACITY :: usize where "DEFAULT_POOL_CAPACITY = 1 * 1024 * 1024 * 1024"

record interner =
  si_pool :: pool
  si_table :: itable

definition StringInterner :: "bool \<Rightarrow> os \<Rightarrow> usize \<Rightarrow> usize \<Rightarrow> vm \<Rightarrow> (interner \<times> vm) option" where
  "StringInterner dbg os names pool_bytes v = do {
     (sp, v) \<leftarrow> StringPool dbg os (if pool_bytes = 0 then DEFAULT_POOL_CAPACITY else pool_bytes) v;
     (it, v) \<leftarrow> itable_reserve dbg os names empty_itable v;
     Some (\<lparr>si_pool = sp, si_table = it\<rparr>, v)
   }"

definition interner_init :: "bool \<Rightarrow> os \<Rightarrow> usize \<Rightarrow> interner \<Rightarrow> vm \<Rightarrow> (interner \<times> vm) option" where
  "interner_init dbg os names si v = do {
     (it, v) \<leftarrow> itable_reserve dbg os names (si_table si) v;
     Some (si\<lparr>si_table := it\<rparr>, v)
   }"

definition interner_intern :: "nat \<Rightarrow> (name \<Rightarrow> u64) \<Rightarrow> bool \<Rightarrow> os \<Rightarrow> name \<Rightarrow> interner \<Rightarrow> vm
    \<Rightarrow> (pool_id \<times> interner \<times> vm) option" where
  "interner_intern rounds hash dbg os str si v = do {
     (i, it, sp, v) \<leftarrow> intern rounds hash dbg os str (si_table si) (si_pool si) v;
     Some (i, \<lparr>si_pool = sp, si_table = it\<rparr>, v)
   }"

definition interner_get :: "interner \<Rightarrow> pool_id \<Rightarrow> name" where
  "interner_get si i = pool_get (si_pool si) i"

section \<open>Comparing names\<close>

declare same_words.simps [simp del] same_bytes.simps [simp del]

lemma word_at_eq:
  assumes "length lhs = length rhs"
  shows "word_at lhs i = word_at rhs i \<longleftrightarrow> take 8 (drop i lhs) = take 8 (drop i rhs)"
  using assms by (simp add: word_at_def of_le_inj)

lemma same_words_spec:
  assumes "length lhs = n" "length rhs = n" "i \<le> n" "take i lhs = take i rhs"
  shows "case same_words lhs rhs n i of
      None \<Rightarrow> lhs \<noteq> rhs
    | Some j \<Rightarrow> take j lhs = take j rhs \<and> j \<le> n \<and> n < j + 8"
  using assms
proof (induction lhs rhs n i rule: same_words.induct)
  case (1 lhs rhs n i)
  show ?case
  proof (cases "i + 8 \<le> n")
    case False
    then show ?thesis using 1 by (simp add: same_words.simps)
  next
    case True
    show ?thesis
    proof (cases "word_at lhs i = word_at rhs i")
      case False
      then show ?thesis using True by (auto simp: same_words.simps)
    next
      case eq: True
      then have "take 8 (drop i lhs) = take 8 (drop i rhs)" using 1 by (simp add: word_at_eq)
      then have "take (i + 8) lhs = take (i + 8) rhs" using "1.prems"(4) by (simp add: take_add)
      then have "case same_words lhs rhs n (i + 8) of None \<Rightarrow> lhs \<noteq> rhs
        | Some j \<Rightarrow> take j lhs = take j rhs \<and> j \<le> n \<and> n < j + 8"
        using "1.IH" [OF True] eq "1.prems"(1,2) True by simp
      then show ?thesis using True eq by (subst same_words.simps) simp
    qed
  qed
qed

lemma same_bytes_spec:
  assumes "length lhs = n" "length rhs = n" "i \<le> n" "take i lhs = take i rhs"
  shows "same_bytes lhs rhs n i \<longleftrightarrow> lhs = rhs"
  using assms
proof (induction lhs rhs n i rule: same_bytes.induct)
  case (1 lhs rhs n i)
  show ?case
  proof (cases "i < n")
    case False
    then show ?thesis using 1 by (simp add: same_bytes.simps)
  next
    case True
    then have "lhs ! i = rhs ! i \<Longrightarrow> take (Suc i) lhs = take (Suc i) rhs"
      using 1 by (simp add: take_Suc_conv_app_nth)
    then show ?thesis using 1 True by (subst same_bytes.simps) auto
  qed
qed

lemma same_name_eq:
  assumes "length lhs = n" "length rhs = n"
  shows "same_name lhs rhs n \<longleftrightarrow> lhs = rhs"
proof (cases "same_words lhs rhs n 0")
  case None
  then show ?thesis using same_words_spec [OF assms, of 0] by (simp add: same_name_def)
next
  case (Some i)
  then have i: "take i lhs = take i rhs" "i \<le> n" "n < i + 8" using same_words_spec [OF assms, of 0] by simp_all
  show ?thesis
  proof (cases "i \<noteq> n \<and> n \<ge> 8")
    case True
    have "n - 8 \<le> i" using i(3) by linarith
    then have "take (n - 8) lhs = take (n - 8) rhs" using arg_cong [OF i(1), of "take (n - 8)"] by (simp add: min_absorb1)
    then have "drop (n - 8) lhs = drop (n - 8) rhs \<longleftrightarrow> lhs = rhs" by (metis append_take_drop_id)
    then show ?thesis using Some True assms by (simp add: same_name_def word_at_eq)
  next
    case False
    then show ?thesis using Some i assms same_bytes_spec [OF assms i(2,1)] by (auto simp: same_name_def)
  qed
qed

lemma entry_is_get: "entry_is sp i content \<longleftrightarrow> pool_get sp i = content"
proof (cases "pool_length_at sp (unat i) = length content")
  case True
  then show ?thesis by (simp add: entry_is_def pool_get_def same_name_eq)
next
  case False
  then have "pool_get sp i \<noteq> content" by (metis length_mem_read pool_get_def)
  then show ?thesis using False by (simp add: entry_is_def)
qed

section \<open>Probe sequences\<close>

definition slot_count :: "itable \<Rightarrow> nat" where
  "slot_count it = length (it_table it)"

definition shape_ok :: "itable \<Rightarrow> bool" where
  "shape_ok it \<longleftrightarrow> (\<exists>k \<le> 30. unat (it_slots it) = 2 ^ k) \<and> length (it_table it) = unat (it_slots it)"

definition probe_at :: "(name \<Rightarrow> u64) \<Rightarrow> nat \<Rightarrow> name \<Rightarrow> nat \<Rightarrow> nat" where
  "probe_at hash m n p = (unat (hash n) + p) mod m"

lemma table_mask_eq:
  assumes "shape_ok it"
  obtains k where "k \<le> 30" "slot_count it = 2 ^ k" "table_mask it = mask k"
proof -
  obtain k where k: "k \<le> 30" "unat (it_slots it) = 2 ^ k" using assms by (auto simp: shape_ok_def)
  have "it_slots it - 1 = mask k" by (rule pow2_pred_mask [OF k(2)])
  then have "table_mask it = mask k" using k(1) by (simp add: table_mask_def) (rule bit_word_eqI, auto simp: bit_simps)
  then show thesis using k assms that by (simp add: slot_count_def shape_ok_def)
qed

lemma start_index:
  assumes "shape_ok it"
  shows "unat (and (ucast (hash n)) (table_mask it)) = probe_at hash (slot_count it) n 0"
proof -
  obtain k where k: "k \<le> 30" "slot_count it = 2 ^ k" "table_mask it = mask k" by (rule table_mask_eq [OF assms])
  have "(2 :: nat) ^ k dvd 2 ^ 32" using k(1) by (intro le_imp_power_dvd) simp
  then show ?thesis
    by (simp add: k unat_and_mask probe_at_def unsigned_ucast_eq take_bit_eq_mod mod_mod_cancel)
qed

lemma next_index:
  assumes "shape_ok it" "unat index = probe_at hash (slot_count it) n p"
  shows "unat (and (index + 1) (table_mask it)) = probe_at hash (slot_count it) n (Suc p)"
proof -
  obtain k where k: "k \<le> 30" "slot_count it = 2 ^ k" "table_mask it = mask k" by (rule table_mask_eq [OF assms(1)])
  have "unat index < 2 ^ k" using assms(2) k(2) by (simp add: probe_at_def)
  moreover have "(2 :: nat) ^ k \<le> 2 ^ 30" using k(1) by (intro power_increasing) simp_all
  ultimately have "unat (index + 1) = unat index + 1" using unat_add_nowrap [of index 1] by simp
  then show ?thesis using assms(2) by (simp add: k unat_and_mask probe_at_def mod_Suc_eq)
qed

lemma probe_at_lt: "shape_ok it \<Longrightarrow> probe_at hash (slot_count it) n p < slot_count it"
  by (auto simp: probe_at_def shape_ok_def slot_count_def)

lemma probe_at_inj:
  assumes "p < m" "q < m" "probe_at hash m n p = probe_at hash m n q"
  shows "p = q"
proof (rule ccontr)
  assume "p \<noteq> q"
  then consider "p < q" | "q < p" by linarith
  then show False
    by cases (use assms in \<open>auto simp: probe_at_def mod_eq_dvd_iff_nat dest: dvd_imp_le\<close>,
      (metis add_diff_cancel_left dvd_imp_le le_add1 less_imp_diff_less less_imp_le mod_eq_dvd_iff_nat nat_add_left_cancel_le not_le zero_less_diff)+)
qed

section \<open>Interleaved calls\<close>

text \<open>
  A call walks, claims the free slot its walk ended at, appends the name, stores the entry, and
  publishes the control byte. A walk counts the slots it has passed. The owner of a slot is recorded
  when it is claimed. \<^verbatim>\<open>find\<close> is a walk that does not insert.
\<close>

datatype icall =
    Walk bool name nat u32 bool
  | Claim name nat u32
  | Append name u32
  | Entry name u32 pool_id
  | Publish name u32 pool_id
  | Done bool name "pool_id option"

record isystem =
  is_table :: itable
  is_pool :: pool
  is_vm :: vm
  is_owner :: "nat \<Rightarrow> name option"
  is_calls :: "icall list"

definition start_walk :: "(name \<Rightarrow> u64) \<Rightarrow> itable \<Rightarrow> bool \<Rightarrow> name \<Rightarrow> icall" where
  "start_walk hash it ins n = Walk ins n 0 (and (ucast (hash n)) (table_mask it)) False"

definition walk_call :: "(name \<Rightarrow> u64) \<Rightarrow> pool \<Rightarrow> itable \<Rightarrow> bool \<Rightarrow> name \<Rightarrow> nat \<Rightarrow> u32 \<Rightarrow> bool \<Rightarrow> icall" where
  "walk_call hash sp it ins n p index claimed =
     (if p \<le> unat (table_mask it)
      then (case walk_step sp it (published (hash n)) n index claimed of
              Go index claimed \<Rightarrow> Walk ins n (Suc p) index claimed
            | Stop pr \<Rightarrow>
                if pr_found pr then Done ins n (Some (pr_id pr))
                else if \<not> ins then Done ins n None
                else if pr_blocked pr then start_walk hash it ins n
                else Claim n p (pr_index pr))
      else Done ins n None)"

fun intern_call :: "(name \<Rightarrow> u64) \<Rightarrow> bool \<Rightarrow> os \<Rightarrow> icall \<Rightarrow> isystem \<Rightarrow> (icall \<times> isystem) option" where
  "intern_call hash dbg os (Walk ins n p index claimed) s =
     Some (walk_call hash (is_pool s) (is_table s) ins n p index claimed, s)"
| "intern_call hash dbg os (Claim n p index) s =
     (let (ok, it) = claim index (is_table s) in
      if ok then Some (Append n index, s\<lparr>is_table := it, is_owner := (is_owner s)(unat index \<mapsto> n)\<rparr>)
      else Some (start_walk hash (is_table s) True n, s))"
| "intern_call hash dbg os (Append n index) s =
     do { (i, sp, v) \<leftarrow> pool_append dbg os n (is_pool s) (is_vm s);
          Some (Entry n index i, s\<lparr>is_pool := sp, is_vm := v\<rparr>) }"
| "intern_call hash dbg os (Entry n index i) s =
     Some (Publish n index i, s\<lparr>is_table := write_entry index i (is_table s)\<rparr>)"
| "intern_call hash dbg os (Publish n index i) s =
     Some (Done True n (Some i), s\<lparr>is_table := publish index (published (hash n)) (is_table s)\<rparr>)"
| "intern_call hash dbg os (Done ins n r) s = Some (Done ins n r, s)"

inductive intern_step :: "(name \<Rightarrow> u64) \<Rightarrow> bool \<Rightarrow> os \<Rightarrow> isystem \<Rightarrow> isystem \<Rightarrow> bool"
  for hash :: "name \<Rightarrow> u64" and dbg :: bool and os :: os where
  begin_call: "name_ok n \<Longrightarrow> intern_step hash dbg os s
    (s\<lparr>is_calls := is_calls s @ [start_walk hash (is_table s) ins n]\<rparr>)"
| run_call: "i < length (is_calls s) \<Longrightarrow> intern_call hash dbg os (is_calls s ! i) s = Some (c, s')
    \<Longrightarrow> intern_step hash dbg os s (s'\<lparr>is_calls := (is_calls s)[i := c]\<rparr>)"

section \<open>Invariant\<close>

abbreviation control_of :: "isystem \<Rightarrow> nat \<Rightarrow> u8" where
  "control_of s j \<equiv> sl_control (it_table (is_table s) ! j)"

abbreviation entry_of :: "isystem \<Rightarrow> nat \<Rightarrow> pool_id" where
  "entry_of s j \<equiv> sl_entry (it_table (is_table s) ! j)"

definition is_published :: "isystem \<Rightarrow> nat \<Rightarrow> bool" where
  "is_published s j \<longleftrightarrow> control_of s j \<noteq> EMPTY_CONTROL \<and> control_of s j \<noteq> CLAIMED_CONTROL"

text \<open>The first \<open>p\<close> slots of the probe sequence of \<open>n\<close> are settled: published, and not with \<open>n\<close>.\<close>

definition settled :: "(name \<Rightarrow> u64) \<Rightarrow> isystem \<Rightarrow> name \<Rightarrow> nat \<Rightarrow> bool" where
  "settled hash s n p \<longleftrightarrow> (\<forall>q < p. is_published s (probe_at hash (slot_count (is_table s)) n q)
     \<and> is_owner s (probe_at hash (slot_count (is_table s)) n q) \<noteq> Some n)"

definition slots_ok :: "(name \<Rightarrow> u64) \<Rightarrow> isystem \<Rightarrow> bool" where
  "slots_ok hash s \<longleftrightarrow> (\<forall>j < slot_count (is_table s).
     (control_of s j = EMPTY_CONTROL \<longleftrightarrow> is_owner s j = None)
     \<and> (is_published s j \<longrightarrow> (\<exists>n. is_owner s j = Some n \<and> control_of s j = published (hash n)
          \<and> pool_valid (is_pool s) (entry_of s j) \<and> pool_get (is_pool s) (entry_of s j) = n)))"

definition chains_ok :: "(name \<Rightarrow> u64) \<Rightarrow> isystem \<Rightarrow> bool" where
  "chains_ok hash s \<longleftrightarrow> (\<forall>n p. p < slot_count (is_table s)
     \<and> is_owner s (probe_at hash (slot_count (is_table s)) n p) = Some n \<longrightarrow> settled hash s n p)"

definition holds :: "isystem \<Rightarrow> name \<Rightarrow> u32 \<Rightarrow> bool" where
  "holds s n index \<longleftrightarrow> unat index < slot_count (is_table s) \<and> control_of s (unat index) = CLAIMED_CONTROL
     \<and> is_owner s (unat index) = Some n \<and> name_ok n"

fun icall_ok :: "(name \<Rightarrow> u64) \<Rightarrow> isystem \<Rightarrow> icall \<Rightarrow> bool" where
  "icall_ok hash s (Walk ins n p index claimed) \<longleftrightarrow> name_ok n \<and> p \<le> slot_count (is_table s)
     \<and> unat index = probe_at hash (slot_count (is_table s)) n p \<and> (\<not> claimed \<longrightarrow> settled hash s n p)"
| "icall_ok hash s (Claim n p index) \<longleftrightarrow> name_ok n \<and> p < slot_count (is_table s)
     \<and> unat index = probe_at hash (slot_count (is_table s)) n p \<and> settled hash s n p"
| "icall_ok hash s (Append n index) \<longleftrightarrow> holds s n index"
| "icall_ok hash s (Entry n index i) \<longleftrightarrow> holds s n index \<and> pool_valid (is_pool s) i \<and> pool_get (is_pool s) i = n"
| "icall_ok hash s (Publish n index i) \<longleftrightarrow> holds s n index \<and> entry_of s (unat index) = i
     \<and> pool_valid (is_pool s) i \<and> pool_get (is_pool s) i = n"
| "icall_ok hash s (Done ins n None) \<longleftrightarrow> True"
| "icall_ok hash s (Done ins n (Some i)) \<longleftrightarrow> (\<exists>j < slot_count (is_table s). is_published s j
     \<and> is_owner s j = Some n \<and> entry_of s j = i)"

fun held_index :: "icall \<Rightarrow> u32 option" where
  "held_index (Append n index) = Some index"
| "held_index (Entry n index i) = Some index"
| "held_index (Publish n index i) = Some index"
| "held_index _ = None"

definition holders_apart :: "icall list \<Rightarrow> bool" where
  "holders_apart cs \<longleftrightarrow> (\<forall>i j x. i < length cs \<and> j < length cs \<and> i \<noteq> j \<longrightarrow>
     \<not> (held_index (cs ! i) = Some x \<and> held_index (cs ! j) = Some x))"

definition intern_inv :: "(name \<Rightarrow> u64) \<Rightarrow> os \<Rightarrow> isystem \<Rightarrow> bool" where
  "intern_inv hash os s \<longleftrightarrow> shape_ok (is_table s) \<and> pool_ok os (is_pool s) (is_vm s) \<and> slots_ok hash s \<and> chains_ok hash s
     \<and> (\<forall>c \<in> set (is_calls s). icall_ok hash s c) \<and> holders_apart (is_calls s)"

text \<open>What a step of another call may change under a call between its steps.\<close>

definition evolves :: "isystem \<Rightarrow> isystem \<Rightarrow> bool" where
  "evolves s s' \<longleftrightarrow> slot_count (is_table s') = slot_count (is_table s)
     \<and> (\<forall>j < slot_count (is_table s). is_published s j \<longrightarrow>
          it_table (is_table s') ! j = it_table (is_table s) ! j \<and> is_owner s' j = is_owner s j)
     \<and> (\<forall>i. pool_valid (is_pool s) i \<longrightarrow> pool_valid (is_pool s') i \<and> pool_get (is_pool s') i = pool_get (is_pool s) i)"

lemma evolves_refl [simp]: "evolves s s"
  by (simp add: evolves_def)

lemma evolves_published:
  "evolves s s' \<Longrightarrow> j < slot_count (is_table s) \<Longrightarrow> is_published s j \<Longrightarrow> is_published s' j \<and> is_owner s' j = is_owner s j"
  by (auto simp: evolves_def is_published_def)

lemma settled_evolves:
  assumes "evolves s s'" "shape_ok (is_table s)" "settled hash s n p"
  shows "settled hash s' n p"
proof -
  have c: "slot_count (is_table s') = slot_count (is_table s)" using assms(1) by (simp add: evolves_def)
  show ?thesis unfolding settled_def c
    using assms(3) evolves_published [OF assms(1) probe_at_lt [OF assms(2)]] by (auto simp: settled_def)
qed

text \<open>A call keeps its own facts when another one steps, unless the other writes the slot it holds.\<close>

lemma icall_ok_evolves:
  assumes ev: "evolves s s'" and sh: "shape_ok (is_table s)" and ok: "icall_ok hash s c"
    and own: "\<And>x. held_index c = Some x \<Longrightarrow> it_table (is_table s') ! unat x = it_table (is_table s) ! unat x
      \<and> is_owner s' (unat x) = is_owner s (unat x)"
  shows "icall_ok hash s' c"
proof -
  have c: "slot_count (is_table s') = slot_count (is_table s)" using ev by (simp add: evolves_def)
  have pv: "pool_valid (is_pool s) i \<Longrightarrow> pool_valid (is_pool s') i \<and> pool_get (is_pool s') i = pool_get (is_pool s) i" for i
    using ev by (simp add: evolves_def)
  show ?thesis
  proof (cases c)
    case (Done ins n r)
    show ?thesis
    proof (cases r)
      case (Some i)
      then obtain j where j: "j < slot_count (is_table s)" "is_published s j" "is_owner s j = Some n" "entry_of s j = i"
        using ok Done by auto
      then have "is_published s' j" "is_owner s' j = Some n" "entry_of s' j = i"
        using evolves_published [OF ev j(1,2)] ev by (auto simp: evolves_def)
      then show ?thesis using Done Some j(1) c by auto
    qed (simp add: Done)
  qed (use ok own settled_evolves [OF ev sh] pv in \<open>auto simp: c holds_def\<close>)
qed

section \<open>Every step keeps the invariant\<close>

lemma published_not_sentinel [simp]: "published h \<noteq> EMPTY_CONTROL" "published h \<noteq> CLAIMED_CONTROL"
  "EMPTY_CONTROL \<noteq> published h" "CLAIMED_CONTROL \<noteq> published h"
proof -
  have b: "bit (published h) 7" by (simp add: published_def PUBLISHED_BIT_def bit_simps)
  have "\<not> bit EMPTY_CONTROL 7" "\<not> bit CLAIMED_CONTROL 7" by (simp_all add: EMPTY_CONTROL_def CLAIMED_CONTROL_def)
  with b show "published h \<noteq> EMPTY_CONTROL" "published h \<noteq> CLAIMED_CONTROL"
    "EMPTY_CONTROL \<noteq> published h" "CLAIMED_CONTROL \<noteq> published h" by auto
qed

lemma sentinels_differ [simp]: "CLAIMED_CONTROL \<noteq> EMPTY_CONTROL" "EMPTY_CONTROL \<noteq> CLAIMED_CONTROL"
  by (simp_all add: EMPTY_CONTROL_def CLAIMED_CONTROL_def)

definition frame_ok :: "icall \<Rightarrow> isystem \<Rightarrow> icall \<Rightarrow> isystem \<Rightarrow> bool" where
  "frame_ok c s c' s' \<longleftrightarrow> (\<forall>j < slot_count (is_table s).
     (it_table (is_table s') ! j \<noteq> it_table (is_table s) ! j \<or> is_owner s' j \<noteq> is_owner s j) \<longrightarrow>
       map_option unat (held_index c) = Some j \<or> control_of s j = EMPTY_CONTROL)
     \<and> (held_index c' = None \<or> held_index c' = held_index c
        \<or> (\<exists>x. held_index c' = Some x \<and> unat x < slot_count (is_table s) \<and> control_of s (unat x) = EMPTY_CONTROL))"

definition istep_good :: "(name \<Rightarrow> u64) \<Rightarrow> os \<Rightarrow> icall \<Rightarrow> isystem \<Rightarrow> icall \<times> isystem \<Rightarrow> bool" where
  "istep_good hash os c s r \<longleftrightarrow> (case r of (c', s') \<Rightarrow> is_calls s' = is_calls s
     \<and> shape_ok (is_table s') \<and> pool_ok os (is_pool s') (is_vm s') \<and> slots_ok hash s' \<and> chains_ok hash s'
     \<and> evolves s s' \<and> icall_ok hash s' c' \<and> frame_ok c s c' s')"

definition sys_ok :: "(name \<Rightarrow> u64) \<Rightarrow> os \<Rightarrow> isystem \<Rightarrow> bool" where
  "sys_ok hash os s \<longleftrightarrow> shape_ok (is_table s) \<and> pool_ok os (is_pool s) (is_vm s) \<and> slots_ok hash s \<and> chains_ok hash s"

lemma istep_good_same:
  "sys_ok hash os s \<Longrightarrow> icall_ok hash s c' \<Longrightarrow> held_index c' = None \<Longrightarrow> istep_good hash os c s (c', s)"
  by (simp add: istep_good_def sys_ok_def frame_ok_def)

lemma chains_evolves:
  assumes "sys_ok hash os s" "evolves s s'"
    and "\<And>j. j < slot_count (is_table s) \<Longrightarrow> is_owner s' j = is_owner s j"
  shows "chains_ok hash s'"
proof -
  have c: "slot_count (is_table s') = slot_count (is_table s)" using assms(2) by (simp add: evolves_def)
  have sh: "shape_ok (is_table s)" using assms(1) by (simp add: sys_ok_def)
  show ?thesis unfolding chains_ok_def c
    using assms(1) assms(3) [OF probe_at_lt [OF sh]] settled_evolves [OF assms(2) sh]
    by (auto simp: sys_ok_def chains_ok_def)
qed

lemma start_walk_ok: "shape_ok (is_table s) \<Longrightarrow> name_ok n \<Longrightarrow> icall_ok hash s (start_walk hash (is_table s) ins n)"
  by (simp add: start_walk_def start_index settled_def)

lemma settled_Suc:
  assumes "settled hash s n p" "is_published s (probe_at hash (slot_count (is_table s)) n p)"
    "is_owner s (probe_at hash (slot_count (is_table s)) n p) \<noteq> Some n"
  shows "settled hash s n (Suc p)"
  using assms by (auto simp: settled_def less_Suc_eq)

lemma walk_call_good:
  assumes ok: "sys_ok hash os s" and c: "icall_ok hash s (Walk ins n p index claimed)"
  shows "istep_good hash os (Walk ins n p index claimed) s (walk_call hash (is_pool s) (is_table s) ins n p index claimed, s)"
proof -
  let ?j = "probe_at hash (slot_count (is_table s)) n p"
  have sh: "shape_ok (is_table s)" using ok by (simp add: sys_ok_def)
  obtain k where k: "k \<le> 30" "slot_count (is_table s) = 2 ^ k" "table_mask (is_table s) = mask k"
    by (rule table_mask_eq [OF sh])
  have um: "unat (table_mask (is_table s)) = slot_count (is_table s) - 1" using k by (simp add: unat_mask_lt)
  have n: "name_ok n" "unat index = ?j" "\<not> claimed \<Longrightarrow> settled hash s n p" using c by auto
  have j: "?j < slot_count (is_table s)" by (rule probe_at_lt [OF sh])
  have pub: "\<exists>m. is_owner s ?j = Some m \<and> control_of s ?j = published (hash m) \<and> pool_get (is_pool s) (entry_of s ?j) = m"
    if "is_published s ?j" using ok j that by (auto simp: sys_ok_def slots_ok_def)
  show ?thesis
  proof (cases "p \<le> unat (table_mask (is_table s))")
    case False
    then show ?thesis using ok by (intro istep_good_same) (simp_all add: walk_call_def)
  next
    case True
    then have p: "p < slot_count (is_table s)" using um j by linarith
    have go: "icall_ok hash s (Walk ins n (Suc p) (and (index + 1) (table_mask (is_table s))) cl)"
      if "\<not> cl \<Longrightarrow> settled hash s n (Suc p)" for cl
      using p n(1) next_index [OF sh n(2)] that by simp
    show ?thesis
    proof (cases "control_of s ?j = EMPTY_CONTROL")
      case empty: True
      then have "published (hash n) \<noteq> control_of s (unat index)" using n(2) by (metis published_not_sentinel(1))
      then have w: "walk_step (is_pool s) (is_table s) (published (hash n)) n index claimed
          = Stop \<lparr>pr_id = 0, pr_index = index, pr_found = False, pr_blocked = claimed, pr_full = False\<rparr>"
        using empty n(2) by (simp add: walk_step_def Let_def)
      have "icall_ok hash s (if \<not> ins then Done ins n None else if claimed then start_walk hash (is_table s) ins n else Claim n p index)"
        using start_walk_ok [OF sh n(1)] n p by auto
      then show ?thesis using True ok w
        by (intro istep_good_same) (auto simp: walk_call_def start_walk_def)
    next
      case ne: False
      show ?thesis
      proof (cases "control_of s ?j = CLAIMED_CONTROL")
        case True
        then have "published (hash n) \<noteq> control_of s (unat index)" using n(2) by (metis published_not_sentinel(2))
        then have w: "walk_step (is_pool s) (is_table s) (published (hash n)) n index claimed
            = Go (and (index + 1) (table_mask (is_table s))) True"
          using True n(2) by (simp add: walk_step_def Let_def)
        then show ?thesis using \<open>p \<le> unat (table_mask (is_table s))\<close> ok go [of True]
          by (intro istep_good_same) (simp_all add: walk_call_def)
      next
        case False
        then have ip: "is_published s ?j" using ne by (simp add: is_published_def)
        then obtain m where m: "is_owner s ?j = Some m" "control_of s ?j = published (hash m)"
          "pool_get (is_pool s) (entry_of s ?j) = m" using pub by blast
        show ?thesis
        proof (cases "m = n")
          case True
          then have w: "walk_step (is_pool s) (is_table s) (published (hash n)) n index claimed
              = Stop \<lparr>pr_id = entry_of s ?j, pr_index = index, pr_found = True, pr_blocked = False, pr_full = False\<rparr>"
            using m n(2) by (simp add: walk_step_def Let_def entry_is_get)
          have "icall_ok hash s (Done ins n (Some (entry_of s ?j)))" using j ip m True by auto
          then show ?thesis using \<open>p \<le> unat (table_mask (is_table s))\<close> ok w
            by (intro istep_good_same) (simp_all add: walk_call_def)
        next
          case False
          then have w: "walk_step (is_pool s) (is_table s) (published (hash n)) n index claimed
              = Go (and (index + 1) (table_mask (is_table s))) claimed"
            using m n(2) by (simp add: walk_step_def Let_def entry_is_get)
          have "is_owner s ?j \<noteq> Some n" using m(1) False by simp
          then have "settled hash s n (Suc p)" if "\<not> claimed" using settled_Suc n(3) [OF that] ip by blast
          then show ?thesis using \<open>p \<le> unat (table_mask (is_table s))\<close> ok go [of claimed] w
            by (intro istep_good_same) (simp_all add: walk_call_def)
        qed
      qed
    qed
  qed
qed

text \<open>Writing one slot that is not published.\<close>

lemma write_slot:
  assumes ok: "sys_ok hash os s" and j: "j < slot_count (is_table s)" and np: "\<not> is_published s j"
    and tab: "it_table it' = (it_table (is_table s))[j := x]" "it_slots it' = it_slots (is_table s)"
    and own: "\<And>k. k \<noteq> j \<Longrightarrow> w k = is_owner s k"
  defines "s' \<equiv> s\<lparr>is_table := it', is_owner := w\<rparr>"
  shows "shape_ok it'" "slot_count it' = slot_count (is_table s)" "evolves s s'"
    "k \<noteq> j \<Longrightarrow> it_table it' ! k = it_table (is_table s) ! k" "it_table it' ! j = x"
    "k \<noteq> j \<Longrightarrow> is_published s' k = is_published s k"
proof -
  have l: "length (it_table (is_table s)) = slot_count (is_table s)" by (simp add: slot_count_def)
  show "shape_ok it'" using ok tab by (simp add: sys_ok_def shape_ok_def)
  show c: "slot_count it' = slot_count (is_table s)" using tab by (simp add: slot_count_def)
  show other: "it_table it' ! k = it_table (is_table s) ! k" if "k \<noteq> j" for k using that tab by simp
  show "it_table it' ! j = x" using j l tab by simp
  show "k \<noteq> j \<Longrightarrow> is_published s' k = is_published s k" using other by (simp add: is_published_def s'_def)
  show "evolves s s'" unfolding evolves_def s'_def using c other own np by simp metis
qed

lemma slots_ok_write:
  assumes ok: "sys_ok hash os s" and c: "slot_count it' = slot_count (is_table s)"
    and other: "\<And>k. k \<noteq> j \<Longrightarrow> it_table it' ! k = it_table (is_table s) ! k" "\<And>k. k \<noteq> j \<Longrightarrow> w k = is_owner s k"
    and at: "sl_control (it_table it' ! j) \<noteq> EMPTY_CONTROL" "w j = Some n"
    and pub: "sl_control (it_table it' ! j) \<noteq> CLAIMED_CONTROL \<Longrightarrow> sl_control (it_table it' ! j) = published (hash n)
      \<and> pool_valid (is_pool s) (sl_entry (it_table it' ! j)) \<and> pool_get (is_pool s) (sl_entry (it_table it' ! j)) = n"
  shows "slots_ok hash (s\<lparr>is_table := it', is_owner := w\<rparr>)"
  unfolding slots_ok_def
proof (intro allI impI)
  fix k
  let ?s = "s\<lparr>is_table := it', is_owner := w\<rparr>"
  assume "k < slot_count (is_table ?s)"
  then have k: "k < slot_count (is_table s)" using c by simp
  show "(control_of ?s k = EMPTY_CONTROL \<longleftrightarrow> is_owner ?s k = None)
     \<and> (is_published ?s k \<longrightarrow> (\<exists>n. is_owner ?s k = Some n \<and> control_of ?s k = published (hash n)
          \<and> pool_valid (is_pool ?s) (entry_of ?s k) \<and> pool_get (is_pool ?s) (entry_of ?s k) = n))"
  proof (cases "k = j")
    case True
    then show ?thesis using at pub by (auto simp: is_published_def)
  next
    case False
    then show ?thesis using ok k other by (simp add: sys_ok_def slots_ok_def is_published_def)
  qed
qed

lemma claim_good:
  assumes ok: "sys_ok hash os s" and c: "icall_ok hash s (Claim n p index)"
    and run: "intern_call hash dbg os (Claim n p index) s = Some (c', s')"
  shows "istep_good hash os (Claim n p index) s (c', s')"
proof (cases "control_of s (unat index) = EMPTY_CONTROL")
  case False
  then have r: "c' = start_walk hash (is_table s) True n" "s' = s" using run by (auto simp: claim_def)
  have "icall_ok hash s c'" unfolding r(1) using ok c by (intro start_walk_ok) (simp_all add: sys_ok_def)
  then show ?thesis using ok r by (auto intro: istep_good_same simp: start_walk_def)
next
  case True
  let ?j = "unat index" and ?x = "(it_table (is_table s) ! unat index)\<lparr>sl_control := CLAIMED_CONTROL\<rparr>"
  let ?it = "(is_table s)\<lparr>it_table := (it_table (is_table s))[?j := ?x]\<rparr>" and ?w = "(is_owner s)(?j \<mapsto> n)"
  have r: "c' = Append n index" "s' = s\<lparr>is_table := ?it, is_owner := ?w\<rparr>"
    using run True by (auto simp: claim_def)
  have sh: "shape_ok (is_table s)" using ok by (simp add: sys_ok_def)
  have n: "name_ok n" "p < slot_count (is_table s)" "?j = probe_at hash (slot_count (is_table s)) n p" "settled hash s n p"
    using c by simp_all
  have j: "?j < slot_count (is_table s)" unfolding n(3) by (rule probe_at_lt [OF sh])
  have np: "\<not> is_published s ?j" using True by (simp add: is_published_def)
  note w = write_slot [OF ok j np, of ?it ?x ?w, simplified, folded r(2)]
  have ev: "evolves s s'" using w(3) by simp
  have sc: "slot_count (is_table s') = slot_count (is_table s)" using w(2) by (simp add: r(2))
  have "slots_ok hash s'" unfolding r(2)
    by (rule slots_ok_write [OF ok _ _ _ _ _, of _ ?j _ n]) (use w(2,4,5) in \<open>simp_all add: slot_count_def\<close>)
  moreover have "chains_ok hash s'"
    unfolding chains_ok_def sc
  proof (intro allI impI, elim conjE)
    fix m q
    assume q: "q < slot_count (is_table s)" and o: "is_owner s' (probe_at hash (slot_count (is_table s)) m q) = Some m"
    show "settled hash s' m q"
    proof (cases "probe_at hash (slot_count (is_table s)) m q = ?j")
      case True
      then have "m = n" using o by (simp add: r(2))
      then have "q = p" using True n(2,3) q probe_at_inj by metis
      then show ?thesis using settled_evolves [OF ev sh n(4)] \<open>m = n\<close> by simp
    next
      case False
      then have "is_owner s (probe_at hash (slot_count (is_table s)) m q) = Some m" using o by (simp add: r(2))
      then show ?thesis using ok q settled_evolves [OF ev sh] by (auto simp: sys_ok_def chains_ok_def)
    qed
  qed
  moreover have "icall_ok hash s' (Append n index)" using j n(1) sc w(5) by (simp add: holds_def r(2))
  moreover have "frame_ok (Claim n p index) s (Append n index) s'"
    using True j w(4) by (auto simp: frame_ok_def r(2))
  ultimately show ?thesis using ok ev w(1) r by (simp add: istep_good_def sys_ok_def)
qed

lemma append_good:
  assumes ok: "sys_ok hash os s" and c: "icall_ok hash s (Append n index)"
    and run: "intern_call hash dbg os (Append n index) s = Some (c', s')"
  shows "istep_good hash os (Append n index) s (c', s')"
proof -
  obtain i sp v where a: "pool_append dbg os n (is_pool s) (is_vm s) = Some (i, sp, v)"
    and r: "c' = Entry n index i" "s' = s\<lparr>is_pool := sp, is_vm := v\<rparr>"
    using run by (auto simp: bind_eq_Some_conv)
  have po: "pool_ok os (is_pool s) (is_vm s)" and nm: "name_ok n" using ok c by (simp_all add: sys_ok_def holds_def)
  note ap = append_spec [OF po a nm]
  have ev: "evolves s s'" using ap(4) by (simp add: evolves_def r(2))
  have "slots_ok hash s'" using ok ap(4) by (fastforce simp: sys_ok_def slots_ok_def is_published_def r(2))
  moreover have "chains_ok hash s'" by (rule chains_evolves [OF ok ev]) (simp add: r(2))
  moreover have "icall_ok hash s' c'" using c ap(2,3) by (simp add: r holds_def)
  ultimately show ?thesis using ok ev ap(1) by (simp add: istep_good_def sys_ok_def frame_ok_def r)
qed

lemma entry_good:
  assumes ok: "sys_ok hash os s" and c: "icall_ok hash s (Entry n index i)"
  shows "istep_good hash os (Entry n index i) s (Publish n index i, s\<lparr>is_table := write_entry index i (is_table s)\<rparr>)"
proof -
  let ?j = "unat index" and ?x = "(it_table (is_table s) ! unat index)\<lparr>sl_entry := i\<rparr>"
  let ?it = "write_entry index i (is_table s)"
  let ?s = "s\<lparr>is_table := ?it\<rparr>"
  have s: "s\<lparr>is_table := ?it, is_owner := is_owner s\<rparr> = ?s" by simp
  have h: "?j < slot_count (is_table s)" "control_of s ?j = CLAIMED_CONTROL" "is_owner s ?j = Some n" "name_ok n"
    using c by (simp_all add: holds_def)
  have np: "\<not> is_published s ?j" using h(2) by (simp add: is_published_def)
  have t: "it_table ?it = (it_table (is_table s))[?j := ?x]" "it_slots ?it = it_slots (is_table s)"
    by (simp_all add: write_entry_def)
  note w = write_slot [OF ok h(1) np t, of "is_owner s", simplified s]
  have "slots_ok hash (s\<lparr>is_table := ?it, is_owner := is_owner s\<rparr>)"
    by (rule slots_ok_write [OF ok _ _ _ _ _, of _ ?j _ n]) (use w h in simp_all)
  then have "slots_ok hash ?s" by (simp only: s)
  moreover have "chains_ok hash ?s" by (rule chains_evolves [OF ok]) (use w(3) in simp_all)
  moreover have "icall_ok hash ?s (Publish n index i)" using c h w(2,5) by (simp add: holds_def)
  moreover have "frame_ok (Entry n index i) s (Publish n index i) ?s" using w(4) by (simp add: frame_ok_def) metis
  ultimately show ?thesis using ok w(1,3) by (simp add: istep_good_def sys_ok_def)
qed

lemma publish_good:
  assumes ok: "sys_ok hash os s" and c: "icall_ok hash s (Publish n index i)"
  shows "istep_good hash os (Publish n index i) s
    (Done True n (Some i), s\<lparr>is_table := publish index (published (hash n)) (is_table s)\<rparr>)"
proof -
  let ?j = "unat index" and ?x = "(it_table (is_table s) ! unat index)\<lparr>sl_control := published (hash n)\<rparr>"
  let ?it = "publish index (published (hash n)) (is_table s)"
  let ?s = "s\<lparr>is_table := ?it\<rparr>"
  have s: "s\<lparr>is_table := ?it, is_owner := is_owner s\<rparr> = ?s" by simp
  have h: "?j < slot_count (is_table s)" "control_of s ?j = CLAIMED_CONTROL" "is_owner s ?j = Some n"
    and e: "entry_of s ?j = i" "pool_valid (is_pool s) i" "pool_get (is_pool s) i = n"
    using c by (simp_all add: holds_def)
  have np: "\<not> is_published s ?j" using h(2) by (simp add: is_published_def)
  have t: "it_table ?it = (it_table (is_table s))[?j := ?x]" "it_slots ?it = it_slots (is_table s)"
    by (simp_all add: publish_def)
  note w = write_slot [OF ok h(1) np t, of "is_owner s", simplified s]
  have "slots_ok hash (s\<lparr>is_table := ?it, is_owner := is_owner s\<rparr>)"
    by (rule slots_ok_write [OF ok _ _ _ _ _, of _ ?j _ n]) (use w h e in simp_all)
  then have "slots_ok hash ?s" by (simp only: s)
  moreover have "chains_ok hash ?s" by (rule chains_evolves [OF ok]) (use w(3) in simp_all)
  moreover have "icall_ok hash ?s (Done True n (Some i))"
    using h e(1) w(2,5) by (auto simp: is_published_def intro!: exI [of _ ?j])
  moreover have "frame_ok (Publish n index i) s (Done True n (Some i)) ?s" using w(4) by (simp add: frame_ok_def) metis
  ultimately show ?thesis using ok w(1,3) by (simp add: istep_good_def sys_ok_def)
qed

lemma intern_call_good:
  assumes ok: "sys_ok hash os s" and c: "icall_ok hash s c" and run: "intern_call hash dbg os c s = Some (c', s')"
  shows "istep_good hash os c s (c', s')"
proof (cases c)
  case (Walk ins n p index claimed)
  then show ?thesis using run walk_call_good [OF ok] c by auto
next
  case (Claim n p index)
  then show ?thesis using run claim_good [OF ok] c by blast
next
  case (Append n index)
  then show ?thesis using run append_good [OF ok] c by blast
next
  case (Entry n index i)
  then show ?thesis using run entry_good [OF ok] c by auto
next
  case (Publish n index i)
  then show ?thesis using run publish_good [OF ok] c by auto
next
  case (Done ins n r)
  then show ?thesis using run c ok by (auto intro: istep_good_same)
qed

lemma held_holds: "icall_ok hash s c \<Longrightarrow> held_index c = Some x \<Longrightarrow>
    unat x < slot_count (is_table s) \<and> control_of s (unat x) = CLAIMED_CONTROL"
  by (cases c) (auto simp: holds_def)

lemma icall_ok_calls: "icall_ok hash (s\<lparr>is_calls := cs\<rparr>) c = icall_ok hash s c"
  by (cases "(hash, s, c)" rule: icall_ok.cases)
     (auto simp: settled_def is_published_def holds_def)

lemma sys_ok_calls: "sys_ok hash os (s\<lparr>is_calls := cs\<rparr>) = sys_ok hash os s"
  by (simp add: sys_ok_def slots_ok_def chains_ok_def settled_def is_published_def)

lemma intern_inv_alt:
  "intern_inv hash os s \<longleftrightarrow> sys_ok hash os s \<and> (\<forall>c \<in> set (is_calls s). icall_ok hash s c) \<and> holders_apart (is_calls s)"
  by (auto simp: intern_inv_def sys_ok_def)

lemma holders_apart_append: "holders_apart cs \<Longrightarrow> held_index c = None \<Longrightarrow> holders_apart (cs @ [c])"
  by (auto simp: holders_apart_def nth_append split: if_splits)

lemma holders_apart_update:
  assumes ap: "holders_apart cs" and i: "i < length cs"
    and new: "\<And>x j. held_index c = Some x \<Longrightarrow> j < length cs \<Longrightarrow> j \<noteq> i \<Longrightarrow> held_index (cs ! j) \<noteq> Some x"
  shows "holders_apart (cs[i := c])"
  unfolding holders_apart_def
proof (intro allI impI notI, elim conjE)
  fix a b x
  assume ab: "a < length (cs[i := c])" "b < length (cs[i := c])" "a \<noteq> b"
    and h: "held_index (cs[i := c] ! a) = Some x" "held_index (cs[i := c] ! b) = Some x"
  consider "a = i" | "b = i" | "a \<noteq> i" "b \<noteq> i" by blast
  then show False
  proof cases
    case 1
    then show ?thesis using ab h new [of x b] i by simp
  next
    case 2
    then show ?thesis using ab h new [of x a] i by simp
  next
    case 3
    then show ?thesis using ab h ap unfolding holders_apart_def by (metis length_list_update nth_list_update_neq)
  qed
qed

lemma intern_step_inv:
  assumes "intern_step hash dbg os s s'" "intern_inv hash os s"
  shows "intern_inv hash os s'"
  using assms
proof (induction rule: intern_step.induct)
  case (begin_call n s ins)
  have "icall_ok hash s (start_walk hash (is_table s) ins n)"
    using begin_call by (intro start_walk_ok) (simp_all add: intern_inv_def)
  then show ?case using begin_call.prems
    by (auto simp: intern_inv_alt icall_ok_calls sys_ok_calls start_walk_def intro!: holders_apart_append)
next
  case (run_call i s c t)
  let ?cs = "is_calls s"
  have inv: "sys_ok hash os s" "holders_apart ?cs" and okj: "\<And>j. j < length ?cs \<Longrightarrow> icall_ok hash s (?cs ! j)"
    using run_call.prems by (auto simp: intern_inv_alt)
  have g: "istep_good hash os (?cs ! i) s (c, t)"
    by (rule intern_call_good [OF inv(1) okj run_call.hyps(2)]) (rule run_call.hyps)
  then have t: "sys_ok hash os t" "evolves s t" "icall_ok hash t c" "frame_ok (?cs ! i) s c t" "is_calls t = ?cs"
    by (simp_all add: istep_good_def sys_ok_def)
  have sh: "shape_ok (is_table s)" using inv(1) by (simp add: sys_ok_def)
  have untouched: "it_table (is_table t) ! unat x = it_table (is_table s) ! unat x \<and> is_owner t (unat x) = is_owner s (unat x)"
    if j: "j < length ?cs" "j \<noteq> i" "held_index (?cs ! j) = Some x" for j x
  proof -
    have h: "unat x < slot_count (is_table s)" "control_of s (unat x) = CLAIMED_CONTROL"
      using held_holds [OF okj [OF j(1)] j(3)] by auto
    have "held_index (?cs ! i) \<noteq> Some x" using inv(2) j run_call.hyps(1) unfolding holders_apart_def by metis
    then have "map_option unat (held_index (?cs ! i)) \<noteq> Some (unat x)" by (auto simp: word_unat_eq_iff)
    then show ?thesis using t(4) h by (auto simp: frame_ok_def)
  qed
  have others: "icall_ok hash t (?cs ! j)" if "j < length ?cs" "j \<noteq> i" for j
    by (rule icall_ok_evolves [OF t(2) sh okj [OF that(1)]]) (rule untouched [OF that])
  have "\<forall>d \<in> set (?cs[i := c]). icall_ok hash t d"
    using others t(3) run_call.hyps(1) by (auto simp: in_set_conv_nth nth_list_update)
  moreover have "holders_apart (?cs[i := c])"
  proof (rule holders_apart_update [OF inv(2) run_call.hyps(1)])
    fix x j
    assume h: "held_index c = Some x" and j: "j < length ?cs" "j \<noteq> i"
    show "held_index (?cs ! j) \<noteq> Some x"
    proof
      assume hj: "held_index (?cs ! j) = Some x"
      have "control_of s (unat x) = CLAIMED_CONTROL" using held_holds [OF okj [OF j(1)] hj] by simp
      moreover have "held_index (?cs ! i) = Some x \<or> control_of s (unat x) = EMPTY_CONTROL"
        using t(4) h by (auto simp: frame_ok_def)
      ultimately have "held_index (?cs ! i) = Some x" by simp
      then show False using hj inv(2) j run_call.hyps(1) unfolding holders_apart_def by metis
    qed
  qed
  ultimately show ?case using t(1) by (simp add: intern_inv_alt icall_ok_calls sys_ok_calls)
qed

lemma intern_reachable:
  "(intern_step hash dbg os)\<^sup>*\<^sup>* s s' \<Longrightarrow> intern_inv hash os s \<Longrightarrow> intern_inv hash os s'"
  by (induction rule: rtranclp_induct) (blast intro: intern_step_inv)+

lemma owner_position:
  assumes "j < m"
  shows "\<exists>q < m. j = probe_at hash m n q"
proof -
  let ?h = "unat (hash n)"
  let ?p = "(j + (m - ?h mod m)) mod m"
  have pos: "0 < m" using assms by simp
  have "(?h + ?p) mod m = (?h mod m + j + (m - ?h mod m)) mod m" by (simp add: mod_simps add.assoc)
  also have "\<dots> = (j + m) mod m" using mod_less_divisor [OF pos, of ?h] by (simp add: add.commute add.left_commute)
  finally have "j = probe_at hash m n ?p" using assms by (simp add: probe_at_def)
  then show ?thesis using pos mod_less_divisor by blast
qed

text \<open>A name owns at most one slot.\<close>

lemma owner_unique:
  assumes ok: "sys_ok hash os s" and j: "j < slot_count (is_table s)" "k < slot_count (is_table s)"
    and o: "is_owner s j = Some n" "is_owner s k = Some n"
  shows "j = k"
proof -
  let ?m = "slot_count (is_table s)"
  obtain p q where pq: "p < ?m" "j = probe_at hash ?m n p" "q < ?m" "k = probe_at hash ?m n q"
    using owner_position [OF j(1)] owner_position [OF j(2)] by blast
  have "settled hash s n p" "settled hash s n q" using ok pq o by (auto simp: sys_ok_def chains_ok_def)
  then have "\<not> p < q" "\<not> q < p" using pq o by (auto simp: settled_def)
  then show ?thesis using pq by (simp add: not_less antisym)
qed

lemma lookup_owned:
  assumes ok: "sys_ok hash os s" and q: "q < slot_count (is_table s)"
    and o: "is_owner s (probe_at hash (slot_count (is_table s)) n q) = Some n"
    and pub: "is_published s (probe_at hash (slot_count (is_table s)) n q)"
    and p: "p \<le> q" "unat index = probe_at hash (slot_count (is_table s)) n p" "q < p + steps"
  shows "walk_from steps (is_pool s) (is_table s) (published (hash n)) n index claimed
    = \<lparr>pr_id = entry_of s (probe_at hash (slot_count (is_table s)) n q),
       pr_index = pr_index (walk_from steps (is_pool s) (is_table s) (published (hash n)) n index claimed),
       pr_found = True, pr_blocked = False, pr_full = False\<rparr>"
  using p
proof (induction steps arbitrary: p index claimed)
  case (Suc steps)
  let ?m = "slot_count (is_table s)" and ?j = "probe_at hash (slot_count (is_table s)) n p"
  have sh: "shape_ok (is_table s)" using ok by (simp add: sys_ok_def)
  have j: "?j < ?m" by (rule probe_at_lt [OF sh])
  have st: "settled hash s n q" using ok q o by (auto simp: sys_ok_def chains_ok_def)
  have pb: "is_published s ?j" using st pub Suc.prems(1) by (cases "p = q") (auto simp: settled_def)
  obtain m where m: "is_owner s ?j = Some m" "control_of s ?j = published (hash m)" "pool_get (is_pool s) (entry_of s ?j) = m"
    using ok j pb by (auto simp: sys_ok_def slots_ok_def)
  show ?case
  proof (cases "p = q")
    case True
    then have "m = n" using m(1) o by simp
    then show ?thesis using True m Suc.prems(2) by (simp add: walk_step_def Let_def entry_is_get)
  next
    case False
    then have "p < q" using Suc.prems(1) by simp
    then have "m \<noteq> n" using st m(1) by (auto simp: settled_def)
    then have w: "walk_step (is_pool s) (is_table s) (published (hash n)) n index claimed
        = Go (and (index + 1) (table_mask (is_table s))) claimed"
      using m pb Suc.prems(2) by (simp add: walk_step_def Let_def entry_is_get)
    show ?thesis
      using Suc.IH [OF Suc_leI [OF \<open>p < q\<close>] next_index [OF sh Suc.prems(2)], of claimed] Suc.prems(3) by (simp add: w)
  qed
qed simp

lemma find_owned:
  assumes ok: "sys_ok hash os s" and j: "j < slot_count (is_table s)" "is_published s j" "is_owner s j = Some n"
  shows "itable_find hash n (is_table s) (is_pool s) = Some (entry_of s j)"
proof -
  obtain q where q: "q < slot_count (is_table s)" "j = probe_at hash (slot_count (is_table s)) n q"
    using owner_position [OF j(1)] by blast
  have sh: "shape_ok (is_table s)" using ok by (simp add: sys_ok_def)
  obtain k where k: "k \<le> 30" "slot_count (is_table s) = 2 ^ k" "table_mask (is_table s) = mask k"
    by (rule table_mask_eq [OF sh])
  have steps: "Suc (unat (table_mask (is_table s))) = slot_count (is_table s)" using k by (simp add: unat_mask_lt)
  note l = lookup_owned [OF ok q(1) _ _ le0 start_index [OF sh], of n "slot_count (is_table s)" False]
  have "pr_found (lookup (is_pool s) (is_table s) (hash n) (published (hash n)) n)
      \<and> pr_id (lookup (is_pool s) (is_table s) (hash n) (published (hash n)) n) = entry_of s j"
    unfolding lookup_def steps using l j q by (metis (no_types, lifting) add_0 probe.select_convs(1,3))
  then show ?thesis by (simp add: itable_find_def Let_def)
qed

definition fresh_system :: "itable \<Rightarrow> pool \<Rightarrow> vm \<Rightarrow> isystem" where
  "fresh_system it sp v = \<lparr>is_table = it, is_pool = sp, is_vm = v, is_owner = (\<lambda>_. None), is_calls = []\<rparr>"

lemma fresh_inv:
  assumes "shape_ok it" "list_all (\<lambda>x. sl_control x = EMPTY_CONTROL) (it_table it)" "pool_ok os sp v"
  shows "intern_inv hash os (fresh_system it sp v)"
  using assms
  by (simp add: intern_inv_def fresh_system_def slots_ok_def chains_ok_def holders_apart_def is_published_def
      slot_count_def list_all_length)

section \<open>Reserving a table\<close>

lemma slots_of:
  assumes "next_power_of_two dbg (w :: usize) = Some r" "unat w \<le> 2 ^ 30"
  shows "(\<exists>k \<le> 30. unat r = 2 ^ k) \<and> unat w \<le> unat r \<and> (unat r = 1 \<or> unat r < 2 * unat w)"
proof (cases "1 < w")
  case False
  then have "r = 1" "unat w \<le> 1" using assms(1) by (simp_all add: next_power_of_two_def word_le_nat_alt word_less_nat_alt not_less)
  then show ?thesis by (auto intro!: exI [of _ 0])
next
  case True
  obtain m where m: "unat w \<le> 2 ^ m" "2 ^ m \<le> 2 * (unat w - 1)"
    "next_power_of_two dbg w = do { fpag_dcheck dbg (is_power_of_two (2 ^ m :: usize)); Some (2 ^ m) }"
    by (rule next_power_of_two_cases [OF True]) simp_all
  have "0 < unat w" using True by (simp add: word_less_nat_alt)
  then have "(2 :: nat) ^ m < 2 ^ 31" using m(2) assms(2) by simp
  then have k: "m \<le> 30" using power_less_imp_less_exp [of "2 :: nat" m 31] by simp
  have "r = 2 ^ m" using m(3) assms(1) by (auto simp: fpag_dcheck_def fpag_check_def split: if_splits)
  then have "unat r = 2 ^ m" using k by (simp add: unat_power_lt)
  then show ?thesis using k m(1,2) \<open>0 < unat w\<close> by auto
qed

lemma reserve_shape:
  assumes "itable_reserve dbg os names it v = Some (it', v')"
  defines "wanted \<equiv> unat (if names = 0 then DEFAULT_NAMES else names)"
  shows "shape_ok it' \<and> list_all (\<lambda>x. sl_control x = EMPTY_CONTROL) (it_table it')
    \<and> wanted div 3 * 4 \<le> unat (it_slots it') \<and> (unat (it_slots it') = 1 \<or> unat (it_slots it') < 2 * (wanted div 3 * 4))"
proof -
  let ?w = "if names = 0 then DEFAULT_NAMES else names"
  let ?n = "(?w div LOAD_DENOMINATOR) * LOAD_NUMERATOR"
  obtain slots where le: "?w \<le> MAX_NAMES" and s: "next_power_of_two dbg ?n = Some slots"
    and it: "it_slots it' = slots" "it_table it' = replicate (unat slots) empty_slot"
    using assms(1) unfolding itable_reserve_def Let_def by (auto simp: bind_eq_Some_conv fpag_check_eq_Some)
  have "unat MAX_NAMES = 805306368"
    by (simp add: MAX_NAMES_def MAX_SLOTS_def LOAD_NUMERATOR_def LOAD_DENOMINATOR_def push_bit_eq_mult)
  then have "wanted \<le> 805306368" using le by (simp add: wanted_def word_le_nat_alt)
  then have b: "wanted div 3 \<le> 268435456" by simp
  have d: "unat (?w div LOAD_DENOMINATOR) = wanted div 3" by (simp add: unat_div_distrib LOAD_DENOMINATOR_def wanted_def)
  have n: "unat ?n = wanted div 3 * 4"
    using b unfolding LOAD_NUMERATOR_def by (subst unat_mult_lem [THEN iffD1]) (simp_all add: d)
  have "unat ?n \<le> 2 ^ 30" using n b by simp
  from slots_of [OF s this] show ?thesis
    unfolding it shape_ok_def n by (auto simp: it empty_slot_def EMPTY_CONTROL_def list_all_length)
qed

lemma reserve_keeps_pool:
  assumes "itable_reserve dbg os names empty_itable v = Some (it, v')" "pool_ok os sp v"
  shows "pool_ok os sp v'"
proof -
  have "set (vm_writable v) \<subseteq> set (vm_writable v')"
    using assms(1) by (auto simp: itable_reserve_def itable_release_def empty_itable_def allocate_pages_def
        reserve_pages_def commit_pages_def bind_eq_Some_conv fpag_check_eq_Some split: if_splits option.splits)
  then have "writable v a \<Longrightarrow> writable v' a" for a by (auto simp: writable_def list_ex_iff)
  then show ?thesis using assms(2) by (auto simp: pool_ok_def ca_inv_def writable_range_def)
qed

text \<open>The constructor of an interner establishes the invariant its calls keep.\<close>

lemma StringInterner_ready:
  assumes os: "os_ok os" "unat (os_page_size os) dvd 2 ^ 18" "os_mmap os pool_bytes \<noteq> None" "pool_bytes \<noteq> 0"
    and run: "StringInterner dbg os names pool_bytes v = Some (si, v')"
  shows "intern_inv hash os (fresh_system (si_table si) (si_pool si) v')"
proof -
  obtain v1 where p: "StringPool dbg os pool_bytes v = Some (si_pool si, v1)"
    and t: "itable_reserve dbg os names empty_itable v1 = Some (si_table si, v')"
    using run os(4) by (auto simp: StringInterner_def bind_eq_Some_conv)
  have "pool_ok os (si_pool si) v'" using reserve_keeps_pool [OF t] StringPool_ok [OF os(1-3) p] by blast
  then show ?thesis using reserve_shape [OF t] by (intro fresh_inv) simp_all
qed

section \<open>One call at a time\<close>

text \<open>
  With no other call in flight an interner is a store of names: what it hands out reads back as the
  name, and no later call changes what an id reads as.
\<close>

definition entries_ok :: "pool \<Rightarrow> itable \<Rightarrow> bool" where
  "entries_ok sp it \<longleftrightarrow> shape_ok it
     \<and> (\<forall>s \<in> set (it_table it). sl_control s \<noteq> EMPTY_CONTROL \<and> sl_control s \<noteq> CLAIMED_CONTROL \<longrightarrow> pool_valid sp (sl_entry s))"

definition interner_ok :: "os \<Rightarrow> interner \<times> vm \<Rightarrow> bool" where
  "interner_ok os s \<longleftrightarrow> pool_ok os (si_pool (fst s)) (snd s) \<and> entries_ok (si_pool (fst s)) (si_table (fst s))"

lemma walk_from_spec:
  assumes "entries_ok sp it" "unat index = probe_at hash (slot_count it) n p"
    and "r = walk_from steps sp it (published (hash n)) n index c"
  shows "(pr_found r \<longrightarrow> pool_valid sp (pr_id r) \<and> pool_get sp (pr_id r) = n)
    \<and> (\<not> pr_full r \<longrightarrow> unat (pr_index r) < slot_count it)"
  using assms(2,3)
proof (induction steps arbitrary: p index c)
  case (Suc steps)
  have sh: "shape_ok it" using assms(1) by (simp add: entries_ok_def)
  have i: "unat index < slot_count it" using probe_at_lt [OF sh] Suc.prems(1) by metis
  then have m: "it_table it ! unat index \<in> set (it_table it)" by (simp add: slot_count_def)
  show ?case
  proof (cases "walk_step sp it (published (hash n)) n index c")
    case (Stop x)
    then show ?thesis using i m assms(1) Suc.prems(2)
      by (auto simp: walk_step_def Let_def entries_ok_def entry_is_get split: if_splits)
  next
    case (Go i' c')
    then have "i' = and (index + 1) (table_mask it)" by (auto simp: walk_step_def Let_def split: if_splits)
    then show ?thesis using Suc.IH [OF next_index [OF sh Suc.prems(1)]] Suc.prems(2) Go by simp
  qed
qed simp

lemma lookup_spec:
  assumes "entries_ok sp it" "r = lookup sp it (hash n) (published (hash n)) n"
  shows "pr_found r \<Longrightarrow> pool_valid sp (pr_id r) \<and> pool_get sp (pr_id r) = n"
    "\<not> pr_full r \<Longrightarrow> unat (pr_index r) < slot_count it"
  using walk_from_spec [OF assms(1) start_index [of it hash n] assms(2) [unfolded lookup_def]] assms(1)
  by (simp_all add: entries_ok_def)

lemma entries_ok_update:
  assumes "entries_ok sp it" "it_slots it' = it_slots it" "it_table it' = (it_table it)[k := s]"
    and "\<And>i. pool_valid sp i \<Longrightarrow> pool_valid sp' i"
    and "sl_control s \<noteq> EMPTY_CONTROL \<Longrightarrow> sl_control s \<noteq> CLAIMED_CONTROL \<Longrightarrow> pool_valid sp' (sl_entry s)"
  shows "entries_ok sp' it'"
  using assms set_update_subset_insert [of "it_table it" k s] by (auto simp: entries_ok_def shape_ok_def)

lemma try_intern_store:
  assumes "pool_ok os sp v" "entries_ok sp it" "name_ok n"
    and "try_intern rounds hash dbg os n it sp v = Some (Some i, it', sp', v')"
  shows "pool_ok os sp' v' \<and> entries_ok sp' it' \<and> pool_valid sp' i \<and> pool_get sp' i = n
    \<and> (\<forall>j. pool_valid sp j \<longrightarrow> pool_valid sp' j \<and> pool_get sp' j = pool_get sp j)"
  using assms(2,4)
proof (induction rounds arbitrary: it)
  case (Suc rounds)
  let ?p = "lookup sp it (hash n) (published (hash n)) n"
  note l = lookup_spec [OF Suc.prems(1) refl, of hash n]
  consider (found) "pr_found ?p"
    | (claimed) "\<not> pr_found ?p" "\<not> pr_full ?p" "\<not> pr_blocked ?p" "fst (claim (pr_index ?p) it)"
    | (retry) "try_intern rounds hash dbg os n it sp v = Some (Some i, it', sp', v')"
    using Suc.prems(2) by (auto simp: Let_def claim_def split: if_splits)
  then show ?case
  proof cases
    case found
    then show ?thesis using Suc.prems l(1) assms(1) by (auto simp: Let_def)
  next
    case claimed
    let ?k = "pr_index ?p"
    obtain it1 where c: "claim ?k it = (True, it1)" using claimed(4) by (cases "claim ?k it") auto
    obtain a: "pool_append dbg os n sp v = Some (i, sp', v')"
      and it': "it' = publish ?k (published (hash n)) (write_entry ?k i it1)"
      using Suc.prems(2) claimed c by (auto simp: Let_def bind_eq_Some_conv)
    note sp = append_spec [OF assms(1) a assms(3)]
    have k: "unat ?k < length (it_table it)" using l(2) claimed(2) by (simp add: slot_count_def)
    have "it_slots it' = it_slots it
      \<and> it_table it' = (it_table it)[unat ?k := (it_table it ! unat ?k)\<lparr>sl_entry := i, sl_control := published (hash n)\<rparr>]"
      using c k by (auto simp: it' publish_def write_entry_def claim_def split: if_splits)
    then have "entries_ok sp' it'"
      by (intro entries_ok_update [OF Suc.prems(1)]) (use sp in auto)
    then show ?thesis using sp by blast
  next
    case retry
    then show ?thesis using Suc.IH Suc.prems(1) by blast
  qed
qed simp

definition interner_store ::
  "nat \<Rightarrow> (name \<Rightarrow> u64) \<Rightarrow> bool \<Rightarrow> os \<Rightarrow> name \<Rightarrow> interner \<times> vm \<Rightarrow> (pool_id \<times> interner \<times> vm) option" where
  "interner_store rounds hash dbg os n s = interner_intern rounds hash dbg os n (fst s) (snd s)"

lemma interner_store_spec:
  assumes "interner_ok os s" "name_ok n" "interner_store rounds hash dbg os n s = Some (i, s')"
  shows "interner_ok os s' \<and> pool_valid (si_pool (fst s')) i \<and> interner_get (fst s') i = n
    \<and> (\<forall>j. pool_valid (si_pool (fst s)) j \<longrightarrow> pool_valid (si_pool (fst s')) j \<and> interner_get (fst s') j = interner_get (fst s) j)"
proof -
  obtain it sp v where "try_intern rounds hash dbg os n (si_table (fst s)) (si_pool (fst s)) (snd s) = Some (Some i, it, sp, v)"
    "s' = (\<lparr>si_pool = sp, si_table = it\<rparr>, v)"
    using assms(3) by (auto simp: interner_store_def interner_intern_def intern_def bind_eq_Some_conv split: option.splits)
  with try_intern_store [OF _ _ assms(2) this(1)] assms(1) show ?thesis
    by (auto simp: interner_ok_def interner_get_def)
qed

interpretation si: name_store "interner_store rounds hash dbg os" "\<lambda>s. interner_get (fst s)" "interner_ok os"
    "\<lambda>s. pool_valid (si_pool (fst s))" name_ok
  for rounds hash dbg os
  by unfold_locales (use interner_store_spec in blast)+

section \<open>A table with no call in flight\<close>

definition quiet :: "itable \<Rightarrow> bool" where
  "quiet it \<longleftrightarrow> list_all (\<lambda>x. sl_control x \<noteq> CLAIMED_CONTROL) (it_table it)"

lemma quiet_walk:
  assumes ok: "sys_ok hash os s" and quiet: "quiet (is_table s)"
    and p: "unat index = probe_at hash (slot_count (is_table s)) n p"
  shows "let r = walk_from steps (is_pool s) (is_table s) (published (hash n)) n index False in
    \<not> pr_blocked r
    \<and> (pr_full r \<longrightarrow> (\<forall>q. p \<le> q \<and> q < p + steps \<longrightarrow>
         control_of s (probe_at hash (slot_count (is_table s)) n q) \<noteq> EMPTY_CONTROL))
    \<and> (\<not> pr_found r \<and> \<not> pr_full r \<longrightarrow>
         unat (pr_index r) < slot_count (is_table s) \<and> control_of s (unat (pr_index r)) = EMPTY_CONTROL)
    \<and> (pr_found r \<longrightarrow> \<not> pr_full r)"
  using p unfolding Let_def
proof (induction steps arbitrary: p index)
  case (Suc steps)
  let ?m = "slot_count (is_table s)" and ?j = "probe_at hash (slot_count (is_table s)) n p"
  have sh: "shape_ok (is_table s)" using ok by (simp add: sys_ok_def)
  have j: "?j < ?m" by (rule probe_at_lt [OF sh])
  have c: "control_of s ?j \<noteq> CLAIMED_CONTROL" using quiet j by (simp add: quiet_def list_all_length slot_count_def)
  have skip: "(\<forall>q. Suc p \<le> q \<and> q < Suc p + steps \<longrightarrow> P q) \<Longrightarrow> P p \<Longrightarrow> p \<le> q \<and> q < p + Suc steps \<Longrightarrow> P q" for P :: "nat \<Rightarrow> bool" and q
    by (cases "q = p") auto
  note IH = Suc.IH [OF next_index [OF sh Suc.prems]]
  show ?case
  proof (cases "walk_step (is_pool s) (is_table s) (published (hash n)) n index False")
    case (Stop x)
    then show ?thesis using c j Suc.prems by (auto simp: walk_step_def Let_def split: if_splits)
  next
    case (Go i' c')
    then have g: "i' = and (index + 1) (table_mask (is_table s))" "\<not> c'" "control_of s ?j \<noteq> EMPTY_CONTROL"
      using c Suc.prems by (auto simp: walk_step_def Let_def split: if_splits)
    show ?thesis
      using IH g(2,3) skip [where P = "\<lambda>q. control_of s (probe_at hash ?m n q) \<noteq> EMPTY_CONTROL"]
      by (simp add: Go g(1))
  qed
qed auto

definition has_room :: "itable \<Rightarrow> bool" where
  "has_room it \<longleftrightarrow> list_ex (\<lambda>x. sl_control x = EMPTY_CONTROL) (it_table it)"

lemma quiet_lookup:
  fixes n :: name
  assumes ok: "sys_ok hash os s" and quiet: "quiet (is_table s)"
  defines "r \<equiv> lookup (is_pool s) (is_table s) (hash n) (published (hash n)) n"
  shows "\<not> pr_blocked r" "pr_found r \<Longrightarrow> \<not> pr_full r"
    "\<not> pr_found r \<Longrightarrow> pr_full r \<longleftrightarrow> \<not> has_room (is_table s)"
    "\<not> pr_found r \<Longrightarrow> \<not> pr_full r \<Longrightarrow>
      unat (pr_index r) < slot_count (is_table s) \<and> control_of s (unat (pr_index r)) = EMPTY_CONTROL"
proof -
  have sh: "shape_ok (is_table s)" using ok by (simp add: sys_ok_def)
  note w = quiet_walk [OF ok quiet start_index [OF sh, where hash = hash and n = n],
      where steps = "Suc (unat (table_mask (is_table s)))", unfolded Let_def, folded lookup_def, folded r_def]
  show "\<not> pr_blocked r" "pr_found r \<Longrightarrow> \<not> pr_full r" using w by blast+
  show i: "unat (pr_index r) < slot_count (is_table s) \<and> control_of s (unat (pr_index r)) = EMPTY_CONTROL"
    if "\<not> pr_found r" "\<not> pr_full r" using w that by blast
  obtain k where k: "k \<le> 30" "slot_count (is_table s) = 2 ^ k" "table_mask (is_table s) = mask k"
    by (rule table_mask_eq [OF sh])
  have steps: "Suc (unat (table_mask (is_table s))) = slot_count (is_table s)" using k by (simp add: unat_mask_lt)
  have full: "control_of s j \<noteq> EMPTY_CONTROL" if "pr_full r" "j < slot_count (is_table s)" for j
    using w that owner_position [OF that(2), of hash n] unfolding steps by auto
  show "pr_full r \<longleftrightarrow> \<not> has_room (is_table s)" if "\<not> pr_found r"
    using full i [OF that] by (auto simp: has_room_def list_ex_length slot_count_def)
qed

section \<open>Properties\<close>

text \<open>
  C8. Whatever the interleaving of any number of interning and finding calls on one table: two calls
  that returned an id returned the same id exactly when they were given the same name, the id reads
  back as that name, and a lookup finds it from then on.
\<close>

theorem intern_concurrent_unique:
  assumes "shape_ok it" "list_all (\<lambda>x. sl_control x = EMPTY_CONTROL) (it_table it)" "pool_ok os sp v"
    and reach: "(intern_step hash dbg os)\<^sup>*\<^sup>* (fresh_system it sp v) s"
    and calls: "Done a n (Some i) \<in> set (is_calls s)" "Done b m (Some j) \<in> set (is_calls s)"
  shows "(i = j \<longleftrightarrow> n = m) \<and> pool_get (is_pool s) i = n
    \<and> itable_find hash n (is_table s) (is_pool s) = Some i"
proof -
  have inv: "intern_inv hash os s" by (rule intern_reachable [OF reach fresh_inv [OF assms(1-3)]])
  then have ok: "sys_ok hash os s" by (simp add: intern_inv_def sys_ok_def)
  have slot: "\<exists>k < slot_count (is_table s). is_published s k \<and> is_owner s k = Some n \<and> entry_of s k = i
      \<and> pool_get (is_pool s) i = n" if c: "Done a n (Some i) \<in> set (is_calls s)" for a n i
  proof -
    obtain k where k: "k < slot_count (is_table s)" "is_published s k" "is_owner s k = Some n" "entry_of s k = i"
      using inv c by (auto simp: intern_inv_def dest!: bspec)
    then have "pool_get (is_pool s) i = n" using ok by (auto simp: sys_ok_def slots_ok_def)
    then show ?thesis using k by auto
  qed
  obtain k where k: "k < slot_count (is_table s)" "is_published s k" "is_owner s k = Some n" "entry_of s k = i"
    "pool_get (is_pool s) i = n" using slot [OF calls(1)] by auto
  obtain l where l: "l < slot_count (is_table s)" "is_owner s l = Some m" "entry_of s l = j"
    "pool_get (is_pool s) j = m" using slot [OF calls(2)] by auto
  have "n = m \<Longrightarrow> k = l" using owner_unique [OF ok k(1) l(1) k(3)] l(2) by simp
  then have "i = j \<longleftrightarrow> n = m" using k(4,5) l(3,4) by auto
  then show ?thesis using k(5) find_owned [OF ok k(1-3)] k(4) by simp
qed

text \<open>
  C27. The word-at-a-time comparison of \<^verbatim>\<open>same_name\<close>, with its overlapping last word and its byte tail
  below eight bytes, is equality of the two names.
\<close>

theorem same_name_is_equality:
  assumes "length lhs = n" "length rhs = n"
  shows "same_name lhs rhs n \<longleftrightarrow> lhs = rhs"
  by (rule same_name_eq [OF assms])

theorem same_name_is_equality_witness:
  "same_name [1, 2, 3, 4, 5, 6, 7, 8, 9] [1, 2, 3, 4, 5, 6, 7, 8, 9] 9
   \<and> \<not> same_name [1, 2, 3, 4, 5, 6, 7, 8, 9] [1, 2, 3, 4, 5, 6, 7, 8, 0] 9
   \<and> \<not> same_name [1, 2, 3] [1, 0, 3] 3"
  using same_name_is_equality [of "[1, 2, 3, 4, 5, 6, 7, 8, 9]" 9 "[1, 2, 3, 4, 5, 6, 7, 8, 9]"]
    same_name_is_equality [of "[1, 2, 3, 4, 5, 6, 7, 8, 9]" 9 "[1, 2, 3, 4, 5, 6, 7, 8, 0]"]
    same_name_is_equality [of "[1, 2, 3]" 3 "[1, 0, 3]"] by simp

text \<open>
  C23. With no claim of another writer in the table, \<^verbatim>\<open>try_intern\<close> ends in its first round: it returns
  the id of a name that is there, returns nothing exactly when every slot is taken, and otherwise
  appends the name and publishes it in a slot that was free.
\<close>

theorem try_intern_quiescent:
  assumes "sys_ok hash os s" "quiet (is_table s)"
  shows "\<exists>k. try_intern (Suc rounds) hash dbg os n (is_table s) (is_pool s) (is_vm s) =
    (case itable_find hash n (is_table s) (is_pool s) of
       Some i \<Rightarrow> Some (Some i, is_table s, is_pool s, is_vm s)
     | None \<Rightarrow>
         if \<not> has_room (is_table s) then Some (None, is_table s, is_pool s, is_vm s)
         else do {
           (i, sp, v) \<leftarrow> pool_append dbg os n (is_pool s) (is_vm s);
           Some (Some i, publish k (published (hash n)) (write_entry k i (snd (claim k (is_table s)))), sp, v)
         })
    \<and> (itable_find hash n (is_table s) (is_pool s) = None \<and> has_room (is_table s) \<longrightarrow>
         unat k < slot_count (is_table s) \<and> control_of s (unat k) = EMPTY_CONTROL)"
proof -
  let ?r = "lookup (is_pool s) (is_table s) (hash n) (published (hash n)) n"
  note q = quiet_lookup [OF assms, of n]
  show ?thesis
    by (rule exI [of _ "pr_index ?r"])
      (use q in \<open>auto simp: itable_find_def Let_def claim_def\<close>)
qed

text \<open>
  A table reserved for a number of names is empty, has a power of two of at most 2^30 slots, and has
  room for at least four slots per three whole names asked for.
\<close>

lemma reserve_room:
  assumes "itable_reserve dbg os names it v = Some (it', v')"
  shows "shape_ok it' \<and> list_all (\<lambda>x. sl_control x = EMPTY_CONTROL) (it_table it')
    \<and> (let n = unat (if names = 0 then DEFAULT_NAMES else names) div 3 * 4 in
         n \<le> slot_count it' \<and> (slot_count it' = 1 \<or> slot_count it' < 2 * n)) \<and> slot_count it' \<le> 2 ^ 30"
proof -
  note r = reserve_shape [OF assms]
  obtain k where k: "k \<le> 30" "unat (it_slots it') = 2 ^ k" using r by (auto simp: shape_ok_def)
  have "(2 :: nat) ^ k \<le> 2 ^ 30" using k(1) by (intro power_increasing) simp_all
  then show ?thesis using r k by (auto simp: slot_count_def shape_ok_def Let_def)
qed

section \<open>Witnesses\<close>

definition sample_itable :: itable where
  "sample_itable = \<lparr>it_region = 131072, it_region_bytes = 4096, it_slots = 2, it_count = 0,
     it_table = [empty_slot, empty_slot]\<rparr>"

abbreviation sample_system :: isystem where
  "sample_system \<equiv> fresh_system sample_itable sample_pool sample_vm"

lemma sample_itable_ok: "shape_ok sample_itable" "list_all (\<lambda>x. sl_control x = EMPTY_CONTROL) (it_table sample_itable)"
  by (auto simp: shape_ok_def sample_itable_def empty_slot_def EMPTY_CONTROL_def intro!: exI [of _ 1])

lemma reserve_five_names:
  "\<exists>it v. itable_reserve True sample_os 5 empty_itable \<lparr>vm_mapped = [], vm_writable = [], vm_fds = 0\<rparr> = Some (it, v)
     \<and> slot_count it = 4"
  by (simp add: itable_reserve_def itable_release_def empty_itable_def slot_count_def MAX_NAMES_def MAX_SLOTS_def
      LOAD_NUMERATOR_def LOAD_DENOMINATOR_def SLOT_BYTES_def next_power_of_two_def smear_def is_power_of_two_def
      round_up_def allocate_pages_def reserve_pages_def commit_pages_def alloc_defs fpag_dcheck_def fpag_check_def
      empty_slot_def EMPTY_CONTROL_def is_page_aligned_ptr_def word_le_nat_alt)

lemma reserve_room_witness:
  "\<exists>it v. itable_reserve True sample_os 5 empty_itable \<lparr>vm_mapped = [], vm_writable = [], vm_fds = 0\<rparr> = Some (it, v)
     \<and> shape_ok it \<and> slot_count it = 4"
proof -
  obtain it v where r: "itable_reserve True sample_os 5 empty_itable \<lparr>vm_mapped = [], vm_writable = [], vm_fds = 0\<rparr>
    = Some (it, v)" "slot_count it = 4" using reserve_five_names by blast
  show ?thesis using reserve_room [OF r(1)] r by auto
qed

theorem try_intern_quiescent_witness:
  "\<exists>i it sp v. try_intern 1 (\<lambda>_. 0) False sample_os [102] sample_itable sample_pool sample_vm = Some (Some i, it, sp, v)"
proof -
  have ok: "sys_ok (\<lambda>_. 0) sample_os sample_system"
    using fresh_inv [OF sample_itable_ok sample_pool_ok(1)] by (simp add: intern_inv_def sys_ok_def)
  have q: "quiet (is_table sample_system)" "has_room (is_table sample_system)"
    by (simp_all add: quiet_def has_room_def fresh_system_def sample_itable_def empty_slot_def CLAIMED_CONTROL_def EMPTY_CONTROL_def)
  have f: "itable_find (\<lambda>_. 0) [102] sample_itable sample_pool = None"
    by (simp add: itable_find_def lookup_def walk_step_def sample_itable_def empty_slot_def table_mask_def
        published_def PUBLISHED_BIT_def EMPTY_CONTROL_def)
  obtain i sp v where "pool_append False sample_os [102] sample_pool sample_vm = Some (i, sp, v)"
    using sample_append [of "[102]"] by auto
  then show ?thesis
    using try_intern_quiescent [OF ok q(1), of 0 False "[102]"] q(2) f by (auto simp: fresh_system_def)
qed

text \<open>One call interns a name of the sample table.\<close>

lemma sample_run:
  "\<exists>i s. (intern_step (\<lambda>_. 0) False sample_os)\<^sup>*\<^sup>* sample_system s \<and> is_calls s = [Done True [102] (Some i)]"
proof -
  let ?step = "intern_step (\<lambda>_. 0 :: u64) False sample_os" and ?n = "[102] :: name" and ?s = sample_system
  obtain i sp v where a: "pool_append False sample_os ?n sample_pool sample_vm = Some (i, sp, v)"
    using sample_append [of ?n] by auto
  have run: "?step\<^sup>*\<^sup>* ?s (t\<lparr>is_calls := [c]\<rparr>) \<Longrightarrow> intern_call (\<lambda>_. 0) False sample_os c (t\<lparr>is_calls := [c]\<rparr>) = Some (c', t')
      \<Longrightarrow> ?step\<^sup>*\<^sup>* ?s (t'\<lparr>is_calls := [c']\<rparr>)" for t c c' t'
    using run_call [of 0 "t\<lparr>is_calls := [c]\<rparr>" "\<lambda>_. 0" False sample_os c' t'] by (simp add: rtranclp.rtrancl_into_rtrancl)
  have "?step ?s (?s\<lparr>is_calls := [Walk True ?n 0 0 False]\<rparr>)"
    using begin_call [of ?n "\<lambda>_. 0" False sample_os ?s True]
    by (simp add: name_ok_def start_walk_def fresh_system_def sample_itable_def)
  then have 1: "?step\<^sup>*\<^sup>* ?s (?s\<lparr>is_calls := [Walk True ?n 0 0 False]\<rparr>)" by (rule r_into_rtranclp)
  note w = fresh_system_def walk_call_def walk_step_def sample_itable_def empty_slot_def table_mask_def
    published_def PUBLISHED_BIT_def EMPTY_CONTROL_def claim_def
  have 2: "?step\<^sup>*\<^sup>* ?s (?s\<lparr>is_calls := [Claim ?n 0 0]\<rparr>)"
    using run [OF 1, of "Claim ?n 0 0"] by (simp add: w)
  obtain it ow where "claim 0 (is_table ?s) = (True, it)" "ow = (is_owner ?s)(0 \<mapsto> ?n)" by (simp add: w)
  then have 3: "?step\<^sup>*\<^sup>* ?s (?s\<lparr>is_table := it, is_owner := ow, is_calls := [Append ?n 0]\<rparr>)"
    using run [OF 2, of "Append ?n 0"] by (simp add: fresh_system_def)
  have 4: "?step\<^sup>*\<^sup>* ?s (?s\<lparr>is_table := it, is_owner := ow, is_pool := sp, is_vm := v, is_calls := [Entry ?n 0 i]\<rparr>)"
    using run [OF 3, of "Entry ?n 0 i"] a by (simp add: fresh_system_def)
  obtain t where "?step\<^sup>*\<^sup>* ?s (t\<lparr>is_calls := [Publish ?n 0 i]\<rparr>)" using run [OF 4, of "Publish ?n 0 i"] by auto
  from run [OF this, of "Done True ?n (Some i)"]
  obtain u where u: "?step\<^sup>*\<^sup>* ?s (u\<lparr>is_calls := [Done True ?n (Some i)]\<rparr>)" by auto
  show ?thesis by (rule exI [of _ i], rule exI, rule conjI [OF u]) simp
qed

theorem intern_concurrent_unique_witness:
  "\<exists>i s. (intern_step (\<lambda>_. 0) False sample_os)\<^sup>*\<^sup>* sample_system s \<and> Done True [102] (Some i) \<in> set (is_calls s)
     \<and> pool_get (is_pool s) i = [102] \<and> itable_find (\<lambda>_. 0) [102] (is_table s) (is_pool s) = Some i"
proof -
  obtain i s where r: "(intern_step (\<lambda>_. 0) False sample_os)\<^sup>*\<^sup>* sample_system s" "is_calls s = [Done True [102] (Some i)]"
    using sample_run by blast
  then have d: "Done True [102] (Some i) \<in> set (is_calls s)" by simp
  show ?thesis using intern_concurrent_unique [OF sample_itable_ok sample_pool_ok(1) r(1) d d] r(1) d by blast
qed

end
