(* ===== verification/Log_Level.thy ===== *)
theory Log_Level
  imports Term Prelude
begin

text \<open>
  The severities of \<^verbatim>\<open>include/fpag/logging/log_level.h\<close>, their names and their coloured prefixes
  (\<^verbatim>\<open>log_level_util.h\<close>). A severity is an 8-bit enumerator and is compared by its code; \<^verbatim>\<open>All\<close> is
  another name of \<open>Trace\<close>.
\<close>

section \<open>Definitions\<close>

datatype log_level = Trace | Debug | Info | Warn | Error | Fatal | WithoutPrefix | LevelOff

fun level_code :: "log_level \<Rightarrow> u8" where
  "level_code Trace = 0"
| "level_code Debug = 1"
| "level_code Info = 2"
| "level_code Warn = 3"
| "level_code Error = 4"
| "level_code Fatal = 5"
| "level_code WithoutPrefix = 6"
| "level_code LevelOff = 255"

definition level_of :: "u8 \<Rightarrow> log_level option" where
  "level_of c = find (\<lambda>l. level_code l = c) [Trace, Debug, Info, Warn, Error, Fatal, WithoutPrefix, LevelOff]"

definition DEFAULT_LOG_LEVEL :: "bool \<Rightarrow> log_level" where
  "DEFAULT_LOG_LEVEL is_debug = (if is_debug then Debug else Info)"

fun log_level_to_string :: "log_level \<Rightarrow> string" where
  "log_level_to_string Trace = ''trace''"
| "log_level_to_string Debug = ''debug''"
| "log_level_to_string Info = ''info''"
| "log_level_to_string Warn = ''warn''"
| "log_level_to_string Error = ''error''"
| "log_level_to_string Fatal = ''fatal''"
| "log_level_to_string _ = ''none''"

fun log_level_to_string_upper :: "log_level \<Rightarrow> string" where
  "log_level_to_string_upper Trace = ''TRACE''"
| "log_level_to_string_upper Debug = ''DEBUG''"
| "log_level_to_string_upper Info = ''INFO''"
| "log_level_to_string_upper Warn = ''WARN''"
| "log_level_to_string_upper Error = ''ERROR''"
| "log_level_to_string_upper Fatal = ''FATAL''"
| "log_level_to_string_upper _ = ''NONE''"

fun log_level_to_string_with_padding :: "log_level \<Rightarrow> string" where
  "log_level_to_string_with_padding Trace = ''trace''"
| "log_level_to_string_with_padding Debug = ''debug''"
| "log_level_to_string_with_padding Info = ''info ''"
| "log_level_to_string_with_padding Warn = ''warn ''"
| "log_level_to_string_with_padding Error = ''error''"
| "log_level_to_string_with_padding Fatal = ''fatal''"
| "log_level_to_string_with_padding _ = ''none ''"

fun log_level_to_string_with_padding_upper :: "log_level \<Rightarrow> string" where
  "log_level_to_string_with_padding_upper Trace = ''TRACE''"
| "log_level_to_string_with_padding_upper Debug = ''DEBUG''"
| "log_level_to_string_with_padding_upper Info = ''INFO ''"
| "log_level_to_string_with_padding_upper Warn = ''WARN ''"
| "log_level_to_string_with_padding_upper Error = ''ERROR''"
| "log_level_to_string_with_padding_upper Fatal = ''FATAL''"
| "log_level_to_string_with_padding_upper _ = ''NONE ''"

definition PLAIN_PREFIXES :: "string list" where
  "PLAIN_PREFIXES = [''trace: '', ''debug: '', '' info: '', '' warn: '', ''error: '', ''fatal: '']"

definition ANSI16_PREFIXES :: "string list" where
  "ANSI16_PREFIXES =
     [ansi ''1;90'' @ ''trace'' @ ansi ''0'' @ '': '',
      ansi ''1;34'' @ ''debug'' @ ansi ''0'' @ '': '',
      ansi ''1;32'' @ '' info'' @ ansi ''0'' @ '': '',
      ansi ''1;33'' @ '' warn'' @ ansi ''0'' @ '': '',
      ansi ''1;31'' @ ''error'' @ ansi ''0'' @ '': '',
      ansi ''1;35'' @ ''fatal'' @ ansi ''0'' @ '': '']"

definition ANSI256_PREFIXES :: "string list" where
  "ANSI256_PREFIXES =
     [ansi ''1;38;5;242'' @ ''trace'' @ ansi ''0'' @ '': '',
      ansi ''1;38;5;39'' @ ''debug'' @ ansi ''0'' @ '': '',
      ansi ''1;38;5;40'' @ '' info'' @ ansi ''0'' @ '': '',
      ansi ''1;38;5;220'' @ '' warn'' @ ansi ''0'' @ '': '',
      ansi ''1;38;5;196'' @ ''error'' @ ansi ''0'' @ '': '',
      ansi ''1;38;5;201'' @ ''fatal'' @ ansi ''0'' @ '': '']"

definition ANSI_TRUE_COLOR_PREFIXES :: "string list" where
  "ANSI_TRUE_COLOR_PREFIXES =
     [ansi ''1;38;2;100;100;100'' @ ''trace'' @ ansi ''0'' @ '': '',
      ansi ''1;38;2;140;210;230'' @ ''debug'' @ ansi ''0'' @ '': '',
      ansi ''1;38;2;150;230;140'' @ '' info'' @ ansi ''0'' @ '': '',
      ansi ''1;38;2;230;200;100'' @ '' warn'' @ ansi ''0'' @ '': '',
      ansi ''1;38;2;230;110;120'' @ ''error'' @ ansi ''0'' @ '': '',
      ansi ''1;38;2;180;120;230'' @ ''fatal'' @ ansi ''0'' @ '': '']"

definition log_prefix :: "log_level \<Rightarrow> color_style \<Rightarrow> string" where
  "log_prefix level style =
     (if level_code level \<ge> level_code WithoutPrefix then []
      else
        (let l = unat (level_code level) in
         case style of
           Off \<Rightarrow> PLAIN_PREFIXES ! l
         | Ansi16 \<Rightarrow> ANSI16_PREFIXES ! l
         | Ansi256 \<Rightarrow> ANSI256_PREFIXES ! l
         | AnsiTrueColor \<Rightarrow> ANSI_TRUE_COLOR_PREFIXES ! l))"

definition should_log :: "log_level \<Rightarrow> log_level \<Rightarrow> bool" where
  "should_log min_level level \<longleftrightarrow> level_code level \<ge> level_code min_level"

section \<open>Codes\<close>

lemma level_of_code [simp]: "level_of (level_code l) = Some l"
  by (cases l) (simp_all add: level_of_def)

lemma level_code_inj: "level_code l = level_code m \<longleftrightarrow> l = m"
  by (metis level_of_code option.inject)

section \<open>What a terminal shows\<close>

text \<open>
  Removing the escape sequences from a text: from an escape character up to the \<^verbatim>\<open>m\<close> that ends it.
\<close>

fun strip_ansi :: "bool \<Rightarrow> string \<Rightarrow> string" where
  "strip_ansi esc [] = []"
| "strip_ansi True (c # cs) = (if c = CHR ''m'' then strip_ansi False cs else strip_ansi True cs)"
| "strip_ansi False (c # cs) = (if c = ESC then strip_ansi True cs else c # strip_ansi False cs)"

lemmas prefix_tables = PLAIN_PREFIXES_def ANSI16_PREFIXES_def ANSI256_PREFIXES_def ANSI_TRUE_COLOR_PREFIXES_def

text \<open>In every colour style a prefix reads as the plain one once the escape sequences are removed.\<close>

lemma log_prefix_reads_plain: "strip_ansi False (log_prefix level style) = log_prefix level Off"
  by (cases level; cases style; simp only:) code_simp+

lemma log_prefix_length: "length (log_prefix level Off) = (if should_log WithoutPrefix level then 0 else 7)"
  by (cases level; simp only:) code_simp+

end
