(* ===== verification/Log_Record.thy ===== *)
theory Log_Record
  imports Spsc_Queue Intern_Table Log_Level
begin

text \<open>
  How a log call crosses to the backend thread (\<^verbatim>\<open>include/fpag/logging/async/serializer.h\<close>,
  \<^verbatim>\<open>deserializer.h\<close> and \<^verbatim>\<open>codec/\<close>): the producer writes a record into the ring, a header, a slot for
  the format string and the arguments, and the consumer reads it back and formats it.

  An argument is its object representation. What lies outside the repository is the record
  \<open>log_env\<close>: the address the linker gives to each instance of the deserializer and the instance an
  address leads to, the bytes of the program's format strings, the two formatting calls of the fmt
  library, the hash function and the kernel. The two words of a \<^verbatim>\<open>string_view\<close> are copied as they are,
  so their order does not matter; here the address comes first.
\<close>

section \<open>Definitions\<close>

subsection \<open>Codecs\<close>

datatype arg_type = Trivial nat | StringView | Vector nat

datatype arg = TrivialArg "u8 list" | StringArg "u8 list" | VectorArg nat "u8 list list"

fun arg_type_of :: "arg \<Rightarrow> arg_type" where
  "arg_type_of (TrivialArg bs) = Trivial (length bs)"
| "arg_type_of (StringArg bs) = StringView"
| "arg_type_of (VectorArg n es) = Vector n"

fun codec_is_fixed_size :: "arg_type \<Rightarrow> bool" where
  "codec_is_fixed_size (Trivial n) \<longleftrightarrow> True"
| "codec_is_fixed_size StringView \<longleftrightarrow> False"
| "codec_is_fixed_size (Vector n) \<longleftrightarrow> False"

fun codec_body_size :: "arg_type \<Rightarrow> usize" where
  "codec_body_size (Trivial n) = of_nat n"
| "codec_body_size _ = 0"

fun codec_encoded_size :: "arg \<Rightarrow> usize" where
  "codec_encoded_size (TrivialArg bs) = of_nat (length bs)"
| "codec_encoded_size (StringArg bs) = of_nat (length bs)"
| "codec_encoded_size (VectorArg n es) = of_nat n * of_nat (length es)"

fun codec_encode :: "arg \<Rightarrow> u8 list" where
  "codec_encode (TrivialArg bs) = bs"
| "codec_encode (StringArg bs) = bs"
| "codec_encode (VectorArg n es) = concat es"

fun chunks :: "nat \<Rightarrow> nat \<Rightarrow> u8 list \<Rightarrow> u8 list list" where
  "chunks n 0 bs = []"
| "chunks n (Suc k) bs = take n bs # chunks n k (drop n bs)"

fun codec_decode :: "arg_type \<Rightarrow> u8 list \<Rightarrow> arg option" where
  "codec_decode (Trivial n) bs = Some (TrivialArg bs)"
| "codec_decode StringView bs = Some (StringArg bs)"
| "codec_decode (Vector n) bs =
     (if n \<noteq> 0 \<and> n dvd length bs then Some (VectorArg n (chunks n (length bs div n) bs)) else None)"

subsection \<open>Instances and their environment\<close>

datatype log_format = Compiled nat | View usize usize

record deserializer =
  ds_compiled :: "nat option"
  ds_use_interner :: bool
  ds_types :: "arg_type list"

record log_env =
  le_dbg :: bool
  le_os :: os
  le_hash :: "name \<Rightarrow> u64"
  le_rounds :: nat
  le_addr :: "deserializer \<Rightarrow> usize"
  le_inst :: "usize \<Rightarrow> deserializer option"
  le_text :: "usize \<Rightarrow> usize \<Rightarrow> name"
  le_cformat :: "nat \<Rightarrow> arg list \<Rightarrow> name"
  le_vformat :: "name \<Rightarrow> arg list \<Rightarrow> name"

definition PAYLOAD_ALIGN :: usize where "PAYLOAD_ALIGN = 8"

definition PAYLOAD_MIN_HEADER_SIZE :: usize where "PAYLOAD_MIN_HEADER_SIZE = 8 + 8 + 8"

definition IS_COMPILED_FMT :: "deserializer \<Rightarrow> bool" where
  "IS_COMPILED_FMT ds \<longleftrightarrow> ds_compiled ds \<noteq> None"

definition FMT_SLOT_SIZE :: "deserializer \<Rightarrow> usize" where
  "FMT_SLOT_SIZE ds = (if ds_use_interner ds then 4 else 16)"

definition PAYLOAD_HEADER_SIZE :: "deserializer \<Rightarrow> usize" where
  "PAYLOAD_HEADER_SIZE ds = PAYLOAD_MIN_HEADER_SIZE + (if IS_COMPILED_FMT ds then 0 else FMT_SLOT_SIZE ds)"

definition instance_of :: "bool \<Rightarrow> log_format \<Rightarrow> arg list \<Rightarrow> deserializer" where
  "instance_of use_interner f args =
     \<lparr>ds_compiled = (case f of Compiled c \<Rightarrow> Some c | View p n \<Rightarrow> None), ds_use_interner = use_interner,
      ds_types = map arg_type_of args\<rparr>"

definition le64 :: "u64 \<Rightarrow> u8 list" where
  "le64 x = le32 (ucast x) @ le32 (ucast (drop_bit 32 x))"

definition word_of_le :: "u8 list \<Rightarrow> 'a::len word" where
  "word_of_le bs = of_nat (of_le bs)"

subsection \<open>Writing a record\<close>

definition write_header ::
  "log_env \<Rightarrow> bool \<Rightarrow> usize \<Rightarrow> usize \<Rightarrow> usize \<Rightarrow> log_level \<Rightarrow> log_format \<Rightarrow> spsc \<Rightarrow> interner \<times> vm
    \<Rightarrow> (spsc \<times> interner \<times> vm) option" where
  "write_header env use_interner out payload_size func level f q si = do {
     fpag_dcheck (le_dbg env) (out mod 8 = 0);
     let q = copy_in out (le64 payload_size) q;
     let cursor = out + 8;
     let q = copy_in cursor (le64 func) q;
     let cursor = cursor + 8;
     let q = copy_in cursor [level_code level] q;
     (case f of
        Compiled c \<Rightarrow> Some (q, si)
      | View p n \<Rightarrow>
          (let cursor = cursor + 8 in
           if use_interner then do {
             (i, si) \<leftarrow> interner_store (le_rounds env) (le_hash env) (le_dbg env) (le_os env) (le_text env p n) si;
             Some (copy_in cursor (le32 i) q, si)
           }
           else Some (copy_in cursor (le64 p @ le64 n) q, si)))
   }"

fun write_args :: "usize \<Rightarrow> arg list \<Rightarrow> spsc \<Rightarrow> usize \<times> spsc" where
  "write_args cursor [] q = (cursor, q)"
| "write_args cursor (a # args) q =
     (if codec_is_fixed_size (arg_type_of a)
      then write_args (cursor + codec_body_size (arg_type_of a)) args (copy_in cursor (codec_encode a) q)
      else
        (let q = copy_in (cursor + 8) (codec_encode a) q;
             written = codec_encoded_size a;
             q = copy_in cursor (le64 written) q
         in write_args (cursor + (8 + written)) args q))"

fun args_body_size :: "arg list \<Rightarrow> usize" where
  "args_body_size [] = 0"
| "args_body_size (a # args) =
     (if codec_is_fixed_size (arg_type_of a) then codec_body_size (arg_type_of a) else 8 + codec_encoded_size a)
     + args_body_size args"

definition serialize_to ::
  "log_env \<Rightarrow> bool \<Rightarrow> log_level \<Rightarrow> log_format \<Rightarrow> arg list \<Rightarrow> usize list \<Rightarrow> spsc \<Rightarrow> interner \<times> vm
    \<Rightarrow> (enqueue_status \<times> spsc \<times> interner \<times> vm) option" where
  "serialize_to env use_interner level f args heads q si =
     (let ds = instance_of use_interner f args; func = le_addr env ds in
      if args = [] then do {
        (status, out, q) \<leftarrow> spsc_reserve (le_dbg env) (PAYLOAD_HEADER_SIZE ds) PAYLOAD_ALIGN heads q;
        (if status = Dropped then Some (Dropped, q, si)
         else do {
           (q, si) \<leftarrow> write_header env use_interner out (PAYLOAD_HEADER_SIZE ds) func level f q si;
           Some (EnqueueOk, spsc_commit (PAYLOAD_HEADER_SIZE ds) q, si)
         })
      }
      else if list_all (\<lambda>a. codec_is_fixed_size (arg_type_of a)) args then do {
        let args_size = sum_list (map (\<lambda>a. codec_body_size (arg_type_of a)) args);
        let payload_size = PAYLOAD_HEADER_SIZE ds + args_size;
        (status, out, q) \<leftarrow> spsc_reserve (le_dbg env) payload_size PAYLOAD_ALIGN heads q;
        (if status = Dropped then Some (Dropped, q, si)
         else do {
           (q, si) \<leftarrow> write_header env use_interner out payload_size func level f q si;
           let (cursor, q) = write_args (out + PAYLOAD_HEADER_SIZE ds) args q;
           fpag_dcheck (le_dbg env) (cursor - out = payload_size);
           Some (EnqueueOk, spsc_commit payload_size q, si)
         })
      }
      else do {
        let payload_size = PAYLOAD_HEADER_SIZE ds + args_body_size args;
        (status, out, q) \<leftarrow> spsc_reserve (le_dbg env) payload_size PAYLOAD_ALIGN heads q;
        (if status = Dropped then Some (Dropped, q, si)
         else do {
           (q, si) \<leftarrow> write_header env use_interner out payload_size func level f q si;
           let (cursor, q) = write_args (out + PAYLOAD_HEADER_SIZE ds) args q;
           fpag_dcheck (le_dbg env) (cursor - out = payload_size);
           Some (EnqueueOk, spsc_commit payload_size q, si)
         })
      })"

subsection \<open>Reading a record\<close>

fun decode_args :: "bool \<Rightarrow> arg_type list \<Rightarrow> usize \<Rightarrow> usize \<Rightarrow> spsc \<Rightarrow> arg list option" where
  "decode_args dbg [] cursor remaining q = Some []"
| "decode_args dbg (t # ts) cursor remaining q =
     (if codec_is_fixed_size t then do {
        fpag_dcheck dbg (codec_body_size t \<le> remaining);
        a \<leftarrow> codec_decode t (copy_out cursor (codec_body_size t) q);
        rest \<leftarrow> decode_args dbg ts (cursor + codec_body_size t) (remaining - codec_body_size t) q;
        Some (a # rest)
      }
      else do {
        fpag_dcheck dbg (8 \<le> remaining);
        let body_size = word_of_le (copy_out cursor 8 q);
        let cursor = cursor + 8;
        let remaining = remaining - 8;
        fpag_dcheck dbg (body_size \<le> remaining);
        a \<leftarrow> codec_decode t (copy_out cursor body_size q);
        rest \<leftarrow> decode_args dbg ts (cursor + body_size) (remaining - body_size) q;
        Some (a # rest)
      })"

definition deserialize :: "log_env \<Rightarrow> deserializer \<Rightarrow> usize \<Rightarrow> usize \<Rightarrow> spsc \<Rightarrow> interner \<Rightarrow> name option" where
  "deserialize env ds payload_head payload_size q si =
     (let read_head = payload_head + PAYLOAD_MIN_HEADER_SIZE in
      case ds_compiled ds of
        Some c \<Rightarrow> do {
          let args_size = payload_size - PAYLOAD_HEADER_SIZE ds;
          args \<leftarrow> decode_args (le_dbg env) (ds_types ds) read_head args_size q;
          Some (le_cformat env c args)
        }
      | None \<Rightarrow>
          (let fmt_view =
             (if ds_use_interner ds then interner_get si (word_of_le (copy_out read_head 4 q))
              else le_text env (word_of_le (copy_out read_head 8 q)) (word_of_le (copy_out (read_head + 8) 8 q)))
           in if ds_types ds = [] then Some fmt_view
           else do {
             let args_head = read_head + FMT_SLOT_SIZE ds;
             let args_size = payload_size - PAYLOAD_HEADER_SIZE ds;
             args \<leftarrow> decode_args (le_dbg env) (ds_types ds) args_head args_size q;
             Some (le_vformat env fmt_view args)
           }))"

section \<open>Codecs and little-endian words\<close>

lemma of_le_append: "of_le (xs @ ys) = of_le xs + 256 ^ length xs * of_le ys"
  by (induction xs) (simp_all add: algebra_simps)

lemma length_le64 [simp]: "length (le64 x) = 8"
  by (simp add: le64_def)

lemma of_le_le64: "of_le (le64 x) = unat x"
proof -
  have b: "unat x < 2 ^ 64" using unat_lt2p [of x] by simp
  have "unat (ucast x :: u32) = unat x mod 2 ^ 32" by (simp only: unsigned_ucast_eq take_bit_eq_mod) simp
  moreover have "unat (ucast (drop_bit 32 x) :: u32) = unat x div 2 ^ 32"
    using b by (simp only: unsigned_ucast_eq unsigned_drop_bit_eq)
      (simp add: drop_bit_eq_div take_bit_eq_mod less_mult_imp_div_less)
  ultimately show ?thesis by (simp add: le64_def of_le_append of_le_le32)
qed

lemma word_of_le64 [simp]: "word_of_le (le64 x) = x"
  by (simp add: word_of_le_def of_le_le64)

lemma word_of_le32 [simp]: "word_of_le (le32 x) = x"
  by (simp add: word_of_le_def of_le_le32)

lemma chunks_concat: "\<forall>e \<in> set es. length e = n \<Longrightarrow> chunks n (length es) (concat es) = es"
  by (induction es) auto

lemma length_concat_const: "\<forall>e \<in> set es. length e = n \<Longrightarrow> length (concat es) = n * length es"
  by (induction es) auto

fun arg_ok :: "arg \<Rightarrow> bool" where
  "arg_ok (TrivialArg bs) \<longleftrightarrow> True"
| "arg_ok (StringArg bs) \<longleftrightarrow> True"
| "arg_ok (VectorArg n es) \<longleftrightarrow> 0 < n \<and> (\<forall>e \<in> set es. length e = n)"

lemma codec_roundtrip: "arg_ok a \<Longrightarrow> codec_decode (arg_type_of a) (codec_encode a) = Some a"
proof (cases a)
  case (VectorArg n es)
  moreover assume "arg_ok a"
  ultimately have e: "0 < n" "\<forall>e \<in> set es. length e = n" by simp_all
  note l = length_concat_const [OF e(2)]
  show ?thesis unfolding VectorArg using e(1) chunks_concat [OF e(2)] by (simp only: l arg_type_of.simps codec_encode.simps codec_decode.simps) simp
qed simp_all

lemma codec_encoded_size_eq: "arg_ok a \<Longrightarrow> codec_encoded_size a = of_nat (length (codec_encode a))"
proof (cases a)
  case (VectorArg n es)
  moreover assume "arg_ok a"
  ultimately have "length (concat es) = n * length es" by (intro length_concat_const) simp
  then show ?thesis by (simp only: VectorArg codec_encoded_size.simps codec_encode.simps of_nat_mult)
qed simp_all

lemma codec_body_size_eq:
  "codec_is_fixed_size (arg_type_of a) \<Longrightarrow> codec_body_size (arg_type_of a) = of_nat (length (codec_encode a))"
  by (cases a) simp_all

definition enc_arg :: "arg \<Rightarrow> u8 list" where
  "enc_arg a = (if codec_is_fixed_size (arg_type_of a) then codec_encode a
     else le64 (of_nat (length (codec_encode a))) @ codec_encode a)"

definition enc_args :: "arg list \<Rightarrow> u8 list" where
  "enc_args args = concat (map enc_arg args)"

lemma args_body_size_eq: "list_all arg_ok args \<Longrightarrow> args_body_size args = of_nat (length (enc_args args))"
  by (induction args) (simp_all add: enc_args_def enc_arg_def codec_encoded_size_eq codec_body_size_eq)

lemma fixed_size_eq:
  "list_all (\<lambda>a. codec_is_fixed_size (arg_type_of a)) args \<Longrightarrow>
     sum_list (map (\<lambda>a. codec_body_size (arg_type_of a)) args) = args_body_size args"
  by (induction args) simp_all

lemma round_up_level: "round_up dbg 1 PAYLOAD_ALIGN = Some 8"
  by (simp add: round_up_def PAYLOAD_ALIGN_def is_power_of_two_def)

section \<open>Windows of the ring\<close>

definition splice :: "nat \<Rightarrow> 'a list \<Rightarrow> 'a list \<Rightarrow> 'a list" where
  "splice k bs buf = take k buf @ bs @ drop (k + length bs) buf"

lemma length_splice [simp]: "k + length bs \<le> length buf \<Longrightarrow> length (splice k bs buf) = length buf"
  by (simp add: splice_def)

lemma splice_mid: "length xs = k \<Longrightarrow> length ys = length bs \<Longrightarrow> splice k bs (xs @ ys @ zs) = xs @ bs @ zs"
  by (simp add: splice_def)

lemma ring_put_append: "ring_put cap i (xs @ ys) r = ring_put cap (i + length xs) ys (ring_put cap i xs r)"
  by (induction xs arbitrary: i r) simp_all

lemma window_nth:
  assumes "length bs \<le> cap" "length ring = cap" "k < cap"
  shows "ring_put cap i bs ring ! ((i + k) mod cap) = (if k < length bs then bs ! k else ring ! ((i + k) mod cap))"
proof (cases "k < length bs")
  case True
  then show ?thesis using ring_put_same [OF True assms(1,2)] by simp
next
  case False
  then have "(i + j) mod cap \<noteq> (i + k) mod cap" if "j < length bs" for j
    using mod_distinct [of "i + j" "i + k" cap] that assms(3) by auto
  then show ?thesis using False ring_put_other [of bs i cap "(i + k) mod cap" ring] by simp
qed

lemma ring_eqI:
  assumes "length r = cap" "length r' = cap" "0 < cap"
    and "\<And>k. k < cap \<Longrightarrow> r ! ((i + k) mod cap) = r' ! ((i + k) mod cap)"
  shows "r = r'"
proof (rule nth_equalityI)
  fix c assume "c < length r"
  then have c: "c < cap" using assms(1) by simp
  define k where "k = (c + (cap - i mod cap)) mod cap"
  have "(i + k) mod cap = (i mod cap + (c + (cap - i mod cap))) mod cap"
    unfolding k_def by (metis mod_add_left_eq mod_add_right_eq)
  also have "i mod cap + (c + (cap - i mod cap)) = c + cap"
    using mod_less_divisor [OF assms(3), of i] by linarith
  finally have "(i + k) mod cap = c" using c by simp
  then show "r ! c = r' ! c" using assms(4) [of k] assms(3) by (simp add: k_def)
qed (use assms in simp)

lemma ring_put_window:
  assumes "k + length bs \<le> length buf" "length buf \<le> cap" "length ring = cap" "0 < cap"
  shows "ring_put cap (i + k) bs (ring_put cap i buf ring) = ring_put cap i (splice k bs buf) ring"
proof (rule ring_eqI [where i = i])
  fix j assume j: "j < cap"
  have len: "length (splice k bs buf) = length buf" using assms(1) by simp
  note w = window_nth [OF assms(2,3) j, of i] window_nth [of "splice k bs buf" cap ring j i, unfolded len, OF assms(2,3) j]
  have sp: "j < length buf \<Longrightarrow> splice k bs buf ! j = (if k \<le> j \<and> j < k + length bs then bs ! (j - k) else buf ! j)"
    using assms(1) by (auto simp: splice_def nth_append)
  show "ring_put cap (i + k) bs (ring_put cap i buf ring) ! ((i + j) mod cap)
      = ring_put cap i (splice k bs buf) ring ! ((i + j) mod cap)"
  proof (cases "k \<le> j \<and> j < k + length bs")
    case True
    then have "ring_put cap (i + k) bs (ring_put cap i buf ring) ! ((i + k + (j - k)) mod cap) = bs ! (j - k)"
      using assms by (intro ring_put_same) auto
    then show ?thesis using True w sp assms(1) by simp
  next
    case False
    have "(i + k + m) mod cap \<noteq> (i + j) mod cap" if "m < length bs" for m
    proof (cases "j < k")
      case True
      then show ?thesis using mod_distinct [of "i + j" "i + k + m" cap] that j assms by auto
    next
      case F: False
      then show ?thesis using mod_distinct [of "i + k + m" "i + j" cap] that j False by auto
    qed
    then have "ring_put cap (i + k) bs (ring_put cap i buf ring) ! ((i + j) mod cap) = ring_put cap i buf ring ! ((i + j) mod cap)"
      by (intro ring_put_other)
    then show ?thesis using False w sp by auto
  qed
qed (use assms in simp_all)

lemma ring_put_self:
  assumes "n \<le> cap" "length ring = cap" "0 < cap"
  shows "ring_put cap i (ring_get cap i n ring) ring = ring"
proof (rule ring_eqI [where i = i])
  fix j assume "j < cap"
  from window_nth [OF _ assms(2) this, of "ring_get cap i n ring" i] assms(1)
  show "ring_put cap i (ring_get cap i n ring) ring ! ((i + j) mod cap) = ring ! ((i + j) mod cap)"
    by (simp add: ring_get_def)
qed (use assms in simp_all)

definition window :: "nat \<Rightarrow> u8 list \<Rightarrow> spsc \<Rightarrow> spsc" where
  "window i buf q = q\<lparr>q_ring := ring_put (unat (q_capacity q)) i buf (q_ring q)\<rparr>"

definition slot_ptr :: "nat \<Rightarrow> spsc \<Rightarrow> usize" where
  "slot_ptr i q = q_data q + ring_index (of_nat i) q"

lemma window_fields [simp]:
  "q_data (window i buf q) = q_data q" "q_capacity (window i buf q) = q_capacity q"
  "slot_ptr j (window i buf q) = slot_ptr j q" "q_tail_cache (window i buf q) = q_tail_cache q"
  by (simp_all add: window_def slot_ptr_def)

lemma ring_ok_window [simp]: "ring_ok (window i buf q) = ring_ok q"
  by (simp add: window_def ring_ok_def)

lemma slot_offset:
  assumes "ring_ok q" "k \<le> 2 ^ 36"
  shows "unat (slot_ptr i q + of_nat k - q_data q) = i mod unat (q_capacity q) + k"
proof -
  note c = cap_bounds [OF assms(1)]
  have e: "slot_ptr i q + of_nat k - q_data q = ring_index (of_nat i) q + of_nat k" by (simp add: slot_ptr_def)
  have r: "unat (ring_index (of_nat i) q) = i mod unat (q_capacity q)"
    using assms(1) by (intro unat_ring_index) (simp add: ring_ok_def)
  have "i mod unat (q_capacity q) < unat (q_capacity q)" using c(1) by simp
  then have "i mod unat (q_capacity q) + k < 2 ^ 64" using c(2) assms(2) by simp
  then show ?thesis unfolding e using r assms(2) by (subst unat_add_nowrap) (simp_all add: unat_small)
qed

lemma ring_put_mod_cong: "i mod cap = j mod cap \<Longrightarrow> ring_put cap i bs r = ring_put cap j bs r"
  by (metis ring_put_mod)

lemma ring_get_mod_cong: "i mod cap = j mod cap \<Longrightarrow> ring_get cap i n r = ring_get cap j n r"
  by (metis ring_get_mod)

lemma copy_in_window:
  assumes "ring_ok q" "k + length bs \<le> length buf" "length buf \<le> unat (q_capacity q)"
  shows "copy_in (slot_ptr i q + of_nat k) bs (window i buf q) = window i (splice k bs buf) q"
proof -
  let ?cap = "unat (q_capacity q)"
  note c = cap_bounds [OF assms(1)]
  have "k \<le> 2 ^ 36" using assms c by simp
  note so = slot_offset [OF assms(1) this, of i]
  have "copy_in (slot_ptr i q + of_nat k) bs (window i buf q)
      = q\<lparr>q_ring := ring_put ?cap (i mod ?cap + k) bs (ring_put ?cap i buf (q_ring q))\<rparr>"
    by (simp add: copy_in_def so) (simp add: window_def)
  also have "ring_put ?cap (i mod ?cap + k) bs (ring_put ?cap i buf (q_ring q))
      = ring_put ?cap (i + k) bs (ring_put ?cap i buf (q_ring q))"
    by (rule ring_put_mod_cong) (simp add: mod_add_left_eq)
  also have "\<dots> = ring_put ?cap i (splice k bs buf) (q_ring q)"
    using assms c by (intro ring_put_window) (simp_all add: ring_ok_def)
  finally show ?thesis by (simp add: window_def)
qed

lemma window_self:
  assumes "ring_ok q" "n \<le> unat (q_capacity q)"
  shows "window i (ring_get (unat (q_capacity q)) i n (q_ring q)) q = q"
  using assms cap_bounds(1) [OF assms(1)] by (simp add: window_def ring_put_self ring_ok_def)

lemma ring_get_part:
  "k + n \<le> m \<Longrightarrow> ring_get cap (i + k) n r = take n (drop k (ring_get cap i m r))"
  by (rule nth_equalityI) (simp_all add: ring_get_def add.assoc)

lemma copy_out_part:
  assumes "ring_ok q" "ring_get (unat (q_capacity q)) i (length bs) (q_ring q) = bs" "length bs \<le> 2 ^ 36" "k + n \<le> length bs"
  shows "copy_out (slot_ptr i q + of_nat k) (of_nat n) q = take n (drop k bs)"
proof -
  let ?cap = "unat (q_capacity q)"
  have b: "k \<le> 2 ^ 36" "n \<le> 2 ^ 36" using assms(3,4) by linarith+
  have "copy_out (slot_ptr i q + of_nat k) (of_nat n) q = ring_get ?cap (i mod ?cap + k) n (q_ring q)"
    using slot_offset [OF assms(1) b(1), of i] b(2) by (simp add: copy_out_def unat_small)
  also have "\<dots> = ring_get ?cap (i + k) n (q_ring q)"
    by (rule ring_get_mod_cong) (simp add: mod_add_left_eq)
  also have "\<dots> = take n (drop k bs)" using ring_get_part [OF assms(4), of ?cap i "q_ring q"] assms(2) by simp
  finally show ?thesis .
qed

section \<open>The arguments\<close>

lemma enc_args_Cons: "enc_args (a # args) = enc_arg a @ enc_args args"
  by (simp add: enc_args_def)

lemma write_args_window:
  assumes "ring_ok q" "list_all arg_ok args" "length xs = k" "length ys = length (enc_args args)"
    "length (xs @ ys) \<le> unat (q_capacity q)"
  shows "write_args (slot_ptr i q + of_nat k) args (window i (xs @ ys) q)
    = (slot_ptr i q + of_nat (k + length (enc_args args)), window i (xs @ enc_args args) q)"
  using assms(2-)
proof (induction args arbitrary: xs ys k)
  case (Cons a args)
  let ?e = "codec_encode a" and ?rest = "drop (length (enc_arg a)) ys"
  have l: "length ys = length (enc_arg a) + length (enc_args args)" using Cons.prems(3) by (simp add: enc_args_Cons)
  have ok: "arg_ok a" "list_all arg_ok args" using Cons.prems(1) by simp_all
  show ?case
  proof (cases "codec_is_fixed_size (arg_type_of a)")
    case True
    have e: "enc_arg a = ?e" using True by (simp add: enc_arg_def)
    have sp: "splice k ?e (xs @ ys) = (xs @ ?e) @ ?rest"
      using l e Cons.prems(2) by (simp add: splice_def)
    have "copy_in (slot_ptr i q + of_nat k) ?e (window i (xs @ ys) q) = window i ((xs @ ?e) @ ?rest) q"
      unfolding sp [symmetric] using l e Cons.prems by (intro copy_in_window [OF assms(1)]) simp_all
    moreover have "write_args (slot_ptr i q + of_nat (k + length ?e)) args (window i ((xs @ ?e) @ ?rest) q)
      = (slot_ptr i q + of_nat (k + length ?e + length (enc_args args)), window i ((xs @ ?e) @ enc_args args) q)"
      using l e Cons.prems by (intro Cons.IH [OF ok(2)]) simp_all
    ultimately show ?thesis using True e by (simp add: codec_body_size_eq enc_args_Cons add.assoc)
  next
    case False
    let ?n = "le64 (of_nat (length ?e))"
    have e: "enc_arg a = ?n @ ?e" using False by (simp add: enc_arg_def)
    obtain y1 y2 y3 where y: "ys = y1 @ y2 @ y3" "length y1 = 8" "length y2 = length ?e" "length y3 = length (enc_args args)"
      by (rule that [of "take 8 ys" "take (length ?e) (drop 8 ys)" "drop (8 + length ?e) ys"])
        (use l e in \<open>simp_all add: add.commute [of 8] flip: append_assoc take_add\<close>)
    have s1: "splice (k + 8) ?e (xs @ ys) = xs @ y1 @ ?e @ y3"
      using splice_mid [of "xs @ y1" "k + 8" y2 ?e y3] y Cons.prems(2) by simp
    have s2: "splice k ?n (xs @ y1 @ ?e @ y3) = (xs @ ?n @ ?e) @ y3"
      using splice_mid [of xs k y1 ?n "?e @ y3"] y Cons.prems(2) by simp
    have w1: "copy_in (slot_ptr i q + (of_nat k + 8)) ?e (window i (xs @ ys) q) = window i (xs @ y1 @ ?e @ y3) q"
      using copy_in_window [OF assms(1), of "k + 8" ?e "xs @ ys" i] s1 l e Cons.prems by (simp add: add.assoc)
    have w2: "copy_in (slot_ptr i q + of_nat k) ?n (window i (xs @ y1 @ ?e @ y3) q) = window i ((xs @ ?n @ ?e) @ y3) q"
      using copy_in_window [OF assms(1), of k ?n "xs @ y1 @ ?e @ y3" i] s2 y Cons.prems by simp
    have "write_args (slot_ptr i q + of_nat (k + (8 + length ?e))) args (window i ((xs @ ?n @ ?e) @ y3) q)
      = (slot_ptr i q + of_nat (k + (8 + length ?e) + length (enc_args args)), window i ((xs @ ?n @ ?e) @ enc_args args) q)"
      using y Cons.prems by (intro Cons.IH [OF ok(2)]) simp_all
    then show ?thesis using False
      by (simp add: w1 w2 codec_encoded_size_eq [OF ok(1)] enc_args_Cons e add.assoc Let_def)
  qed
qed (simp add: enc_args_def)

lemma decode_args_part:
  assumes "ring_ok q" "ring_get (unat (q_capacity q)) i (length bs) (q_ring q) = bs" "length bs \<le> 2 ^ 36"
    "list_all arg_ok args" "drop k bs = enc_args args" "k \<le> length bs"
  shows "decode_args dbg (map arg_type_of args) (slot_ptr i q + of_nat k) (of_nat (length (enc_args args))) q = Some args"
  using assms(4-)
proof (induction args arbitrary: k)
  case (Cons a args)
  let ?e = "codec_encode a"
  have d: "drop k bs = enc_arg a @ enc_args args" using Cons.prems(2) by (simp add: enc_args_Cons)
  then have len: "length bs = k + length (enc_arg a) + length (enc_args args)"
    using Cons.prems(3) by (metis (no_types) add.assoc le_add_diff_inverse length_append length_drop)
  have ok: "arg_ok a" "list_all arg_ok args" using Cons.prems(1) by simp_all
  note get = copy_out_part [OF assms(1-3)]
  have nx: "drop (k + length (enc_arg a)) bs = enc_args args"
    using d by (metis add.commute append_eq_conv_conj drop_drop)
  show ?case
  proof (cases "codec_is_fixed_size (arg_type_of a)")
    case True
    have e: "enc_arg a = ?e" using True by (simp add: enc_arg_def)
    have g: "copy_out (slot_ptr i q + of_nat k) (of_nat (length ?e)) q = ?e"
      using get [of k "length ?e"] len e d by simp
    have r: "of_nat (length (enc_args (a # args))) - of_nat (length ?e) = (of_nat (length (enc_args args)) :: usize)"
      by (simp add: enc_args_Cons e)
    have le: "of_nat (length ?e) \<le> (of_nat (length (enc_args (a # args))) :: usize)"
      using assms(3) len e by (simp add: word_le_nat_alt unat_small enc_args_Cons del: of_nat_add)
    show ?thesis
      using Cons.IH [OF ok(2), of "k + length ?e"] nx len
      by (simp add: True codec_body_size_eq g r le codec_roundtrip [OF ok(1)] e add.assoc)
  next
    case False
    have e: "enc_arg a = le64 (of_nat (length ?e)) @ ?e" using False by (simp add: enc_arg_def)
    have g1: "copy_out (slot_ptr i q + of_nat k) 8 q = le64 (of_nat (length ?e))"
      using get [of k 8] len e d by simp
    have d8: "drop (k + 8) bs = ?e @ enc_args args"
      using arg_cong [OF d, of "drop 8"] by (simp add: e add.commute)
    have g2: "copy_out (slot_ptr i q + (of_nat k + 8)) (of_nat (length ?e)) q = ?e"
      using get [of "k + 8" "length ?e"] len e d8 by (simp add: add.assoc)
    have le1: "8 \<le> (of_nat (length (enc_args (a # args))) :: usize)"
      using assms(3) len e by (simp add: word_le_nat_alt unat_small enc_args_Cons del: of_nat_add)
    have r1: "of_nat (length (enc_args (a # args))) - 8 = (of_nat (length ?e + length (enc_args args)) :: usize)"
      by (simp add: enc_args_Cons e)
    have le2: "of_nat (length ?e) \<le> (of_nat (length ?e + length (enc_args args)) :: usize)"
      using assms(3) len e by (simp add: word_le_nat_alt unat_small del: of_nat_add)
    have r2: "of_nat (length ?e + length (enc_args args)) - of_nat (length ?e) = (of_nat (length (enc_args args)) :: usize)"
      by simp
    show ?thesis
      using Cons.IH [OF ok(2), of "k + length (enc_arg a)"] nx len
      by (simp add: False g1 g2 le1 r1 le2 r2 codec_roundtrip [OF ok(1)] e add.assoc del: of_nat_add)
        (simp add: add.assoc)
  qed
qed simp

section \<open>Records\<close>

definition slot_reads :: "log_env \<Rightarrow> bool \<Rightarrow> interner \<Rightarrow> log_format \<Rightarrow> u8 list \<Rightarrow> bool" where
  "slot_reads env use_interner si f slot \<longleftrightarrow> (case f of
     Compiled c \<Rightarrow> slot = []
   | View p n \<Rightarrow>
       (if use_interner then \<exists>i. slot = le32 i \<and> pool_valid (si_pool si) i \<and> interner_get si i = le_text env p n
        else slot = le64 p @ le64 n))"

definition record_bytes :: "log_env \<Rightarrow> bool \<Rightarrow> log_level \<Rightarrow> log_format \<Rightarrow> arg list \<Rightarrow> u8 list \<Rightarrow> u8 list \<Rightarrow> u8 list" where
  "record_bytes env use_interner level f args pad slot =
     le64 (of_nat (24 + length slot + length (enc_args args))) @ le64 (le_addr env (instance_of use_interner f args))
     @ [level_code level] @ pad @ slot @ enc_args args"

definition is_record :: "log_env \<Rightarrow> bool \<Rightarrow> interner \<Rightarrow> log_level \<times> log_format \<times> arg list \<Rightarrow> u8 list \<Rightarrow> bool" where
  "is_record env use_interner si c bs \<longleftrightarrow> (case c of (level, f, args) \<Rightarrow>
     list_all arg_ok args \<and> (\<exists>pad slot. length pad = 7 \<and> slot_reads env use_interner si f slot
       \<and> bs = record_bytes env use_interner level f args pad slot))"

definition record_length :: "bool \<Rightarrow> log_format \<Rightarrow> arg list \<Rightarrow> nat" where
  "record_length use_interner f args =
     unat (PAYLOAD_HEADER_SIZE (instance_of use_interner f args)) + length (enc_args args)"

lemmas header_defs = PAYLOAD_HEADER_SIZE_def PAYLOAD_MIN_HEADER_SIZE_def IS_COMPILED_FMT_def FMT_SLOT_SIZE_def
  instance_of_def

lemma slot_length:
  "slot_reads env use_interner si f slot \<Longrightarrow>
     PAYLOAD_HEADER_SIZE (instance_of use_interner f args) = of_nat (24 + length slot) \<and> length slot \<le> 16"
  by (auto simp: slot_reads_def header_defs split: log_format.splits if_splits)

lemma record_length_eq:
  "slot_reads env use_interner si f slot \<Longrightarrow> record_length use_interner f args = 24 + length slot + length (enc_args args)"
  using slot_length [of env use_interner si f slot args] by (simp add: record_length_def unat_small del: of_nat_add)

lemma length_record_bytes:
  "length pad = 7 \<Longrightarrow> length (record_bytes env use_interner level f args pad slot) = 24 + length slot + length (enc_args args)"
  by (simp add: record_bytes_def)

lemma slot_reads_keep:
  assumes "slot_reads env use_interner si f slot"
    and "\<And>j. pool_valid (si_pool si) j \<Longrightarrow> pool_valid (si_pool si') j \<and> interner_get si' j = interner_get si j"
  shows "slot_reads env use_interner si' f slot"
  using assms by (fastforce simp: slot_reads_def split: log_format.splits)

lemma header_size_eq:
  "of_nat (unat (PAYLOAD_HEADER_SIZE ds)) = PAYLOAD_HEADER_SIZE ds"
  by simp

lemma serialize_to_eq:
  fixes use_interner f args
  assumes "list_all arg_ok args"
  defines "ds \<equiv> instance_of use_interner f args" and "n \<equiv> of_nat (record_length use_interner f args)"
  shows "serialize_to env use_interner level f args heads q si = do {
    (status, out, q) \<leftarrow> spsc_reserve (le_dbg env) n PAYLOAD_ALIGN heads q;
    (if status = Dropped then Some (Dropped, q, si)
     else do {
       (q, si) \<leftarrow> write_header env use_interner out n (le_addr env ds) level f q si;
       let (cursor, q) = write_args (out + PAYLOAD_HEADER_SIZE ds) args q;
       fpag_dcheck (le_dbg env) (cursor - out = n);
       Some (EnqueueOk, spsc_commit n q, si)
     })
  }"
proof -
  have n: "n = PAYLOAD_HEADER_SIZE ds + args_body_size args"
    by (simp add: n_def record_length_def ds_def args_body_size_eq [OF assms(1)])
  show ?thesis
  proof (cases "args = []")
    case True
    then have w: "ds = instance_of use_interner f []" "n = PAYLOAD_HEADER_SIZE ds" "args = []" by (simp_all add: ds_def n)
    show ?thesis unfolding w(2,3) serialize_to_def
      by (auto simp: w(1) Let_def intro!: Option.bind_cong split: prod.split)
  next
    case False
    then show ?thesis unfolding n serialize_to_def by (simp add: ds_def Let_def fixed_size_eq cong: if_cong)
  qed
qed

lemma header_words:
  assumes "ring_ok q" "length buf \<le> unat (q_capacity q)" "length b1 = 8" "length b2 = 8"
    "buf = b1 @ b2 @ [b3] @ rest"
  shows "copy_in (slot_ptr i q + 8 + 8) [l] (copy_in (slot_ptr i q + 8) (le64 func) (copy_in (slot_ptr i q) (le64 t) (window i buf q)))
    = window i (le64 t @ le64 func @ [l] @ rest) q"
proof -
  have 1: "copy_in (slot_ptr i q) (le64 t) (window i buf q) = window i (le64 t @ b2 @ [b3] @ rest) q"
    using copy_in_window [OF assms(1), of 0 "le64 t" buf i] splice_mid [of "[]" 0 b1 "le64 t" "b2 @ [b3] @ rest"] assms by simp
  have 2: "copy_in (slot_ptr i q + 8) (le64 func) (window i (le64 t @ b2 @ [b3] @ rest) q)
      = window i (le64 t @ le64 func @ [b3] @ rest) q"
    using copy_in_window [OF assms(1), of 8 "le64 func" "le64 t @ b2 @ [b3] @ rest" i]
      splice_mid [of "le64 t" 8 b2 "le64 func" "[b3] @ rest"] assms by simp
  have 3: "copy_in (slot_ptr i q + 16) [l] (window i (le64 t @ le64 func @ [b3] @ rest) q)
      = window i (le64 t @ le64 func @ [l] @ rest) q"
    using copy_in_window [OF assms(1), of 16 "[l]" "le64 t @ le64 func @ [b3] @ rest" i]
      splice_mid [of "le64 t @ le64 func" 16 "[b3]" "[l]" rest] assms by simp
  show ?thesis using 1 2 3 by (simp add: add.assoc)
qed

lemma split_buffer:
  assumes "24 + n \<le> length buf"
  obtains b1 b2 b3 pad slot rest where "buf = b1 @ b2 @ [b3] @ pad @ slot @ rest" "length b1 = 8" "length b2 = 8"
    "length pad = 7" "length slot = n" "rest = drop (24 + n) buf"
proof -
  have e: "buf = take 8 buf @ take 8 (drop 8 buf) @ [buf ! 16] @ take 7 (drop 17 buf) @ take n (drop 24 buf) @ drop (24 + n) buf"
  proof -
    have "drop 16 buf = [buf ! 16] @ drop 17 buf" using assms Cons_nth_drop_Suc [of 16 buf] by simp
    then have "drop 16 buf = [buf ! 16] @ take 7 (drop 17 buf) @ take n (drop 24 buf) @ drop (24 + n) buf"
      using append_take_drop_id [of 7 "drop 17 buf"] append_take_drop_id [of n "drop 24 buf"] by (simp add: add.commute)
    then show ?thesis
      using append_take_drop_id [of 8 buf] append_take_drop_id [of 8 "drop 8 buf"] by (metis drop_drop numeral_Bit0)
  qed
  show thesis by (rule that [OF e]) (use assms in simp_all)
qed

lemma write_header_window:
  assumes ok: "ring_ok q" and len: "length buf \<le> unat (q_capacity q)" "length buf = record_length use_interner f args"
    and si: "interner_ok (le_os env) si" "case f of View p n \<Rightarrow> name_ok (le_text env p n) | _ \<Rightarrow> True"
    and run: "write_header env use_interner (slot_ptr i q) t func level f (window i buf q) si = Some (q', si')"
  shows "\<exists>pad slot. length pad = 7 \<and> slot_reads env use_interner (fst si') f slot
    \<and> q' = window i (le64 t @ le64 func @ [level_code level] @ pad @ slot @ drop (24 + length slot) buf) q
    \<and> interner_ok (le_os env) si'
    \<and> (\<forall>j. pool_valid (si_pool (fst si)) j \<longrightarrow>
         pool_valid (si_pool (fst si')) j \<and> interner_get (fst si') j = interner_get (fst si) j)"
proof -
  define w :: nat where "w = (case f of Compiled c \<Rightarrow> 0 | View p n \<Rightarrow> (if use_interner then 4 else 16))"
  have "unat (PAYLOAD_HEADER_SIZE (instance_of use_interner f args)) = 24 + w"
    by (simp add: header_defs w_def split: log_format.splits)
  then have "24 + w \<le> length buf" using len(2) by (simp add: record_length_def)
  then obtain b1 b2 b3 pad s0 rest where b: "buf = b1 @ b2 @ [b3] @ pad @ s0 @ rest" "length b1 = 8" "length b2 = 8"
    "length pad = 7" "length s0 = w" "rest = drop (24 + w) buf" by (rule split_buffer)
  let ?hd = "le64 t @ le64 func @ [level_code level] @ pad"
  note h = header_words [OF ok len(1) b(2,3,1), of i "level_code level" func t]
  have le: "length (?hd @ s0 @ rest) \<le> unat (q_capacity q)" using len(1) unfolding b(1) using b(2-5) by simp
  have put: "copy_in (slot_ptr i q + 8 + 8 + 8) slot (window i (?hd @ s0 @ rest) q) = window i (?hd @ slot @ rest) q"
    if "length slot = w" for slot
    using copy_in_window [OF ok, of 24 slot "?hd @ s0 @ rest" i] splice_mid [of ?hd 24 s0 slot rest] b(4,5) le that
    by (simp add: add.assoc)
  show ?thesis
  proof (cases f)
    case (Compiled c)
    then have "q' = window i (?hd @ s0 @ rest) q" "si' = si" "s0 = []"
      using run h b(5) by (auto simp: w_def write_header_def checks Let_def)
    then show ?thesis using b(4,6) w_def si(1) Compiled by (intro exI [of _ pad] exI [of _ "[]"]) (simp add: slot_reads_def)
  next
    case (View p n)
    show ?thesis
    proof (cases use_interner)
      case True
      obtain k where k: "interner_store (le_rounds env) (le_hash env) (le_dbg env) (le_os env) (le_text env p n) si = Some (k, si')"
        and q': "q' = copy_in (slot_ptr i q + 8 + 8 + 8) (le32 k) (window i (?hd @ s0 @ rest) q)"
        using run h View True by (auto simp: write_header_def checks Let_def bind_eq_Some_conv)
      have "name_ok (le_text env p n)" using si(2) View by simp
      note st = interner_store_spec [OF si(1) this k]
      show ?thesis using put [of "le32 k"] b(4,6) w_def View True st q'
        by (intro exI [of _ pad] exI [of _ "le32 k"]) (auto simp: slot_reads_def)
    next
      case False
      then have "q' = copy_in (slot_ptr i q + 8 + 8 + 8) (le64 p @ le64 n) (window i (?hd @ s0 @ rest) q)" "si' = si"
        using run h View by (auto simp: write_header_def checks Let_def)
      then show ?thesis using put [of "le64 p @ le64 n"] b(4,6) w_def View False si(1)
        by (intro exI [of _ pad] exI [of _ "le64 p @ le64 n"]) (auto simp: slot_reads_def)
    qed
  qed
qed

definition ring_aligned :: "spsc \<Rightarrow> bool" where
  "ring_aligned q \<longleftrightarrow> 8 \<le> q_capacity q \<and> 8 dvd unat (q_data q)"

lemma record_message_ok:
  "ring_aligned q \<Longrightarrow> length bs \<le> unat (q_capacity q) \<Longrightarrow> message_ok q (PAYLOAD_ALIGN, bs)"
  by (simp add: message_ok_def ring_aligned_def PAYLOAD_ALIGN_def is_power_of_two_def)

lemma slot_aligned:
  assumes "ring_ok q" "ring_aligned q" "8 dvd A"
  shows "slot_ptr A q mod 8 = 0"
proof -
  have "unat (8 :: usize) dvd unat (q_capacity q)"
    using assms by (intro pow2_dvd) (simp_all add: ring_ok_def ring_aligned_def is_power_of_two_def)
  then have "8 dvd A mod unat (q_capacity q)" using assms(3) by (simp add: dvd_mod)
  then show ?thesis using slot_address(2) [OF assms(1), of A] assms(2)
    by (simp add: slot_ptr_def word_mod_dvd ring_aligned_def)
qed

text \<open>What interning a format string needs: the string is not too long for a view.\<close>

definition format_ok :: "log_env \<Rightarrow> log_format \<Rightarrow> bool" where
  "format_ok env f \<longleftrightarrow> (case f of View p n \<Rightarrow> name_ok (le_text env p n) | Compiled c \<Rightarrow> True)"

definition interns :: "log_env \<Rightarrow> bool \<Rightarrow> log_format \<Rightarrow> interner \<times> vm \<Rightarrow> bool" where
  "interns env use_interner f si \<longleftrightarrow> (case f of
     View p n \<Rightarrow> use_interner \<longrightarrow>
       interner_store (le_rounds env) (le_hash env) (le_dbg env) (le_os env) (le_text env p n) si \<noteq> None
   | Compiled c \<Rightarrow> True)"

lemma write_header_runs:
  "out mod 8 = 0 \<Longrightarrow> (write_header env use_interner out t func level f q si \<noteq> None) = interns env use_interner f si"
  by (auto simp: write_header_def interns_def Let_def bind_eq_None_conv bind_eq_Some_conv split: log_format.splits)

lemma serialize_drop:
  assumes rep: "spsc_rep q H ms" and al: "ring_aligned q" and args: "list_all arg_ok args"
    and len: "record_length use_interner f args \<le> unat (q_capacity q)" and md: "q_mode q = Drop"
    and full: "H + unat (q_capacity q) < ceil_to (layout H ms) 8 + record_length use_interner f args"
  shows "serialize_to env use_interner level f args heads q si
    = Some (Dropped, q\<lparr>q_dropped_count := q_dropped_count q + 1\<rparr>, si)"
proof -
  have ok: "message_ok q (PAYLOAD_ALIGN, replicate (record_length use_interner f args) 0)"
    using al len by (intro record_message_ok) simp_all
  show ?thesis using reserve_spec [OF rep ok, of "le_dbg env" heads] full md
    by (simp add: serialize_to_eq [OF args] PAYLOAD_ALIGN_def)
qed

lemma serialize_fits:
  assumes rep: "spsc_rep q H ms" and al: "ring_aligned q" and args: "list_all arg_ok args"
    and len: "record_length use_interner f args \<le> unat (q_capacity q)"
    and fit: "ceil_to (layout H ms) 8 + record_length use_interner f args \<le> H + unat (q_capacity q)"
    and si: "interner_ok (le_os env) si" "format_ok env f"
  shows "serialize_to env use_interner level f args heads q si \<noteq> None \<longleftrightarrow> interns env use_interner f si"
    and "serialize_to env use_interner level f args heads q si = Some (st, q', si') \<Longrightarrow>
      st = EnqueueOk
      \<and> (\<exists>bs. spsc_rep q' H (ms @ [(PAYLOAD_ALIGN, bs)]) \<and> length bs = record_length use_interner f args
           \<and> is_record env use_interner (fst si') (level, f, args) bs)
      \<and> q_capacity q' = q_capacity q \<and> q_data q' = q_data q \<and> q_mode q' = q_mode q
      \<and> interner_ok (le_os env) si'
      \<and> (\<forall>j. pool_valid (si_pool (fst si)) j \<longrightarrow>
           pool_valid (si_pool (fst si')) j \<and> interner_get (fst si') j = interner_get (fst si) j)"
proof -
  let ?n = "record_length use_interner f args" and ?cap = "unat (q_capacity q)" and ?ds = "instance_of use_interner f args"
  define A where "A = ceil_to (layout H ms) 8"
  define q1 where "q1 = q\<lparr>q_tail_cache := of_nat A\<rparr>"
  define buf where "buf = ring_get ?cap A ?n (q_ring q)"
  have u8: "unat PAYLOAD_ALIGN = 8" by (simp add: PAYLOAD_ALIGN_def)
  have ring: "ring_ok q1" using rep by (simp add: q1_def spsc_rep_def spsc_core_def)
  have c1: "q_capacity q1 = q_capacity q" "q_ring q1 = q_ring q" "ring_aligned q1" using al by (simp_all add: q1_def ring_aligned_def)
  have lb: "length buf = ?n" "length buf \<le> unat (q_capacity q1)" using len c1 by (simp_all add: buf_def ring_get_def)
  have ok: "message_ok q (PAYLOAD_ALIGN, bs)" if "length bs = ?n" for bs using al len that by (intro record_message_ok) simp_all
  have sp: "q_data q + ring_index (of_nat A) q = slot_ptr A q1" by (simp add: slot_ptr_def q1_def)
  have res: "spsc_reserve (le_dbg env) (of_nat ?n) PAYLOAD_ALIGN heads q = Some (EnqueueOk, slot_ptr A q1, q1)"
    using reserve_spec [OF rep ok [of buf], of "le_dbg env" heads] lb(1) fit
    by (simp add: u8 sp [unfolded q1_def] A_def [symmetric] q1_def)
  have self: "q1 = window A buf q1" using window_self [OF ring, of ?n A] len c1 by (simp add: buf_def)
  have a8: "slot_ptr A q1 mod 8 = 0" using c1(3) ceil_to_props(1) [of 8] by (intro slot_aligned [OF ring]) (simp_all add: A_def)
  have go: "write_args (slot_ptr A q1 + PAYLOAD_HEADER_SIZE ?ds) args q2 = (slot_ptr A q1 + of_nat ?n, window A bs q1)
      \<and> length bs = ?n \<and> is_record env use_interner (fst si2) (level, f, args) bs"
    if pad: "length pad = 7" "slot_reads env use_interner (fst si2) f slot"
      "bs = record_bytes env use_interner level f args pad slot"
      "q2 = window A (le64 (of_nat ?n) @ le64 (le_addr env ?ds) @ [level_code level] @ pad @ slot @ drop (24 + length slot) buf) q1"
    for pad slot q2 si2 bs
  proof -
    let ?xs = "le64 (of_nat ?n) @ le64 (le_addr env ?ds) @ [level_code level] @ pad @ slot"
    have n: "?n = 24 + length slot + length (enc_args args)" by (rule record_length_eq [OF pad(2)])
    have "write_args (slot_ptr A q1 + of_nat (24 + length slot)) args (window A (?xs @ drop (24 + length slot) buf) q1)
      = (slot_ptr A q1 + of_nat (24 + length slot + length (enc_args args)), window A (?xs @ enc_args args) q1)"
      using lb n pad(1) by (intro write_args_window [OF ring args]) simp_all
    moreover have "?xs @ enc_args args = bs" by (simp add: pad(3) record_bytes_def n)
    ultimately show ?thesis
      using slot_length [OF pad(2), of args] n pad args
      by (auto simp: length_record_bytes is_record_def simp del: of_nat_add)
  qed
  have hw: "\<exists>pad slot. length pad = 7 \<and> slot_reads env use_interner (fst si2) f slot
    \<and> q2 = window A (le64 (of_nat ?n) @ le64 (le_addr env ?ds) @ [level_code level] @ pad @ slot @ drop (24 + length slot) buf) q1
    \<and> interner_ok (le_os env) si2 \<and> (\<forall>j. pool_valid (si_pool (fst si)) j \<longrightarrow>
         pool_valid (si_pool (fst si2)) j \<and> interner_get (fst si2) j = interner_get (fst si) j)"
    if "write_header env use_interner (slot_ptr A q1) (of_nat ?n) (le_addr env ?ds) level f q1 si = Some (q2, si2)" for q2 si2
    using that si lb by (subst (asm) self, intro write_header_window [OF ring]) (simp_all add: format_ok_def split: log_format.splits)
  have wr: "window A bs q1 = q\<lparr>q_tail_cache := of_nat A, q_ring := ring_put ?cap A bs (q_ring q)\<rparr>" for bs
    by (simp add: window_def q1_def)
  note eq = serialize_to_eq [OF args, of env use_interner level f heads q si, unfolded res]
  show "serialize_to env use_interner level f args heads q si \<noteq> None \<longleftrightarrow> interns env use_interner f si"
  proof (cases "write_header env use_interner (slot_ptr A q1) (of_nat ?n) (le_addr env ?ds) level f q1 si")
    case None
    then show ?thesis using write_header_runs [OF a8, of env use_interner "of_nat ?n" "le_addr env ?ds" level f q1 si] by (simp add: eq)
  next
    case (Some r)
    obtain q2 si2 where r: "r = (q2, si2)" by (cases r)
    obtain pad slot where p: "length pad = 7" "slot_reads env use_interner (fst si2) f slot"
      "q2 = window A (le64 (of_nat ?n) @ le64 (le_addr env ?ds) @ [level_code level] @ pad @ slot @ drop (24 + length slot) buf) q1"
      using hw Some r by blast
    show ?thesis using go [OF p(1,2) refl p(3)] Some r write_header_runs [OF a8, of env use_interner "of_nat ?n" "le_addr env ?ds" level f q1 si]
      by (simp add: eq)
  qed
  assume run: "serialize_to env use_interner level f args heads q si = Some (st, q', si')"
  then obtain q2 si2 where w: "write_header env use_interner (slot_ptr A q1) (of_nat ?n) (le_addr env ?ds) level f q1 si = Some (q2, si2)"
    by (auto simp: eq bind_eq_Some_conv)
  obtain pad slot where p: "length pad = 7" "slot_reads env use_interner (fst si2) f slot"
    "q2 = window A (le64 (of_nat ?n) @ le64 (le_addr env ?ds) @ [level_code level] @ pad @ slot @ drop (24 + length slot) buf) q1"
    and k: "interner_ok (le_os env) si2" "\<forall>j. pool_valid (si_pool (fst si)) j \<longrightarrow>
         pool_valid (si_pool (fst si2)) j \<and> interner_get (fst si2) j = interner_get (fst si) j"
    using hw [OF w] by blast
  define bs where "bs = record_bytes env use_interner level f args pad slot"
  note g = go [OF p(1,2) bs_def p(3)]
  have r: "st = EnqueueOk" "q' = spsc_commit (of_nat ?n) (window A bs q1)" "si' = si2"
    using run w g by (simp_all add: eq checks)
  have "spsc_rep q' H (ms @ [(PAYLOAD_ALIGN, bs)])"
    using written_rep [OF rep ok [of bs]] g fit unfolding r(2) wr by (simp add: u8 A_def)
  then show "st = EnqueueOk
      \<and> (\<exists>bs. spsc_rep q' H (ms @ [(PAYLOAD_ALIGN, bs)]) \<and> length bs = record_length use_interner f args
           \<and> is_record env use_interner (fst si') (level, f, args) bs)
      \<and> q_capacity q' = q_capacity q \<and> q_data q' = q_data q \<and> q_mode q' = q_mode q
      \<and> interner_ok (le_os env) si'
      \<and> (\<forall>j. pool_valid (si_pool (fst si)) j \<longrightarrow>
           pool_valid (si_pool (fst si')) j \<and> interner_get (fst si') j = interner_get (fst si) j)"
    using r g k by (auto simp: wr spsc_commit_def Let_def)
qed

text \<open>What the formatting of a call yields.\<close>

fun message_of :: "log_env \<Rightarrow> log_format \<Rightarrow> arg list \<Rightarrow> name" where
  "message_of env (Compiled c) args = le_cformat env c args"
| "message_of env (View p n) args = (if args = [] then le_text env p n else le_vformat env (le_text env p n) args)"

lemma deserialize_record:
  assumes ring: "ring_ok q" and get: "ring_get (unat (q_capacity q)) A (length bs) (q_ring q) = bs"
    and len: "length bs \<le> 2 ^ 36" and rec: "is_record env use_interner si (level, f, args) bs"
  shows "deserialize env (instance_of use_interner f args) (slot_ptr A q) (of_nat (length bs)) q si = Some (message_of env f args)"
    and "word_of_le (copy_out (slot_ptr A q) 8 q) = (of_nat (length bs) :: usize)"
    and "word_of_le (copy_out (slot_ptr A q + 8) 8 q) = le_addr env (instance_of use_interner f args)"
    and "copy_out (slot_ptr A q + 16) 1 q = [level_code level]"
    and "24 \<le> length bs"
proof -
  obtain pad slot where p: "length pad = 7" "slot_reads env use_interner si f slot"
    and bs: "bs = record_bytes env use_interner level f args pad slot" and ok: "list_all arg_ok args"
    using rec by (auto simp: is_record_def)
  note lb = length_record_bytes [OF p(1), of env use_interner level f args slot, folded bs]
  note at = copy_out_part [OF ring get len]
  have part: "take (length ys) (drop k bs) = ys" "k + length ys \<le> length bs"
    if "bs = xs @ ys @ zs" "length xs = k" for xs ys zs k using that by simp_all
  have s: "copy_out (slot_ptr A q + of_nat k) (of_nat (length ys)) q = ys" if "bs = xs @ ys @ zs" "length xs = k" for xs ys zs k
    using at [of k "length ys"] part [OF that] by simp
  obtain N where N: "N = (of_nat (length bs) :: usize)" by blast
  let ?a = "le64 (le_addr env (instance_of use_interner f args))"
  have e: "bs = le64 N @ ?a @ [level_code level] @ pad @ slot @ enc_args args"
    unfolding N lb using bs by (simp add: record_bytes_def add.assoc)
  show "word_of_le (copy_out (slot_ptr A q) 8 q) = (of_nat (length bs) :: usize)"
    unfolding N [symmetric] using s [of "[]" "le64 N" _ 0] e by simp
  show "word_of_le (copy_out (slot_ptr A q + 8) 8 q) = le_addr env (instance_of use_interner f args)"
    using s [of "le64 N" ?a _ 8] e by simp
  show "copy_out (slot_ptr A q + 16) 1 q = [level_code level]"
    using s [of "le64 N @ ?a" "[level_code level]" _ 16] e by simp
  show "24 \<le> length bs" using lb by simp
  obtain hd where hd: "bs = hd @ slot @ enc_args args" "length hd = 24"
    by (rule that [of "le64 N @ ?a @ [level_code level] @ pad"]) (use e p(1) in simp_all)
  have sl: "copy_out (slot_ptr A q + of_nat (24 + k)) (of_nat (length ys)) q = ys"
    if "slot = xs @ ys @ zs" "length xs = k" for xs ys zs k
    using s [of "hd @ xs" ys "zs @ enc_args args" "24 + k"] hd that by simp
  have dr: "drop (24 + length slot) bs = enc_args args" "24 + length slot \<le> length bs"
    using hd by (metis append.assoc append_eq_conv_conj length_append) (simp add: lb)
  have da: "decode_args (le_dbg env) (map arg_type_of args) (slot_ptr A q + of_nat (24 + length slot))
      (of_nat (length (enc_args args))) q = Some args"
    by (rule decode_args_part [OF ring get len ok dr])
  have sz: "of_nat (length bs) - PAYLOAD_HEADER_SIZE (instance_of use_interner f args) = (of_nat (length (enc_args args)) :: usize)"
    using slot_length [OF p(2), of args] lb by simp
  show "deserialize env (instance_of use_interner f args) (slot_ptr A q) (of_nat (length bs)) q si = Some (message_of env f args)"
  proof (cases f)
    case (Compiled c)
    then have "slot = []" using p(2) by (simp add: slot_reads_def)
    then show ?thesis using da sz Compiled by (simp add: deserialize_def instance_of_def PAYLOAD_MIN_HEADER_SIZE_def Let_def)
  next
    case (View v n)
    show ?thesis
    proof (cases use_interner)
      case True
      then obtain i where i: "slot = le32 i" "interner_get si i = le_text env v n" using p(2) View by (auto simp: slot_reads_def)
      then show ?thesis using da sz View True sl [of "[]" "le32 i" "[]" 0]
        by (simp add: deserialize_def instance_of_def PAYLOAD_MIN_HEADER_SIZE_def FMT_SLOT_SIZE_def Let_def add.assoc)
    next
      case False
      then have i: "slot = le64 v @ le64 n" using p(2) View by (auto simp: slot_reads_def)
      then show ?thesis using da sz View False sl [of "[]" "le64 v" "le64 n" 0] sl [of "le64 v" "le64 n" "[]" 8]
        by (simp add: deserialize_def instance_of_def PAYLOAD_MIN_HEADER_SIZE_def FMT_SLOT_SIZE_def Let_def add.assoc)
    qed
  qed
qed

end
