(* ===== verification/Async_Logger.thy ===== *)
theory Async_Logger
  imports Log_Record
begin

text \<open>
  The two loggers and the batch of the backend thread (\<^verbatim>\<open>include/fpag/logging/sync/sync_logger.h\<close>,
  \<^verbatim>\<open>async/async_logger.h\<close> and \<^verbatim>\<open>async/backend_worker.h\<close>). A sink is a template parameter of the
  code: here it is a state and the function its \<^verbatim>\<open>log\<close> member is. The loop of a batch has a bound on
  its rounds, and one round more than there are records is enough.
\<close>

section \<open>Definitions\<close>

record log_entry =
  en_level :: log_level
  en_message :: name
  en_timestamp_ns :: u64

type_synonym log_call = "log_level \<times> log_format \<times> arg list"

subsection \<open>The synchronous logger\<close>

record 's sync_logger =
  sl_sink :: "'s option"

definition sync_init :: "'s \<Rightarrow> 's sync_logger \<Rightarrow> 's sync_logger" where
  "sync_init sink lg = lg\<lparr>sl_sink := Some sink\<rparr>"

definition has_sink :: "'s sync_logger \<Rightarrow> bool" where
  "has_sink lg \<longleftrightarrow> sl_sink lg \<noteq> None"

definition sync_flush :: "('s \<Rightarrow> 's) \<Rightarrow> 's sync_logger \<Rightarrow> 's sync_logger" where
  "sync_flush flush lg = (case sl_sink lg of Some s \<Rightarrow> lg\<lparr>sl_sink := Some (flush s)\<rparr> | None \<Rightarrow> lg)"

definition sync_log ::
  "log_env \<Rightarrow> log_level \<Rightarrow> (log_entry \<Rightarrow> 's \<Rightarrow> 's) \<Rightarrow> u64 \<Rightarrow> log_call \<Rightarrow> 's sync_logger \<Rightarrow> 's sync_logger option" where
  "sync_log env min_level log now c lg = (case c of (level, f, args) \<Rightarrow>
     if \<not> should_log min_level level then Some lg
     else do {
       fpag_dcheck (le_dbg env) (has_sink lg);
       (case sl_sink lg of
          None \<Rightarrow> Some lg
        | Some sink \<Rightarrow>
            (let msg = (case f of
                 Compiled c \<Rightarrow> le_cformat env c args
               | View p n \<Rightarrow> le_vformat env (le_text env p n) args)
             in Some (lg\<lparr>sl_sink := Some (log \<lparr>en_level = level, en_message = msg, en_timestamp_ns = now\<rparr> sink)\<rparr>)))
     })"

subsection \<open>The producer of the asynchronous logger\<close>

definition async_log ::
  "log_env \<Rightarrow> bool \<Rightarrow> log_level \<Rightarrow> usize list \<Rightarrow> log_call \<Rightarrow> spsc \<Rightarrow> interner \<times> vm \<Rightarrow> (spsc \<times> interner \<times> vm) option" where
  "async_log env use_interner min_level heads c q si = (case c of (level, f, args) \<Rightarrow>
     if \<not> should_log min_level level then Some (q, si)
     else do {
       (status, q, si) \<leftarrow> serialize_to env use_interner level f args heads q si;
       Some (q, si)
     })"

fun async_log_all ::
  "log_env \<Rightarrow> bool \<Rightarrow> log_level \<Rightarrow> log_call list \<Rightarrow> spsc \<Rightarrow> interner \<times> vm \<Rightarrow> (spsc \<times> interner \<times> vm) option" where
  "async_log_all env use_interner min_level [] q si = Some (q, si)"
| "async_log_all env use_interner min_level (c # cs) q si = do {
     (q, si) \<leftarrow> async_log env use_interner min_level [] c q si;
     async_log_all env use_interner min_level cs q si
   }"

subsection \<open>A batch of the backend thread\<close>

fun batch_loop ::
  "nat \<Rightarrow> log_env \<Rightarrow> interner \<Rightarrow> u64 \<Rightarrow> (log_entry \<Rightarrow> 's \<Rightarrow> 's) \<Rightarrow> usize \<Rightarrow> usize \<Rightarrow> spsc \<Rightarrow> 's \<Rightarrow> (spsc \<times> 's) option" where
  "batch_loop 0 env si now log current target q s = None"
| "batch_loop (Suc rounds) env si now log current target q s =
     (if current < target then do {
        data \<leftarrow> spsc_peek (le_dbg env) PAYLOAD_MIN_HEADER_SIZE PAYLOAD_ALIGN q;
        let payload_size = word_of_le (copy_out data 8 q);
        fpag_dcheck (le_dbg env) (data mod 8 = 0);
        let func = word_of_le (copy_out (data + 8) 8 q);
        level \<leftarrow> level_of (hd (copy_out (data + 16) 1 q));
        fpag_dcheck (le_dbg env) (PAYLOAD_MIN_HEADER_SIZE \<le> payload_size);
        ds \<leftarrow> le_inst env func;
        msg \<leftarrow> deserialize env ds data payload_size q si;
        q \<leftarrow> spsc_discard (le_dbg env) payload_size PAYLOAD_ALIGN q;
        aligned_head \<leftarrow> round_up (le_dbg env) current PAYLOAD_ALIGN;
        let current = aligned_head + payload_size;
        let s = log \<lparr>en_level = level, en_message = msg, en_timestamp_ns = now\<rparr> s;
        batch_loop rounds env si now log current target q s
      }
      else Some (q, s))"

definition process_batch ::
  "nat \<Rightarrow> log_env \<Rightarrow> interner \<Rightarrow> u64 \<Rightarrow> (log_entry \<Rightarrow> 's \<Rightarrow> 's) \<Rightarrow> spsc \<Rightarrow> 's \<Rightarrow> (bool \<times> spsc \<times> 's) option" where
  "process_batch rounds env si now log q s =
     (let queue_size = Spsc_Queue.size_consumer q in
      if queue_size = 0 then Some (False, q, s)
      else do {
        let current_head = q_head_cache q;
        let target_head = current_head + queue_size;
        (q, s) \<leftarrow> batch_loop rounds env si now log current_head target_head q s;
        Some (True, q, s)
      })"

section \<open>The ring as a list of calls\<close>

definition linked :: "log_env \<Rightarrow> bool \<Rightarrow> log_call \<Rightarrow> bool" where
  "linked env use_interner c \<longleftrightarrow> (case c of (level, f, args) \<Rightarrow>
     le_inst env (le_addr env (instance_of use_interner f args)) = Some (instance_of use_interner f args))"

definition entry_of_call :: "log_env \<Rightarrow> u64 \<Rightarrow> log_call \<Rightarrow> log_entry" where
  "entry_of_call env now c = (case c of (level, f, args) \<Rightarrow>
     \<lparr>en_level = level, en_message = message_of env f args, en_timestamp_ns = now\<rparr>)"

definition holds_calls :: "log_env \<Rightarrow> bool \<Rightarrow> spsc \<Rightarrow> interner \<times> vm \<Rightarrow> nat \<Rightarrow> log_call list \<Rightarrow> bool" where
  "holds_calls env use_interner q si H cs \<longleftrightarrow> ring_aligned q \<and> interner_ok (le_os env) si
     \<and> (\<exists>bss. spsc_rep q H (map (Pair PAYLOAD_ALIGN) bss) \<and> list_all2 (is_record env use_interner (fst si)) cs bss)"

lemma is_record_keep:
  assumes "is_record env use_interner si c bs"
    and "\<And>j. pool_valid (si_pool si) j \<Longrightarrow> pool_valid (si_pool si') j \<and> interner_get si' j = interner_get si j"
  shows "is_record env use_interner si' c bs"
  using assms slot_reads_keep [of env use_interner si _ _ si'] by (fastforce simp: is_record_def split: prod.splits)

definition log_call_ok :: "log_env \<Rightarrow> bool \<Rightarrow> spsc \<Rightarrow> log_call \<Rightarrow> bool" where
  "log_call_ok env use_interner q c \<longleftrightarrow> (case c of (level, f, args) \<Rightarrow>
     list_all arg_ok args \<and> format_ok env f \<and> record_length use_interner f args \<le> unat (q_capacity q))"

definition call_length :: "bool \<Rightarrow> log_call \<Rightarrow> nat" where
  "call_length use_interner c = (case c of (level, f, args) \<Rightarrow> record_length use_interner f args)"

text \<open>
  Records of known sizes laid out one after the other at multiples of eight, from the head of the ring on:
  where they end, whether one more fits the capacity, and which of a sequence of records are accepted when
  each that does not fit is dropped.
\<close>

fun ring_end :: "('r \<Rightarrow> nat) \<Rightarrow> nat \<Rightarrow> 'r list \<Rightarrow> nat" where
  "ring_end sz p [] = p"
| "ring_end sz p (r # rs) = ring_end sz (ceil_to p 8 + sz r) rs"

definition ring_fits :: "('r \<Rightarrow> nat) \<Rightarrow> nat \<Rightarrow> nat \<Rightarrow> 'r list \<Rightarrow> 'r \<Rightarrow> bool" where
  "ring_fits sz cap head rs r \<longleftrightarrow> ceil_to (ring_end sz head rs) 8 + sz r \<le> head + cap"

fun accepted :: "('r \<Rightarrow> nat) \<Rightarrow> nat \<Rightarrow> nat \<Rightarrow> 'r list \<Rightarrow> 'r list \<Rightarrow> 'r list" where
  "accepted sz cap head rs [] = rs"
| "accepted sz cap head rs (c # cs) = accepted sz cap head (if ring_fits sz cap head rs c then rs @ [c] else rs) cs"

lemma ring_end_append [simp]: "ring_end sz p (rs @ rs') = ring_end sz (ring_end sz p rs) rs'"
  by (induction rs arbitrary: p) simp_all

lemma ring_end_le: "ring_end sz p rs \<le> p + sum_list (map (\<lambda>r. sz r + 7) rs)"
proof (induction rs arbitrary: p)
  case (Cons r rs)
  have "ceil_to p 8 < p + 8" by (rule ceil_to_props) simp
  then show ?case using Cons.IH [of "ceil_to p 8 + sz r"] by simp
qed simp

lemma ring_fits_sum: "sum_list (map (\<lambda>r. sz r + 7) (rs @ [r])) \<le> cap \<Longrightarrow> ring_fits sz cap head rs r"
  using ring_end_le [of sz head rs] ceil_to_props(3) [of 8 "ring_end sz head rs"] by (simp add: ring_fits_def)

lemma accepted_all: "sum_list (map (\<lambda>r. sz r + 7) (rs @ cs)) \<le> cap \<Longrightarrow> accepted sz cap head rs cs = rs @ cs"
proof (induction cs arbitrary: rs)
  case (Cons c cs)
  then have "ring_fits sz cap head rs c" by (intro ring_fits_sum) simp
  then show ?case using Cons by simp
qed simp

lemma accepted_bound: "length (accepted sz cap head rs cs) \<le> length rs + length cs"
proof (induction cs arbitrary: rs)
  case (Cons c cs)
  show ?case using Cons [of "rs @ [c]"] Cons [of rs] by simp
qed simp

lemma accepted_subset: "set (accepted sz cap head rs cs) \<subseteq> set rs \<union> set cs"
proof (induction cs arbitrary: rs)
  case (Cons c cs)
  show ?case using Cons [of "rs @ [c]"] Cons [of rs] by auto
qed simp

lemma records_keep:
  assumes "list_all2 (is_record env use_interner si) cs bss"
    and "\<forall>j. pool_valid (si_pool si) j \<longrightarrow> pool_valid (si_pool si') j \<and> interner_get si' j = interner_get si j"
  shows "list_all2 (is_record env use_interner si') cs bss"
  using assms(1) by (rule list_all2_mono) (use assms(2) in \<open>blast intro: is_record_keep\<close>)

lemma record_length_record:
  "is_record env use_interner si c bs \<Longrightarrow> length bs = call_length use_interner c"
  by (auto simp: is_record_def call_length_def length_record_bytes record_length_eq split: prod.splits)

lemma layout_calls:
  "list_all2 (is_record env use_interner si) cs bss \<Longrightarrow>
     layout H (map (Pair PAYLOAD_ALIGN) bss) = ring_end (call_length use_interner) H cs"
proof (induction cs bss arbitrary: H rule: list_all2_induct)
  case (Cons c cs bs bss)
  then show ?case using record_length_record [OF Cons.hyps(1)] by (simp add: PAYLOAD_ALIGN_def)
qed simp

text \<open>
  One call of the producer: with room it appends its record; without, in \<^verbatim>\<open>Mode::Drop\<close>, it only counts
  a dropped record.
\<close>

lemma async_log_step:
  assumes h: "holds_calls env use_interner q si H cs" and c: "log_call_ok env use_interner q c" "should_log min_level (fst c)"
    and md: "q_mode q = Drop" and run: "async_log env use_interner min_level heads c q si = Some (q', si')"
  shows "q_capacity q' = q_capacity q \<and> q_mode q' = Drop
    \<and> (if ring_fits (call_length use_interner) (unat (q_capacity q)) H cs c then holds_calls env use_interner q' si' H (cs @ [c])
       else holds_calls env use_interner q' si' H cs \<and> q' = q\<lparr>q_dropped_count := q_dropped_count q + 1\<rparr> \<and> si' = si)"
proof -
  obtain level f args where cd: "c = (level, f, args)" by (cases c)
  obtain bss where b: "spsc_rep q H (map (Pair PAYLOAD_ALIGN) bss)" "list_all2 (is_record env use_interner (fst si)) cs bss"
    and al: "ring_aligned q" and si: "interner_ok (le_os env) si" using h by (auto simp: holds_calls_def)
  have ok: "list_all arg_ok args" "format_ok env f" "record_length use_interner f args \<le> unat (q_capacity q)"
    using c(1) by (simp_all add: log_call_ok_def cd)
  obtain st where ser: "serialize_to env use_interner level f args heads q si = Some (st, q', si')"
    using run c(2) by (auto simp: async_log_def cd bind_eq_Some_conv)
  let ?T = "layout H (map (Pair PAYLOAD_ALIGN) bss)"
  have fits: "ring_fits (call_length use_interner) (unat (q_capacity q)) H cs c
      \<longleftrightarrow> ceil_to ?T 8 + record_length use_interner f args \<le> H + unat (q_capacity q)"
    by (simp add: ring_fits_def layout_calls [OF b(2)] cd call_length_def)
  show ?thesis
  proof (cases "ceil_to ?T 8 + record_length use_interner f args \<le> H + unat (q_capacity q)")
    case True
    obtain bs where bs: "spsc_rep q' H (map (Pair PAYLOAD_ALIGN) (bss @ [bs]))" "is_record env use_interner (fst si') c bs"
      and q': "q_capacity q' = q_capacity q" "q_data q' = q_data q" "q_mode q' = q_mode q"
      and si': "interner_ok (le_os env) si'" "\<forall>j. pool_valid (si_pool (fst si)) j \<longrightarrow>
           pool_valid (si_pool (fst si')) j \<and> interner_get (fst si') j = interner_get (fst si) j"
      using serialize_fits(2) [OF b(1) al ok(1,3) True si ok(2) ser] by (auto simp: cd)
    have "list_all2 (is_record env use_interner (fst si')) (cs @ [c]) (bss @ [bs])"
      using records_keep [OF b(2) si'(2)] bs(2) by (simp add: list_all2_appendI)
    moreover have "ring_aligned q'" using al q' by (simp add: ring_aligned_def)
    ultimately have "holds_calls env use_interner q' si' H (cs @ [c])"
      using bs(1) si'(1) unfolding holds_calls_def by blast
    then show ?thesis using q' md fits True by simp
  next
    case False
    then have d: "q' = q\<lparr>q_dropped_count := q_dropped_count q + 1\<rparr>" "si' = si"
      using serialize_drop [OF b(1) al ok(1,3) md, of env level heads si] ser by simp_all
    have "spsc_rep q' H ms = spsc_rep q H ms" for ms by (simp add: d spsc_rep_def)
    then have hc: "holds_calls env use_interner q' si' H cs" using b al si by (auto simp: holds_calls_def d ring_aligned_def)
    show ?thesis using hc d md fits False by simp
  qed
qed

lemma async_log_all_spec:
  assumes "holds_calls env use_interner q si H cs0" "list_all (log_call_ok env use_interner q) cs" "q_mode q = Drop"
    and "async_log_all env use_interner min_level cs q si = Some (q', si')"
  shows "holds_calls env use_interner q' si' H (accepted (call_length use_interner) (unat (q_capacity q)) H cs0
      (filter (\<lambda>c. should_log min_level (fst c)) cs)) \<and> q_capacity q' = q_capacity q"
  using assms
proof (induction cs arbitrary: q si cs0)
  case (Cons c cs)
  obtain q1 si1 where 1: "async_log env use_interner min_level [] c q si = Some (q1, si1)"
    and 2: "async_log_all env use_interner min_level cs q1 si1 = Some (q', si')"
    using Cons.prems(4) by (auto simp: bind_eq_Some_conv)
  have ok: "log_call_ok env use_interner q c" "list_all (log_call_ok env use_interner q) cs" using Cons.prems(2) by simp_all
  show ?case
  proof (cases "should_log min_level (fst c)")
    case True
    note st = async_log_step [OF Cons.prems(1) ok(1) True Cons.prems(3) 1]
    have "log_call_ok env use_interner q1 = log_call_ok env use_interner q" using st by (simp add: log_call_ok_def fun_eq_iff)
    moreover have "holds_calls env use_interner q1 si1 H
        (if ring_fits (call_length use_interner) (unat (q_capacity q)) H cs0 c then cs0 @ [c] else cs0)"
      using st by (cases "ring_fits (call_length use_interner) (unat (q_capacity q)) H cs0 c") auto
    moreover have "q_mode q1 = Drop" "q_capacity q1 = q_capacity q" using st by simp_all
    ultimately show ?thesis using Cons.IH [OF _ _ _ 2] ok(2) True by simp
  next
    case False
    then have "q1 = q" "si1 = si" using 1 by (auto simp: async_log_def split: prod.splits)
    then show ?thesis using Cons.IH [OF _ _ _ 2, of cs0] Cons.prems ok(2) False by simp
  qed
qed simp

text \<open>A call returns when its record fits and its format string can be interned.\<close>

lemma async_log_runs:
  assumes h: "holds_calls env use_interner q si H cs" and c: "log_call_ok env use_interner q c"
    and room: "sum_list (map (\<lambda>c. call_length use_interner c + 7) (cs @ [c])) \<le> unat (q_capacity q)"
    and int: "interns env use_interner (fst (snd c)) si"
  shows "\<exists>q' si'. async_log env use_interner min_level heads c q si = Some (q', si')"
proof -
  obtain level f args where cd: "c = (level, f, args)" by (cases c)
  obtain bss where b: "spsc_rep q H (map (Pair PAYLOAD_ALIGN) bss)" "list_all2 (is_record env use_interner (fst si)) cs bss"
    and al: "ring_aligned q" and si: "interner_ok (le_os env) si" using h by (auto simp: holds_calls_def)
  have ok: "list_all arg_ok args" "format_ok env f" "record_length use_interner f args \<le> unat (q_capacity q)"
    using c by (simp_all add: log_call_ok_def cd)
  let ?T = "layout H (map (Pair PAYLOAD_ALIGN) bss)"
  have len: "call_length use_interner c = record_length use_interner f args" by (simp add: call_length_def cd)
  have "ceil_to ?T 8 + record_length use_interner f args \<le> H + unat (q_capacity q)"
    using ring_fits_sum [OF room, of H] by (simp add: ring_fits_def layout_calls [OF b(2)] len)
  from serialize_fits(1) [OF b(1) al ok(1,3) this si ok(2), of level heads] int show ?thesis
    by (auto simp: async_log_def cd)
qed

lemma async_log_all_runs:
  assumes "holds_calls env use_interner q si H cs0" "list_all (log_call_ok env use_interner q) cs" "q_mode q = Drop"
    and "sum_list (map (\<lambda>c. call_length use_interner c + 7) (cs0 @ cs)) \<le> unat (q_capacity q)"
    and "list_all (\<lambda>c. \<forall>si. interns env use_interner (fst (snd c)) si) cs"
  shows "\<exists>q' si'. async_log_all env use_interner min_level cs q si = Some (q', si')"
  using assms
proof (induction cs arbitrary: q si cs0)
  case (Cons c cs)
  have ok: "log_call_ok env use_interner q c" "list_all (log_call_ok env use_interner q) cs" using Cons.prems(2) by simp_all
  obtain q1 si1 where 1: "async_log env use_interner min_level [] c q si = Some (q1, si1)"
    using async_log_runs [OF Cons.prems(1) ok(1), of min_level "[]"] Cons.prems(4,5) by (cases si) auto
  show ?case
  proof (cases "should_log min_level (fst c)")
    case True
    note st = async_log_step [OF Cons.prems(1) ok(1) True Cons.prems(3) 1]
    have "log_call_ok env use_interner q1 = log_call_ok env use_interner q" using st by (simp add: log_call_ok_def fun_eq_iff)
    moreover have "holds_calls env use_interner q1 si1 H (cs0 @ [c])"
      using st ring_fits_sum [of "call_length use_interner" cs0 c "unat (q_capacity q)" H] Cons.prems(4) by simp
    ultimately show ?thesis using Cons.IH [of q1 si1 "cs0 @ [c]"] st ok(2) Cons.prems(4,5) 1 by simp
  next
    case False
    then have "q1 = q" "si1 = si" using 1 by (auto simp: async_log_def split: prod.splits)
    then show ?thesis using Cons.IH [OF Cons.prems(1) ok(2) Cons.prems(3)] Cons.prems(4,5) 1 by simp
  qed
qed simp

section \<open>What a batch delivers\<close>

lemma peek_header:
  assumes "spsc_core q H ((PAYLOAD_ALIGN, bs) # ms)" "24 \<le> length bs"
  shows "spsc_peek dbg PAYLOAD_MIN_HEADER_SIZE PAYLOAD_ALIGN q = Some (slot_ptr (ceil_to H 8) q)"
proof -
  note hb = head_bytes [OF assms(1)]
  have "message_ok q (PAYLOAD_ALIGN, take 24 bs)" using hb(3) by (auto simp: message_ok_def)
  from peek_eq [OF assms(1) this, of dbg] hb(2) assms(2) show ?thesis
    by (simp add: PAYLOAD_MIN_HEADER_SIZE_def PAYLOAD_ALIGN_def slot_ptr_def min_absorb2)
qed

lemma batch_loop_delivers:
  assumes "ring_aligned q" "spsc_rep q H (map (Pair PAYLOAD_ALIGN) bss)" "list_all2 (is_record env use_interner si) cs bss"
    and "list_all (linked env use_interner) cs" "layout H (map (Pair PAYLOAD_ALIGN) bss) < 2 ^ 64" "length cs < rounds"
  shows "\<exists>q' H'. batch_loop rounds env si now log (of_nat H) (of_nat (layout H (map (Pair PAYLOAD_ALIGN) bss))) q s
      = Some (q', fold (\<lambda>c. log (entry_of_call env now c)) cs s)
    \<and> spsc_rep q' H' [] \<and> ring_aligned q' \<and> q_capacity q' = q_capacity q \<and> q_mode q' = q_mode q"
  using assms(3,1,2,4,5,6)
proof (induction cs bss arbitrary: q H s rounds rule: list_all2_induct)
  case Nil
  then show ?case by (cases rounds) auto
next
  case (Cons c cs bs bss)
  obtain level f args where c: "c = (level, f, args)" by (cases c)
  obtain r where r: "rounds = Suc r" "length cs < r" using Cons.prems(5) by (cases rounds) auto
  let ?A = "ceil_to H 8" and ?ms = "map (Pair PAYLOAD_ALIGN) bss"
  let ?H = "?A + length bs" and ?T = "layout H ((PAYLOAD_ALIGN, bs) # ?ms)"
  have u8: "unat PAYLOAD_ALIGN = 8" "is_power_of_two PAYLOAD_ALIGN" by (simp_all add: PAYLOAD_ALIGN_def is_power_of_two_def)
  have rep: "spsc_rep q H ((PAYLOAD_ALIGN, bs) # ?ms)" using Cons.prems(2) by simp
  have core: "spsc_core q H ((PAYLOAD_ALIGN, bs) # ?ms)" and tc: "q_tail_cache q = of_nat ?T" using rep by (simp_all add: spsc_rep_def)
  have ring: "ring_ok q" and hc: "q_head_cache q = of_nat H" using core by (simp_all add: spsc_core_def)
  note hb = head_bytes [OF core, unfolded u8]
  have lb: "length bs \<le> 2 ^ 36" using hb(3) cap_bounds(2) [OF ring] by (simp add: message_ok_def)
  note d = deserialize_record [OF ring hb(1) lb Cons.hyps(1) [unfolded c]]
  note pk = peek_header [OF core d(5), of "le_dbg env"]
  have al: "slot_ptr ?A q mod 8 = 0" using ceil_to_props(1) [of 8 H] Cons.prems(1) by (intro slot_aligned [OF ring]) simp_all
  have hA: "H \<le> ?A" by (rule ceil_to_props) simp
  have TH: "?H \<le> ?T" "?T < 2 ^ 64" using hb(2) Cons.prems(4) by simp_all
  have lt: "(of_nat H :: usize) < of_nat ?T"
    using hA TH d(5) by (simp add: word_less_nat_alt unat_of_nat_small)
  have sz: "PAYLOAD_MIN_HEADER_SIZE \<le> of_nat (length bs)"
    using d(5) lb by (simp add: PAYLOAD_MIN_HEADER_SIZE_def word_le_nat_alt unat_small)
  have inst: "le_inst env (le_addr env (instance_of use_interner f args)) = Some (instance_of use_interner f args)"
    using Cons.prems(3) by (simp add: linked_def c)
  let ?q = "q\<lparr>q_head_cache := of_nat ?H, q_head := of_nat ?H\<rparr>"
  let ?s = "log (entry_of_call env now c) s"
  have dis: "spsc_discard (le_dbg env) (of_nat (length bs)) PAYLOAD_ALIGN q = Some ?q"
    using discard_eq [OF hc u8(2)] by (simp add: u8)
  have ru: "round_up (le_dbg env) (of_nat H) PAYLOAD_ALIGN = Some (of_nat ?A)"
    using round_up_of_nat [OF u8(2)] by (simp add: u8)
  have rep': "spsc_rep ?q ?H ?ms" using discard_core [OF core] tc by (simp add: spsc_rep_def u8)
  have step: "batch_loop rounds env si now log (of_nat H) (of_nat ?T) q s
      = batch_loop r env si now log (of_nat ?H) (of_nat (layout ?H ?ms)) ?q ?s"
    using lt by (simp add: r(1) pk d al sz inst dis ru entry_of_call_def c u8 del: of_nat_add)
      (simp add: u8)
  have "ring_aligned ?q" using Cons.prems(1) by (simp add: ring_aligned_def)
  from Cons.IH [OF this rep' _ _ r(2), of ?s] obtain q' H' where
    "batch_loop r env si now log (of_nat ?H) (of_nat (layout ?H ?ms)) ?q ?s = Some (q', fold (\<lambda>c. log (entry_of_call env now c)) cs ?s)"
    "spsc_rep q' H' []" "ring_aligned q'" "q_capacity q' = q_capacity ?q" "q_mode q' = q_mode ?q"
    using Cons.prems(3,4) by (auto simp: u8)
  then show ?case using step by auto
qed

lemma process_batch_delivers:
  assumes "holds_calls env use_interner q si H cs" "list_all (linked env use_interner) cs"
    and "H + unat (q_capacity q) < 2 ^ 64" "length cs < rounds"
  shows "\<exists>q' H'. process_batch rounds env (fst si) now log q s
      = Some (cs \<noteq> [], q', fold (\<lambda>c. log (entry_of_call env now c)) cs s)
    \<and> holds_calls env use_interner q' si H' []"
proof -
  obtain bss where b: "spsc_rep q H (map (Pair PAYLOAD_ALIGN) bss)" "list_all2 (is_record env use_interner (fst si)) cs bss"
    and al: "ring_aligned q" and si: "interner_ok (le_os env) si" using assms(1) by (auto simp: holds_calls_def)
  let ?T = "layout H (map (Pair PAYLOAD_ALIGN) bss)"
  have q: "q_head_cache q = of_nat H" "q_tail q = of_nat ?T" "?T \<le> H + unat (q_capacity q)" "spsc_core q H (map (Pair PAYLOAD_ALIGN) bss)"
    using b(1) by (simp_all add: spsc_rep_def spsc_core_def)
  have T: "?T < 2 ^ 64" using q(3) assms(3) by linarith
  show ?thesis
  proof (cases cs)
    case Nil
    then have "bss = []" using b(2) by simp
    then show ?thesis using Nil q b al si assms(1)
      by (auto simp: process_batch_def size_consumer_def)
  next
    case (Cons c cs')
    obtain bs bss' where bss: "bss = bs # bss'" "is_record env use_interner (fst si) c bs"
      using b(2) Cons by (auto simp: list_all2_Cons1)
    have "24 \<le> length bs" using bss(2) by (auto simp: is_record_def length_record_bytes split: prod.splits)
    moreover have "ceil_to H 8 + length bs \<le> ?T" using head_bytes(2) [of q H PAYLOAD_ALIGN bs "map (Pair PAYLOAD_ALIGN) bss'"] q(4)
      by (simp add: bss PAYLOAD_ALIGN_def)
    moreover have "H \<le> ceil_to H 8" by (rule ceil_to_props) simp
    ultimately have "H < ?T" by linarith
    then have nz: "size_consumer q \<noteq> 0"
      using T unat_of_nat_diff [of H ?T] by (auto simp: size_consumer_def q less_imp_diff_less)
    obtain q' H' where "batch_loop rounds env (fst si) now log (of_nat H) (of_nat ?T) q s
        = Some (q', fold (\<lambda>c. log (entry_of_call env now c)) cs s)" "spsc_rep q' H' []" "ring_aligned q'"
      using batch_loop_delivers [OF al b assms(2) T assms(4), of now log s] by blast
    then show ?thesis using nz Cons si by (auto simp: process_batch_def size_consumer_def q holds_calls_def)
  qed
qed

section \<open>Both loggers\<close>

fun sync_log_all ::
  "log_env \<Rightarrow> log_level \<Rightarrow> (log_entry \<Rightarrow> 's \<Rightarrow> 's) \<Rightarrow> u64 \<Rightarrow> log_call list \<Rightarrow> 's sync_logger \<Rightarrow> 's sync_logger option" where
  "sync_log_all env min_level log now [] lg = Some lg"
| "sync_log_all env min_level log now (c # cs) lg = do {
     lg \<leftarrow> sync_log env min_level log now c lg;
     sync_log_all env min_level log now cs lg
   }"

text \<open>
  A format string without arguments is formatted by the synchronous logger only: the asynchronous one agrees with
  it for a formatter that leaves such a string as it stands.
\<close>

definition verbatim :: "log_env \<Rightarrow> log_env" where
  "verbatim env = env\<lparr>le_vformat := \<lambda>f args. if args = [] then f else le_vformat env f args\<rparr>"

lemma sync_log_entry:
  assumes "should_log min_level (fst c)"
  shows "sync_log (verbatim env) min_level log now c \<lparr>sl_sink = Some s\<rparr> = Some \<lparr>sl_sink = Some (log (entry_of_call env now c) s)\<rparr>"
proof -
  obtain level f args where c: "c = (level, f, args)" by (cases c)
  then show ?thesis using assms
    by (cases f) (simp_all add: sync_log_def has_sink_def entry_of_call_def verbatim_def Let_def)
qed

lemma sync_log_all_entries:
  "list_all (\<lambda>c. should_log min_level (fst c)) cs \<Longrightarrow> sync_log_all (verbatim env) min_level log now cs \<lparr>sl_sink = Some s\<rparr>
     = Some \<lparr>sl_sink = Some (fold (\<lambda>c. log (entry_of_call env now c)) cs s)\<rparr>"
  by (induction cs arbitrary: s) (simp_all add: sync_log_entry)

lemma fresh_holds:
  "spsc_rep q H [] \<Longrightarrow> ring_aligned q \<Longrightarrow> interner_ok (le_os env) si \<Longrightarrow> holds_calls env use_interner q si H []"
  by (auto simp: holds_calls_def intro!: exI [of _ "[]"])

section \<open>Properties\<close>

text \<open>
  C6. After any sequence of calls of the asynchronous logger in drop mode that return, from an empty ring whose
  positions do not wrap in 64 bits, one batch of the backend thread hands the sink the same entries, in the
  same order, as the synchronous logger given the accepted calls with a formatter that leaves a format string
  without arguments as it stands, and the ring is empty again. The accepted calls are those at or above the
  minimum level whose record, with its padding, fits the capacity beside the records accepted before; the
  others are dropped whole. All are accepted when the records with seven bytes of padding each fit the ring.
\<close>

theorem async_equals_sync:
  assumes "spsc_rep q H []" "ring_aligned q" "q_mode q = Drop" "interner_ok (le_os env) si" "H + unat (q_capacity q) < 2 ^ 64"
    and "list_all (\<lambda>c. log_call_ok env use_interner q c \<and> linked env use_interner c) cs"
    and "async_log_all env use_interner min_level cs q si = Some (q', si')"
    and "kept = accepted (call_length use_interner) (unat (q_capacity q)) H [] (filter (\<lambda>c. should_log min_level (fst c)) cs)"
  shows "(\<exists>processed q'' H'' s'. process_batch (Suc (length cs)) env (fst si') now log q' s = Some (processed, q'', s')
    \<and> sync_log_all (verbatim env) min_level log now kept \<lparr>sl_sink = Some s\<rparr> = Some \<lparr>sl_sink = Some s'\<rparr>
    \<and> spsc_rep q'' H'' [])
    \<and> (sum_list (map (\<lambda>c. call_length use_interner c + 7) cs) \<le> unat (q_capacity q)
        \<longrightarrow> kept = filter (\<lambda>c. should_log min_level (fst c)) cs)"
proof -
  let ?cs = "filter (\<lambda>c. should_log min_level (fst c)) cs"
  have sub: "set kept \<subseteq> set ?cs" using accepted_subset [of _ _ _ "[]" ?cs] by (simp add: assms(8))
  then have ok: "list_all (log_call_ok env use_interner q) cs" "list_all (linked env use_interner) kept"
    "list_all (\<lambda>c. should_log min_level (fst c)) kept"
    using assms(6) by (auto simp: list_all_iff)
  have "length kept \<le> length ?cs" using accepted_bound [of _ _ _ "[]" ?cs] by (simp add: assms(8))
  then have "length kept < Suc (length cs)" using length_filter_le [of _ cs] by (simp add: le_imp_less_Suc le_trans)
  moreover note l = async_log_all_spec [OF fresh_holds [OF assms(1,2,4)] ok(1) assms(3,7), folded assms(8)]
  ultimately obtain q'' H'' where "process_batch (Suc (length cs)) env (fst si') now log q' s
      = Some (kept \<noteq> [], q'', fold (\<lambda>c. log (entry_of_call env now c)) kept s)" "holds_calls env use_interner q'' si' H'' []"
    using process_batch_delivers [OF conjunct1 [OF l] ok(2), of "Suc (length cs)" now log s] assms(5) by auto
  moreover have "kept = ?cs" if "sum_list (map (\<lambda>c. call_length use_interner c + 7) cs) \<le> unat (q_capacity q)"
    using accepted_all [of "call_length use_interner" "[]" ?cs "unat (q_capacity q)" H] that
      sum_list_filter_le_nat [of "\<lambda>c. call_length use_interner c + 7" "\<lambda>c. should_log min_level (fst c)" cs] by (simp add: assms(8))
  ultimately show ?thesis using sync_log_all_entries [OF ok(3), of env log now s] by (auto simp: holds_calls_def)
qed

text \<open>
  A call without arguments is not formatted by the asynchronous logger: the batch hands the sink the
  bytes of the format string as they stand, where the synchronous logger hands it their formatted
  text. The two differ as soon as the string holds an escaped brace.
\<close>

lemma async_no_args_unformatted:
  assumes "spsc_rep q H []" "ring_aligned q" "q_mode q = Drop" "interner_ok (le_os env) si" "H + unat (q_capacity q) < 2 ^ 64"
    and "log_call_ok env use_interner q (level, View p n, [])" "linked env use_interner (level, View p n, [])"
    and "should_log min_level level" "47 \<le> unat (q_capacity q)"
    and "async_log env use_interner min_level heads (level, View p n, []) q si = Some (q', si')"
  shows "(\<exists>q''. process_batch 2 env (fst si') now (#) q' [] = Some (True, q'',
        [\<lparr>en_level = level, en_message = le_text env p n, en_timestamp_ns = now\<rparr>]))
    \<and> sync_log env min_level (#) now (level, View p n, []) \<lparr>sl_sink = Some []\<rparr> = Some \<lparr>sl_sink =
        Some [\<lparr>en_level = level, en_message = le_vformat env (le_text env p n) [], en_timestamp_ns = now\<rparr>]\<rparr>"
proof -
  let ?c = "(level, View p n, [])"
  have l: "should_log min_level (fst ?c)" using assms(8) by simp
  have "call_length use_interner ?c + 7 \<le> 47" by (simp add: call_length_def record_length_def header_defs enc_args_def)
  then have "holds_calls env use_interner q' si' H [?c]" "q_capacity q' = q_capacity q"
    using async_log_step [OF fresh_holds [OF assms(1,2,4)] assms(6) l assms(3,10)] assms(9)
      ring_fits_sum [of "call_length use_interner" "[]" ?c "unat (q_capacity q)" H] by auto
  then show ?thesis
    using process_batch_delivers [of env use_interner q' si' H "[?c]" 2 now "(#)" "[]"] assms(5,7,8)
    by (auto simp: entry_of_call_def sync_log_def has_sink_def Let_def)
qed

section \<open>Witnesses\<close>

definition sample_ring :: spsc where
  "sample_ring = \<lparr>q_data = 65536, q_capacity = 128, q_mode = Drop, q_dropped_count = 0, q_blocked_count = 0,
     q_head = 0, q_head_cache = 0, q_tail = 0, q_tail_cache = 0, q_ring = replicate 128 0\<rparr>"

definition sample_calls :: "log_call list" where
  "sample_calls = [(Info, View 4096 1, [TrivialArg [7, 0, 0, 0], StringArg [65, 66]]), (Debug, Compiled 3, []),
     (Warn, Compiled 5, [VectorArg 2 [[1, 2], [3, 4]]])]"

definition sample_env :: log_env where
  "sample_env = \<lparr>le_dbg = False, le_os = sample_os, le_hash = (\<lambda>_. 0), le_rounds = 1,
     le_addr = (\<lambda>ds. if ds_compiled ds = None then 4096 else if ds_compiled ds = Some 3 then 8192 else 16384),
     le_inst = (\<lambda>a. if a = 4096 then Some (instance_of True (View 4096 1) [TrivialArg [7, 0, 0, 0], StringArg [65, 66]])
       else if a = 8192 then Some (instance_of True (Compiled 3) [])
       else Some (instance_of True (Compiled 5) [VectorArg 2 [[1, 2], [3, 4]]])),
     le_text = (\<lambda>p n. [102]), le_cformat = (\<lambda>c args. concat (map codec_encode args)),
     le_vformat = (\<lambda>f args. f @ concat (map codec_encode args))\<rparr>"

abbreviation sample_interner :: "interner \<times> vm" where
  "sample_interner \<equiv> (\<lparr>si_pool = sample_pool, si_table = sample_itable\<rparr>, sample_vm)"

lemma sample_interner_ok: "interner_ok sample_os sample_interner"
  using sample_itable_ok sample_pool_ok(1) by (auto simp: interner_ok_def entries_ok_def list_all_iff)

lemma sample_ring_rep: "spsc_rep sample_ring 0 []" "ring_aligned sample_ring"
  by (simp_all add: spsc_rep_def spsc_core_def ring_ok_def sample_ring_def is_power_of_two_def ring_aligned_def)

lemma sample_calls_ok:
  "list_all (\<lambda>c. log_call_ok sample_env True sample_ring c \<and> linked sample_env True c) sample_calls"
  "sum_list (map (\<lambda>c. call_length True c + 7) sample_calls) \<le> unat (q_capacity sample_ring)"
  by (simp_all add: sample_calls_def log_call_ok_def linked_def sample_env_def call_length_def
      record_length_def enc_args_def enc_arg_def header_defs sample_ring_def format_ok_def name_ok_def)

lemma sample_interns: "interns sample_env True (View 4096 1) sample_interner"
proof -
  obtain i sp v where "pool_append False sample_os [102] sample_pool sample_vm = Some (i, sp, v)"
    using sample_append [of "[102]"] by auto
  then show ?thesis
    by (simp add: interns_def sample_env_def interner_store_def interner_intern_def intern_def lookup_def walk_step_def
        claim_def sample_itable_def empty_slot_def table_mask_def published_def PUBLISHED_BIT_def EMPTY_CONTROL_def Let_def)
qed

lemma sample_calls_run: "\<exists>q' si'. async_log_all sample_env True Info sample_calls sample_ring sample_interner = Some (q', si')"
proof -
  let ?c = "hd sample_calls" and ?cs = "tl sample_calls"
  have ok: "interner_ok (le_os sample_env) sample_interner" using sample_interner_ok by (simp add: sample_env_def)
  note h = fresh_holds [OF sample_ring_rep ok, of True]
  have c: "log_call_ok sample_env True sample_ring ?c" "list_all (log_call_ok sample_env True sample_ring) ?cs"
    "should_log Info (fst ?c)" "q_mode sample_ring = Drop"
    using sample_calls_ok(1) by (simp_all add: sample_calls_def should_log_def sample_ring_def)
  have e: "sample_calls = ?c # ?cs" by (simp add: sample_calls_def)
  have r: "sum_list (map (\<lambda>c. call_length True c + 7) ([?c] @ ?cs)) \<le> unat (q_capacity sample_ring)"
    using sample_calls_ok(2) by (subst (asm) e) simp
  then have r1: "sum_list (map (\<lambda>c. call_length True c + 7) ([] @ [?c])) \<le> unat (q_capacity sample_ring)" by simp
  have "interns sample_env True (fst (snd ?c)) sample_interner" using sample_interns by (simp add: sample_calls_def)
  then obtain q1 si1 where 1: "async_log sample_env True Info [] ?c sample_ring sample_interner = Some (q1, si1)"
    using async_log_runs [OF h c(1) r1] by blast
  note st = async_log_step [OF h c(1,3,4) 1]
  have h1: "holds_calls sample_env True q1 si1 0 [?c]" using st ring_fits_sum [OF r1, of 0] by simp
  have "log_call_ok sample_env True q1 = log_call_ok sample_env True sample_ring" using st by (simp add: log_call_ok_def fun_eq_iff)
  then have "\<exists>q' si'. async_log_all sample_env True Info ?cs q1 si1 = Some (q', si')"
    using st c(2) r by (intro async_log_all_runs [OF h1]) (simp_all add: sample_calls_def interns_def)
  then show ?thesis using 1 by (subst e) simp
qed

theorem async_equals_sync_witness:
  "\<exists>q' si' processed q'' s'. async_log_all sample_env True Info sample_calls sample_ring sample_interner = Some (q', si')
     \<and> process_batch 4 sample_env (fst si') 9 (#) q' [] = Some (processed, q'', s')
     \<and> map en_message (rev s') = [[102, 7, 0, 0, 0, 65, 66], [1, 2, 3, 4]] \<and> map en_level (rev s') = [Info, Warn]"
proof -
  obtain q' si' where run: "async_log_all sample_env True Info sample_calls sample_ring sample_interner = Some (q', si')"
    using sample_calls_run by blast
  have ok: "interner_ok (le_os sample_env) sample_interner" using sample_interner_ok by (simp add: sample_env_def)
  have m: "q_mode sample_ring = Drop" "0 + unat (q_capacity sample_ring) < 2 ^ 64" by (simp_all add: sample_ring_def)
  obtain processed q'' s' where p: "process_batch (Suc (length sample_calls)) sample_env (fst si') 9 (#) q' [] = Some (processed, q'', s')"
    and s: "sync_log_all (verbatim sample_env) Info (#) 9 (filter (\<lambda>c. should_log Info (fst c)) sample_calls) \<lparr>sl_sink = Some []\<rparr>
      = Some \<lparr>sl_sink = Some s'\<rparr>"
    using async_equals_sync [OF sample_ring_rep m(1) ok m(2) sample_calls_ok(1) run refl, of 9 "(#)" "[]"] sample_calls_ok(2) by auto
  have "s' = [\<lparr>en_level = Warn, en_message = [1, 2, 3, 4], en_timestamp_ns = 9\<rparr>,
      \<lparr>en_level = Info, en_message = [102, 7, 0, 0, 0, 65, 66], en_timestamp_ns = 9\<rparr>]"
    using s by (simp add: sample_calls_def sync_log_def should_log_def has_sink_def sample_env_def verbatim_def Let_def word_le_nat_alt)
  moreover have "Suc (length sample_calls) = 4" by (simp add: sample_calls_def)
  ultimately show ?thesis using run p by auto
qed

lemma async_no_args_unformatted_witness:
  "\<exists>q' si' q''. async_log (sample_env\<lparr>le_inst := \<lambda>_. Some (instance_of False (View 4096 4) []),
        le_text := \<lambda>p n. [123, 123, 125, 125], le_vformat := \<lambda>f args. [123, 125]\<rparr>) False Info [] (Info, View 4096 4, []) sample_ring sample_interner
      = Some (q', si')
    \<and> process_batch 2 (sample_env\<lparr>le_inst := \<lambda>_. Some (instance_of False (View 4096 4) []),
        le_text := \<lambda>p n. [123, 123, 125, 125], le_vformat := \<lambda>f args. [123, 125]\<rparr>) (fst si') 9 (#) q' []
      = Some (True, q'', [\<lparr>en_level = Info, en_message = [123, 123, 125, 125], en_timestamp_ns = 9\<rparr>])"
proof -
  let ?e = "sample_env\<lparr>le_inst := \<lambda>_. Some (instance_of False (View 4096 4) []),
        le_text := \<lambda>p n. [123, 123, 125, 125], le_vformat := \<lambda>f args. [123, 125]\<rparr>"
  let ?c = "(Info, View 4096 4, []) :: log_call"
  have ok: "interner_ok (le_os ?e) sample_interner" using sample_interner_ok by (simp add: sample_env_def)
  have m: "q_mode sample_ring = Drop" "0 + unat (q_capacity sample_ring) < 2 ^ 64" "47 \<le> unat (q_capacity sample_ring)"
    by (simp_all add: sample_ring_def)
  have c: "log_call_ok ?e False sample_ring ?c" "linked ?e False ?c" "should_log Info Info"
    by (simp_all add: log_call_ok_def linked_def should_log_def record_length_def header_defs enc_args_def sample_ring_def
        format_ok_def name_ok_def)
  have r: "sum_list (map (\<lambda>c. call_length False c + 7) ([] @ [?c])) \<le> unat (q_capacity sample_ring)"
    by (simp add: call_length_def record_length_def header_defs enc_args_def sample_ring_def)
  have "interns ?e False (fst (snd ?c)) sample_interner" by (simp add: interns_def)
  then obtain q' si' where run: "async_log ?e False Info [] ?c sample_ring sample_interner = Some (q', si')"
    using async_log_runs [OF fresh_holds [OF sample_ring_rep ok] c(1) r] by blast
  show ?thesis using async_no_args_unformatted [OF sample_ring_rep m(1) ok m(2) c m(3) run, of 9] run by auto
qed

end
