(* ===== verification/Backend_Worker.thy ===== *)
theory Backend_Worker
  imports Async_Logger
begin

text \<open>
  The backend thread of the asynchronous logger and the thread that drives it
  (\<^verbatim>\<open>include/fpag/logging/async/backend_worker.h\<close>). The first part holds the operations on the members
  of \<^verbatim>\<open>BackendWorker\<close>; the second lets the two threads run at once, one access to the shared status,
  flag or ring at a time. There the ring is the list of records it holds with the position of its head,
  which is what the proofs about the queue and about a batch establish: a record takes its size and its
  padding out of the capacity, and one that does not fit is dropped, or waits for room, as the mode of the
  queue says. Positions are counted without wrap-around. The sink is the list of records it was given.
  Waiting is not modelled beyond the condition that ends it.
\<close>

section \<open>Definitions\<close>

datatype internal_status = NotInitialized | Initialized | Running | Stopping | ForceStopping

record 's backend_worker =
  bw_queue :: spsc
  bw_sink :: "'s option"
  bw_thread :: bool
  bw_interner :: bool
  bw_status :: internal_status
  bw_flush_requested :: bool

definition empty_backend_worker :: "'s backend_worker" where
  "empty_backend_worker = \<lparr>bw_queue = empty_spsc, bw_sink = None, bw_thread = False, bw_interner = False,
     bw_status = NotInitialized, bw_flush_requested = False\<rparr>"

definition bw_init ::
  "bool \<Rightarrow> os \<Rightarrow> 's \<Rightarrow> bool \<Rightarrow> usize \<Rightarrow> mode \<Rightarrow> 's backend_worker \<Rightarrow> vm \<Rightarrow> ('s backend_worker \<times> vm) option" where
  "bw_init dbg os sink interner queue_capacity mode w v = do {
     fpag_dcheck dbg (bw_status w = NotInitialized);
     let w = w\<lparr>bw_sink := Some sink, bw_interner := interner\<rparr>;
     (q, v) \<leftarrow> spsc_init dbg os queue_capacity mode (bw_queue w) v;
     let w = w\<lparr>bw_queue := q, bw_status := Initialized\<rparr>;
     fpag_dcheck dbg (bw_interner w);
     Some (w, v)
   }"

definition bw_start :: "bool \<Rightarrow> 's backend_worker \<Rightarrow> 's backend_worker option" where
  "bw_start dbg w = do {
     fpag_dcheck dbg (bw_status w = Initialized);
     fpag_dcheck dbg (bw_sink w \<noteq> None);
     Some (w\<lparr>bw_status := Running, bw_thread := True\<rparr>)
   }"

definition swap_sink :: "'s option \<Rightarrow> 's option \<Rightarrow> 's option \<times> 's option" where
  "swap_sink lhs rhs =
     (case lhs of
        None \<Rightarrow> (case rhs of Some r \<Rightarrow> (Some r, None) | None \<Rightarrow> (None, None))
      | Some l \<Rightarrow> (case rhs of None \<Rightarrow> (None, Some l) | Some r \<Rightarrow> (Some r, Some l)))"

definition bw_swap :: "bool \<Rightarrow> os \<Rightarrow> 's backend_worker \<Rightarrow> 's backend_worker \<Rightarrow> vm
    \<Rightarrow> ('s backend_worker \<times> 's backend_worker \<times> vm) option" where
  "bw_swap dbg os w other v = do {
     let (taken, this_q) = spsc_move (bw_queue w);
     (this_q, other_q, v) \<leftarrow> spsc_move_assign dbg os this_q (bw_queue other) v;
     (other_q, taken, v) \<leftarrow> spsc_move_assign dbg os other_q taken v;
     let (lhs, rhs) = swap_sink (bw_sink w) (bw_sink other);
     let (this_t, other_t) = (bw_thread other, bw_thread w);
     Some (w\<lparr>bw_queue := this_q, bw_sink := lhs, bw_thread := this_t, bw_status := bw_status other\<rparr>,
           other\<lparr>bw_queue := other_q, bw_sink := rhs, bw_thread := other_t, bw_status := NotInitialized\<rparr>, v)
   }"

definition bw_reset_idle :: "bool \<Rightarrow> os \<Rightarrow> 's backend_worker \<Rightarrow> vm \<Rightarrow> ('s backend_worker \<times> vm) option" where
  "bw_reset_idle dbg os w v = do {
     let w = w\<lparr>bw_status := NotInitialized, bw_interner := False\<rparr>;
     (q, v) \<leftarrow> spsc_reset dbg os (bw_queue w) v;
     Some (w\<lparr>bw_queue := q, bw_sink := None\<rparr>, v)
   }"

subsection \<open>The two threads\<close>

text \<open>
  Where the backend thread is in \<^verbatim>\<open>worker_loop\<close>: about to load the status, about to read the size of
  the ring, in a batch with so many records to go, holding a record it has discarded from the ring but
  not yet handed to the sink, at the flush request, at the store that clears it, at the exit test, and
  waiting. The status and whether the batch did anything are its local variables.
\<close>

datatype 'r worker_at =
    NoThread
  | LoadStatus
  | ReadSize internal_status
  | Batch internal_status nat
  | Deliver internal_status nat 'r
  | FlushTest internal_status bool
  | FlushClear internal_status bool
  | ExitTest internal_status bool
  | Waiting
  | Exited

text \<open>
  Where the driving thread is: between calls, waiting in \<^verbatim>\<open>reserve\<close> for room, writing a record between
  \<^verbatim>\<open>reserve\<close> and \<^verbatim>\<open>commit\<close>, in \<^verbatim>\<open>wait_for_flush\<close>, before the store of the status, joining.
\<close>

datatype 'r caller_at = Between | Blocked 'r | Writing 'r | FlushWait bool | StoreStopping | Join bool | Stopped bool

text \<open>The capacity and the mode the queue was given, and the bytes a record takes.\<close>

record 'r ring_config =
  rc_capacity :: nat
  rc_mode :: mode
  rc_size :: "'r \<Rightarrow> nat"

text \<open>Every call of the logger that has returned is remembered with whether its record was published.\<close>

record 'r worker_system =
  ws_status :: internal_status
  ws_flush_requested :: bool
  ws_head :: nat
  ws_queue :: "'r list"
  ws_dropped_count :: nat
  ws_logged :: "('r \<times> bool) list"
  ws_sink :: "'r list"
  ws_flushed :: "'r list"
  ws_count :: u32
  ws_flushes_returned :: nat
  ws_worker :: "'r worker_at"
  ws_caller :: "'r caller_at"

definition ws_sent :: "'r worker_system \<Rightarrow> 'r list" where
  "ws_sent s = map fst (filter snd (ws_logged s))"

definition record_fits :: "'r ring_config \<Rightarrow> 'r worker_system \<Rightarrow> 'r \<Rightarrow> bool" where
  "record_fits cfg s r \<longleftrightarrow> ring_fits (rc_size cfg) (rc_capacity cfg) (ws_head s) (ws_queue s) r"

datatype 'r action =
    CallLog 'r | RoomFound | CommitLog | CallStart | CallFlush | CallStop | CallForceStop | FlushReturns | StoreStop | JoinReturns | WorkerStep

definition worker_exec :: "'r ring_config \<Rightarrow> 'r worker_system \<Rightarrow> 'r worker_system option" where
  "worker_exec cfg s = (case ws_worker s of
     NoThread \<Rightarrow> None
   | LoadStatus \<Rightarrow>
       Some (if ws_status s = ForceStopping then s\<lparr>ws_worker := Exited\<rparr> else s\<lparr>ws_worker := ReadSize (ws_status s)\<rparr>)
   | ReadSize st \<Rightarrow>
       Some (if ws_queue s = [] then s\<lparr>ws_worker := FlushTest st False\<rparr> else s\<lparr>ws_worker := Batch st (length (ws_queue s))\<rparr>)
   | Batch st 0 \<Rightarrow> Some (s\<lparr>ws_worker := FlushTest st True\<rparr>)
   | Batch st (Suc k) \<Rightarrow>
       (case ws_queue s of
          [] \<Rightarrow> None
        | r # rs \<Rightarrow> Some (s\<lparr>ws_head := ceil_to (ws_head s) 8 + rc_size cfg r, ws_queue := rs, ws_worker := Deliver st k r\<rparr>))
   | Deliver st k r \<Rightarrow> Some (s\<lparr>ws_sink := ws_sink s @ [r], ws_worker := Batch st k\<rparr>)
   | FlushTest st p \<Rightarrow>
       Some (if ws_flush_requested s then s\<lparr>ws_flushed := ws_sink s, ws_worker := FlushClear st p\<rparr>
             else s\<lparr>ws_worker := ExitTest st p\<rparr>)
   | FlushClear st p \<Rightarrow> Some (s\<lparr>ws_flush_requested := False, ws_worker := ExitTest st p\<rparr>)
   | ExitTest st p \<Rightarrow>
       Some (if st = Stopping \<and> \<not> p \<and> ws_queue s = [] then s\<lparr>ws_worker := Exited\<rparr>
             else if p then s\<lparr>ws_count := 0, ws_worker := LoadStatus\<rparr>
             else if ws_count s + 1 \<ge> 512 then s\<lparr>ws_count := ws_count s + 1, ws_worker := Waiting\<rparr>
             else s\<lparr>ws_count := ws_count s + 1, ws_worker := LoadStatus\<rparr>)
   | Waiting \<Rightarrow> (if ws_queue s = [] \<and> ws_status s = Running then None else Some (s\<lparr>ws_worker := LoadStatus\<rparr>))
   | Exited \<Rightarrow> None)"

fun system_exec :: "'r ring_config \<Rightarrow> 'r action \<Rightarrow> 'r worker_system \<Rightarrow> 'r worker_system option" where
  "system_exec cfg (CallLog r) s =
     (if ws_caller s = Between
      then (if record_fits cfg s r then Some (s\<lparr>ws_caller := Writing r\<rparr>)
            else if rc_mode cfg = Drop
            then Some (s\<lparr>ws_dropped_count := ws_dropped_count s + 1, ws_logged := ws_logged s @ [(r, False)]\<rparr>)
            else Some (s\<lparr>ws_caller := Blocked r\<rparr>))
      else None)"
| "system_exec cfg RoomFound s =
     (case ws_caller s of
        Blocked r \<Rightarrow> (if record_fits cfg s r then Some (s\<lparr>ws_caller := Writing r\<rparr>) else None)
      | _ \<Rightarrow> None)"
| "system_exec cfg CommitLog s =
     (case ws_caller s of
        Writing r \<Rightarrow>
          Some (s\<lparr>ws_queue := ws_queue s @ [r], ws_logged := ws_logged s @ [(r, True)], ws_caller := Between\<rparr>)
      | _ \<Rightarrow> None)"
| "system_exec cfg CallStart s =
     (if ws_caller s = Between \<and> ws_status s = Initialized
      then Some (s\<lparr>ws_status := Running, ws_count := 0, ws_worker := LoadStatus\<rparr>) else None)"
| "system_exec cfg CallFlush s =
     (if ws_caller s = Between \<and> ws_status s = Running
      then Some (s\<lparr>ws_flush_requested := True, ws_caller := FlushWait False\<rparr>) else None)"
| "system_exec cfg CallStop s =
     (if ws_caller s = Between \<and> ws_status s = Running
      then Some (s\<lparr>ws_flush_requested := True, ws_caller := FlushWait True\<rparr>) else None)"
| "system_exec cfg CallForceStop s =
     (if ws_caller s = Between \<and> ws_status s = Running
      then Some (s\<lparr>ws_status := ForceStopping, ws_caller := Join False\<rparr>) else None)"
| "system_exec cfg FlushReturns s =
     (case ws_caller s of
        FlushWait stop \<Rightarrow>
          (if ws_queue s \<noteq> [] then None
           else if stop then Some (s\<lparr>ws_caller := StoreStopping\<rparr>)
           else Some (s\<lparr>ws_caller := Between, ws_flushes_returned := ws_flushes_returned s + 1\<rparr>))
      | _ \<Rightarrow> None)"
| "system_exec cfg StoreStop s =
     (if ws_caller s = StoreStopping then Some (s\<lparr>ws_status := Stopping, ws_caller := Join True\<rparr>) else None)"
| "system_exec cfg JoinReturns s =
     (case ws_caller s of
        Join g \<Rightarrow> (if ws_worker s = Exited then Some (s\<lparr>ws_worker := NoThread, ws_caller := Stopped g\<rparr>) else None)
      | _ \<Rightarrow> None)"
| "system_exec cfg WorkerStep s = worker_exec cfg s"

inductive worker_step :: "'r ring_config \<Rightarrow> 'r worker_system \<Rightarrow> 'r worker_system \<Rightarrow> bool" for cfg where
  step: "system_exec cfg a s = Some s' \<Longrightarrow> worker_step cfg s s'"

inductive_cases worker_stepE: "worker_step cfg s s'"

definition fresh_worker :: "'r worker_system" where
  "fresh_worker = \<lparr>ws_status = Initialized, ws_flush_requested = False, ws_head = 0, ws_queue = [],
     ws_dropped_count = 0, ws_logged = [], ws_sink = [], ws_flushed = [], ws_count = 0, ws_flushes_returned = 0, ws_worker = NoThread, ws_caller = Between\<rparr>"

fun run_actions :: "'r ring_config \<Rightarrow> 'r action list \<Rightarrow> 'r worker_system \<Rightarrow> 'r worker_system option" where
  "run_actions cfg [] s = Some s"
| "run_actions cfg (a # as) s = (case system_exec cfg a s of None \<Rightarrow> None | Some s' \<Rightarrow> run_actions cfg as s')"

lemma run_actions_reachable: "run_actions cfg as s = Some s' \<Longrightarrow> (worker_step cfg)\<^sup>*\<^sup>* s s'"
proof (induction as arbitrary: s)
  case (Cons a as)
  then obtain t where "system_exec cfg a s = Some t" "(worker_step cfg)\<^sup>*\<^sup>* t s'" by (auto split: option.splits)
  then show ?case by (meson converse_rtranclp_into_rtranclp worker_step.step)
qed simp

section \<open>Invariant\<close>

fun in_hand :: "'r worker_at \<Rightarrow> 'r list" where
  "in_hand (Deliver st k r) = [r]"
| "in_hand _ = []"

fun batch_left :: "'r worker_at \<Rightarrow> nat" where
  "batch_left (Batch st k) = k"
| "batch_left (Deliver st k r) = k"
| "batch_left _ = 0"

fun local_status :: "'r worker_at \<Rightarrow> internal_status option" where
  "local_status (ReadSize st) = Some st"
| "local_status (Batch st k) = Some st"
| "local_status (Deliver st k r) = Some st"
| "local_status (FlushTest st p) = Some st"
| "local_status (FlushClear st p) = Some st"
| "local_status (ExitTest st p) = Some st"
| "local_status _ = None"

definition live :: "'r worker_at \<Rightarrow> bool" where
  "live w \<longleftrightarrow> w \<noteq> NoThread \<and> w \<noteq> Exited"

fun driver_ok :: "'r caller_at \<Rightarrow> internal_status \<Rightarrow> 'r worker_at \<Rightarrow> 'r list \<Rightarrow> bool" where
  "driver_ok Between st w q \<longleftrightarrow> st = Initialized \<and> w = NoThread \<or> st = Running \<and> live w"
| "driver_ok (Blocked r) st w q \<longleftrightarrow> st = Initialized \<and> w = NoThread \<or> st = Running \<and> live w"
| "driver_ok (Writing r) st w q \<longleftrightarrow> st = Initialized \<and> w = NoThread \<or> st = Running \<and> live w"
| "driver_ok (FlushWait b) st w q \<longleftrightarrow> st = Running \<and> live w"
| "driver_ok StoreStopping st w q \<longleftrightarrow> st = Running \<and> live w \<and> q = []"
| "driver_ok (Join g) st w q \<longleftrightarrow> w \<noteq> NoThread \<and> (if g then st = Stopping \<and> q = [] else st = ForceStopping)"
| "driver_ok (Stopped g) st w q \<longleftrightarrow> w = NoThread \<and> (if g then st = Stopping \<and> q = [] else st = ForceStopping)"

definition worker_inv :: "'r worker_system \<Rightarrow> bool" where
  "worker_inv s \<longleftrightarrow> ws_sent s = ws_sink s @ in_hand (ws_worker s) @ ws_queue s
     \<and> batch_left (ws_worker s) \<le> length (ws_queue s)
     \<and> driver_ok (ws_caller s) (ws_status s) (ws_worker s) (ws_queue s)
     \<and> (\<forall>st. local_status (ws_worker s) = Some st \<longrightarrow> st = Running \<or> st = ws_status s)
     \<and> (\<exists>zs. ws_sink s = ws_flushed s @ zs)"

lemma driver_ok_queue: "driver_ok c st w (r # rs) \<Longrightarrow> live w \<Longrightarrow> live w' \<Longrightarrow> driver_ok c st w' rs"
  by (cases c) (auto simp: live_def)

lemma driver_ok_live: "driver_ok c st w q \<Longrightarrow> live w \<Longrightarrow> live w' \<Longrightarrow> driver_ok c st w' q"
  by (cases c) (auto simp: live_def)

lemma driver_ok_exit_load: "driver_ok c ForceStopping LoadStatus q \<Longrightarrow> driver_ok c ForceStopping Exited q"
  by (cases c) (auto simp: live_def split: if_splits)

lemma driver_ok_exit_test: "driver_ok c Stopping (ExitTest st p) q \<Longrightarrow> driver_ok c Stopping Exited q"
  by (cases c) (auto simp: live_def split: if_splits)

lemma worker_inv_exec:
  assumes "worker_exec cfg s = Some s'" "worker_inv s"
  shows "worker_inv s'"
proof -
  note inv = assms(2) [unfolded worker_inv_def]
  show ?thesis
  proof (cases "ws_worker s")
    case (Batch st k)
    then show ?thesis using assms(1) inv
      by (cases k; cases "ws_queue s")
        (auto simp: worker_exec_def worker_inv_def ws_sent_def live_def intro: driver_ok_queue driver_ok_live)
  next
    case (ExitTest st p)
    then show ?thesis using assms(1) inv
      by (auto simp: worker_exec_def worker_inv_def ws_sent_def live_def Let_def split: if_splits intro: driver_ok_live driver_ok_exit_test)
  qed (use assms(1) inv in \<open>auto simp: worker_exec_def worker_inv_def ws_sent_def live_def split: if_splits
      intro: driver_ok_live driver_ok_exit_load\<close>)
qed

lemma worker_inv_step: "worker_step cfg s s' \<Longrightarrow> worker_inv s \<Longrightarrow> worker_inv s'"
proof (erule worker_stepE)
  fix a assume inv: "worker_inv s" and e: "system_exec cfg a s = Some s'"
  show "worker_inv s'"
  proof (cases "a = WorkerStep")
    case True
    then show ?thesis using worker_inv_exec inv e by simp
  next
    case False
    then show ?thesis using inv e
      by (cases a) (auto simp: worker_inv_def ws_sent_def live_def split: caller_at.splits if_splits)
  qed
qed

lemma worker_inv_reachable: "(worker_step cfg)\<^sup>*\<^sup>* fresh_worker s \<Longrightarrow> worker_inv s"
proof (induction rule: rtranclp_induct)
  case base
  show ?case by (simp add: worker_inv_def ws_sent_def fresh_worker_def)
next
  case (step s t)
  then show ?case using worker_inv_step by blast
qed

text \<open>
  The ring never holds more than its capacity, a record that is being written still fits, and a record is
  dropped only in drop mode and only when the records logged so far, with seven bytes of padding each, exceed
  the capacity.
\<close>

abbreviation logged_bytes :: "'r ring_config \<Rightarrow> 'r worker_system \<Rightarrow> nat" where
  "logged_bytes cfg s \<equiv> sum_list (map (\<lambda>c. rc_size cfg (fst c) + 7) (ws_logged s))"

definition ring_inv :: "'r ring_config \<Rightarrow> 'r worker_system \<Rightarrow> bool" where
  "ring_inv cfg s \<longleftrightarrow> ring_end (rc_size cfg) (ws_head s) (ws_queue s) \<le> ws_head s + rc_capacity cfg
     \<and> (\<forall>r. ws_caller s = Writing r \<longrightarrow> record_fits cfg s r)
     \<and> (rc_mode cfg \<noteq> Drop \<or> logged_bytes cfg s \<le> rc_capacity cfg \<longrightarrow> list_all snd (ws_logged s))
     \<and> ws_dropped_count s = length (filter (\<lambda>c. \<not> snd c) (ws_logged s))"

lemma sent_bytes:
  "sum_list (map (\<lambda>r. rc_size cfg r + 7) (ws_sent s)) \<le> logged_bytes cfg s"
proof -
  have "sum_list (map (\<lambda>r. g r + 7) (map fst (filter snd cs))) \<le> sum_list (map (\<lambda>c. g (fst c) + 7) cs)" for g :: "'a \<Rightarrow> nat" and cs
    by (induction cs) auto
  then show ?thesis by (simp add: ws_sent_def)
qed

lemma drop_bytes:
  assumes "worker_inv s" "\<not> record_fits cfg s r"
  shows "rc_capacity cfg < logged_bytes cfg s + (rc_size cfg r + 7)"
proof -
  have "rc_capacity cfg < sum_list (map (\<lambda>r. rc_size cfg r + 7) (ws_queue s @ [r]))"
    using ring_fits_sum [of "rc_size cfg" "ws_queue s" r "rc_capacity cfg" "ws_head s"] assms(2)
    by (auto simp: record_fits_def not_le [symmetric])
  moreover have "sum_list (map (\<lambda>r. rc_size cfg r + 7) (ws_queue s)) \<le> sum_list (map (\<lambda>r. rc_size cfg r + 7) (ws_sent s))"
    using assms(1) by (simp add: worker_inv_def)
  ultimately show ?thesis using sent_bytes [of cfg s] by simp
qed

lemma ring_inv_discard:
  assumes "ring_inv cfg s" "ws_queue s = r # rs"
  shows "ring_inv cfg (s\<lparr>ws_head := ceil_to (ws_head s) 8 + rc_size cfg r, ws_queue := rs, ws_worker := w\<rparr>)"
proof -
  have "ws_head s \<le> ceil_to (ws_head s) 8" by (rule ceil_to_props) simp
  then show ?thesis using assms by (fastforce simp: ring_inv_def record_fits_def ring_fits_def)
qed

lemma ring_inv_worker:
  assumes "worker_exec cfg s = Some s'" "ring_inv cfg s"
  shows "ring_inv cfg s'"
proof (cases "\<exists>st k. ws_worker s = Batch st (Suc k)")
  case True
  then show ?thesis using assms ring_inv_discard [OF assms(2)] by (auto simp: worker_exec_def split: list.splits)
next
  case False
  then have "ws_head s' = ws_head s \<and> ws_queue s' = ws_queue s \<and> ws_caller s' = ws_caller s \<and> ws_logged s' = ws_logged s
      \<and> ws_dropped_count s' = ws_dropped_count s"
    using assms(1) by (auto simp: worker_exec_def split: worker_at.splits nat.splits if_splits)
  then show ?thesis using assms(2) by (simp add: ring_inv_def record_fits_def)
qed

lemma ring_inv_step:
  assumes "worker_step cfg s s'" "worker_inv s" "ring_inv cfg s"
  shows "ring_inv cfg s'"
  using assms(1)
proof (rule worker_stepE)
  fix a assume e: "system_exec cfg a s = Some s'"
  show ?thesis
  proof (cases a)
    case (CallLog r)
    then show ?thesis using e assms(3) drop_bytes [OF assms(2), of cfg r]
      by (auto simp: ring_inv_def record_fits_def split: if_splits)
  next
    case CommitLog
    then show ?thesis using e assms(3)
      by (auto simp: ring_inv_def record_fits_def ring_fits_def split: caller_at.splits)
  next
    case WorkerStep
    then show ?thesis using e assms(3) ring_inv_worker by simp
  qed (use e assms(3) in \<open>auto simp: ring_inv_def record_fits_def split: caller_at.splits if_splits\<close>)
qed

lemma ring_inv_reachable: "(worker_step cfg)\<^sup>*\<^sup>* fresh_worker s \<Longrightarrow> ring_inv cfg s"
proof (induction rule: rtranclp_induct)
  case base
  show ?case by (simp add: ring_inv_def fresh_worker_def)
next
  case (step s t)
  then show ?case using ring_inv_step worker_inv_reachable by blast
qed

section \<open>A stop that has begun can always finish\<close>

fun drain_rank :: "'r worker_at \<Rightarrow> nat" where
  "drain_rank (Deliver st k r) = 9"
| "drain_rank (Batch st k) = (if k = 0 then 8 else 1)"
| "drain_rank (FlushTest st p) = 7"
| "drain_rank (FlushClear st p) = 6"
| "drain_rank (ExitTest st p) = 5"
| "drain_rank Waiting = 4"
| "drain_rank LoadStatus = 3"
| "drain_rank (ReadSize st) = 2"
| "drain_rank _ = 0"

fun exit_rank :: "'r worker_at \<Rightarrow> nat" where
  "exit_rank (Deliver st k r) = 13"
| "exit_rank (Batch st k) = 12"
| "exit_rank (ReadSize st) = (if st = Stopping then 6 else 12)"
| "exit_rank (FlushTest st p) = (if st = Stopping \<and> \<not> p then 5 else 11)"
| "exit_rank (FlushClear st p) = (if st = Stopping \<and> \<not> p then 4 else 10)"
| "exit_rank (ExitTest st p) = (if st = Stopping \<and> \<not> p then 3 else 9)"
| "exit_rank Waiting = 8"
| "exit_rank LoadStatus = 7"
| "exit_rank _ = 0"

definition stop_measure :: "'r worker_system \<Rightarrow> nat" where
  "stop_measure s = (case ws_caller s of
     FlushWait b \<Rightarrow> 100 + 10 * length (ws_queue s) + drain_rank (ws_worker s)
   | StoreStopping \<Rightarrow> 50
   | Join g \<Rightarrow> 1 + exit_rank (ws_worker s)
   | _ \<Rightarrow> 0)"

definition stopping_phase :: "'r caller_at \<Rightarrow> bool" where
  "stopping_phase c \<longleftrightarrow> c \<in> {FlushWait True, StoreStopping, Join True}"

lemma drain_step:
  assumes "worker_inv s" "ws_caller s = FlushWait True" "ws_queue s \<noteq> []"
  shows "\<exists>s'. worker_exec cfg s = Some s' \<and> ws_caller s' = FlushWait True \<and> stop_measure s' < stop_measure s"
proof -
  obtain r rs where q: "ws_queue s = r # rs" using assms(3) by (cases "ws_queue s") auto
  have st: "ws_status s = Running" "live (ws_worker s)" using assms(1,2) by (simp_all add: worker_inv_def)
  show ?thesis
  proof (cases "ws_worker s")
    case (Batch t k)
    then show ?thesis using assms(2) q by (cases k) (auto simp: worker_exec_def stop_measure_def)
  qed (use assms(2) q st in \<open>auto simp: worker_exec_def stop_measure_def live_def\<close>)
qed

lemma exit_step:
  assumes "worker_inv s" "ws_caller s = Join True" "ws_worker s \<noteq> Exited"
  shows "\<exists>s'. worker_exec cfg s = Some s' \<and> ws_caller s' = Join True \<and> stop_measure s' < stop_measure s"
proof -
  have st: "ws_status s = Stopping" "ws_queue s = []" "ws_worker s \<noteq> NoThread" "batch_left (ws_worker s) = 0"
    using assms(1,2) by (auto simp: worker_inv_def)
  show ?thesis
  proof (cases "ws_worker s")
    case (Batch t k)
    then show ?thesis using assms(2) st by (cases k) (auto simp: worker_exec_def stop_measure_def)
  next
    case (ExitTest t p)
    then show ?thesis using assms(2) st by (auto simp: worker_exec_def stop_measure_def)
  qed (use assms(2,3) st in \<open>auto simp: worker_exec_def stop_measure_def\<close>)
qed

lemma stop_progress:
  assumes "worker_inv s" "stopping_phase (ws_caller s)"
  shows "\<exists>s'. worker_step cfg s s' \<and> stop_measure s' < stop_measure s
    \<and> (stopping_phase (ws_caller s') \<or> ws_caller s' = Stopped True)"
proof -
  have w: "worker_exec cfg s = Some s' \<Longrightarrow> worker_step cfg s s'" for s' using worker_step.step [of cfg WorkerStep s s'] by simp
  have go: "system_exec cfg a s = Some s' \<Longrightarrow> P s' \<Longrightarrow> \<exists>s'. worker_step cfg s s' \<and> P s'" for a s' P using worker_step.step by blast
  consider "ws_caller s = FlushWait True" "ws_queue s \<noteq> []" | "ws_caller s = FlushWait True" "ws_queue s = []"
    | "ws_caller s = StoreStopping" | "ws_caller s = Join True" "ws_worker s \<noteq> Exited" | "ws_caller s = Join True" "ws_worker s = Exited"
    using assms(2) by (auto simp: stopping_phase_def)
  then show ?thesis
  proof cases
    case 1
    then show ?thesis using drain_step [OF assms(1)] w by (auto simp: stopping_phase_def)
  next
    case 2
    then show ?thesis by (intro go [of FlushReturns]) (auto simp: stop_measure_def stopping_phase_def)
  next
    case 3
    have "exit_rank x < 49" for x :: "'a worker_at" by (cases x) auto
    then show ?thesis using 3 by (intro go [of StoreStop]) (auto simp: stop_measure_def stopping_phase_def)
  next
    case 4
    then show ?thesis using exit_step [OF assms(1)] w by (auto simp: stopping_phase_def)
  next
    case 5
    then show ?thesis by (intro go [of JoinReturns]) (auto simp: stop_measure_def stopping_phase_def)
  qed
qed

lemma stop_finishes:
  assumes "worker_inv s" "stopping_phase (ws_caller s)"
  shows "\<exists>s'. (worker_step cfg)\<^sup>*\<^sup>* s s' \<and> ws_caller s' = Stopped True"
  using assms
proof (induction s rule: measure_induct_rule [of stop_measure])
  case (less s)
  obtain t where t: "worker_step cfg s t" "stop_measure t < stop_measure s" "stopping_phase (ws_caller t) \<or> ws_caller t = Stopped True"
    using stop_progress [OF less.prems] by blast
  then show ?case using less.IH [OF t(2) worker_inv_step [OF t(1) less.prems(1)]]
    by (meson converse_rtranclp_into_rtranclp r_into_rtranclp)
qed

section \<open>Properties\<close>

text \<open>
  C7. Stopping loses nothing the ring accepted: in every interleaving of the backend thread with the thread
  that logs, flushes and stops it, over a ring of any capacity, once \<^verbatim>\<open>stop\<close> has returned the sink was
  given exactly the records published, each once and in the order of the calls, and every other record
  logged was counted as dropped. When the queue blocks instead of dropping, or the records logged fit the
  ring with seven bytes of padding each, these are all the records logged. A \<^verbatim>\<open>stop\<close> that has begun can
  always run to its end, and the ring never holds more than its capacity.
\<close>

theorem stop_delivers_all:
  assumes "(worker_step cfg)\<^sup>*\<^sup>* fresh_worker s"
  shows "(ws_caller s = Stopped True \<longrightarrow> ws_sink s = map fst (filter snd (ws_logged s))
        \<and> length (ws_sink s) + ws_dropped_count s = length (ws_logged s)
        \<and> (rc_mode cfg \<noteq> Drop \<or> sum_list (map (\<lambda>c. rc_size cfg (fst c) + 7) (ws_logged s)) \<le> rc_capacity cfg
             \<longrightarrow> ws_sink s = map fst (ws_logged s)))
    \<and> (stopping_phase (ws_caller s) \<longrightarrow> (\<exists>s'. (worker_step cfg)\<^sup>*\<^sup>* s s' \<and> ws_caller s' = Stopped True))
    \<and> ring_end (rc_size cfg) (ws_head s) (ws_queue s) \<le> ws_head s + rc_capacity cfg"
proof -
  have inv: "worker_inv s" "ring_inv cfg s" by (rule worker_inv_reachable [OF assms], rule ring_inv_reachable [OF assms])
  have sink: "ws_sink s = map fst (filter snd (ws_logged s))" if "ws_caller s = Stopped True"
    using inv(1) that by (simp add: worker_inv_def ws_sent_def)
  have "length (filter snd (ws_logged s)) + ws_dropped_count s = length (ws_logged s)"
    using inv(2) sum_length_filter_compl [of snd "ws_logged s"] by (simp add: ring_inv_def)
  moreover have "filter snd (ws_logged s) = ws_logged s" if "rc_mode cfg \<noteq> Drop \<or> logged_bytes cfg s \<le> rc_capacity cfg"
    using inv(2) that by (auto simp: ring_inv_def list_all_iff)
  moreover have "ring_end (rc_size cfg) (ws_head s) (ws_queue s) \<le> ws_head s + rc_capacity cfg"
    using inv(2) by (simp add: ring_inv_def)
  ultimately show ?thesis using sink stop_finishes [OF inv(1), of cfg] by auto
qed

text \<open>
  C37. A flush promises less than its name: for every record that fits the ring there is a run in which
  \<^verbatim>\<open>flush\<close> returned, and the one record logged before it has left the ring and has not reached the sink;
  and a run in which \<^verbatim>\<open>stop\<close> returned with every record in the sink, and the sink was last flushed before
  it was given the last one, because the backend thread answered the request between a batch and the record.
\<close>

theorem flush_returns_early:
  assumes "rc_size cfg r \<le> rc_capacity cfg"
  shows "\<exists>s t. (worker_step cfg)\<^sup>*\<^sup>* fresh_worker s \<and> ws_flushes_returned s = 1 \<and> ws_sent s = [r] \<and> ws_sink s = []
    \<and> (worker_step cfg)\<^sup>*\<^sup>* fresh_worker t \<and> ws_caller t = Stopped True \<and> ws_sink t = [r] \<and> ws_flushed t = []"
proof -
  note fits = assms record_fits_def ring_fits_def ceil_to_def
  let ?as = "[CallStart, CallLog r, CommitLog, CallFlush, WorkerStep, WorkerStep, WorkerStep, FlushReturns]"
  obtain s where s: "run_actions cfg ?as fresh_worker = Some s" "ws_flushes_returned s = 1" "ws_sent s = [r]" "ws_sink s = []"
    by (simp add: worker_exec_def fresh_worker_def ws_sent_def fits word_le_nat_alt)
  let ?bs = "[CallStart, WorkerStep, WorkerStep, CallLog r, CommitLog, CallStop, WorkerStep, WorkerStep, WorkerStep,
      WorkerStep, WorkerStep, WorkerStep, FlushReturns, StoreStop, WorkerStep, WorkerStep, WorkerStep, WorkerStep,
      WorkerStep, WorkerStep, WorkerStep, WorkerStep, JoinReturns]"
  obtain t where t: "run_actions cfg ?bs fresh_worker = Some t" "ws_caller t = Stopped True" "ws_sink t = [r]" "ws_flushed t = []"
    by (simp add: worker_exec_def fresh_worker_def fits word_le_nat_alt)
  show ?thesis using run_actions_reachable [OF s(1)] run_actions_reachable [OF t(1)] s t by blast
qed

definition small_ring :: "nat ring_config" where
  "small_ring = \<lparr>rc_capacity = 16, rc_mode = Drop, rc_size = \<lambda>r. 8\<rparr>"

theorem stop_delivers_all_witness:
  "\<exists>s. (worker_step small_ring)\<^sup>*\<^sup>* fresh_worker s \<and> ws_caller s = Stopped True
     \<and> ws_logged s = [(1, True), (2, True), (3, False)] \<and> ws_dropped_count s = 1 \<and> ws_sink s = [1, 2]"
proof -
  let ?as = "[CallStart, CallLog 1, CommitLog, CallLog 2, CommitLog, CallLog 3, CallStop, WorkerStep, WorkerStep, WorkerStep,
      WorkerStep, WorkerStep, FlushReturns, StoreStop, WorkerStep, WorkerStep, WorkerStep, WorkerStep, WorkerStep, WorkerStep,
      WorkerStep, WorkerStep, WorkerStep, JoinReturns]"
  obtain s where s: "run_actions small_ring ?as fresh_worker = Some s" "ws_caller s = Stopped True"
    "ws_logged s = [(1, True), (2, True), (3, False)]" "ws_dropped_count s = 1"
    by (simp add: worker_exec_def fresh_worker_def word_le_nat_alt small_ring_def record_fits_def ring_fits_def ceil_to_def)
  then show ?thesis using stop_delivers_all [OF run_actions_reachable [OF s(1)]] run_actions_reachable [OF s(1)] by auto
qed

theorem flush_returns_early_witness:
  "\<exists>s t. (worker_step small_ring)\<^sup>*\<^sup>* fresh_worker s \<and> ws_flushes_returned s = 1 \<and> ws_sent s = [5] \<and> ws_sink s = []
     \<and> (worker_step small_ring)\<^sup>*\<^sup>* fresh_worker t \<and> ws_caller t = Stopped True \<and> ws_sink t = [5] \<and> ws_flushed t = []"
  by (rule flush_returns_early) (simp add: small_ring_def)

end
