(* ===== verification/Dwarf_Cursor.thy ===== *)
theory Dwarf_Cursor
  imports Prelude
begin

text \<open>
  The bounded views and forward cursors of \<^verbatim>\<open>src/debug/dwarf/reader.h\<close> over the sections of an object
  file. A view is a pointer and a size: the model keeps the bytes that are mapped behind the pointer (a
  null pointer has none) beside the size the view claims. A read of a cursor is \<^term>\<open>None\<close> when the
  code returns false; then the code always leaves the parse, so nothing reads the cursor again.

  The position of a cursor is at most its size (\<open>cursor_ok\<close>), so the subtraction of the two in
  the bounds checks does not wrap, and positions are natural numbers here.
\<close>

section \<open>Definitions\<close>

record view =
  sv_data :: "u8 list"
  sv_size :: u64

record cursor =
  cu_data :: "u8 list"
  cu_size :: u64
  cu_position :: nat

type_synonym 'a read = "cursor \<Rightarrow> ('a \<times> cursor) option"

definition empty_view :: view where
  "empty_view = \<lparr>sv_data = [], sv_size = 0\<rparr>"

text \<open>The bytes before the first NUL, as \<^verbatim>\<open>memchr\<close> finds it.\<close>

definition c_string :: "u8 list \<Rightarrow> u8 list option" where
  "c_string bs = (if 0 \<in> set bs then Some (takeWhile (\<lambda>b. b \<noteq> 0) bs) else None)"

definition view_at :: "u64 \<Rightarrow> u64 \<Rightarrow> view \<Rightarrow> u8 list option" where
  "view_at offset bytes sv =
     (if offset > sv_size sv \<or> bytes > sv_size sv - offset then None else Some (drop (unat offset) (sv_data sv)))"

definition string_at :: "u64 \<Rightarrow> view \<Rightarrow> u8 list option" where
  "string_at offset sv =
     (if offset \<ge> sv_size sv then None
      else c_string (take (unat (sv_size sv - offset)) (drop (unat offset) (sv_data sv))))"

definition view_cursor :: "view \<Rightarrow> cursor" where
  "view_cursor sv = \<lparr>cu_data = sv_data sv, cu_size = sv_size sv, cu_position = 0\<rparr>"

definition seek :: "u64 \<Rightarrow> cursor \<Rightarrow> cursor option" where
  "seek position c =
     (if position > cu_size c then None else Some (c\<lparr>cu_position := unat position\<rparr>))"

definition fixed :: "u64 \<Rightarrow> u64 read" where
  "fixed bytes c =
     (if bytes = 0 \<or> bytes > 8 \<or> unat bytes > unat (cu_size c) - cu_position c then None
      else Some (fold (\<lambda>index value. value OR push_bit (index * 8) (ucast (cu_data c ! (cu_position c + index))))
                   [0..<unat bytes] 0,
                 c\<lparr>cu_position := cu_position c + unat bytes\<rparr>))"

fun uleb_from :: "nat \<Rightarrow> u64 \<Rightarrow> nat \<Rightarrow> u64 read" where
  "uleb_from 0 value shift c = None"
| "uleb_from (Suc count) value shift c = do {
     (byte, c) \<leftarrow> fixed 1 c;
     let value = (if shift < 64 then value OR push_bit shift (byte AND 0x7F) else value);
     (if byte AND 0x80 = 0 then Some (value, c) else uleb_from count value (shift + 7) c)
   }"

definition uleb :: "u64 read" where
  "uleb c = uleb_from 10 0 0 c"

text \<open>A signed value is the 64-bit word of its two's complement.\<close>

fun sleb_from :: "nat \<Rightarrow> u64 \<Rightarrow> nat \<Rightarrow> u64 read" where
  "sleb_from 0 value shift c = None"
| "sleb_from (Suc count) value shift c = do {
     (byte, c) \<leftarrow> fixed 1 c;
     let value = (if shift < 64 then value OR push_bit shift (byte AND 0x7F) else value);
     let shift = shift + 7;
     (if byte AND 0x80 = 0
      then Some (if shift < 64 \<and> byte AND 0x40 \<noteq> 0 then value OR push_bit shift (- 1) else value, c)
      else sleb_from count value shift c)
   }"

definition sleb :: "u64 read" where
  "sleb c = sleb_from 10 0 0 c"

definition skip :: "u64 \<Rightarrow> cursor \<Rightarrow> cursor option" where
  "skip bytes c =
     (if unat bytes > unat (cu_size c) - cu_position c then None
      else Some (c\<lparr>cu_position := cu_position c + unat bytes\<rparr>))"

definition cursor_string :: "u8 list read" where
  "cursor_string c =
     (if cu_position c \<ge> unat (cu_size c) then None
      else do {
        text \<leftarrow> c_string (take (unat (cu_size c) - cu_position c) (drop (cu_position c) (cu_data c)));
        Some (text, c\<lparr>cu_position := cu_position c + length text + 1\<rparr>)
      })"

section \<open>Cursors as the bytes ahead of them\<close>

definition view_ok :: "view \<Rightarrow> bool" where
  "view_ok sv \<longleftrightarrow> unat (sv_size sv) \<le> length (sv_data sv)"

definition cursor_ok :: "cursor \<Rightarrow> bool" where
  "cursor_ok c \<longleftrightarrow> cu_position c \<le> unat (cu_size c) \<and> unat (cu_size c) \<le> length (cu_data c)"

definition ahead :: "cursor \<Rightarrow> u8 list" where
  "ahead c = take (unat (cu_size c) - cu_position c) (drop (cu_position c) (cu_data c))"

definition advance :: "nat \<Rightarrow> cursor \<Rightarrow> cursor" where
  "advance n c = c\<lparr>cu_position := cu_position c + n\<rparr>"

named_theorems reads \<open>what a read of a cursor does in terms of the bytes ahead\<close>

lemma ahead_advance [simp]: "ahead (advance n c) = drop n (ahead c)"
  by (simp add: ahead_def advance_def drop_take add.commute)

lemma advance_0 [simp]: "advance 0 c = c" and advance_advance [simp]: "advance m (advance n c) = advance (n + m) c"
  by (simp_all add: advance_def add.assoc)

lemma length_ahead: "cursor_ok c \<Longrightarrow> length (ahead c) = unat (cu_size c) - cu_position c"
  by (auto simp: ahead_def cursor_ok_def min_def)

lemma cursor_ok_advance: "cursor_ok c \<Longrightarrow> n \<le> length (ahead c) \<Longrightarrow> cursor_ok (advance n c)"
  by (auto simp: cursor_ok_def length_ahead advance_def ahead_def)

lemma view_cursor_ok: "view_ok sv \<Longrightarrow> cursor_ok (view_cursor sv)"
  by (simp add: view_ok_def cursor_ok_def view_cursor_def)

lemma ahead_nth: "cursor_ok c \<Longrightarrow> i < length (ahead c) \<Longrightarrow> cu_data c ! (cu_position c + i) = ahead c ! i"
  by (simp add: ahead_def cursor_ok_def)

text \<open>The loop of \<^verbatim>\<open>Cursor::fixed\<close> builds the little-endian number of the bytes it reads.\<close>

lemma fixed_fold:
  assumes "length bs \<le> 8"
  shows "fold (\<lambda>i v. v OR push_bit (i * 8) (ucast (bs ! i))) [0..<length bs] (0 :: u64) = of_nat (of_le bs)"
  using assms
proof (induction bs rule: rev_induct)
  case (snoc b bs)
  let ?f = "\<lambda>i (v :: u64). v OR push_bit (i * 8) (ucast ((bs @ [b]) ! i))"
  let ?k = "length bs * 8"
  have e: "fold ?f [0..<length bs] 0 = of_nat (of_le bs)"
    using snoc by (subst fold_cong [OF refl refl, where g = "\<lambda>i v. v OR push_bit (i * 8) (ucast (bs ! i))"])
      (auto simp: nth_append)
  have p: "(256 :: nat) ^ length bs = 2 ^ ?k" using power_mult [of "2 :: nat" 8 "length bs"] by (simp add: mult.commute)
  have "?k < 64" using snoc.prems by simp
  then have lt: "(2 :: nat) ^ ?k < 2 ^ 64" by (intro power_strict_increasing) simp_all
  have l: "of_le bs < 2 ^ ?k" using of_le_less [of bs] p by simp
  have u: "unat (of_nat (of_le bs) :: u64) < 2 ^ ?k" using l lt by (simp add: unat_of_nat_small)
  have app: "of_le (bs @ [b]) = of_le bs + 2 ^ ?k * unat b"
    unfolding p [symmetric] by (induction bs) (simp_all add: algebra_simps)
  have "fold ?f [0..<length (bs @ [b])] 0 = of_nat (of_le bs) + push_bit ?k (ucast b)"
    using or_push_bit_add [OF u] by (simp add: e)
  also have "\<dots> = of_nat (of_le (bs @ [b]))"
    by (simp add: app push_bit_eq_mult mult.commute)
  finally show ?case .
qed simp

lemma fixed_ahead [reads]:
  assumes "cursor_ok c"
  shows "fixed n c = (if n = 0 \<or> n > 8 \<or> unat n > length (ahead c) then None
    else Some (of_nat (of_le (take (unat n) (ahead c))), advance (unat n) c))"
proof (cases "n = 0 \<or> n > 8 \<or> unat n > length (ahead c)")
  case False
  let ?bs = "take (unat n) (ahead c)"
  have n: "unat n \<le> 8" "length ?bs = unat n" using False by (simp_all add: word_le_nat_alt not_less)
  have "fold (\<lambda>i v. v OR push_bit (i * 8) (ucast (cu_data c ! (cu_position c + i)))) [0..<unat n] (0 :: u64)
      = fold (\<lambda>i v. v OR push_bit (i * 8) (ucast (?bs ! i))) [0..<length ?bs] 0"
    using False assms by (intro fold_cong) (auto simp: n ahead_nth)
  then show ?thesis using False fixed_fold [of ?bs] n by (simp add: fixed_def advance_def length_ahead [OF assms])
qed (use assms in \<open>auto simp: fixed_def length_ahead\<close>)

lemma fixed_byte [reads]:
  assumes "cursor_ok c"
  shows "fixed 1 c = (case ahead c of [] \<Rightarrow> None | b # _ \<Rightarrow> Some (ucast b, advance 1 c))"
  by (cases "ahead c") (simp_all add: fixed_ahead [OF assms])

lemma skip_ahead [reads]:
  assumes "cursor_ok c"
  shows "skip n c = (if unat n > length (ahead c) then None else Some (advance (unat n) c))"
  by (simp add: skip_def advance_def length_ahead [OF assms])

lemma c_string_append: "0 \<notin> set bs \<Longrightarrow> c_string (bs @ 0 # rest) = Some bs"
  by (induction bs) (auto simp: c_string_def)

lemma cursor_string_ahead [reads]:
  assumes "cursor_ok c"
  shows "cursor_string c = (case c_string (ahead c) of None \<Rightarrow> None
    | Some t \<Rightarrow> Some (t, advance (length t + 1) c))"
  using assms length_ahead [OF assms]
  by (auto simp: cursor_string_def ahead_def [symmetric] advance_def c_string_def)

section \<open>Every read moves forward\<close>

definition remaining :: "cursor \<Rightarrow> nat" where
  "remaining c = unat (cu_size c) - cu_position c"

text \<open>\<open>c'\<close> is the same cursor, further on and not past its end.\<close>

definition forward :: "cursor \<Rightarrow> cursor \<Rightarrow> bool" where
  "forward c c' \<longleftrightarrow> cu_data c' = cu_data c \<and> cu_size c' = cu_size c \<and> cu_position c \<le> cu_position c'
     \<and> (cu_position c \<le> unat (cu_size c) \<longrightarrow> cu_position c' \<le> unat (cu_size c))"

definition past :: "cursor \<Rightarrow> cursor \<Rightarrow> bool" where
  "past c c' \<longleftrightarrow> forward c c' \<and> cu_position c < cu_position c' \<and> cu_position c < unat (cu_size c)"

named_theorems moves \<open>reads move a cursor forward\<close>

lemma forward_refl [simp, moves]: "forward c c"
  and forward_trans: "forward c d \<Longrightarrow> forward d e \<Longrightarrow> forward c e"
  and past_forward [moves]: "past c d \<Longrightarrow> forward c d"
  by (auto simp: forward_def past_def)

lemma past_trans1: "past c d \<Longrightarrow> forward d e \<Longrightarrow> past c e"
  and past_trans2: "forward c d \<Longrightarrow> past d e \<Longrightarrow> past c e"
  by (auto simp: forward_def past_def)

lemma forward_ok: "forward c d \<Longrightarrow> cursor_ok c \<Longrightarrow> cursor_ok d"
  by (auto simp: forward_def cursor_ok_def)

lemma past_remaining: "past c d \<Longrightarrow> remaining d < remaining c"
  by (auto simp: forward_def past_def remaining_def)

lemma forward_remaining: "forward c d \<Longrightarrow> remaining d \<le> remaining c"
  by (auto simp: forward_def remaining_def)

lemma fixed_past [moves]: "fixed n c = Some (x, d) \<Longrightarrow> past c d"
  by (auto simp: fixed_def forward_def past_def word_neq_0_conv word_less_nat_alt split: if_splits)

lemma uleb_from_past: "uleb_from k v s c = Some (x, d) \<Longrightarrow> past c d"
proof (induction k arbitrary: v s c)
  case (Suc k)
  obtain byte b where b: "fixed 1 c = Some (byte, b)" using Suc.prems by (auto simp: bind_eq_Some_conv)
  then have "d = b \<or> past b d" using Suc by (auto simp: Let_def split: if_splits)
  then show ?case using fixed_past [OF b] past_trans1 past_forward by blast
qed simp

lemma sleb_from_past: "sleb_from k v s c = Some (x, d) \<Longrightarrow> past c d"
proof (induction k arbitrary: v s c)
  case (Suc k)
  obtain byte b where b: "fixed 1 c = Some (byte, b)" using Suc.prems by (auto simp: bind_eq_Some_conv)
  then have "d = b \<or> past b d" using Suc by (auto simp: Let_def split: if_splits)
  then show ?case using fixed_past [OF b] past_trans1 past_forward by blast
qed simp

lemma uleb_past [moves]: "uleb c = Some (x, d) \<Longrightarrow> past c d"
  and sleb_past [moves]: "sleb c = Some (x, d) \<Longrightarrow> past c d"
  by (simp_all add: uleb_def sleb_def uleb_from_past sleb_from_past)

lemma skip_forward [moves]: "skip n c = Some d \<Longrightarrow> forward c d"
  by (auto simp: skip_def forward_def split: if_splits)

lemma c_string_less: "c_string bs = Some t \<Longrightarrow> length t < length bs"
  by (induction bs arbitrary: t) (auto simp: c_string_def split: if_splits)

lemma cursor_string_past [moves]:
  assumes "cursor_string c = Some (t, d)"
  shows "past c d"
proof -
  let ?bs = "take (unat (cu_size c) - cu_position c) (drop (cu_position c) (cu_data c))"
  have t: "c_string ?bs = Some t" "d = c\<lparr>cu_position := cu_position c + length t + 1\<rparr>" "cu_position c < unat (cu_size c)"
    using assms by (auto simp: cursor_string_def bind_eq_Some_conv split: if_splits)
  have "length t < length ?bs" by (rule c_string_less [OF t(1)])
  also have "\<dots> \<le> unat (cu_size c) - cu_position c" by simp
  finally show ?thesis using t by (auto simp: past_def forward_def)
qed

section \<open>LEB128\<close>

text \<open>The encodings, as the format defines them.\<close>

function uleb_bytes :: "nat \<Rightarrow> u8 list" where
  "uleb_bytes n = (if n < 128 then [of_nat n] else of_nat (n mod 128 + 128) # uleb_bytes (n div 128))"
  by pat_completeness auto
termination by (relation "measure id") auto

function sleb_bytes :: "int \<Rightarrow> u8 list" where
  "sleb_bytes i = (if - 64 \<le> i \<and> i < 64 then [word_of_int (i mod 128)]
     else word_of_int (i mod 128 + 128) # sleb_bytes (i div 128))"
  by pat_completeness auto
termination by (relation "measure (\<lambda>i. nat (if i < 0 then - i else i))") auto

declare uleb_bytes.simps [simp del] sleb_bytes.simps [simp del]

lemma byte_bit: "bit (b :: u8) n \<longleftrightarrow> odd (unat b div 2 ^ n)"
proof -
  have "bit (unat b) n \<longleftrightarrow> bit b n" by (simp add: bit_unsigned_iff)
  then show ?thesis by (simp only: bit_iff_odd [of "unat b"])
qed

lemma uleb_byte:
  fixes b :: u8
  shows "(ucast b AND 0x7F :: u64) = of_nat (unat b mod 128)" "(ucast b AND 0x80 :: u64) = 0 \<longleftrightarrow> unat b < 128"
    "(ucast b AND 0x40 :: u64) = 0 \<longleftrightarrow> unat b mod 128 < 64"
proof -
  have lt: "unat b < 256" using unat_lt2p [of b] by simp
  have m: "(0x7F :: u64) = mask 7" "(0x80 :: u64) = 2 ^ 7" "(0x40 :: u64) = 2 ^ 6" by (simp_all add: mask_eq_exp_minus_1)
  have "unat (ucast b AND mask 7 :: u64) = unat b mod 128"
    using lt by (simp add: unat_and_mask unsigned_ucast_eq take_bit_nat_eq_self)
  then show "(ucast b AND 0x7F :: u64) = of_nat (unat b mod 128)"
    unfolding m by (simp only: word_unat_eq_iff) (simp add: unat_of_nat_small)
  have b: "bit (ucast b :: u64) 7 \<longleftrightarrow> odd (unat b div 128)" "bit (ucast b :: u64) 6 \<longleftrightarrow> odd (unat b div 64)"
    by (simp_all add: bit_ucast_iff byte_bit)
  have q: "unat b div 128 = (if unat b < 128 then 0 else 1)" using lt by (auto intro!: div_nat_eqI)
  have r: "unat b mod 128 = 64 * (unat b div 64 mod 2) + unat b mod 64" using mod_mult2_eq [of "unat b" 64 2] by simp
  show "(ucast b AND 0x80 :: u64) = 0 \<longleftrightarrow> unat b < 128"
    unfolding m and_exp_eq_0_iff_not_bit b using q by simp
  show "(ucast b AND 0x40 :: u64) = 0 \<longleftrightarrow> unat b mod 128 < 64"
    unfolding m and_exp_eq_0_iff_not_bit b r by (cases "even (unat b div 64)") (auto simp: odd_iff_mod_2_eq_one)
qed

lemma seven_bits:
  fixes v :: u64
  assumes "unat v < 2 ^ s"
  shows "v OR push_bit s (of_nat m) = v + of_nat (m * 2 ^ s)"
    "unat v + m * 2 ^ s < 2 ^ 64 \<Longrightarrow> unat (v OR push_bit s (of_nat m)) = unat v + m * 2 ^ s"
    "m < 128 \<Longrightarrow> unat v + m * 2 ^ s < 2 ^ (s + 7)"
proof -
  show w: "v OR push_bit s (of_nat m) = v + of_nat (m * 2 ^ s)"
    unfolding or_push_bit_add [OF assms(1)] by (simp only: push_bit_eq_mult of_nat_mult of_nat_power of_nat_numeral)
  show "unat (v OR push_bit s (of_nat m)) = unat v + m * 2 ^ s" if l: "unat v + m * 2 ^ s < 2 ^ 64"
  proof -
    have "unat (of_nat (m * 2 ^ s) :: u64) = m * 2 ^ s" using l by (intro unat_of_nat_small) simp
    then show ?thesis unfolding w using l by (subst unat_add_nowrap) simp_all
  qed
  show "unat v + m * 2 ^ s < 2 ^ (s + 7)" if "m < 128"
  proof -
    have "m * 2 ^ s \<le> 127 * 2 ^ s" using that by (intro mult_le_mono) auto
    moreover have "(2 :: nat) ^ (s + 7) = 128 * 2 ^ s" by (simp add: power_add)
    ultimately show ?thesis using assms by linarith
  qed
qed

lemma uleb_more:
  assumes "unat (v :: u64) < 2 ^ s" "unat v + n * 2 ^ s < 2 ^ 64" "128 \<le> (n :: nat)"
  defines "w \<equiv> v OR push_bit s (of_nat (n mod 128))"
  shows "s < 64" "unat w < 2 ^ (s + 7)" "unat w + n div 128 * 2 ^ (s + 7) = unat v + n * 2 ^ s"
    "w + of_nat (n div 128 * 2 ^ (s + 7)) = v + of_nat (n * 2 ^ s)"
proof -
  have "128 * (2 :: nat) ^ s \<le> n * 2 ^ s" using assms(3) by simp
  then have "(2 :: nat) ^ s < 2 ^ 64" using assms(2) by linarith
  then show "s < 64" by (rule power_less_imp_less_exp [rotated]) simp
  have split: "n mod 128 * 2 ^ s + n div 128 * 2 ^ (s + 7) = n * 2 ^ s"
  proof -
    have "n mod 128 * 2 ^ s + n div 128 * 2 ^ (s + 7) = (n mod 128 + n div 128 * 128) * 2 ^ s"
      by (simp only: power_add add_mult_distrib mult.assoc) simp
    also have "n mod 128 + n div 128 * 128 = n" by simp
    finally show ?thesis .
  qed
  then have "unat v + n mod 128 * 2 ^ s < 2 ^ 64" using assms(2) by linarith
  then have uw: "unat w = unat v + n mod 128 * 2 ^ s" unfolding w_def by (rule seven_bits(2) [OF assms(1)])
  show "unat w < 2 ^ (s + 7)" unfolding uw by (rule seven_bits(3) [OF assms(1)]) simp
  show "unat w + n div 128 * 2 ^ (s + 7) = unat v + n * 2 ^ s" using uw split by simp
  show "w + of_nat (n div 128 * 2 ^ (s + 7)) = v + of_nat (n * 2 ^ s)"
    unfolding w_def seven_bits(1) [OF assms(1)] split [symmetric] by simp
qed

lemma uleb_from_bytes:
  assumes "cursor_ok c" "ahead c = uleb_bytes n @ rest" "unat v < 2 ^ s" "unat v + n * 2 ^ s < 2 ^ 64"
    and "n < 2 ^ (7 * k)" "0 < k"
  shows "uleb_from k v s c = Some (v + of_nat (n * 2 ^ s), advance (length (uleb_bytes n)) c)"
  using assms
proof (induction n arbitrary: c v s k rule: uleb_bytes.induct)
  case (1 n)
  obtain k' where k: "k = Suc k'" using "1.prems"(6) by (cases k) auto
  define b :: u8 where "b = of_nat (if n < 128 then n else n mod 128 + 128)"
  have ub: "unat b = (if n < 128 then n else n mod 128 + 128)" by (simp add: b_def unat_of_nat_small)
  have bs: "uleb_bytes n = b # (if n < 128 then [] else uleb_bytes (n div 128))"
    by (subst uleb_bytes.simps) (simp add: b_def)
  have f: "fixed 1 c = Some (ucast b, advance 1 c)"
    using fixed_byte [OF "1.prems"(1)] "1.prems"(2) by (simp add: bs)
  show ?case
  proof (cases "n < 128")
    case True
    have "s < 64 \<or> n = 0"
    proof (rule ccontr)
      assume a: "\<not> ?thesis"
      have "(2 :: nat) ^ 64 \<le> 2 ^ s" by (rule power_increasing) (use a in simp_all)
      moreover have "2 ^ s \<le> n * 2 ^ s" using a by simp
      ultimately show False using "1.prems"(4) by linarith
    qed
    then show ?thesis
      using True or_push_bit_add [OF "1.prems"(3)] by (auto simp: k f uleb_byte ub Let_def bs push_bit_eq_mult)
  next
    case False
    then have n: "128 \<le> n" by simp
    note sb = uleb_more [OF "1.prems"(3,4) n]
    have k': "0 < k'" "n div 128 < 2 ^ (7 * k')"
      using "1.prems"(5) n unfolding k by (auto simp: power_add div_less_iff_less_mult mult.commute intro: gr0I)
    have ok: "cursor_ok (advance 1 c)" using "1.prems"(1,2) by (intro cursor_ok_advance) (simp_all add: bs)
    have ah: "ahead (advance 1 c) = uleb_bytes (n div 128) @ rest" using "1.prems"(2) False by (simp add: bs)
    have lt: "unat (v OR push_bit s (of_nat (n mod 128))) + n div 128 * 2 ^ (s + 7) < 2 ^ 64"
      using sb(3) "1.prems"(4) by simp
    from "1.IH" [OF False ok ah sb(2) lt k'(2,1)] show ?thesis
      using False sb(1,4) by (simp add: k f uleb_byte ub Let_def bs del: push_bit_and)
  qed
qed

lemma sleb_word:
  assumes "unat (v :: u64) < 2 ^ s" "int m = i mod 128"
  shows "v OR push_bit s (of_nat m) = v + word_of_int (i mod 128 * 2 ^ s)" "m < 128"
proof -
  show "m < 128" using assms(2) pos_mod_bound [of 128 i] by linarith
  have "int (m * 2 ^ s) = i mod 128 * 2 ^ s"
    by (simp only: of_nat_mult of_nat_power of_nat_numeral assms(2))
  then have "(of_nat (m * 2 ^ s) :: u64) = word_of_int (i mod 128 * 2 ^ s)"
    using of_int_of_nat_eq [of "m * 2 ^ s", where 'a = u64] by (simp only:)
  then show "v OR push_bit s (of_nat m) = v + word_of_int (i mod 128 * 2 ^ s)" by (simp only: seven_bits(1) [OF assms(1)])
qed

lemma sleb_more:
  fixes i :: int
  assumes "unat (v :: u64) < 2 ^ s" "- (2 ^ 63) \<le> int (unat v) + i * 2 ^ s" "int (unat v) + i * 2 ^ s < 2 ^ 63"
    and "\<not> (- 64 \<le> i \<and> i < 64)" "s + 7 * k = 70" "int m = i mod 128"
  defines "w \<equiv> v OR push_bit s (of_nat m)"
  shows "s + 7 < 64" "unat w < 2 ^ (s + 7)" "int (unat w) + i div 128 * 2 ^ (s + 7) = int (unat v) + i * 2 ^ s"
    "w + word_of_int (i div 128 * 2 ^ (s + 7)) = v + word_of_int (i * 2 ^ s)"
proof -
  have v: "int (unat v) < 2 ^ s" using assms(1) by (metis of_nat_less_numeral_power_cancel_iff)
  have "64 * (2 :: int) ^ s \<le> 2 ^ 63"
  proof (cases "0 \<le> i")
    case True
    then have "64 * 2 ^ s \<le> i * 2 ^ s" using assms(4) by (intro mult_right_mono) auto
    then show ?thesis using assms(3) by linarith
  next
    case False
    then have "i * 2 ^ s \<le> (- 65) * 2 ^ s" using assms(4) by (intro mult_right_mono) auto
    then show ?thesis using assms(2) v by linarith
  qed
  then have "(2 :: int) ^ (s + 6) \<le> 2 ^ 63" by (simp add: power_add)
  then have "s + 6 \<le> 63" by (rule power_le_imp_le_exp [rotated]) simp
  then show s: "s + 7 < 64" using assms(5) by presburger
  note m = sleb_word(2) [OF assms(1,6)] assms(6)
  have "unat v + m * 2 ^ s < 2 ^ (s + 7)" by (rule seven_bits(3) [OF assms(1) m(1)])
  also have "(2 :: nat) ^ (s + 7) < 2 ^ 64" by (rule power_strict_increasing [OF s]) simp
  finally have uw: "unat w = unat v + m * 2 ^ s" unfolding w_def by (rule seven_bits(2) [OF assms(1)])
  show "unat w < 2 ^ (s + 7)" unfolding uw by (rule seven_bits(3) [OF assms(1) m(1)])
  have split: "i mod 128 * 2 ^ s + i div 128 * 2 ^ (s + 7) = i * 2 ^ s"
  proof -
    have "i mod 128 * 2 ^ s + i div 128 * 2 ^ (s + 7) = (i mod 128 + i div 128 * 128) * 2 ^ s"
      by (simp only: power_add distrib_right mult.assoc) simp
    also have "i mod 128 + i div 128 * 128 = i" by simp
    finally show ?thesis .
  qed
  show "int (unat w) + i div 128 * 2 ^ (s + 7) = int (unat v) + i * 2 ^ s"
    unfolding uw of_nat_add of_nat_mult m(2) using split by simp
  have "w = v + word_of_int (i mod 128 * 2 ^ s)" unfolding w_def by (rule sleb_word [OF assms(1,6)])
  then show "w + word_of_int (i div 128 * 2 ^ (s + 7)) = v + word_of_int (i * 2 ^ s)"
    unfolding split [symmetric] by simp
qed

lemma sleb_last:
  fixes i :: int
  assumes "unat (v :: u64) < 2 ^ s" "- (2 ^ 63) \<le> int (unat v) + i * 2 ^ s" "int (unat v) + i * 2 ^ s < 2 ^ 63"
    and "- 64 \<le> i" "i < 64" "s + 7 * k = 70" "s < 64" "int m = i mod 128"
  defines "w \<equiv> v OR push_bit s (of_nat m)"
  shows "(if s + 7 < 64 \<and> \<not> m < 64 then w OR push_bit (s + 7) (- 1) else w)
    = v + word_of_int (i * 2 ^ s)"
proof -
  have w: "w = v + word_of_int (i mod 128 * 2 ^ s)" unfolding w_def by (rule sleb_word [OF assms(1,8)])
  have m: "i mod 128 = (if 0 \<le> i then i else i + 128)"
    using assms(4,5) mod_pos_pos_trivial [of i 128] mod_pos_pos_trivial [of "i + 128" 128] by auto
  show ?thesis
  proof (cases "0 \<le> i")
    case True
    then have "m < 64" using assms(5,8) m by simp
    then show ?thesis using True w m by simp
  next
    case neg: False
    show ?thesis
    proof (cases "s + 7 < 64")
      case True
      have "unat v + m * 2 ^ s < 2 ^ (s + 7)" by (rule seven_bits(3) [OF assms(1) sleb_word(2) [OF assms(1,8)]])
      moreover have "(2 :: nat) ^ (s + 7) < 2 ^ 64" by (rule power_strict_increasing [OF True]) simp
      ultimately have "unat w < 2 ^ (s + 7)" unfolding w_def using seven_bits(2) [OF assms(1)] by simp
      then have "w OR push_bit (s + 7) (- 1) = w - 2 ^ (s + 7)"
        by (subst or_push_bit_add) (simp_all only: push_bit_eq_mult, simp)
      moreover have "\<not> m < 64" using neg m assms(4,8) by simp
      ultimately have "(if s + 7 < 64 \<and> \<not> m < 64 then w OR push_bit (s + 7) (- 1) else w) = w - 2 ^ (s + 7)"
        using True by (simp only: simp_thms if_True)
      then show ?thesis unfolding w m using neg by (simp add: power_add algebra_simps)
    next
      case False
      then have s: "s = 63" using assms(6,7) by presburger
      have "int (unat v) < 2 ^ 63" using assms(1) unfolding s by (simp flip: of_nat_less_iff [where 'a = int])
      moreover have "i * 2 ^ 63 \<le> (- 2) * 2 ^ 63" if "i \<le> - 2" using that by (rule mult_right_mono) simp
      ultimately have "\<not> i \<le> - 2" using assms(2) unfolding s by auto
      then have "i = - 1" using neg by linarith
      then show ?thesis unfolding w m by (simp add: s)
    qed
  qed
qed

lemma sleb_from_bytes:
  assumes "cursor_ok c" "ahead c = sleb_bytes i @ rest" "unat v < 2 ^ s"
    and "- (2 ^ 63) \<le> int (unat v) + i * 2 ^ s" "int (unat v) + i * 2 ^ s < 2 ^ 63" "s + 7 * k = 70" "s < 64"
  shows "sleb_from k v s c = Some (v + word_of_int (i * 2 ^ s), advance (length (sleb_bytes i)) c)"
  using assms
proof (induction i arbitrary: c v s k rule: sleb_bytes.induct)
  case (1 i)
  let ?last = "- 64 \<le> i \<and> i < 64"
  obtain k' where k: "k = Suc k'" using "1.prems"(6,7) by (cases k) auto
  define b :: u8 where "b = word_of_int (if ?last then i mod 128 else i mod 128 + 128)"
  have "uint b = (if ?last then i mod 128 else i mod 128 + 128)"
    by (auto simp: b_def uint_word_of_int intro!: mod_pos_pos_trivial)
  moreover obtain m where m: "int m = i mod 128" by (metis nat_0_le pos_mod_sign zero_less_numeral)
  ultimately have ub: "unat b = (if ?last then m else m + 128)"
    by (simp add: unat_eq_nat_uint) linarith
  have lt: "m < 128" by (rule sleb_word(2) [OF "1.prems"(3) m])
  have bs: "sleb_bytes i = b # (if ?last then [] else sleb_bytes (i div 128))"
    by (subst sleb_bytes.simps) (simp add: b_def)
  have f: "fixed 1 c = Some (ucast b, advance 1 c)"
    using fixed_byte [OF "1.prems"(1)] "1.prems"(2) by (simp add: bs)
  show ?case
  proof (cases ?last)
    case True
    then have "- 64 \<le> i" "i < 64" by auto
    from sleb_last [OF "1.prems"(3-5) this "1.prems"(6,7) m] show ?thesis
      using True lt "1.prems"(7) by (auto simp add: k f uleb_byte ub Let_def bs simp del: push_bit_and push_bit_minus_one_eq_not_mask split: if_splits)
  next
    case False
    note sm = sleb_more [OF "1.prems"(3-5) False "1.prems"(6) m]
    have ok: "cursor_ok (advance 1 c)" using "1.prems"(1,2) by (intro cursor_ok_advance) (simp_all add: bs)
    have ah: "ahead (advance 1 c) = sleb_bytes (i div 128) @ rest" using "1.prems"(2) False by (simp add: bs)
    have k7: "s + 7 + 7 * k' = 70" using "1.prems"(6) k by simp
    have ub': "unat b = m + 128" and bs': "sleb_bytes i = b # sleb_bytes (i div 128)" using ub bs False by auto
    from "1.IH" [OF False ok ah sm(2) _ _ k7 sm(1)] show ?thesis
      using lt sm "1.prems"(4,5,7) by (simp add: k f uleb_byte ub' Let_def bs' del: push_bit_and)
  qed
qed

lemma uleb_ahead:
  assumes "cursor_ok c" "ahead c = uleb_bytes n @ rest" "n < 2 ^ 64"
  shows "uleb c = Some (of_nat n, advance (length (uleb_bytes n)) c)"
proof -
  have "n < 2 ^ (7 * 10)" using assms(3) by simp
  then show ?thesis using uleb_from_bytes [OF assms(1,2), of 0 0 10] assms(3) by (simp add: uleb_def)
qed

lemma sleb_ahead:
  assumes "cursor_ok c" "ahead c = sleb_bytes i @ rest" "- (2 ^ 63) \<le> i" "i < 2 ^ 63"
  shows "sleb c = Some (word_of_int i, advance (length (sleb_bytes i)) c)"
  using sleb_from_bytes [OF assms(1,2), of 0 0 10] assms(3,4) by (simp add: sleb_def)

fun le_bytes :: "nat \<Rightarrow> nat \<Rightarrow> u8 list" where
  "le_bytes 0 n = []"
| "le_bytes (Suc k) n = of_nat (n mod 256) # le_bytes k (n div 256)"

lemma length_le_bytes [simp]: "length (le_bytes k n) = k"
  by (induction k n rule: le_bytes.induct) simp_all

lemma of_le_bytes: "of_le (le_bytes k n) = n mod 256 ^ k"
  by (induction k n rule: le_bytes.induct) (simp_all add: unat_of_nat_small mod_mult2_eq)

lemma fixed_le_bytes:
  assumes "cursor_ok c" "ahead c = le_bytes 8 (unat x) @ rest"
  shows "fixed 8 c = Some (x, advance 8 c)"
proof -
  have "unat x < 256 ^ 8" using unat_lt2p [of x] by simp
  then have "of_le (take 8 (ahead c)) = unat x" by (simp add: assms(2) of_le_bytes)
  then show ?thesis using fixed_ahead [OF assms(1), of 8] by (simp add: assms(2))
qed

section \<open>Properties\<close>

text \<open>
  C24. Reading back a LEB128 number: for every 64-bit unsigned value and every 64-bit signed value, the
  cursor reads the value from its encoding, whatever follows, and stops right after it.
\<close>

theorem leb128_roundtrip:
  assumes "cursor_ok c"
  shows "(\<forall>rest n. ahead c = uleb_bytes n @ rest \<and> n < 2 ^ 64 \<longrightarrow>
      uleb c = Some (of_nat n, advance (length (uleb_bytes n)) c))
    \<and> (\<forall>rest i. ahead c = sleb_bytes i @ rest \<and> - (2 ^ 63) \<le> i \<and> i < 2 ^ 63 \<longrightarrow>
      sleb c = Some (word_of_int i, advance (length (sleb_bytes i)) c))"
  using uleb_ahead [OF assms] sleb_ahead [OF assms] by blast

theorem leb128_roundtrip_witness:
  "uleb \<lparr>cu_data = [0xE5, 0x8E, 0x26, 7], cu_size = 4, cu_position = 0\<rparr>
     = Some (624485, \<lparr>cu_data = [0xE5, 0x8E, 0x26, 7], cu_size = 4, cu_position = 3\<rparr>)
   \<and> sleb \<lparr>cu_data = [0x80, 0x7F], cu_size = 2, cu_position = 0\<rparr>
     = Some (- 128, \<lparr>cu_data = [0x80, 0x7F], cu_size = 2, cu_position = 2\<rparr>)"
proof -
  let ?c = "\<lparr>cu_data = [0xE5, 0x8E, 0x26, 7], cu_size = 4, cu_position = 0\<rparr> :: cursor"
  let ?d = "\<lparr>cu_data = [0x80, 0x7F], cu_size = 2, cu_position = 0\<rparr> :: cursor"
  have ok: "cursor_ok ?c" "cursor_ok ?d" by (simp_all add: cursor_ok_def)
  have e: "uleb_bytes 624485 = [0xE5, 0x8E, 0x26]" "sleb_bytes (- 128) = [0x80, 0x7F]"
    by (simp_all add: uleb_bytes.simps sleb_bytes.simps)
  have a: "ahead ?c = uleb_bytes 624485 @ [7]" "ahead ?d = sleb_bytes (- 128) @ []" by (simp_all add: ahead_def e)
  show ?thesis
    using leb128_roundtrip [OF ok(1), THEN conjunct1, rule_format, of 624485 "[7]"]
      leb128_roundtrip [OF ok(2), THEN conjunct2, rule_format, of "- 128" "[]"] a by (simp add: e advance_def)
qed

end
