(* ===== verification/Dwarf_Unit.thy ===== *)
theory Dwarf_Unit
  imports Dwarf_Cursor
begin

text \<open>
  The debug-information reader of \<^verbatim>\<open>src/debug/dwarf/reader.cc\<close>: abbreviations, attribute forms, line
  program headers with their file tables, address range lists, and compilation units. A helper that
  returns false is \<^term>\<open>None\<close>. A string pointer is the bytes before its NUL; a null one is \<^term>\<open>None\<close>.
  The loops that consume input are total functions: each round reads at least a byte.
\<close>

section \<open>Numbers of the format\<close>

named_theorems dwarf \<open>the numbers of the format\<close>

definition DW_TAG_COMPILE_UNIT :: u64 where [dwarf]: "DW_TAG_COMPILE_UNIT = 0x11"
definition DW_UT_COMPILE :: u64 where [dwarf]: "DW_UT_COMPILE = 0x01"
definition DW_AT_NAME :: u64 where [dwarf]: "DW_AT_NAME = 0x03"
definition DW_AT_STMT_LIST :: u64 where [dwarf]: "DW_AT_STMT_LIST = 0x10"
definition DW_AT_LOW_PC :: u64 where [dwarf]: "DW_AT_LOW_PC = 0x11"
definition DW_AT_HIGH_PC :: u64 where [dwarf]: "DW_AT_HIGH_PC = 0x12"
definition DW_AT_COMP_DIR :: u64 where [dwarf]: "DW_AT_COMP_DIR = 0x1B"
definition DW_AT_RANGES :: u64 where [dwarf]: "DW_AT_RANGES = 0x55"
definition DW_AT_STR_OFFSETS_BASE :: u64 where [dwarf]: "DW_AT_STR_OFFSETS_BASE = 0x72"
definition DW_AT_ADDR_BASE :: u64 where [dwarf]: "DW_AT_ADDR_BASE = 0x73"
definition DW_AT_RNGLISTS_BASE :: u64 where [dwarf]: "DW_AT_RNGLISTS_BASE = 0x74"
definition DW_FORM_ADDR :: u64 where [dwarf]: "DW_FORM_ADDR = 0x01"
definition DW_FORM_BLOCK2 :: u64 where [dwarf]: "DW_FORM_BLOCK2 = 0x03"
definition DW_FORM_BLOCK4 :: u64 where [dwarf]: "DW_FORM_BLOCK4 = 0x04"
definition DW_FORM_DATA2 :: u64 where [dwarf]: "DW_FORM_DATA2 = 0x05"
definition DW_FORM_DATA4 :: u64 where [dwarf]: "DW_FORM_DATA4 = 0x06"
definition DW_FORM_DATA8 :: u64 where [dwarf]: "DW_FORM_DATA8 = 0x07"
definition DW_FORM_STRING :: u64 where [dwarf]: "DW_FORM_STRING = 0x08"
definition DW_FORM_BLOCK :: u64 where [dwarf]: "DW_FORM_BLOCK = 0x09"
definition DW_FORM_BLOCK1 :: u64 where [dwarf]: "DW_FORM_BLOCK1 = 0x0A"
definition DW_FORM_DATA1 :: u64 where [dwarf]: "DW_FORM_DATA1 = 0x0B"
definition DW_FORM_FLAG :: u64 where [dwarf]: "DW_FORM_FLAG = 0x0C"
definition DW_FORM_SDATA :: u64 where [dwarf]: "DW_FORM_SDATA = 0x0D"
definition DW_FORM_STRP :: u64 where [dwarf]: "DW_FORM_STRP = 0x0E"
definition DW_FORM_UDATA :: u64 where [dwarf]: "DW_FORM_UDATA = 0x0F"
definition DW_FORM_REF_ADDR :: u64 where [dwarf]: "DW_FORM_REF_ADDR = 0x10"
definition DW_FORM_REF1 :: u64 where [dwarf]: "DW_FORM_REF1 = 0x11"
definition DW_FORM_REF2 :: u64 where [dwarf]: "DW_FORM_REF2 = 0x12"
definition DW_FORM_REF4 :: u64 where [dwarf]: "DW_FORM_REF4 = 0x13"
definition DW_FORM_REF8 :: u64 where [dwarf]: "DW_FORM_REF8 = 0x14"
definition DW_FORM_REF_UDATA :: u64 where [dwarf]: "DW_FORM_REF_UDATA = 0x15"
definition DW_FORM_INDIRECT :: u64 where [dwarf]: "DW_FORM_INDIRECT = 0x16"
definition DW_FORM_SEC_OFFSET :: u64 where [dwarf]: "DW_FORM_SEC_OFFSET = 0x17"
definition DW_FORM_EXPRLOC :: u64 where [dwarf]: "DW_FORM_EXPRLOC = 0x18"
definition DW_FORM_FLAG_PRESENT :: u64 where [dwarf]: "DW_FORM_FLAG_PRESENT = 0x19"
definition DW_FORM_STRX :: u64 where [dwarf]: "DW_FORM_STRX = 0x1A"
definition DW_FORM_ADDRX :: u64 where [dwarf]: "DW_FORM_ADDRX = 0x1B"
definition DW_FORM_REF_SUP4 :: u64 where [dwarf]: "DW_FORM_REF_SUP4 = 0x1C"
definition DW_FORM_STRP_SUP :: u64 where [dwarf]: "DW_FORM_STRP_SUP = 0x1D"
definition DW_FORM_DATA16 :: u64 where [dwarf]: "DW_FORM_DATA16 = 0x1E"
definition DW_FORM_LINE_STRP :: u64 where [dwarf]: "DW_FORM_LINE_STRP = 0x1F"
definition DW_FORM_REF_SIG8 :: u64 where [dwarf]: "DW_FORM_REF_SIG8 = 0x20"
definition DW_FORM_IMPLICIT_CONST :: u64 where [dwarf]: "DW_FORM_IMPLICIT_CONST = 0x21"
definition DW_FORM_LOCLISTX :: u64 where [dwarf]: "DW_FORM_LOCLISTX = 0x22"
definition DW_FORM_RNGLISTX :: u64 where [dwarf]: "DW_FORM_RNGLISTX = 0x23"
definition DW_FORM_REF_SUP8 :: u64 where [dwarf]: "DW_FORM_REF_SUP8 = 0x24"
definition DW_FORM_STRX1 :: u64 where [dwarf]: "DW_FORM_STRX1 = 0x25"
definition DW_FORM_STRX4 :: u64 where [dwarf]: "DW_FORM_STRX4 = 0x28"
definition DW_FORM_ADDRX1 :: u64 where [dwarf]: "DW_FORM_ADDRX1 = 0x29"
definition DW_FORM_ADDRX4 :: u64 where [dwarf]: "DW_FORM_ADDRX4 = 0x2C"
definition DW_LNS_COPY :: u64 where [dwarf]: "DW_LNS_COPY = 1"
definition DW_LNS_ADVANCE_PC :: u64 where [dwarf]: "DW_LNS_ADVANCE_PC = 2"
definition DW_LNS_ADVANCE_LINE :: u64 where [dwarf]: "DW_LNS_ADVANCE_LINE = 3"
definition DW_LNS_SET_FILE :: u64 where [dwarf]: "DW_LNS_SET_FILE = 4"
definition DW_LNS_SET_COLUMN :: u64 where [dwarf]: "DW_LNS_SET_COLUMN = 5"
definition DW_LNS_NEGATE_STMT :: u64 where [dwarf]: "DW_LNS_NEGATE_STMT = 6"
definition DW_LNS_SET_BASIC_BLOCK :: u64 where [dwarf]: "DW_LNS_SET_BASIC_BLOCK = 7"
definition DW_LNS_CONST_ADD_PC :: u64 where [dwarf]: "DW_LNS_CONST_ADD_PC = 8"
definition DW_LNS_FIXED_ADVANCE_PC :: u64 where [dwarf]: "DW_LNS_FIXED_ADVANCE_PC = 9"
definition DW_LNS_SET_PROLOGUE_END :: u64 where [dwarf]: "DW_LNS_SET_PROLOGUE_END = 10"
definition DW_LNS_SET_EPILOGUE_BEGIN :: u64 where [dwarf]: "DW_LNS_SET_EPILOGUE_BEGIN = 11"
definition DW_LNS_SET_ISA :: u64 where [dwarf]: "DW_LNS_SET_ISA = 12"
definition DW_LNE_END_SEQUENCE :: u64 where [dwarf]: "DW_LNE_END_SEQUENCE = 1"
definition DW_LNE_SET_ADDRESS :: u64 where [dwarf]: "DW_LNE_SET_ADDRESS = 2"
definition DW_LNCT_PATH :: u64 where [dwarf]: "DW_LNCT_PATH = 1"
definition DW_LNCT_DIRECTORY_INDEX :: u64 where [dwarf]: "DW_LNCT_DIRECTORY_INDEX = 2"
definition DW_RLE_END_OF_LIST :: u64 where [dwarf]: "DW_RLE_END_OF_LIST = 0x00"
definition DW_RLE_BASE_ADDRESSX :: u64 where [dwarf]: "DW_RLE_BASE_ADDRESSX = 0x01"
definition DW_RLE_STARTX_ENDX :: u64 where [dwarf]: "DW_RLE_STARTX_ENDX = 0x02"
definition DW_RLE_STARTX_LENGTH :: u64 where [dwarf]: "DW_RLE_STARTX_LENGTH = 0x03"
definition DW_RLE_OFFSET_PAIR :: u64 where [dwarf]: "DW_RLE_OFFSET_PAIR = 0x04"
definition DW_RLE_BASE_ADDRESS :: u64 where [dwarf]: "DW_RLE_BASE_ADDRESS = 0x05"
definition DW_RLE_START_END :: u64 where [dwarf]: "DW_RLE_START_END = 0x06"
definition DW_RLE_START_LENGTH :: u64 where [dwarf]: "DW_RLE_START_LENGTH = 0x07"
definition RESERVED_UNIT_LENGTH :: u64 where [dwarf]: "RESERVED_UNIT_LENGTH = 0xFFFFFFF0"
definition DWARF64_UNIT_LENGTH :: u64 where [dwarf]: "DWARF64_UNIT_LENGTH = 0xFFFFFFFF"
definition MAX_ATTRIBUTES_PER_ABBREVIATION :: u64 where [dwarf]: "MAX_ATTRIBUTES_PER_ABBREVIATION = 24"
definition MAX_TRACKED_ATTRIBUTES :: u64 where [dwarf]: "MAX_TRACKED_ATTRIBUTES = 16"
definition MAX_LINE_HEADER_ENTRIES :: u64 where [dwarf]: "MAX_LINE_HEADER_ENTRIES = 16"
definition MAX_STANDARD_OPCODES :: u64 where [dwarf]: "MAX_STANDARD_OPCODES = 32"

section \<open>Definitions\<close>

record abbrev_attribute =
  aa_attribute :: u64
  aa_form :: u64
  aa_implicit :: u64

record abbrev =
  ab_tag :: u64
  ab_attributes :: "abbrev_attribute list"

record form_value =
  fv_value :: u64
  fv_text :: "u8 list option"
  fv_indexed :: bool

record tables =
  tb_debug_str :: view
  tb_debug_line_str :: view
  tb_debug_str_offsets :: view
  tb_debug_addr :: view
  tb_debug_line :: view
  tb_debug_rnglists :: view
  tb_debug_ranges :: view
  tb_working_directory :: "u8 list"
  tb_str_offsets_base :: u64
  tb_addr_base :: u64
  tb_address_size :: u64
  tb_offset_size :: u64

record cunit =
  un_line_program :: u64
  un_ranges :: u64
  un_low_pc :: u64
  un_high_pc :: u64
  un_addr_base :: u64
  un_str_offsets_base :: u64
  un_address_size :: u64
  un_offset_high_pc :: bool
  un_indexed_addresses :: bool
  un_has_line_program :: bool
  un_has_ranges :: bool
  un_legacy_ranges :: bool
  un_files :: "u8 list list"

definition empty_unit :: cunit where
  "empty_unit = \<lparr>un_line_program = 0, un_ranges = 0, un_low_pc = 0, un_high_pc = 0, un_addr_base = 0,
     un_str_offsets_base = 0, un_address_size = 8, un_offset_high_pc = False, un_indexed_addresses = False,
     un_has_line_program = False, un_has_ranges = False, un_legacy_ranges = False, un_files = []\<rparr>"

declare Option.bind_cong [fundef_cong]

function read_attributes :: "abbrev_attribute list \<Rightarrow> abbrev_attribute list read" where
  "read_attributes attributes c = do {
     (attribute, c1) \<leftarrow> uleb c;
     (form, c2) \<leftarrow> uleb c1;
     (if attribute = 0 \<and> form = 0 then Some (attributes, c2)
      else if length attributes = unat MAX_ATTRIBUTES_PER_ABBREVIATION then None
      else if form = DW_FORM_IMPLICIT_CONST then do {
        (implicit, c3) \<leftarrow> sleb c2;
        read_attributes (attributes @ [\<lparr>aa_attribute = attribute, aa_form = form, aa_implicit = implicit\<rparr>]) c3
      }
      else read_attributes (attributes @ [\<lparr>aa_attribute = attribute, aa_form = form, aa_implicit = 0\<rparr>]) c2)
   }"
  by pat_completeness auto
termination
  by (relation "measure (\<lambda>(attributes, c). remaining c)") (auto dest!: uleb_past sleb_past past_remaining)

declare read_attributes.simps [simp del]

lemma read_attributes_past [moves]: "read_attributes as c = Some (bs, d) \<Longrightarrow> past c d"
proof (induction as c arbitrary: bs d rule: read_attributes.induct)
  case (1 as c)
  obtain a c1 f c2 where a: "uleb c = Some (a, c1)" "uleb c1 = Some (f, c2)"
    using "1.prems" by (subst (asm) read_attributes.simps) (auto simp: bind_eq_Some_conv)
  have p: "past c c2" using a uleb_past past_trans1 past_forward by blast
  consider (last) "d = c2" | (const) v c3 bs' where "sleb c2 = Some (v, c3)" "past c3 d" | (more) "past c2 d"
    using "1.prems" a "1.IH" [OF a(1) refl a(2) refl]
    by (subst (asm) read_attributes.simps) (auto simp: bind_eq_Some_conv split: if_splits)
  then show ?case
    by cases (use p sleb_past past_trans1 past_forward in blast)+
qed

function read_abbreviation :: "u64 \<Rightarrow> cursor \<Rightarrow> (abbrev \<times> cursor) option" where
  "read_abbreviation code c = do {
     (entry_code, c1) \<leftarrow> uleb c;
     (if entry_code = 0 then None
      else do {
        (tag, c2) \<leftarrow> uleb c1;
        (has_children, c3) \<leftarrow> fixed 1 c2;
        (attributes, c4) \<leftarrow> read_attributes [] c3;
        (if entry_code = code then Some (\<lparr>ab_tag = tag, ab_attributes = attributes\<rparr>, c4)
         else read_abbreviation code c4)
      })
   }"
  by pat_completeness auto
termination
  by (relation "measure (\<lambda>(code, c). remaining c)") (auto dest!: uleb_past fixed_past read_attributes_past past_remaining)

declare read_abbreviation.simps [simp del]

definition just :: "u64 \<Rightarrow> form_value" where
  "just x = \<lparr>fv_value = x, fv_text = None, fv_indexed = False\<rparr>"

text \<open>The end of \<^verbatim>\<open>read_form\<close>: a string named by an offset resolves at once.\<close>

definition resolved :: "u64 \<Rightarrow> tables \<Rightarrow> u64 \<Rightarrow> form_value" where
  "resolved form tb x = \<lparr>fv_value = x,
     fv_text = (if form = DW_FORM_STRP then string_at x (tb_debug_str tb)
                else if form = DW_FORM_LINE_STRP then string_at x (tb_debug_line_str tb) else None),
     fv_indexed = False\<rparr>"

definition read_switch :: "u64 \<Rightarrow> tables \<Rightarrow> form_value read" where
  "read_switch form tb c =
     (if form \<in> {DW_FORM_DATA1, DW_FORM_FLAG, DW_FORM_REF1}
      then do { (x, c) \<leftarrow> fixed 1 c; Some (resolved form tb x, c) }
      else if form \<in> {DW_FORM_DATA2, DW_FORM_REF2}
      then do { (x, c) \<leftarrow> fixed 2 c; Some (resolved form tb x, c) }
      else if form \<in> {DW_FORM_DATA4, DW_FORM_REF4, DW_FORM_REF_SUP4}
      then do { (x, c) \<leftarrow> fixed 4 c; Some (resolved form tb x, c) }
      else if form \<in> {DW_FORM_DATA8, DW_FORM_REF8, DW_FORM_REF_SIG8, DW_FORM_REF_SUP8}
      then do { (x, c) \<leftarrow> fixed 8 c; Some (resolved form tb x, c) }
      else if form = DW_FORM_DATA16 then do { c \<leftarrow> skip 16 c; Some (just 0, c) }
      else if form \<in> {DW_FORM_UDATA, DW_FORM_REF_UDATA, DW_FORM_LOCLISTX, DW_FORM_RNGLISTX, DW_FORM_STRX, DW_FORM_ADDRX}
      then do {
        (x, c) \<leftarrow> uleb c;
        Some (\<lparr>fv_value = x, fv_text = None, fv_indexed = (form = DW_FORM_STRX \<or> form = DW_FORM_ADDRX)\<rparr>, c)
      }
      else if form = DW_FORM_SDATA then do { (x, c) \<leftarrow> sleb c; Some (resolved form tb x, c) }
      else if form \<in> {DW_FORM_SEC_OFFSET, DW_FORM_STRP, DW_FORM_REF_ADDR, DW_FORM_LINE_STRP, DW_FORM_STRP_SUP}
      then do { (x, c) \<leftarrow> fixed (tb_offset_size tb) c; Some (resolved form tb x, c) }
      else if form = DW_FORM_STRING
      then do { (t, c) \<leftarrow> cursor_string c; Some (\<lparr>fv_value = 0, fv_text = Some t, fv_indexed = False\<rparr>, c) }
      else if form = DW_FORM_BLOCK1 then do { (n, c) \<leftarrow> fixed 1 c; c \<leftarrow> skip n c; Some (just 0, c) }
      else if form = DW_FORM_BLOCK2 then do { (n, c) \<leftarrow> fixed 2 c; c \<leftarrow> skip n c; Some (just 0, c) }
      else if form = DW_FORM_BLOCK4 then do { (n, c) \<leftarrow> fixed 4 c; c \<leftarrow> skip n c; Some (just 0, c) }
      else if form \<in> {DW_FORM_BLOCK, DW_FORM_EXPRLOC} then do { (n, c) \<leftarrow> uleb c; c \<leftarrow> skip n c; Some (just 0, c) }
      else None)"

function read_form :: "u64 \<Rightarrow> tables \<Rightarrow> abbrev_attribute \<Rightarrow> form_value read" where
  "read_form form tb decl c =
     (if form = DW_FORM_INDIRECT then do {
        (indirect, c1) \<leftarrow> uleb c;
        read_form indirect tb (decl\<lparr>aa_form := indirect\<rparr>) c1
      }
      else if form = DW_FORM_IMPLICIT_CONST then Some (just (aa_implicit decl), c)
      else if form = DW_FORM_FLAG_PRESENT then Some (just 1, c)
      else if form = DW_FORM_ADDR then do { (x, c) \<leftarrow> fixed (tb_address_size tb) c; Some (just x, c) }
      else if form \<ge> DW_FORM_STRX1 \<and> form \<le> DW_FORM_STRX4
      then do { (x, c) \<leftarrow> fixed (form - DW_FORM_STRX1 + 1) c; Some ((just x)\<lparr>fv_indexed := True\<rparr>, c) }
      else if form \<ge> DW_FORM_ADDRX1 \<and> form \<le> DW_FORM_ADDRX4
      then do { (x, c) \<leftarrow> fixed (form - DW_FORM_ADDRX1 + 1) c; Some ((just x)\<lparr>fv_indexed := True\<rparr>, c) }
      else read_switch form tb c)"
  by pat_completeness auto
termination
  by (relation "measure (\<lambda>(form, tb, decl, c). remaining c)") (auto dest!: uleb_past past_remaining)

declare read_form.simps [simp del]

lemma read_switch_forward: "read_switch form tb c = Some (x, d) \<Longrightarrow> forward c d"
  unfolding read_switch_def
  by (auto simp: bind_eq_Some_conv split: if_splits
      dest!: fixed_past uleb_past sleb_past cursor_string_past skip_forward
      intro: past_forward forward_trans [OF past_forward])

lemma read_form_forward [moves]: "read_form form tb decl c = Some (x, d) \<Longrightarrow> forward c d"
proof (induction form tb decl c arbitrary: x d rule: read_form.induct)
  case (1 form tb decl c)
  show ?case
  proof (cases "form = DW_FORM_INDIRECT")
    case True
    then obtain i c1 where u: "uleb c = Some (i, c1)" and r: "read_form i tb (decl\<lparr>aa_form := i\<rparr>) c1 = Some (x, d)"
      using "1.prems" by (subst (asm) read_form.simps) (auto simp: bind_eq_Some_conv)
    have "forward c1 d" by (rule "1.IH" [OF True u refl r])
    then show ?thesis by (rule forward_trans [OF past_forward [OF uleb_past [OF u]]])
  next
    case False
    then show ?thesis using "1.prems"
      by (subst (asm) read_form.simps)
        (auto simp: bind_eq_Some_conv split: if_splits dest!: fixed_past read_switch_forward intro: past_forward)
  qed
qed

definition indexed_offset :: "view \<Rightarrow> u64 \<Rightarrow> u64 \<Rightarrow> u64 \<Rightarrow> u64" where
  "indexed_offset table base index entry_size =
     (if base = 0 then 0
      else case do { c \<leftarrow> seek (base + index * entry_size) (view_cursor table); fixed entry_size c } of
             None \<Rightarrow> 0 | Some (offset, _) \<Rightarrow> offset)"

definition indexed_string :: "tables \<Rightarrow> u64 \<Rightarrow> u8 list option" where
  "indexed_string tb index =
     (if tb_str_offsets_base tb = 0 then None
      else let offset = indexed_offset (tb_debug_str_offsets tb) (tb_str_offsets_base tb) index (tb_offset_size tb) in
        if offset \<noteq> 0 then string_at offset (tb_debug_str tb) else None)"

definition indexed_address :: "tables \<Rightarrow> u64 \<Rightarrow> u64 option" where
  "indexed_address tb index =
     (if tb_addr_base tb = 0 then None
      else do {
        c \<leftarrow> seek (tb_addr_base tb + index * tb_address_size tb) (view_cursor (tb_debug_addr tb));
        (x, _) \<leftarrow> fixed (tb_address_size tb) c;
        Some x
      })"

definition SLASH :: u8 where "SLASH = 47"

definition join_path :: "tables \<Rightarrow> u8 list \<Rightarrow> u8 list \<Rightarrow> u8 list" where
  "join_path tb directory file =
     (if file = [] \<or> hd file = SLASH then file
      else let base = (if directory = [] then tb_working_directory tb
                       else if hd directory \<noteq> SLASH \<and> tb_working_directory tb \<noteq> []
                       then tb_working_directory tb @ [SLASH] @ directory
                       else directory)
           in if base = [] then file
              else (if last base \<noteq> SLASH then base @ [SLASH] else base) @ file)"

section \<open>Line program headers\<close>

record line_header =
  lh_version :: u64
  lh_address_size :: u64
  lh_minimum_instruction_length :: u64
  lh_maximum_operations :: u64
  lh_line_base :: u64
  lh_line_range :: u64
  lh_opcode_base :: u64
  lh_standard_lengths :: "u64 list"
  lh_program :: u64
  lh_end :: u64

definition empty_line_header :: line_header where
  "empty_line_header = \<lparr>lh_version = 4, lh_address_size = 8, lh_minimum_instruction_length = 1,
     lh_maximum_operations = 1, lh_line_base = - 5, lh_line_range = 14, lh_opcode_base = 13,
     lh_standard_lengths = replicate (unat MAX_STANDARD_OPCODES) 0, lh_program = 0, lh_end = 0\<rparr>"

text \<open>The length a unit starts with, and the offset width it chooses.\<close>

definition read_unit_length :: "tables \<Rightarrow> (u64 \<times> tables) read" where
  "read_unit_length tb c = do {
     (unit_length, c) \<leftarrow> fixed 4 c;
     ((unit_length, tb), c) \<leftarrow>
       (if unit_length = DWARF64_UNIT_LENGTH then do {
          (unit_length, c) \<leftarrow> fixed 8 c;
          Some ((unit_length, tb\<lparr>tb_offset_size := 8\<rparr>), c)
        }
        else if unit_length \<ge> RESERVED_UNIT_LENGTH then None
        else Some ((unit_length, tb), c));
     (if unat unit_length > unat (cu_size c) - cu_position c then None
      else Some ((unit_length, tb), c))
   }"

definition read_header_sizes :: "tables \<Rightarrow> (line_header \<times> tables) read" where
  "read_header_sizes tb c = do {
     ((unit_length, tb), c) \<leftarrow> read_unit_length tb c;
     let h = empty_line_header\<lparr>lh_end := of_nat (cu_position c) + unit_length\<rparr>;
     (version, c) \<leftarrow> fixed 2 c;
     (if version < 2 \<or> version > 5 then None
      else do {
        (address_size, c) \<leftarrow>
          (if version \<ge> 5 then do {
             (address_size, c) \<leftarrow> fixed 1 c;
             (segment_selector_size, c) \<leftarrow> fixed 1 c;
             (if address_size = 0 \<or> address_size > 8 then None else Some (address_size, c))
           }
           else Some (tb_address_size tb, c));
        let tb = tb\<lparr>tb_address_size := address_size\<rparr>;
        (header_length, c) \<leftarrow> fixed (tb_offset_size tb) c;
        (if header_length > lh_end h - of_nat (cu_position c) \<or> lh_end h > cu_size c then None
         else Some ((h\<lparr>lh_version := version, lh_address_size := address_size,
                      lh_program := of_nat (cu_position c) + header_length\<rparr>, tb), c))
      })
   }"

fun read_standard_lengths :: "nat \<Rightarrow> nat \<Rightarrow> line_header \<Rightarrow> line_header read" where
  "read_standard_lengths 0 opcode h c = Some (h, c)"
| "read_standard_lengths (Suc n) opcode h c = do {
     (x, c) \<leftarrow> fixed 1 c;
     read_standard_lengths n (Suc opcode) (h\<lparr>lh_standard_lengths := (lh_standard_lengths h)[opcode := x]\<rparr>) c
   }"

definition read_header_opcodes :: "line_header \<Rightarrow> line_header read" where
  "read_header_opcodes h c = do {
     (minimum_instruction_length, c) \<leftarrow> fixed 1 c;
     (maximum_operations, c) \<leftarrow> (if lh_version h \<ge> 4 then fixed 1 c else Some (lh_maximum_operations h, c));
     (default_is_stmt, c) \<leftarrow> fixed 1 c;
     (line_base, c) \<leftarrow> fixed 1 c;
     (line_range, c) \<leftarrow> fixed 1 c;
     (opcode_base, c) \<leftarrow> fixed 1 c;
     (if minimum_instruction_length = 0 \<or> maximum_operations = 0 \<or> line_range = 0 \<or> opcode_base = 0
         \<or> opcode_base > MAX_STANDARD_OPCODES then None
      else read_standard_lengths (unat opcode_base - 1) 1
        (h\<lparr>lh_minimum_instruction_length := minimum_instruction_length, lh_maximum_operations := maximum_operations,
           lh_line_range := line_range, lh_opcode_base := opcode_base\<rparr>) c)
   }"

fun read_formats :: "nat \<Rightarrow> (u64 \<times> u64) list read" where
  "read_formats 0 c = Some ([], c)"
| "read_formats (Suc n) c = do {
     (content, c) \<leftarrow> uleb c;
     (form, c) \<leftarrow> uleb c;
     (rest, c) \<leftarrow> read_formats n c;
     Some ((content, form) # rest, c)
   }"

text \<open>One entry of a version 5 table: its path and its directory index.\<close>

fun read_entry :: "tables \<Rightarrow> (u64 \<times> u64) list \<Rightarrow> u8 list \<times> u64 \<Rightarrow> (u8 list \<times> u64) read" where
  "read_entry tb [] e c = Some (e, c)"
| "read_entry tb ((content, form) # formats) (path, directory_index) c = do {
     (x, c) \<leftarrow> read_form form tb \<lparr>aa_attribute = 0, aa_form = 0, aa_implicit = 0\<rparr> c;
     read_entry tb formats
       (if content = DW_LNCT_PATH \<and> fv_text x \<noteq> None then (the (fv_text x), directory_index)
        else if content = DW_LNCT_DIRECTORY_INDEX then (path, fv_value x)
        else (path, directory_index)) c
   }"

fun read_entries :: "nat \<Rightarrow> tables \<Rightarrow> (u64 \<times> u64) list \<Rightarrow> (u8 list \<times> u64) list read" where
  "read_entries 0 tb formats c = Some ([], c)"
| "read_entries (Suc n) tb formats c = do {
     (e, c) \<leftarrow> read_entry tb formats ([], 0) c;
     (rest, c) \<leftarrow> read_entries n tb formats c;
     Some (e # rest, c)
   }"

definition read_entry_table :: "tables \<Rightarrow> (u8 list \<times> u64) list read" where
  "read_entry_table tb c = do {
     (format_count, c) \<leftarrow> uleb c;
     (if format_count > MAX_LINE_HEADER_ENTRIES then None
      else do {
        (formats, c) \<leftarrow> read_formats (unat format_count) c;
        (count, c) \<leftarrow> uleb c;
        read_entries (unat count) tb formats c
      })
   }"

definition file_path :: "tables \<Rightarrow> u8 list list \<Rightarrow> u8 list \<times> u64 \<Rightarrow> u8 list" where
  "file_path tb directories e =
     join_path tb (if unat (snd e) < length directories then directories ! unat (snd e) else []) (fst e)"

definition read_tables_v5 :: "tables \<Rightarrow> u8 list list read" where
  "read_tables_v5 tb c = do {
     (directories, c) \<leftarrow> read_entry_table tb c;
     (files, c) \<leftarrow> read_entry_table tb c;
     Some (map (file_path tb (map fst directories)) files, c)
   }"

function read_directories :: "u8 list list \<Rightarrow> u8 list list read" where
  "read_directories directories c = do {
     (directory, c1) \<leftarrow> cursor_string c;
     (if directory = [] then Some (directories, c1) else read_directories (directories @ [directory]) c1)
   }"
  by pat_completeness auto
termination
  by (relation "measure (\<lambda>(directories, c). remaining c)") (auto dest!: cursor_string_past past_remaining)

definition legacy_path :: "tables \<Rightarrow> u8 list list \<Rightarrow> u64 \<Rightarrow> u8 list \<Rightarrow> u8 list" where
  "legacy_path tb directories directory_index path =
     join_path tb (if directory_index = 0 then tb_working_directory tb
                   else if unat (directory_index - 1) < length directories then directories ! unat (directory_index - 1)
                   else []) path"

function read_files :: "tables \<Rightarrow> u8 list list \<Rightarrow> u8 list list \<Rightarrow> u8 list list read" where
  "read_files tb directories files c = do {
     (path, c1) \<leftarrow> cursor_string c;
     (if path = [] then Some (files, c1)
      else do {
        (directory_index, c2) \<leftarrow> uleb c1;
        (timestamp, c3) \<leftarrow> uleb c2;
        (length, c4) \<leftarrow> uleb c3;
        read_files tb directories (files @ [legacy_path tb directories directory_index path]) c4
      })
   }"
  by pat_completeness auto
termination
  by (relation "measure (\<lambda>(tb, directories, files, c). remaining c)")
    (auto dest!: cursor_string_past uleb_past past_remaining)

declare read_directories.simps [simp del] read_files.simps [simp del]

definition read_tables_legacy :: "tables \<Rightarrow> u8 list list read" where
  "read_tables_legacy tb c = do {
     (directories, c) \<leftarrow> read_directories [] c;
     read_files tb directories [[]] c
   }"

text \<open>The header of a line program and its file table. A caller that passes no table drops it.\<close>

definition read_line_header :: "tables \<Rightarrow> (line_header \<times> u8 list list) read" where
  "read_line_header tb c = do {
     ((h, tb), c) \<leftarrow> read_header_sizes tb c;
     (h, c) \<leftarrow> read_header_opcodes h c;
     (files, c) \<leftarrow> (if lh_version h \<ge> 5 then read_tables_v5 tb c else read_tables_legacy tb c);
     Some ((h, files), c)
   }"

section \<open>Range lists\<close>

datatype range_entry = End_of_list | New_base u64 | Range u64 u64

text \<open>One round of the loop of \<^verbatim>\<open>walk_ranges\<close>: the entry it reads.\<close>

definition read_range :: "tables \<Rightarrow> u64 \<Rightarrow> range_entry read" where
  "read_range tb address_base c = do {
     (entry, c) \<leftarrow> uleb c;
     (if entry = DW_RLE_END_OF_LIST then Some (End_of_list, c)
      else if entry = DW_RLE_BASE_ADDRESSX then do {
        (index, c) \<leftarrow> uleb c;
        a \<leftarrow> indexed_address tb index;
        Some (New_base a, c)
      }
      else if entry = DW_RLE_BASE_ADDRESS then do {
        (a, c) \<leftarrow> fixed (tb_address_size tb) c;
        Some (New_base a, c)
      }
      else if entry = DW_RLE_OFFSET_PAIR then do {
        (start_offset, c) \<leftarrow> uleb c;
        (end_offset, c) \<leftarrow> uleb c;
        Some (Range (address_base + start_offset) (address_base + end_offset), c)
      }
      else if entry = DW_RLE_STARTX_LENGTH then do {
        (index, c) \<leftarrow> uleb c;
        (len, c) \<leftarrow> uleb c;
        start \<leftarrow> indexed_address tb index;
        Some (Range start (start + len), c)
      }
      else if entry = DW_RLE_STARTX_ENDX then do {
        (index, c) \<leftarrow> uleb c;
        start \<leftarrow> indexed_address tb index;
        (index, c) \<leftarrow> uleb c;
        stop \<leftarrow> indexed_address tb index;
        Some (Range start stop, c)
      }
      else if entry = DW_RLE_START_LENGTH then do {
        (start, c) \<leftarrow> fixed (tb_address_size tb) c;
        (len, c) \<leftarrow> uleb c;
        Some (Range start (start + len), c)
      }
      else if entry = DW_RLE_START_END then do {
        (start, c) \<leftarrow> fixed (tb_address_size tb) c;
        (stop, c) \<leftarrow> fixed (tb_address_size tb) c;
        Some (Range start stop, c)
      }
      else None)
   }"

lemma read_range_past [moves]: "read_range tb a c = Some (e, d) \<Longrightarrow> past c d"
  unfolding read_range_def
  by (auto simp: bind_eq_Some_conv split: if_splits dest!: fixed_past uleb_past
      intro: past_trans1 [OF _ past_forward] past_trans1 [OF _ forward_trans [OF past_forward past_forward]])

text \<open>The visitor threads a state of its own; false from it ends the walk.\<close>

function walk_ranges :: "tables \<Rightarrow> (u64 \<Rightarrow> u64 \<Rightarrow> 's \<Rightarrow> bool \<times> 's) \<Rightarrow> u64 \<Rightarrow> 's \<Rightarrow> cursor \<Rightarrow> bool \<times> 's" where
  "walk_ranges tb visit address_base s c =
     (case read_range tb address_base c of
        None \<Rightarrow> (False, s)
      | Some (End_of_list, d) \<Rightarrow> (True, s)
      | Some (New_base a, d) \<Rightarrow> walk_ranges tb visit a s d
      | Some (Range start stop, d) \<Rightarrow>
          (case visit start stop s of (go_on, s) \<Rightarrow>
             if go_on then walk_ranges tb visit address_base s d else (True, s)))"
  by pat_completeness auto
termination
  by (relation "measure (\<lambda>(tb, visit, a, s, c). remaining c)") (auto dest!: read_range_past past_remaining)

definition read_legacy_range :: "u64 \<Rightarrow> u64 \<Rightarrow> range_entry read" where
  "read_legacy_range address_size address_base c = do {
     let all_ones = (if address_size = 8 then NOT 0 else 0xFFFFFFFF);
     (start, c) \<leftarrow> fixed address_size c;
     (if start = all_ones then do { (a, c) \<leftarrow> fixed address_size c; Some (New_base a, c) }
      else if start = all_ones - 1 then Some (End_of_list, c)
      else do {
        (stop, c) \<leftarrow> fixed address_size c;
        Some (Range start stop, c)
      })
   }"

lemma read_legacy_range_past [moves]: "read_legacy_range n a c = Some (e, d) \<Longrightarrow> past c d"
  unfolding read_legacy_range_def
  by (auto simp: bind_eq_Some_conv Let_def split: if_splits dest!: fixed_past intro: past_trans1 [OF _ past_forward])

function walk_legacy_ranges :: "u64 \<Rightarrow> (u64 \<Rightarrow> u64 \<Rightarrow> 's \<Rightarrow> bool \<times> 's) \<Rightarrow> u64 \<Rightarrow> 's \<Rightarrow> cursor \<Rightarrow> bool \<times> 's" where
  "walk_legacy_ranges address_size visit address_base s c =
     (case read_legacy_range address_size address_base c of
        None \<Rightarrow> (False, s)
      | Some (End_of_list, d) \<Rightarrow> (True, s)
      | Some (New_base a, d) \<Rightarrow> walk_legacy_ranges address_size visit a s d
      | Some (Range start stop, d) \<Rightarrow>
          (case visit start stop s of (go_on, s) \<Rightarrow>
             if go_on then walk_legacy_ranges address_size visit address_base s d else (True, s)))"
  by pat_completeness auto
termination
  by (relation "measure (\<lambda>(n, visit, a, s, c). remaining c)") (auto dest!: read_legacy_range_past past_remaining)

declare walk_ranges.simps [simp del] walk_legacy_ranges.simps [simp del]

section \<open>Compilation units\<close>

record found =
  fd_attribute :: u64
  fd_form :: u64
  fd_value :: u64
  fd_text :: "u8 list option"
  fd_indexed :: bool

definition wanted :: "u64 \<Rightarrow> bool" where
  "wanted attribute \<longleftrightarrow> attribute \<in> {DW_AT_NAME, DW_AT_COMP_DIR, DW_AT_STMT_LIST, DW_AT_LOW_PC, DW_AT_HIGH_PC,
     DW_AT_RANGES, DW_AT_ADDR_BASE, DW_AT_STR_OFFSETS_BASE, DW_AT_RNGLISTS_BASE}"

text \<open>The attributes of the root entry; a form that cannot be read ends the pass.\<close>

fun read_found :: "tables \<Rightarrow> abbrev_attribute list \<Rightarrow> found list \<Rightarrow> cursor \<Rightarrow> found list" where
  "read_found tb [] fs c = fs"
| "read_found tb (a # as) fs c =
     (case read_form (aa_form a) tb a c of
        None \<Rightarrow> fs
      | Some (x, d) \<Rightarrow>
          read_found tb as
            (if wanted (aa_attribute a) \<and> length fs < unat MAX_TRACKED_ATTRIBUTES
             then fs @ [\<lparr>fd_attribute = aa_attribute a, fd_form = aa_form a, fd_value = fv_value x,
                         fd_text = fv_text x, fd_indexed = fv_indexed x\<rparr>]
             else fs) d)"

definition lookup_found :: "found list \<Rightarrow> u64 \<Rightarrow> found option" where
  "lookup_found fs attribute = find (\<lambda>f. fd_attribute f = attribute) fs"

definition unit_bases :: "found list \<Rightarrow> cunit \<Rightarrow> tables \<Rightarrow> cunit \<times> tables" where
  "unit_bases fs un tb =
     (let un = (case lookup_found fs DW_AT_ADDR_BASE of None \<Rightarrow> un | Some f \<Rightarrow> un\<lparr>un_addr_base := fd_value f\<rparr>);
          (un, tb) = (case lookup_found fs DW_AT_STR_OFFSETS_BASE of
                        None \<Rightarrow> (un, tb)
                      | Some f \<Rightarrow> (un\<lparr>un_str_offsets_base := fd_value f\<rparr>, tb\<lparr>tb_str_offsets_base := fd_value f\<rparr>))
      in (un, tb\<lparr>tb_addr_base := un_addr_base un\<rparr>))"

text \<open>The low and the high address; false when an index names no address.\<close>

definition unit_low :: "found list \<Rightarrow> tables \<Rightarrow> cunit \<Rightarrow> bool \<times> cunit" where
  "unit_low fs tb un =
     (case lookup_found fs DW_AT_LOW_PC of
        None \<Rightarrow> (True, un)
      | Some low \<Rightarrow>
          (let un = un\<lparr>un_indexed_addresses := fd_indexed low\<rparr> in
           if fd_indexed low
           then (case indexed_address tb (fd_value low) of
                   None \<Rightarrow> (False, un) | Some a \<Rightarrow> (True, un\<lparr>un_low_pc := a\<rparr>))
           else (True, un\<lparr>un_low_pc := fd_value low\<rparr>)))"

definition unit_high :: "found list \<Rightarrow> tables \<Rightarrow> cunit \<Rightarrow> bool \<times> cunit" where
  "unit_high fs tb un =
     (case lookup_found fs DW_AT_HIGH_PC of
        None \<Rightarrow> (True, un)
      | Some high \<Rightarrow>
          (let un = un\<lparr>un_offset_high_pc := (\<not> fd_indexed high \<and> fd_form high \<noteq> DW_FORM_ADDR)\<rparr> in
           if fd_indexed high
           then (case indexed_address tb (fd_value high) of
                   None \<Rightarrow> (False, un) | Some a \<Rightarrow> (True, un\<lparr>un_high_pc := a\<rparr>))
           else (True, un\<lparr>un_high_pc := fd_value high\<rparr>)))"

definition unit_range_list :: "u64 \<Rightarrow> found list \<Rightarrow> tables \<Rightarrow> cunit \<Rightarrow> cunit" where
  "unit_range_list version fs tb un =
     (case lookup_found fs DW_AT_RANGES of
        None \<Rightarrow> un
      | Some ranges \<Rightarrow>
          (let un = un\<lparr>un_has_ranges := True\<rparr> in
           if fd_form ranges = DW_FORM_RNGLISTX
           then (let base = (case lookup_found fs DW_AT_RNGLISTS_BASE of None \<Rightarrow> 0 | Some f \<Rightarrow> fd_value f) in
                 un\<lparr>un_ranges := indexed_offset (tb_debug_rnglists tb) base (fd_value ranges) 4 + base\<rparr>)
           else un\<lparr>un_ranges := fd_value ranges, un_legacy_ranges := (version < 5)\<rparr>))"

definition found_text :: "tables \<Rightarrow> found option \<Rightarrow> u8 list option" where
  "found_text tb f =
     (case f of
        None \<Rightarrow> None
      | Some f \<Rightarrow> if fd_text f = None \<and> fd_indexed f then indexed_string tb (fd_value f) else fd_text f)"

definition unit_lines :: "u64 \<Rightarrow> found list \<Rightarrow> tables \<Rightarrow> cunit \<Rightarrow> cunit" where
  "unit_lines version fs tb un =
     (case lookup_found fs DW_AT_STMT_LIST of
        None \<Rightarrow> un
      | Some statement_list \<Rightarrow>
          if fd_value statement_list \<ge> sv_size (tb_debug_line tb) then un
          else
            (let un = un\<lparr>un_line_program := fd_value statement_list, un_has_line_program := True\<rparr>;
                 name = (case found_text tb (lookup_found fs DW_AT_NAME) of None \<Rightarrow> [] | Some t \<Rightarrow> t);
                 tb = (case found_text tb (lookup_found fs DW_AT_COMP_DIR) of
                         None \<Rightarrow> tb | Some t \<Rightarrow> tb\<lparr>tb_working_directory := t\<rparr>)
             in case do { c \<leftarrow> seek (un_line_program un) (view_cursor (tb_debug_line tb)); read_line_header tb c } of
                  None \<Rightarrow> un\<lparr>un_files := []\<rparr>
                | Some ((h, files), _) \<Rightarrow>
                    un\<lparr>un_files := (if version < 5 \<and> name \<noteq> [] \<and> files \<noteq> [] then files[0 := name] else files)\<rparr>))"

text \<open>What the root entry says about its unit.\<close>

definition unit_entry :: "u64 \<Rightarrow> found list \<Rightarrow> tables \<Rightarrow> cunit \<Rightarrow> cunit" where
  "unit_entry version fs tb un =
     (let (un, tb) = unit_bases fs un tb;
          (ok, un) = unit_low fs tb un
      in if \<not> ok then un
         else let (ok, un) = unit_high fs tb un
              in if \<not> ok then un
                 else unit_lines version fs tb (unit_range_list version fs tb un))"

text \<open>The fields before the root entry: \<^term>\<open>Inl\<close> is a unit that is skipped.\<close>

definition unit_prefix :: "tables \<Rightarrow> cunit \<Rightarrow> cursor \<Rightarrow> cunit + (u64 \<times> u64 \<times> cunit \<times> cursor)" where
  "unit_prefix tb un c =
     (case fixed 2 c of
        None \<Rightarrow> Inl un
      | Some (version, c) \<Rightarrow>
          if version < 2 \<or> version > 5 then Inl un
          else if version \<ge> 5 then
            (case fixed 1 c of
               None \<Rightarrow> Inl un
             | Some (unit_type, c) \<Rightarrow>
                 (case fixed 1 c of
                    None \<Rightarrow> Inl (un\<lparr>un_address_size := 0\<rparr>)
                  | Some (address_size, c) \<Rightarrow>
                      (let un = un\<lparr>un_address_size := address_size\<rparr> in
                       if unit_type \<noteq> DW_UT_COMPILE then Inl un
                       else case fixed (tb_offset_size tb) c of
                              None \<Rightarrow> Inl un
                            | Some (abbrev_offset, c) \<Rightarrow> Inr (version, abbrev_offset, un, c))))
          else
            (case fixed (tb_offset_size tb) c of
               None \<Rightarrow> Inl un
             | Some (abbrev_offset, c) \<Rightarrow>
                 (case fixed 1 c of
                    None \<Rightarrow> Inl (un\<lparr>un_address_size := 0\<rparr>)
                  | Some (address_size, c) \<Rightarrow>
                      Inr (version, abbrev_offset, un\<lparr>un_address_size := address_size\<rparr>, c))))"

definition unit_body :: "view \<Rightarrow> tables \<Rightarrow> cunit \<Rightarrow> cursor \<Rightarrow> cunit" where
  "unit_body abbrev tb un c =
     (case unit_prefix tb un c of
        Inl un \<Rightarrow> un
      | Inr (version, abbrev_offset, un, c) \<Rightarrow>
          (let tb = tb\<lparr>tb_address_size := un_address_size un\<rparr> in
           case uleb c of
             None \<Rightarrow> un
           | Some (code, c) \<Rightarrow>
               if code = 0 then un
               else case do { d \<leftarrow> seek abbrev_offset (view_cursor abbrev); read_abbreviation code d } of
                      None \<Rightarrow> un
                    | Some (decl, _) \<Rightarrow>
                        if ab_tag decl \<noteq> DW_TAG_COMPILE_UNIT then un
                        else unit_entry version (read_found tb (ab_attributes decl) [] c) tb un))"

text \<open>A unit and the offset of the next one.\<close>

definition read_unit :: "view \<Rightarrow> tables \<Rightarrow> cursor \<Rightarrow> (cunit \<times> u64) option" where
  "read_unit abbrev tb c = do {
     ((unit_length, tb), c) \<leftarrow> read_unit_length tb c;
     Some (unit_body abbrev tb empty_unit c, of_nat (cu_position c) + unit_length)
   }"

definition cover_visit :: "u64 \<Rightarrow> u64 \<Rightarrow> u64 \<Rightarrow> bool \<Rightarrow> bool \<times> bool" where
  "cover_visit link_address start stop covered =
     (if link_address \<ge> start \<and> link_address < stop then (False, True) else (True, covered))"

definition unit_covers :: "tables \<Rightarrow> cunit \<Rightarrow> u64 \<Rightarrow> bool" where
  "unit_covers tb un link_address =
     (if un_has_ranges un then
        (let list_section = (if un_legacy_ranges un then tb_debug_ranges tb else tb_debug_rnglists tb) in
         if un_ranges un \<ge> sv_size list_section then False
         else case seek (un_ranges un) (view_cursor list_section) of
                None \<Rightarrow> False
              | Some c \<Rightarrow>
                  if un_legacy_ranges un
                  then snd (walk_legacy_ranges (un_address_size un) (cover_visit link_address) (un_low_pc un) False c)
                  else snd (walk_ranges (tb\<lparr>tb_address_size := un_address_size un, tb_addr_base := un_addr_base un\<rparr>)
                              (cover_visit link_address) (un_low_pc un) False c))
      else if un_high_pc un = 0 then False
      else let stop = (if un_offset_high_pc un then un_low_pc un + un_high_pc un else un_high_pc un)
           in link_address \<ge> un_low_pc un \<and> link_address < stop)"

section \<open>Encoded range lists\<close>

text \<open>
  The entries a version 5 range list can have. Three of them name an address by its index in the unit's
  part of \<^verbatim>\<open>.debug_addr\<close>, which is the list \<open>addrs\<close> below.
\<close>

datatype rle = Base_addressx nat | Startx_endx nat nat | Startx_length nat u64
  | Offset_pair u64 u64 | Base_address u64 | Start_end u64 u64 | Start_length u64 u64

fun rle_bytes :: "rle \<Rightarrow> u8 list" where
  "rle_bytes (Base_addressx i) = uleb_bytes 1 @ uleb_bytes i"
| "rle_bytes (Startx_endx i j) = uleb_bytes 2 @ uleb_bytes i @ uleb_bytes j"
| "rle_bytes (Startx_length i n) = uleb_bytes 3 @ uleb_bytes i @ uleb_bytes (unat n)"
| "rle_bytes (Offset_pair a b) = uleb_bytes 4 @ uleb_bytes (unat a) @ uleb_bytes (unat b)"
| "rle_bytes (Base_address a) = uleb_bytes 5 @ le_bytes 8 (unat a)"
| "rle_bytes (Start_end a b) = uleb_bytes 6 @ le_bytes 8 (unat a) @ le_bytes 8 (unat b)"
| "rle_bytes (Start_length a n) = uleb_bytes 7 @ le_bytes 8 (unat a) @ uleb_bytes (unat n)"

definition rle_list :: "rle list \<Rightarrow> u8 list" where
  "rle_list es = concat (map rle_bytes es) @ uleb_bytes 0"

fun rle_ranges :: "u64 list \<Rightarrow> u64 \<Rightarrow> rle list \<Rightarrow> (u64 \<times> u64) list" where
  "rle_ranges addrs base [] = []"
| "rle_ranges addrs base (Base_addressx i # es) = rle_ranges addrs (addrs ! i) es"
| "rle_ranges addrs base (Startx_endx i j # es) = (addrs ! i, addrs ! j) # rle_ranges addrs base es"
| "rle_ranges addrs base (Startx_length i n # es) = (addrs ! i, addrs ! i + n) # rle_ranges addrs base es"
| "rle_ranges addrs base (Offset_pair a b # es) = (base + a, base + b) # rle_ranges addrs base es"
| "rle_ranges addrs base (Base_address a # es) = rle_ranges addrs a es"
| "rle_ranges addrs base (Start_end a b # es) = (a, b) # rle_ranges addrs base es"
| "rle_ranges addrs base (Start_length a n # es) = (a, a + n) # rle_ranges addrs base es"

fun rle_entry :: "u64 list \<Rightarrow> u64 \<Rightarrow> rle \<Rightarrow> range_entry" where
  "rle_entry addrs base (Base_addressx i) = New_base (addrs ! i)"
| "rle_entry addrs base (Startx_endx i j) = Range (addrs ! i) (addrs ! j)"
| "rle_entry addrs base (Startx_length i n) = Range (addrs ! i) (addrs ! i + n)"
| "rle_entry addrs base (Offset_pair a b) = Range (base + a) (base + b)"
| "rle_entry addrs base (Base_address a) = New_base a"
| "rle_entry addrs base (Start_end a b) = Range a b"
| "rle_entry addrs base (Start_length a n) = Range a (a + n)"

text \<open>The indices of an entry are those of addresses the table has.\<close>

fun rle_indices :: "rle \<Rightarrow> nat list" where
  "rle_indices (Base_addressx i) = [i]"
| "rle_indices (Startx_endx i j) = [i, j]"
| "rle_indices (Startx_length i n) = [i]"
| "rle_indices _ = []"

definition addr_bytes :: "u64 list \<Rightarrow> u8 list" where
  "addr_bytes addrs = concat (map (\<lambda>a. le_bytes 8 (unat a)) addrs)"

definition addr_table :: "view \<Rightarrow> u64 \<Rightarrow> u64 list \<Rightarrow> bool" where
  "addr_table sv base addrs \<longleftrightarrow> base \<noteq> 0 \<and> (\<exists>before after. sv_data sv = before @ addr_bytes addrs @ after
     \<and> length before = unat base \<and> unat (sv_size sv) = length (sv_data sv))"

lemma length_addr_bytes: "length (addr_bytes addrs) = 8 * length addrs"
  by (induction addrs) (simp_all add: addr_bytes_def)

lemma indexed_address_table:
  assumes t: "addr_table (tb_debug_addr tb) (tb_addr_base tb) addrs" and sz: "tb_address_size tb = 8" and i: "i < length addrs"
  shows "indexed_address tb (of_nat i) = Some (addrs ! i)" "i < 2 ^ 64"
proof -
  let ?sv = "tb_debug_addr tb"
  obtain before after where d: "sv_data ?sv = before @ addr_bytes addrs @ after" "length before = unat (tb_addr_base tb)"
    "unat (sv_size ?sv) = length (sv_data ?sv)" and nz: "tb_addr_base tb \<noteq> 0"
    using t by (auto simp: addr_table_def)
  have le: "length before + 8 * length addrs \<le> unat (sv_size ?sv)" using d by (simp add: length_addr_bytes)
  then have lt: "length before + 8 * i < 2 ^ 64" "length before + 8 * i \<le> unat (sv_size ?sv)"
    using i unat_lt2p [of "sv_size ?sv"] by simp_all
  show "i < 2 ^ 64" using lt(1) by simp
  have pos: "unat (tb_addr_base tb + of_nat i * 8) = length before + 8 * i"
  proof -
    have "tb_addr_base tb + of_nat i * 8 = of_nat (length before + 8 * i)" using d(2) by (simp add: mult.commute)
    moreover have "unat (of_nat (length before + 8 * i) :: u64) = length before + 8 * i"
      by (rule unat_of_nat_small) (use lt(1) in simp)
    ultimately show ?thesis by (simp only:)
  qed
  have split: "addr_bytes addrs = addr_bytes (take i addrs) @ le_bytes 8 (unat (addrs ! i)) @ addr_bytes (drop (Suc i) addrs)"
    using i by (subst id_take_nth_drop [OF i]) (simp add: addr_bytes_def)
  let ?c = "(view_cursor ?sv)\<lparr>cu_position := length before + 8 * i\<rparr>"
  have seek: "seek (tb_addr_base tb + of_nat i * 8) (view_cursor ?sv) = Some ?c"
    using lt(2) pos by (simp add: seek_def view_cursor_def word_less_nat_alt)
  have "drop (length before + 8 * i) (sv_data ?sv) = le_bytes 8 (unat (addrs ! i)) @ addr_bytes (drop (Suc i) addrs) @ after"
    using i by (simp add: d(1) split length_addr_bytes)
  moreover have "ahead ?c = drop (length before + 8 * i) (sv_data ?sv)" using d(3) by (simp add: ahead_def view_cursor_def)
  ultimately have "cursor_ok ?c" "ahead ?c = le_bytes 8 (unat (addrs ! i)) @ addr_bytes (drop (Suc i) addrs) @ after"
    using d(3) lt(2) by (simp_all add: cursor_ok_def view_cursor_def)
  from fixed_le_bytes [OF this] show "indexed_address tb (of_nat i) = Some (addrs ! i)"
    using nz seek by (simp add: indexed_address_def sz)
qed

lemma uleb_word:
  assumes "cursor_ok c" "ahead c = uleb_bytes (unat x) @ rest"
  shows "uleb c = Some (x, advance (length (uleb_bytes (unat x))) c)"
  using uleb_ahead [OF assms] unat_lt2p [of x] by simp

lemma ok_append: "cursor_ok c \<Longrightarrow> ahead c = xs @ ys \<Longrightarrow> cursor_ok (advance (length xs) c) \<and> ahead (advance (length xs) c) = ys"
  by (simp add: cursor_ok_advance)

lemma read_rle:
  assumes ok: "cursor_ok c" and ah: "ahead c = rle_bytes e @ rest" and sz: "tb_address_size tb = 8"
    and idx: "\<And>i. i \<in> set (rle_indices e) \<Longrightarrow> i < 2 ^ 64 \<and> indexed_address tb (of_nat i) = Some (addrs ! i)"
  shows "read_range tb base c = Some (rle_entry addrs base e, advance (length (rle_bytes e)) c)"
proof -
  have tag: "cursor_ok c \<Longrightarrow> ahead c = uleb_bytes t @ xs \<Longrightarrow> t < 128 \<Longrightarrow>
      uleb c = Some (of_nat t, advance (length (uleb_bytes t)) c)" for t xs
    by (erule uleb_ahead) auto
  show ?thesis
  proof (cases e)
    case (Base_addressx i)
    let ?c = "advance (length (uleb_bytes 1)) c"
    have c: "cursor_ok ?c" "ahead ?c = uleb_bytes i @ rest"
      using ok_append [OF ok, of "uleb_bytes 1" "uleb_bytes i @ rest"] ah Base_addressx by simp_all
    show ?thesis using tag [OF ok, of 1] ah uleb_ahead [OF c] idx
      by (simp add: read_range_def dwarf Base_addressx)
  next
    case (Startx_endx i j)
    let ?c = "advance (length (uleb_bytes 2)) c" and ?d = "advance (length (uleb_bytes 2) + length (uleb_bytes i)) c"
    have c: "cursor_ok ?c" "ahead ?c = uleb_bytes i @ uleb_bytes j @ rest"
      using ok_append [OF ok, of "uleb_bytes 2" "uleb_bytes i @ uleb_bytes j @ rest"] ah Startx_endx by simp_all
    have d: "cursor_ok ?d" "ahead ?d = uleb_bytes j @ rest" using ok_append [OF c] by simp_all
    show ?thesis using tag [OF ok, of 2] ah uleb_ahead [OF c] uleb_ahead [OF d] idx
      by (simp add: read_range_def dwarf Startx_endx add.assoc)
  next
    case (Startx_length i n)
    let ?c = "advance (length (uleb_bytes 3)) c" and ?d = "advance (length (uleb_bytes 3) + length (uleb_bytes i)) c"
    have c: "cursor_ok ?c" "ahead ?c = uleb_bytes i @ uleb_bytes (unat n) @ rest"
      using ok_append [OF ok, of "uleb_bytes 3" "uleb_bytes i @ uleb_bytes (unat n) @ rest"] ah Startx_length by simp_all
    have d: "cursor_ok ?d" "ahead ?d = uleb_bytes (unat n) @ rest" using ok_append [OF c] by simp_all
    show ?thesis using tag [OF ok, of 3] ah uleb_ahead [OF c] uleb_word [OF d] idx
      by (simp add: read_range_def dwarf Startx_length add.assoc)
  next
    case (Offset_pair a b)
    let ?c = "advance (length (uleb_bytes 4)) c" and ?d = "advance (length (uleb_bytes 4) + length (uleb_bytes (unat a))) c"
    have c: "cursor_ok ?c" "ahead ?c = uleb_bytes (unat a) @ uleb_bytes (unat b) @ rest"
      using ok_append [OF ok, of "uleb_bytes 4" "uleb_bytes (unat a) @ uleb_bytes (unat b) @ rest"] ah Offset_pair by simp_all
    have d: "cursor_ok ?d" "ahead ?d = uleb_bytes (unat b) @ rest" using ok_append [OF c] by simp_all
    show ?thesis using tag [OF ok, of 4] ah uleb_word [OF c] uleb_word [OF d]
      by (simp add: read_range_def dwarf Offset_pair add.assoc)
  next
    case (Base_address a)
    let ?c = "advance (length (uleb_bytes 5)) c"
    have c: "cursor_ok ?c" "ahead ?c = le_bytes 8 (unat a) @ rest"
      using ok_append [OF ok, of "uleb_bytes 5" "le_bytes 8 (unat a) @ rest"] ah Base_address by simp_all
    show ?thesis using tag [OF ok, of 5] ah fixed_le_bytes [OF c]
      by (simp add: read_range_def dwarf Base_address sz)
  next
    case (Start_end a b)
    let ?c = "advance (length (uleb_bytes 6)) c" and ?d = "advance (length (uleb_bytes 6) + 8) c"
    have c: "cursor_ok ?c" "ahead ?c = le_bytes 8 (unat a) @ le_bytes 8 (unat b) @ rest"
      using ok_append [OF ok, of "uleb_bytes 6" "le_bytes 8 (unat a) @ le_bytes 8 (unat b) @ rest"] ah Start_end by simp_all
    have d: "cursor_ok ?d" "ahead ?d = le_bytes 8 (unat b) @ rest" using ok_append [OF c] by simp_all
    show ?thesis using tag [OF ok, of 6] ah fixed_le_bytes [OF c] fixed_le_bytes [OF d]
      by (simp add: read_range_def dwarf Start_end sz) (metis add.commute)
  next
    case (Start_length a n)
    let ?c = "advance (length (uleb_bytes 7)) c" and ?d = "advance (length (uleb_bytes 7) + 8) c"
    have c: "cursor_ok ?c" "ahead ?c = le_bytes 8 (unat a) @ uleb_bytes (unat n) @ rest"
      using ok_append [OF ok, of "uleb_bytes 7" "le_bytes 8 (unat a) @ uleb_bytes (unat n) @ rest"] ah Start_length by simp_all
    have d: "cursor_ok ?d" "ahead ?d = uleb_bytes (unat n) @ rest" using ok_append [OF c] by simp_all
    show ?thesis using tag [OF ok, of 7] ah fixed_le_bytes [OF c] uleb_word [OF d]
      by (simp add: read_range_def dwarf Start_length sz add.assoc)
  qed
qed

definition in_range :: "u64 \<Rightarrow> u64 \<times> u64 \<Rightarrow> bool" where
  "in_range a r \<longleftrightarrow> fst r \<le> a \<and> a < snd r"

lemma rle_ranges_entry:
  "rle_ranges addrs base (e # es) = (case rle_entry addrs base e of Range s t \<Rightarrow> (s, t) # rle_ranges addrs base es
     | New_base b \<Rightarrow> rle_ranges addrs b es | End_of_list \<Rightarrow> [])" "rle_entry addrs base e \<noteq> End_of_list"
  by (cases e; simp)+

lemma cover_visit_in: "in_range a (start, stop) \<Longrightarrow> cover_visit a start stop b = (False, True)"
  "\<not> in_range a (start, stop) \<Longrightarrow> cover_visit a start stop b = (True, b)"
  by (auto simp: cover_visit_def in_range_def)

lemma walk_rle:
  assumes "cursor_ok c" "ahead c = rle_list es @ rest" "tb_address_size tb = 8"
    and "list_all (\<lambda>e. \<forall>i \<in> set (rle_indices e). i < 2 ^ 64 \<and> indexed_address tb (of_nat i) = Some (addrs ! i)) es"
  shows "walk_ranges tb (cover_visit a) base False c = (True, list_ex (in_range a) (rle_ranges addrs base es))"
  using assms
proof (induction es arbitrary: base c)
  case Nil
  then have "uleb c = Some (0, advance (length (uleb_bytes 0)) c)" using uleb_ahead [of c 0 rest] by (simp add: rle_list_def)
  then show ?case by (subst walk_ranges.simps) (simp add: read_range_def dwarf)
next
  case (Cons e es)
  let ?d = "advance (length (rle_bytes e)) c"
  have ah: "ahead c = rle_bytes e @ rle_list es @ rest" using Cons.prems(2) by (simp add: rle_list_def)
  have idx: "\<And>i. i \<in> set (rle_indices e) \<Longrightarrow> i < 2 ^ 64 \<and> indexed_address tb (of_nat i) = Some (addrs ! i)"
    and rest_ok: "list_all (\<lambda>e. \<forall>i \<in> set (rle_indices e). i < 2 ^ 64 \<and> indexed_address tb (of_nat i) = Some (addrs ! i)) es"
    using Cons.prems(4) by simp_all
  note r = read_rle [OF Cons.prems(1) ah Cons.prems(3) idx]
  have d: "cursor_ok ?d" "ahead ?d = rle_list es @ rest" using ok_append [OF Cons.prems(1) ah] by simp_all
  show ?case
  proof (cases "rle_entry addrs base e")
    case (New_base b)
    then show ?thesis using Cons.IH [OF d Cons.prems(3) rest_ok] by (subst walk_ranges.simps) (simp only: r rle_ranges_entry(1), simp)
  next
    case (Range s t)
    then show ?thesis
      using Cons.IH [OF d Cons.prems(3) rest_ok] cover_visit_in [of a s t False]
      by (subst walk_ranges.simps) (cases "in_range a (s, t)"; simp only: r rle_ranges_entry(1); simp)
  qed (use rle_ranges_entry(2) in blast)
qed

section \<open>Properties\<close>

text \<open>
  C25. A unit with a version 5 range list and addresses of eight bytes covers an address exactly when one of the
  ranges written in the list contains it, sums taken modulo \<open>2 ^ 64\<close>. The list may have entries of all seven
  kinds, in any order and number, and stand anywhere in its section: base addresses, offset pairs, starts with a
  length or an end, and the base addresses, starts and ends given by their index in the unit's table of
  addresses, when the table has these indices.
\<close>

theorem unit_covers_ranges:
  assumes "un_has_ranges un" "\<not> un_legacy_ranges un" "un_address_size un = 8"
    and "sv_data (tb_debug_rnglists tb) = before @ rle_list es @ after"
    and "unat (sv_size (tb_debug_rnglists tb)) = length before + length (rle_list es) + length after"
    and "unat (un_ranges un) = length before"
    and "addrs = [] \<or> addr_table (tb_debug_addr tb) (un_addr_base un) addrs"
    and "list_all (\<lambda>e. list_all (\<lambda>i. i < length addrs) (rle_indices e)) es"
  shows "unit_covers tb un a \<longleftrightarrow> list_ex (in_range a) (rle_ranges addrs (un_low_pc un) es)"
proof -
  let ?sv = "tb_debug_rnglists tb" and ?c = "(view_cursor (tb_debug_rnglists tb))\<lparr>cu_position := length before\<rparr>"
  have "0 < length (rle_list es)" by (simp add: rle_list_def uleb_bytes.simps)
  then have lt: "\<not> un_ranges un \<ge> sv_size ?sv" "\<not> un_ranges un > sv_size ?sv"
    using assms(5,6) by (simp_all add: word_le_nat_alt word_less_nat_alt)
  have s: "seek (un_ranges un) (view_cursor ?sv) = Some ?c" using lt(2) assms(6) by (simp add: seek_def view_cursor_def)
  have c: "cursor_ok ?c" "ahead ?c = rle_list es @ after"
    using assms(4,5) by (simp_all add: cursor_ok_def ahead_def view_cursor_def)
  let ?tb = "tb\<lparr>tb_address_size := un_address_size un, tb_addr_base := un_addr_base un\<rparr>"
  have at: "i < 2 ^ 64 \<and> indexed_address ?tb (of_nat i) = Some (addrs ! i)" if "i < length addrs" for i
    using indexed_address_table [of ?tb addrs i] assms(3,7) that by auto
  then have "list_all (\<lambda>e. \<forall>i \<in> set (rle_indices e). i < 2 ^ 64 \<and> indexed_address ?tb (of_nat i) = Some (addrs ! i)) es"
    using assms(8) by (auto simp: list_all_iff)
  from walk_rle [OF c _ this] show ?thesis
    using assms(1-3) lt(1) s by (simp add: unit_covers_def)
qed

text \<open>A unit that starts at 0x1000 and writes one range, 0x10 to 0x20 from its start, as version 4 does.\<close>

definition legacy_list :: "u8 list" where
  "legacy_list = [0x10, 0, 0, 0, 0x20, 0, 0, 0, 0, 0, 0, 0, 0, 0, 0, 0]"

definition legacy_unit :: cunit where
  "legacy_unit = empty_unit\<lparr>un_address_size := 4, un_low_pc := 0x1000, un_has_ranges := True, un_legacy_ranges := True\<rparr>"

definition ranges_tables :: "u8 list \<Rightarrow> tables" where
  "ranges_tables bs = \<lparr>tb_debug_str = empty_view, tb_debug_line_str = empty_view, tb_debug_str_offsets = empty_view,
     tb_debug_addr = empty_view, tb_debug_line = empty_view, tb_debug_rnglists = \<lparr>sv_data = bs, sv_size = of_nat (length bs)\<rparr>,
     tb_debug_ranges = \<lparr>sv_data = bs, sv_size = of_nat (length bs)\<rparr>,
     tb_working_directory = [], tb_str_offsets_base = 0, tb_addr_base = 0, tb_address_size = 8, tb_offset_size = 4\<rparr>"

text \<open>
  The range lists of versions before 5 are misread. Of a list with one range from 0x10 to 0x20
  behind a start of 0x1000, followed by the list of another unit with 0x30 to 0x40, the reader covers
  0x10, which the offsets do not name, does not cover 0x1010, which they do, and covers 0x35, which
  belongs to the other list: offsets are not added to the base and the pair of zeros that ends a list
  does not end it.
\<close>

lemma legacy_ranges_misread:
  "unit_covers (ranges_tables (legacy_list @ [0x30, 0, 0, 0, 0x40, 0, 0, 0, 0, 0, 0, 0, 0, 0, 0, 0])) legacy_unit 0x10
   \<and> \<not> unit_covers (ranges_tables (legacy_list @ [0x30, 0, 0, 0, 0x40, 0, 0, 0, 0, 0, 0, 0, 0, 0, 0, 0])) legacy_unit 0x1010
   \<and> unit_covers (ranges_tables (legacy_list @ [0x30, 0, 0, 0, 0x40, 0, 0, 0, 0, 0, 0, 0, 0, 0, 0, 0])) legacy_unit 0x35"
  by code_simp

text \<open>
  Reading a unit makes progress and stays inside the section: the next unit starts at least a
  length field further on, and not past the end.
\<close>

lemma read_unit_progress:
  assumes "read_unit abbrev tb c = Some (un, after)" "cu_position c \<le> unat (cu_size c)"
  shows "cu_position c + 4 \<le> unat after \<and> unat after \<le> unat (cu_size c)"
proof -
  obtain n tb' d where d: "read_unit_length tb c = Some ((n, tb'), d)" "after = of_nat (cu_position d) + n"
    using assms(1) by (auto simp: read_unit_def bind_eq_Some_conv)
  then have f: "cu_size d = cu_size c" "cu_position c + 4 \<le> cu_position d" "cu_position d \<le> unat (cu_size c)"
    "unat n \<le> unat (cu_size c) - cu_position d"
    using assms(2) by (auto simp: read_unit_length_def bind_eq_Some_conv fixed_def split: if_splits)
  have u: "unat (of_nat (cu_position d) :: u64) = cu_position d"
    using f(3) unat_lt2p [of "cu_size c"] by (intro unat_of_nat_small) simp
  have "unat after = cu_position d + unat n"
    unfolding d(2) using f(3,4) unat_lt2p [of "cu_size c"] by (subst unat_add_nowrap) (simp_all add: u)
  then show ?thesis using f by linarith
qed

section \<open>Witnesses\<close>

theorem unit_covers_ranges_witness:
  "unit_covers ((ranges_tables ([9, 9] @ rle_list [Base_address 0x2000, Offset_pair 0x10 0x20, Startx_endx (Suc 0) 0] @ [7]))
       \<lparr>tb_debug_addr := \<lparr>sv_data = 5 # addr_bytes [0x5000, 0x4000], sv_size = 17\<rparr>\<rparr>)
     (empty_unit\<lparr>un_has_ranges := True, un_ranges := 2, un_addr_base := 1\<rparr>) 0x4FFF"
proof -
  let ?es = "[Base_address 0x2000, Offset_pair 0x10 0x20, Startx_endx (Suc 0) 0]"
  have e: "length (rle_list ?es) = 16" by (simp add: rle_list_def uleb_bytes.simps)
  have t: "addr_table \<lparr>sv_data = 5 # addr_bytes [0x5000, 0x4000], sv_size = 17\<rparr> 1 [0x5000, 0x4000]"
    unfolding addr_table_def by (intro conjI exI [of _ "[5]"] exI [of _ "[]"]) (simp_all add: length_addr_bytes)
  show ?thesis
    by (subst unit_covers_ranges [where before = "[9, 9]" and after = "[7]" and es = ?es and addrs = "[0x5000, 0x4000]"])
      (use t in \<open>simp_all add: empty_unit_def ranges_tables_def e in_range_def\<close>)
qed

end
