(* ===== verification/Dwarf_Line.thy ===== *)
theory Dwarf_Line
  imports Dwarf_Unit
begin

text \<open>
  The line program of \<^verbatim>\<open>src/debug/dwarf/reader.cc\<close> (\<^verbatim>\<open>line_position\<close>): a byte-code whose rows map
  addresses to source positions. \<open>line_step\<close> is one round of the interpreter's loop. The loop may run
  forever on a malformed unit, so it takes fuel and a run that has used it up is \<open>Running\<close>.
  The line register is a word and its sums wrap; in the source it is a signed 64-bit number, and a program
  that overflows it has no defined behaviour.

  \<open>decode_op\<close>, \<open>exec_op\<close> and \<open>first_row\<close> are the reference: the program as a list of operations, the
  rows those operations emit, and the first of them that covers an address.
\<close>

section \<open>Definitions\<close>

record source_position =
  ps_file :: "u8 list"
  ps_line :: u32
  ps_column :: u32

text \<open>The registers of the machine, the open row, and the answer.\<close>

record regs =
  rg_address :: u64
  rg_file :: u64
  rg_line :: u64
  rg_column :: u64

record lstate =
  ls_regs :: regs
  ls_row_open :: bool
  ls_row :: regs
  ls_answer :: "source_position option"

definition start_regs :: regs where
  "start_regs = \<lparr>rg_address = 0, rg_file = 1, rg_line = 1, rg_column = 0\<rparr>"

definition start_lstate :: lstate where
  "start_lstate = \<lparr>ls_regs = start_regs, ls_row_open = False, ls_row = start_regs, ls_answer = None\<rparr>"

definition open_row :: "lstate \<Rightarrow> lstate" where
  "open_row st = st\<lparr>ls_row := ls_regs st, ls_row_open := True\<rparr>"

definition close_row_at :: "u8 list list \<Rightarrow> u64 \<Rightarrow> u64 \<Rightarrow> lstate \<Rightarrow> lstate" where
  "close_row_at files link_address stop st =
     (let row = ls_row st in
      if \<not> ls_row_open st \<or> link_address < rg_address row \<or> link_address \<ge> stop
         \<or> unat (rg_file row) \<ge> length files \<or> sint (rg_line row) \<le> 0 then st
      else let file = files ! unat (rg_file row) in
        if file = [] then st
        else st\<lparr>ls_answer := Some \<lparr>ps_file = file, ps_line = ucast (rg_line row), ps_column = ucast (rg_column row)\<rparr>\<rparr>)"

definition advance_pc :: "line_header \<Rightarrow> u64 \<Rightarrow> lstate \<Rightarrow> lstate" where
  "advance_pc h operation_advance st =
     st\<lparr>ls_regs := (ls_regs st)\<lparr>rg_address := rg_address (ls_regs st)
       + (operation_advance div lh_maximum_operations h) * lh_minimum_instruction_length h\<rparr>\<rparr>"

definition emit_row :: "u8 list list \<Rightarrow> u64 \<Rightarrow> lstate \<Rightarrow> lstate" where
  "emit_row files link_address st = open_row (close_row_at files link_address (rg_address (ls_regs st)) st)"

fun skip_operands :: "nat \<Rightarrow> unit read" where
  "skip_operands 0 c = Some ((), c)"
| "skip_operands (Suc n) c = do { (operand, c) \<leftarrow> uleb c; skip_operands n c }"

definition special_op :: "line_header \<Rightarrow> u8 list list \<Rightarrow> u64 \<Rightarrow> u64 \<Rightarrow> lstate \<Rightarrow> lstate" where
  "special_op h files link_address opcode st =
     (let adjusted = opcode - lh_opcode_base h;
          st = advance_pc h (adjusted div lh_line_range h) st;
          st = st\<lparr>ls_regs := (ls_regs st)\<lparr>rg_line := rg_line (ls_regs st) + (lh_line_base h + adjusted mod lh_line_range h)\<rparr>\<rparr>
      in emit_row files link_address st)"

definition extended_op :: "line_header \<Rightarrow> u8 list list \<Rightarrow> u64 \<Rightarrow> lstate \<Rightarrow> lstate read" where
  "extended_op h files link_address st c = do {
     (len, c) \<leftarrow> uleb c;
     (if len > lh_end h - of_nat (cu_position c) then None
      else do {
        let stop = of_nat (cu_position c) + len;
        (sub_opcode, c) \<leftarrow> fixed 1 c;
        (st, c) \<leftarrow>
          (if sub_opcode = DW_LNE_END_SEQUENCE then
             Some ((close_row_at files link_address (rg_address (ls_regs st)) st)
                     \<lparr>ls_row_open := False, ls_regs := start_regs\<rparr>, c)
           else if sub_opcode = DW_LNE_SET_ADDRESS then do {
             (a, c) \<leftarrow> fixed (lh_address_size h) c;
             Some (emit_row files link_address (st\<lparr>ls_regs := (ls_regs st)\<lparr>rg_address := a\<rparr>\<rparr>), c)
           }
           else Some (st, c));
        c \<leftarrow> seek stop c;
        Some (st, c)
      })
   }"

definition standard_op :: "line_header \<Rightarrow> u8 list list \<Rightarrow> u64 \<Rightarrow> u64 \<Rightarrow> lstate \<Rightarrow> lstate read" where
  "standard_op h files link_address opcode st c =
     (let rg = ls_regs st in
      if opcode = DW_LNS_COPY then Some (emit_row files link_address st, c)
      else if opcode = DW_LNS_ADVANCE_PC then do { (operand, c) \<leftarrow> uleb c; Some (advance_pc h operand st, c) }
      else if opcode = DW_LNS_ADVANCE_LINE
      then do { (delta, c) \<leftarrow> sleb c; Some (st\<lparr>ls_regs := rg\<lparr>rg_line := rg_line rg + delta\<rparr>\<rparr>, c) }
      else if opcode = DW_LNS_SET_FILE
      then do { (operand, c) \<leftarrow> uleb c; Some (st\<lparr>ls_regs := rg\<lparr>rg_file := operand\<rparr>\<rparr>, c) }
      else if opcode = DW_LNS_SET_COLUMN
      then do { (operand, c) \<leftarrow> uleb c; Some (st\<lparr>ls_regs := rg\<lparr>rg_column := operand\<rparr>\<rparr>, c) }
      else if opcode = DW_LNS_CONST_ADD_PC
      then Some (advance_pc h ((255 - lh_opcode_base h) div lh_line_range h) st, c)
      else if opcode = DW_LNS_FIXED_ADVANCE_PC
      then do { (operand, c) \<leftarrow> fixed 2 c; Some (st\<lparr>ls_regs := rg\<lparr>rg_address := rg_address rg + operand\<rparr>\<rparr>, c) }
      else if opcode \<in> {DW_LNS_SET_ISA, DW_LNS_NEGATE_STMT, DW_LNS_SET_BASIC_BLOCK, DW_LNS_SET_PROLOGUE_END,
                        DW_LNS_SET_EPILOGUE_BEGIN}
      then (if opcode = DW_LNS_SET_ISA then do { (operand, c) \<leftarrow> uleb c; Some (st, c) } else Some (st, c))
      else do { (u, c) \<leftarrow> skip_operands (unat (lh_standard_lengths h ! unat opcode)) c; Some (st, c) })"

definition line_step :: "line_header \<Rightarrow> u8 list list \<Rightarrow> u64 \<Rightarrow> u64 \<Rightarrow> lstate \<Rightarrow> lstate read" where
  "line_step h files link_address position st c = do {
     c \<leftarrow> seek position c;
     (opcode, c) \<leftarrow> fixed 1 c;
     (if opcode \<ge> lh_opcode_base h then Some (special_op h files link_address opcode st, c)
      else if opcode = 0 then extended_op h files link_address st c
      else standard_op h files link_address opcode st c)
   }"

datatype 'a run = Returned 'a | Running

fun line_loop :: "nat \<Rightarrow> line_header \<Rightarrow> u8 list list \<Rightarrow> u64 \<Rightarrow> u64 \<Rightarrow> lstate \<Rightarrow> cursor \<Rightarrow> source_position option run" where
  "line_loop 0 h files link_address position st c = Running"
| "line_loop (Suc fuel) h files link_address position st c =
     (if position < lh_end h \<and> ls_answer st = None
      then case line_step h files link_address position st c of
             None \<Rightarrow> Returned None
           | Some (st, c) \<Rightarrow> line_loop fuel h files link_address (of_nat (cu_position c)) st c
      else Returned (ls_answer st))"

definition line_position :: "nat \<Rightarrow> tables \<Rightarrow> cunit \<Rightarrow> u64 \<Rightarrow> source_position option run" where
  "line_position fuel tb un link_address =
     (if \<not> un_has_line_program un \<or> un_files un = [] \<or> un_line_program un \<ge> sv_size (tb_debug_line tb)
      then Returned None
      else case do { c \<leftarrow> seek (un_line_program un) (view_cursor (tb_debug_line tb)); read_line_header tb c } of
             None \<Rightarrow> Returned None
           | Some ((h, _), c) \<Rightarrow> line_loop fuel h (un_files un) link_address (lh_program h) start_lstate c)"

section \<open>The reference\<close>

datatype line_op =
    Special u64
  | Copy_row
  | Advance_pc u64
  | Advance_line u64
  | Set_file u64
  | Set_column u64
  | Fixed_advance u64
  | End_sequence
  | Set_address u64
  | Other

definition decode_extended :: "line_header \<Rightarrow> line_op read" where
  "decode_extended h c = do {
     (len, c) \<leftarrow> uleb c;
     (if len > lh_end h - of_nat (cu_position c) then None
      else do {
        let stop = of_nat (cu_position c) + len;
        (sub_opcode, c) \<leftarrow> fixed 1 c;
        (op, c) \<leftarrow>
          (if sub_opcode = DW_LNE_END_SEQUENCE then Some (End_sequence, c)
           else if sub_opcode = DW_LNE_SET_ADDRESS
           then do { (a, c) \<leftarrow> fixed (lh_address_size h) c; Some (Set_address a, c) }
           else Some (Other, c));
        c \<leftarrow> seek stop c;
        Some (op, c)
      })
   }"

definition decode_standard :: "line_header \<Rightarrow> u64 \<Rightarrow> line_op read" where
  "decode_standard h opcode c =
     (if opcode = DW_LNS_COPY then Some (Copy_row, c)
      else if opcode = DW_LNS_ADVANCE_PC then do { (x, c) \<leftarrow> uleb c; Some (Advance_pc x, c) }
      else if opcode = DW_LNS_ADVANCE_LINE then do { (x, c) \<leftarrow> sleb c; Some (Advance_line x, c) }
      else if opcode = DW_LNS_SET_FILE then do { (x, c) \<leftarrow> uleb c; Some (Set_file x, c) }
      else if opcode = DW_LNS_SET_COLUMN then do { (x, c) \<leftarrow> uleb c; Some (Set_column x, c) }
      else if opcode = DW_LNS_CONST_ADD_PC
      then Some (Advance_pc ((255 - lh_opcode_base h) div lh_line_range h), c)
      else if opcode = DW_LNS_FIXED_ADVANCE_PC then do { (x, c) \<leftarrow> fixed 2 c; Some (Fixed_advance x, c) }
      else if opcode \<in> {DW_LNS_SET_ISA, DW_LNS_NEGATE_STMT, DW_LNS_SET_BASIC_BLOCK, DW_LNS_SET_PROLOGUE_END,
                        DW_LNS_SET_EPILOGUE_BEGIN}
      then (if opcode = DW_LNS_SET_ISA then do { (x, c) \<leftarrow> uleb c; Some (Other, c) } else Some (Other, c))
      else do { (u, c) \<leftarrow> skip_operands (unat (lh_standard_lengths h ! unat opcode)) c; Some (Other, c) })"

definition decode_op :: "line_header \<Rightarrow> u64 \<Rightarrow> line_op read" where
  "decode_op h position c = do {
     c \<leftarrow> seek position c;
     (opcode, c) \<leftarrow> fixed 1 c;
     (if opcode \<ge> lh_opcode_base h then Some (Special (opcode - lh_opcode_base h), c)
      else if opcode = 0 then decode_extended h c
      else decode_standard h opcode c)
   }"

text \<open>The operations of a whole program; \<^term>\<open>None\<close> when one of them cannot be read.\<close>

inductive program :: "line_header \<Rightarrow> u64 \<Rightarrow> cursor \<Rightarrow> line_op list \<Rightarrow> bool" for h :: line_header where
  program_end: "\<not> position < lh_end h \<Longrightarrow> program h position c []"
| program_op: "position < lh_end h \<Longrightarrow> decode_op h position c = Some (op, d)
    \<Longrightarrow> program h (of_nat (cu_position d)) d ops \<Longrightarrow> program h position c (op # ops)"

text \<open>Registers and open row after an operation, and the row it closes with the address it ends at.\<close>

definition pc_step :: "line_header \<Rightarrow> u64 \<Rightarrow> regs \<Rightarrow> regs" where
  "pc_step h n r = r\<lparr>rg_address := rg_address r + (n div lh_maximum_operations h) * lh_minimum_instruction_length h\<rparr>"

definition emit :: "regs \<Rightarrow> regs option \<Rightarrow> regs \<times> regs option \<times> (regs \<times> u64) list" where
  "emit r row = (r, Some r, case row of None \<Rightarrow> [] | Some o' \<Rightarrow> [(o', rg_address r)])"

fun exec_op :: "line_header \<Rightarrow> line_op \<Rightarrow> regs \<Rightarrow> regs option \<Rightarrow> regs \<times> regs option \<times> (regs \<times> u64) list" where
  "exec_op h (Special x) r row =
     (let r = pc_step h (x div lh_line_range h) r
      in emit (r\<lparr>rg_line := rg_line r + (lh_line_base h + x mod lh_line_range h)\<rparr>) row)"
| "exec_op h Copy_row r row = emit r row"
| "exec_op h (Advance_pc n) r row = (pc_step h n r, row, [])"
| "exec_op h (Advance_line d) r row = (r\<lparr>rg_line := rg_line r + d\<rparr>, row, [])"
| "exec_op h (Set_file x) r row = (r\<lparr>rg_file := x\<rparr>, row, [])"
| "exec_op h (Set_column x) r row = (r\<lparr>rg_column := x\<rparr>, row, [])"
| "exec_op h (Fixed_advance x) r row = (r\<lparr>rg_address := rg_address r + x\<rparr>, row, [])"
| "exec_op h End_sequence r row = (start_regs, None, case row of None \<Rightarrow> [] | Some o' \<Rightarrow> [(o', rg_address r)])"
| "exec_op h (Set_address a) r row = emit (r\<lparr>rg_address := a\<rparr>) row"
| "exec_op h Other r row = (r, row, [])"

fun rows :: "line_header \<Rightarrow> line_op list \<Rightarrow> regs \<Rightarrow> regs option \<Rightarrow> (regs \<times> u64) list" where
  "rows h [] r row = []"
| "rows h (op # ops) r row = (case exec_op h op r row of (r, row, out) \<Rightarrow> out @ rows h ops r row)"

text \<open>A row answers for an address it covers, if it names a file of the table and a line.\<close>

definition answers :: "u8 list list \<Rightarrow> u64 \<Rightarrow> regs \<times> u64 \<Rightarrow> bool" where
  "answers files a x \<longleftrightarrow> rg_address (fst x) \<le> a \<and> a < snd x \<and> unat (rg_file (fst x)) < length files
     \<and> 0 < sint (rg_line (fst x)) \<and> files ! unat (rg_file (fst x)) \<noteq> []"

definition position_of :: "u8 list list \<Rightarrow> regs \<times> u64 \<Rightarrow> source_position" where
  "position_of files x = \<lparr>ps_file = files ! unat (rg_file (fst x)), ps_line = ucast (rg_line (fst x)),
     ps_column = ucast (rg_column (fst x))\<rparr>"

definition first_row :: "u8 list list \<Rightarrow> u64 \<Rightarrow> (regs \<times> u64) list \<Rightarrow> source_position option" where
  "first_row files a xs = map_option (position_of files) (find (answers files a) xs)"

section \<open>The interpreter follows the reference\<close>

definition open_of :: "lstate \<Rightarrow> regs option" where
  "open_of st = (if ls_row_open st then Some (ls_row st) else None)"

definition follows :: "line_header \<Rightarrow> u8 list list \<Rightarrow> u64 \<Rightarrow> line_op \<Rightarrow> lstate \<Rightarrow> lstate \<Rightarrow> bool" where
  "follows h files a op st st' \<longleftrightarrow> (case exec_op h op (ls_regs st) (open_of st) of
     (r, row, out) \<Rightarrow> ls_regs st' = r \<and> open_of st' = row \<and> ls_answer st' = first_row files a out)"

lemma close_row:
  "ls_regs (close_row_at files a stop st) = ls_regs st" "open_of (close_row_at files a stop st) = open_of st"
  "ls_row_open (close_row_at files a stop st) = ls_row_open st" "ls_row (close_row_at files a stop st) = ls_row st"
  "ls_answer st = None \<Longrightarrow> ls_answer (close_row_at files a stop st)
     = first_row files a (case open_of st of None \<Rightarrow> [] | Some r \<Rightarrow> [(r, stop)])"
  by (auto simp: close_row_at_def Let_def open_of_def first_row_def answers_def position_of_def not_less not_le)

lemma emit_row_follows:
  assumes "ls_answer st = None"
  shows "ls_regs (emit_row files a st) = ls_regs st" "open_of (emit_row files a st) = Some (ls_regs st)"
    "ls_answer (emit_row files a st)
       = first_row files a (case open_of st of None \<Rightarrow> [] | Some r \<Rightarrow> [(r, rg_address (ls_regs st))])"
  using assms by (simp_all add: emit_row_def open_row_def open_of_def close_row)

lemma first_row_Nil [simp]: "first_row files a [] = None"
  by (simp add: first_row_def)

lemma regs_update [simp]: "open_of (st\<lparr>ls_regs := x\<rparr>) = open_of st"
  by (simp add: open_of_def)

lemmas follow_defs = follows_def emit_def emit_row_follows advance_pc_def pc_step_def

lemma special_follows:
  "ls_answer st = None \<Longrightarrow> follows h files a (Special (opcode - lh_opcode_base h)) st (special_op h files a opcode st)"
  by (simp add: special_op_def follow_defs Let_def split: option.split)

lemma extended_follows:
  assumes "ls_answer st = None" "decode_extended h c = Some (op, d)"
  shows "\<exists>st'. extended_op h files a st c = Some (st', d) \<and> follows h files a op st st'"
proof -
  obtain len c1 sub c2 where s: "uleb c = Some (len, c1)" "\<not> len > lh_end h - of_nat (cu_position c1)"
    "fixed 1 c1 = Some (sub, c2)"
    using assms(2) by (auto simp: decode_extended_def bind_eq_Some_conv Let_def split: if_splits)
  consider "sub = DW_LNE_END_SEQUENCE" | "sub \<noteq> DW_LNE_END_SEQUENCE" "sub = DW_LNE_SET_ADDRESS"
    | "sub \<noteq> DW_LNE_END_SEQUENCE" "sub \<noteq> DW_LNE_SET_ADDRESS" by blast
  then show ?thesis
  proof cases
    case 1
    let ?st = "(close_row_at files a (rg_address (ls_regs st)) st)\<lparr>ls_row_open := False, ls_regs := start_regs\<rparr>"
    have "follows h files a End_sequence st ?st"
      using assms(1) by (simp add: follows_def close_row) (simp add: open_of_def)
    then show ?thesis using assms(2) s 1 by (auto simp: decode_extended_def extended_op_def bind_eq_Some_conv)
  next
    case 2
    have "follows h files a (Set_address x) st (emit_row files a (st\<lparr>ls_regs := (ls_regs st)\<lparr>rg_address := x\<rparr>\<rparr>))" for x
      using assms(1) by (simp add: follow_defs split: option.split)
    then show ?thesis using assms(2) s 2 by (auto simp: decode_extended_def extended_op_def bind_eq_Some_conv)
  next
    case 3
    have "follows h files a Other st st" using assms(1) by (simp add: follows_def)
    then show ?thesis using assms(2) s 3 by (auto simp: decode_extended_def extended_op_def bind_eq_Some_conv)
  qed
qed

text \<open>What a standard opcode does to the state, by the operation it decodes to.\<close>

fun apply_op :: "line_header \<Rightarrow> u8 list list \<Rightarrow> u64 \<Rightarrow> line_op \<Rightarrow> lstate \<Rightarrow> lstate" where
  "apply_op h files a Copy_row st = emit_row files a st"
| "apply_op h files a (Advance_pc n) st = advance_pc h n st"
| "apply_op h files a (Advance_line d) st = st\<lparr>ls_regs := (ls_regs st)\<lparr>rg_line := rg_line (ls_regs st) + d\<rparr>\<rparr>"
| "apply_op h files a (Set_file x) st = st\<lparr>ls_regs := (ls_regs st)\<lparr>rg_file := x\<rparr>\<rparr>"
| "apply_op h files a (Set_column x) st = st\<lparr>ls_regs := (ls_regs st)\<lparr>rg_column := x\<rparr>\<rparr>"
| "apply_op h files a (Fixed_advance x) st = st\<lparr>ls_regs := (ls_regs st)\<lparr>rg_address := rg_address (ls_regs st) + x\<rparr>\<rparr>"
| "apply_op h files a op st = st"

lemma bind_read: "Option.bind m (\<lambda>p. case p of (x, c) \<Rightarrow> Some (f x, c)) = map_option (map_prod f id) m"
  by (cases m) auto

lemma standard_decodes:
  "standard_op h files a opcode st c = map_option (\<lambda>(op, d). (apply_op h files a op st, d)) (decode_standard h opcode c)"
  unfolding standard_op_def decode_standard_def Let_def bind_read
  by (simp add: if_distrib [of "map_option (\<lambda>(op, d). (apply_op h files a op st, d))"] option.map_comp comp_def
      case_prod_map_prod case_prod_unfold map_prod_def cong: if_cong)

lemma standard_follows:
  assumes "ls_answer st = None" "decode_standard h opcode c = Some (op, d)"
  shows "\<exists>st'. standard_op h files a opcode st c = Some (st', d) \<and> follows h files a op st st'"
proof -
  have "\<not> (\<exists>x. op = Special x \<or> op = Set_address x)" "op \<noteq> End_sequence"
    using assms(2) unfolding decode_standard_def bind_read by (auto split: if_splits)
  then have "follows h files a op st (apply_op h files a op st)"
    using assms(1) by (cases op) (simp_all add: follow_defs)
  then show ?thesis using assms(2) by (simp add: standard_decodes)
qed

lemma line_step_follows:
  assumes "ls_answer st = None" "decode_op h position c = Some (op, d)"
  shows "\<exists>st'. line_step h files a position st c = Some (st', d) \<and> follows h files a op st st'"
proof -
  obtain c1 opcode c2 where s: "seek position c = Some c1" "fixed 1 c1 = Some (opcode, c2)"
    using assms(2) by (auto simp: decode_op_def bind_eq_Some_conv)
  consider "opcode \<ge> lh_opcode_base h" | "\<not> opcode \<ge> lh_opcode_base h" "opcode = 0"
    | "\<not> opcode \<ge> lh_opcode_base h" "opcode \<noteq> 0" by blast
  then show ?thesis
  proof cases
    case 1
    then show ?thesis using assms(2) special_follows [OF assms(1)] s by (auto simp: decode_op_def line_step_def)
  next
    case 2
    then show ?thesis using assms(2) extended_follows [OF assms(1)] s by (simp add: decode_op_def line_step_def)
  next
    case 3
    then show ?thesis using assms(2) standard_follows [OF assms(1)] s by (simp add: decode_op_def line_step_def)
  qed
qed

lemma first_row_append:
  "first_row files a (xs @ ys) = (case first_row files a xs of None \<Rightarrow> first_row files a ys | Some p \<Rightarrow> Some p)"
  by (induction xs) (auto simp: first_row_def)

lemma line_loop_follows:
  assumes "program h position c ops" "ls_answer st = None"
  shows "line_loop (Suc (length ops)) h files a position st c = Returned (first_row files a (rows h ops (ls_regs st) (open_of st)))"
  using assms
proof (induction arbitrary: st rule: program.induct)
  case (program_op position c op d ops)
  obtain st' where st': "line_step h files a position st c = Some (st', d)" "follows h files a op st st'"
    using line_step_follows [OF program_op.prems program_op.hyps(2)] by blast
  obtain r row out where x: "exec_op h op (ls_regs st) (open_of st) = (r, row, out)" by (cases "exec_op h op (ls_regs st) (open_of st)")
  then have f: "ls_regs st' = r" "open_of st' = row" "ls_answer st' = first_row files a out" using st'(2) by (simp_all add: follows_def)
  show ?case
  proof (cases "ls_answer st'")
    case None
    then show ?thesis using program_op.IH [OF None] program_op.hyps(1) program_op.prems st'(1) x f
      by (simp add: first_row_append)
  next
    case (Some p)
    then show ?thesis using program_op.hyps(1) program_op.prems st'(1) x f by (simp add: first_row_append)
  qed
qed simp

section \<open>Termination\<close>

lemma seek_cursor: "seek p c = Some d \<Longrightarrow> cu_data d = cu_data c \<and> cu_size d = cu_size c \<and> cu_position d = unat p
    \<and> unat p \<le> unat (cu_size c)"
  by (auto simp: seek_def not_less word_le_nat_alt split: if_splits)

lemma skip_operands_forward: "skip_operands n c = Some (x, d) \<Longrightarrow> forward c d"
proof (induction n arbitrary: c)
  case (Suc n)
  then obtain y e where "uleb c = Some (y, e)" "skip_operands n e = Some (x, d)" by (auto simp: bind_eq_Some_conv)
  then show ?case using Suc.IH forward_trans [OF past_forward [OF uleb_past]] by blast
qed simp

lemma standard_forward: "standard_op h files a opcode st c = Some (st', d) \<Longrightarrow> forward c d"
  unfolding standard_op_def
  by (auto simp: bind_eq_Some_conv Let_def split: if_splits
      dest!: fixed_past uleb_past sleb_past skip_operands_forward intro: past_forward)

text \<open>An extended operation ends past its length field when the unit reaches the end of its section.\<close>

lemma extended_forward:
  assumes "extended_op h files a st c = Some (st', d)" "lh_end h = cu_size c" "cu_position c \<le> unat (cu_size c)"
  shows "cu_data d = cu_data c \<and> cu_size d = cu_size c \<and> cu_position c \<le> cu_position d \<and> cu_position d \<le> unat (cu_size c)"
proof -
  obtain len c1 sub c2 where l: "uleb c = Some (len, c1)" "\<not> len > lh_end h - of_nat (cu_position c1)"
    "fixed 1 c1 = Some (sub, c2)"
    using assms(1) by (auto simp: extended_op_def bind_eq_Some_conv Let_def split: if_splits)
  have "\<exists>c3. forward c2 c3 \<and> seek (of_nat (cu_position c1) + len) c3 = Some d"
    using assms(1) l fixed_past [of "lh_address_size h" c2]
    by (cases "sub = DW_LNE_END_SEQUENCE"; cases "sub = DW_LNE_SET_ADDRESS")
      (auto simp: extended_op_def bind_eq_Some_conv intro: past_forward exI [of _ c2])
  then obtain c3 where s: "uleb c = Some (len, c1)" "\<not> len > lh_end h - of_nat (cu_position c1)"
    "fixed 1 c1 = Some (sub, c2)" "forward c2 c3" "seek (of_nat (cu_position c1) + len) c3 = Some d" using l by blast
  have f: "forward c c1" "forward c1 c2" using s uleb_past fixed_past past_forward by blast+
  then have same: "cu_data c3 = cu_data c" "cu_size c3 = cu_size c" "cu_size c1 = cu_size c" using s(4) by (auto simp: forward_def)
  have p: "cu_position c \<le> cu_position c1" "cu_position c1 \<le> unat (cu_size c)" using f(1) assms(3) by (auto simp: forward_def)
  have u: "unat (of_nat (cu_position c1) :: u64) = cu_position c1"
    using p(2) unat_lt2p [of "cu_size c"] by (intro unat_of_nat_small) simp
  have le: "(of_nat (cu_position c1) :: u64) \<le> cu_size c" using p(2) by (simp add: word_le_nat_alt u)
  have "unat len \<le> unat (cu_size c) - cu_position c1"
    using s(2) unat_sub_le [OF le] by (simp add: assms(2) not_less word_le_nat_alt u)
  then have "unat (of_nat (cu_position c1) + len) = cu_position c1 + unat len"
    using p(2) unat_lt2p [of "cu_size c"] by (subst unat_add_nowrap) (simp_all add: u)
  then show ?thesis using seek_cursor [OF s(5)] same p(1) by auto
qed

lemma line_step_progress:
  assumes "line_step h files a position st c = Some (st', d)" "lh_end h = cu_size c" "position < lh_end h"
  shows "cu_data d = cu_data c \<and> cu_size d = cu_size c \<and> unat position < cu_position d \<and> cu_position d \<le> unat (cu_size c)"
proof -
  obtain c1 opcode c2 where s: "seek position c = Some c1" "fixed 1 c1 = Some (opcode, c2)"
    and r: "(if opcode \<ge> lh_opcode_base h then Some (special_op h files a opcode st, c2)
      else if opcode = 0 then extended_op h files a st c2 else standard_op h files a opcode st c2) = Some (st', d)"
    using assms(1) by (auto simp: line_step_def bind_eq_Some_conv)
  note k = seek_cursor [OF s(1)]
  have p: "cu_data c2 = cu_data c" "cu_size c2 = cu_size c" "unat position < cu_position c2" "cu_position c2 \<le> unat (cu_size c)"
    using fixed_past [OF s(2)] k by (auto simp: past_def forward_def)
  show ?thesis using r p extended_forward [of h files a st c2 st' d] standard_forward [of h files a opcode st c2 st' d] assms(2)
    by (auto simp: forward_def split: if_splits)
qed

lemma line_loop_ends:
  assumes "lh_end h = cu_size c" "unat (lh_end h) - unat position < fuel"
  shows "\<exists>r. line_loop fuel h files a position st c = Returned r"
  using assms
proof (induction fuel arbitrary: position st c)
  case (Suc fuel)
  show ?case
  proof (cases "position < lh_end h \<and> ls_answer st = None")
    case True
    show ?thesis
    proof (cases "line_step h files a position st c")
      case (Some x)
      obtain st' d where x: "x = (st', d)" by (cases x)
      note p = line_step_progress [OF Some [unfolded x] Suc.prems(1)] True
      have q: "unat (of_nat (cu_position d) :: u64) = cu_position d"
        using p unat_lt2p [of "cu_size c"] by (intro unat_of_nat_small) auto
      have "unat (lh_end h) - unat (of_nat (cu_position d) :: u64) < fuel"
        using p Suc.prems by (auto simp: q word_less_nat_alt)
      then show ?thesis using Suc.IH [of d "of_nat (cu_position d)" st'] p Suc.prems(1) True by (simp add: Some x)
    qed (use True in simp)
  qed auto
qed simp

lemma line_loop_more_fuel:
  "line_loop n h files a position st c = Returned r \<Longrightarrow> n \<le> m \<Longrightarrow> line_loop m h files a position st c = Returned r"
proof (induction n arbitrary: m position st c)
  case (Suc n)
  then obtain m' where "m = Suc m'" "n \<le> m'" by (cases m) auto
  then show ?case using Suc.prems(1) Suc.IH [of _ _ _ m'] by (auto split: if_splits option.splits)
qed simp

section \<open>Properties\<close>

text \<open>The header of a unit's line program and the cursor behind it.\<close>

definition unit_header :: "tables \<Rightarrow> cunit \<Rightarrow> (line_header \<times> cursor) option" where
  "unit_header tb un =
     (if \<not> un_has_line_program un \<or> un_files un = [] \<or> un_line_program un \<ge> sv_size (tb_debug_line tb) then None
      else do {
        c \<leftarrow> seek (un_line_program un) (view_cursor (tb_debug_line tb));
        ((h, _), c) \<leftarrow> read_line_header tb c;
        Some (h, c)
      })"

lemma line_position_header:
  "unit_header tb un = Some (h, c) \<Longrightarrow>
     line_position fuel tb un a = line_loop fuel h (un_files un) a (lh_program h) start_lstate c"
  by (auto simp: unit_header_def line_position_def bind_eq_Some_conv split: if_splits)

text \<open>
  C9. A lookup in a line program gives the source position of the first row, in program order, that
  covers the address and names a file and a line, and nothing when no row does. The rows are those of
  the reference execution of the operations the bytes of the program decode to.
\<close>

theorem line_position_first_row:
  assumes "unit_header tb un = Some (h, c)" "program h (lh_program h) c ops" "length ops < fuel"
  shows "line_position fuel tb un a = Returned (first_row (un_files un) a (rows h ops start_regs None))"
proof -
  have s: "ls_answer start_lstate = None" "ls_regs start_lstate = start_regs" "open_of start_lstate = None"
    by (simp_all add: start_lstate_def open_of_def)
  have "line_loop (Suc (length ops)) h (un_files un) a (lh_program h) start_lstate c
      = Returned (first_row (un_files un) a (rows h ops start_regs None))"
    using line_loop_follows [OF assms(2) s(1), of "un_files un" a] unfolding s .
  then show ?thesis
    unfolding line_position_header [OF assms(1)] using line_loop_more_fuel assms(3) by (metis Suc_leI)
qed

text \<open>
  C26. The interpreter of a line program that reaches to the end of its section ends, after at most as
  many rounds as the section has bytes, whatever those bytes are.
\<close>

theorem line_position_ends:
  assumes "unit_header tb un = Some (h, c)" "lh_end h = cu_size c" "unat (cu_size c) < fuel"
  shows "\<exists>r. line_position fuel tb un a = Returned r"
proof -
  have "unat (lh_end h) - unat (lh_program h) < fuel" using assms(2,3) by simp
  from line_loop_ends [OF assms(2) this] show ?thesis unfolding line_position_header [OF assms(1)] .
qed

lemma standard_lengths_line_base:
  "read_standard_lengths n opcode h c = Some (h', d) \<Longrightarrow> lh_line_base h' = lh_line_base h"
  by (induction n arbitrary: opcode h c) (fastforce simp: bind_eq_Some_conv)+

text \<open>
  The line base a program declares is read and dropped: every header that is accepted has the line
  base -5, whatever its bytes say, so a special opcode of a program that declares another line base
  advances the line by the wrong amount.
\<close>

lemma line_base_ignored:
  assumes "read_line_header tb c = Some ((h, files), d)"
  shows "lh_line_base h = - 5"
proof -
  obtain h0 tb0 c0 c1 where h: "read_header_sizes tb c = Some ((h0, tb0), c0)" "read_header_opcodes h0 c0 = Some (h, c1)"
    using assms by (auto simp: read_line_header_def bind_eq_Some_conv)
  have "lh_line_base h0 = - 5"
    using h(1) by (auto simp: read_header_sizes_def bind_eq_Some_conv Let_def empty_line_header_def split: if_splits)
  moreover have "lh_line_base h = lh_line_base h0"
    using h(2) by (auto simp: read_header_opcodes_def bind_eq_Some_conv split: if_splits dest!: standard_lengths_line_base)
  ultimately show ?thesis by simp
qed

definition line_tables :: "u8 list \<Rightarrow> tables" where
  "line_tables bs = \<lparr>tb_debug_str = empty_view, tb_debug_line_str = empty_view, tb_debug_str_offsets = empty_view,
     tb_debug_addr = empty_view, tb_debug_line = \<lparr>sv_data = bs, sv_size = of_nat (length bs)\<rparr>,
     tb_debug_rnglists = empty_view, tb_debug_ranges = empty_view, tb_working_directory = [],
     tb_str_offsets_base = 0, tb_addr_base = 0, tb_address_size = 8, tb_offset_size = 4\<rparr>"

definition sample_unit :: cunit where
  "sample_unit = empty_unit\<lparr>un_has_line_program := True, un_files := [[], [97]]\<rparr>"

text \<open>
  A unit of one zero opcode, followed by bytes of another unit that read as an extended length of
  \<open>2 ^ 64 - 11\<close>.
\<close>

definition looping_bytes :: "u8 list" where
  "looping_bytes = [14, 0, 0, 0, 2, 0, 7, 0, 0, 0, 1, 1, 251, 14, 1, 0, 0,
     0, 0xF5, 0xFF, 0xFF, 0xFF, 0xFF, 0xFF, 0xFF, 0xFF, 0xFF, 1, 9]"

definition looping_header :: line_header where
  "looping_header = empty_line_header\<lparr>lh_version := 2, lh_opcode_base := 1, lh_program := 17, lh_end := 18\<rparr>"

definition looping_cursor :: cursor where
  "looping_cursor = \<lparr>cu_data = looping_bytes, cu_size = 29, cu_position = 17\<rparr>"

lemma looping_header_read: "unit_header (line_tables looping_bytes) sample_unit = Some (looping_header, looping_cursor)"
  by code_simp

lemma looping_step:
  "line_step looping_header [[], [97]] a 17 start_lstate looping_cursor = Some (start_lstate, looping_cursor)"
  by code_simp

lemma looping_loop: "line_loop fuel looping_header [[], [97]] a 17 start_lstate looping_cursor = Running"
proof (induction fuel)
  case (Suc fuel)
  have "(17 :: u64) < lh_end looping_header" "ls_answer start_lstate = None" "cu_position looping_cursor = 17"
    by (simp_all add: looping_header_def start_lstate_def looping_cursor_def)
  then show ?case using Suc.IH looping_step by simp
qed simp

text \<open>
  C30. A malformed unit makes the lookup run forever: the bound on an extended opcode's length is
  computed by a subtraction that wraps once the length field has run past the end of the unit, the
  sum of position and length wraps back to the opcode itself, and every round repeats the last.
\<close>

theorem line_position_never_returns:
  "line_position fuel (line_tables looping_bytes) sample_unit a = Running"
proof -
  have "lh_program looping_header = 17" "un_files sample_unit = [[], [97]]"
    by (simp_all add: looping_header_def sample_unit_def)
  then show ?thesis using line_position_header [OF looping_header_read] looping_loop by simp
qed

section \<open>Witnesses\<close>

text \<open>One sequence from 0x1000 to 0x1004 on line 2 of file 1.\<close>

definition sample_bytes :: "u8 list" where
  "sample_bytes = [38, 0, 0, 0, 2, 0, 15, 0, 0, 0, 1, 1, 251, 14, 4, 0, 1, 1, 0, 97, 0, 0, 0, 0, 0,
     0, 9, 2, 0, 16, 0, 0, 0, 0, 0, 0, 10, 2, 4, 0, 1, 1]"

definition sample_header :: line_header where
  "sample_header = empty_line_header\<lparr>lh_version := 2, lh_opcode_base := 4, lh_program := 25, lh_end := 42,
     lh_standard_lengths := [0, 0, 1, 1] @ replicate 28 0\<rparr>"

definition sample_at :: "nat \<Rightarrow> cursor" where
  "sample_at n = \<lparr>cu_data = sample_bytes, cu_size = 42, cu_position = n\<rparr>"

lemma sample_header_read: "unit_header (line_tables sample_bytes) sample_unit = Some (sample_header, sample_at 25)"
  by code_simp

lemma sample_decodes:
  "decode_op sample_header 25 (sample_at 25) = Some (Set_address 0x1000, sample_at 36)"
  "decode_op sample_header 36 (sample_at 36) = Some (Special 6, sample_at 37)"
  "decode_op sample_header 37 (sample_at 37) = Some (Advance_pc 4, sample_at 39)"
  "decode_op sample_header 39 (sample_at 39) = Some (End_sequence, sample_at 42)"
  by code_simp+

lemma sample_program:
  "program sample_header 25 (sample_at 25) [Set_address 0x1000, Special 6, Advance_pc 4, End_sequence]"
proof -
  have h: "lh_end sample_header = 42" and p: "\<And>n. cu_position (sample_at n) = n"
    by (simp_all add: sample_header_def sample_at_def)
  have "program sample_header 42 (sample_at 42) []" by (rule program_end) (simp add: h)
  then have "program sample_header 39 (sample_at 39) [End_sequence]"
    using program_op [OF _ sample_decodes(4)] by (simp add: h p)
  then have "program sample_header 37 (sample_at 37) [Advance_pc 4, End_sequence]"
    using program_op [OF _ sample_decodes(3)] by (simp add: h p)
  then have "program sample_header 36 (sample_at 36) [Special 6, Advance_pc 4, End_sequence]"
    using program_op [OF _ sample_decodes(2)] by (simp add: h p)
  then show ?thesis using program_op [OF _ sample_decodes(1)] by (simp add: h p)
qed

theorem line_position_first_row_witness:
  "line_position 5 (line_tables sample_bytes) sample_unit 0x1002
     = Returned (Some \<lparr>ps_file = [97], ps_line = 2, ps_column = 0\<rparr>)"
proof -
  have p: "program sample_header (lh_program sample_header) (sample_at 25) [Set_address 0x1000, Special 6, Advance_pc 4, End_sequence]"
    using sample_program by (simp add: sample_header_def)
  have "first_row (un_files sample_unit) 0x1002
      (rows sample_header [Set_address 0x1000, Special 6, Advance_pc 4, End_sequence] start_regs None)
      = Some \<lparr>ps_file = [97], ps_line = 2, ps_column = 0\<rparr>" by code_simp
  then show ?thesis using line_position_first_row [OF sample_header_read p, of 5 "0x1002"] by simp
qed

theorem line_position_ends_witness:
  "\<exists>r. line_position 43 (line_tables sample_bytes) sample_unit 0x2000 = Returned r"
proof (rule line_position_ends [OF sample_header_read])
  show "lh_end sample_header = cu_size (sample_at 25)" by (simp add: sample_header_def sample_at_def)
  show "unat (cu_size (sample_at 25)) < 43" by (simp add: sample_at_def)
qed

text \<open>A header that declares a line base of -3 (the byte 253).\<close>

definition base_cursor :: cursor where
  "base_cursor = \<lparr>cu_data = [13, 0, 0, 0, 2, 0, 7, 0, 0, 0, 1, 1, 253, 14, 1, 0, 0], cu_size = 17, cu_position = 0\<rparr>"

lemma line_base_ignored_witness:
  "\<exists>h files d. read_line_header (line_tables []) base_cursor = Some ((h, files), d) \<and> lh_line_base h = - 5"
proof -
  have "read_line_header (line_tables []) base_cursor \<noteq> None" by code_simp
  then obtain h files d where r: "read_line_header (line_tables []) base_cursor = Some ((h, files), d)" by auto
  show ?thesis using line_base_ignored [OF r] r by blast
qed

end
