(* ===== verification/Dwarf_Module.thy ===== *)
theory Dwarf_Module
  imports Dwarf_Line
begin

text \<open>
  \<^verbatim>\<open>debug::dwarf::Module\<close> (\<^verbatim>\<open>src/debug/dwarf/module.cc\<close>): the section table of an ELF object, its function
  symbols, its compilation units, and the two lookups by address. The bytes of the mapped file are
  an argument; opening and mapping it is input and output. Symbols are put in order by a stable sort,
  where \<^verbatim>\<open>std::sort\<close> leaves the order of equal addresses open. \<^verbatim>\<open>ModuleCache\<close> keeps the modules by path.
\<close>

section \<open>Definitions\<close>

named_theorems elf \<open>the numbers of the object format\<close>

definition ELF_MAGIC :: u64 where [elf]: "ELF_MAGIC = 0x464C457F"
definition ELF_CLASS_64 :: u64 where [elf]: "ELF_CLASS_64 = 2"
definition ELF_DATA_LSB :: u64 where [elf]: "ELF_DATA_LSB = 1"
definition ELF_TYPE_DYN :: u64 where [elf]: "ELF_TYPE_DYN = 3"
definition SHT_SYMTAB :: u64 where [elf]: "SHT_SYMTAB = 2"
definition SHT_STRTAB :: u64 where [elf]: "SHT_STRTAB = 3"
definition STT_FUNC :: u64 where [elf]: "STT_FUNC = 2"
definition STB_GLOBAL :: u64 where [elf]: "STB_GLOBAL = 1"
definition STB_WEAK :: u64 where [elf]: "STB_WEAK = 2"
definition ELF_SECTION_ENTRY_SIZE :: u64 where [elf]: "ELF_SECTION_ENTRY_SIZE = 64"
definition ELF_SYMBOL_SIZE :: u64 where [elf]: "ELF_SYMBOL_SIZE = 24"

definition ascii :: "string \<Rightarrow> u8 list" where
  "ascii s = map (\<lambda>ch. of_nat (of_char ch)) s"

record section_header =
  sh_name :: u64
  sh_type :: u64
  sh_offset :: u64
  sh_size :: u64
  sh_link :: u64
  sh_entry_size :: u64

record elf_section =
  se_offset :: u64
  se_size :: u64
  se_entry_size :: u64

record func =
  fn_address :: u64
  fn_size :: u64
  fn_name :: "u8 list"

record module =
  mo_mapping :: "u8 list"
  mo_loaded :: bool
  mo_position_independent :: bool
  mo_symtab :: elf_section
  mo_strtab :: elf_section
  mo_info :: elf_section
  mo_abbrev :: elf_section
  mo_line :: elf_section
  mo_str :: elf_section
  mo_line_str :: elf_section
  mo_str_offsets :: elf_section
  mo_addr :: elf_section
  mo_rnglists :: elf_section
  mo_ranges :: elf_section
  mo_functions :: "func list"
  mo_units :: "cunit list"

definition no_section :: elf_section where
  "no_section = \<lparr>se_offset = 0, se_size = 0, se_entry_size = 0\<rparr>"

definition empty_module :: module where
  "empty_module = \<lparr>mo_mapping = [], mo_loaded = False, mo_position_independent = False, mo_symtab = no_section,
     mo_strtab = no_section, mo_info = no_section, mo_abbrev = no_section, mo_line = no_section, mo_str = no_section,
     mo_line_str = no_section, mo_str_offsets = no_section, mo_addr = no_section, mo_rnglists = no_section,
     mo_ranges = no_section, mo_functions = [], mo_units = []\<rparr>"

definition bytes_cursor :: "u8 list \<Rightarrow> cursor" where
  "bytes_cursor data = \<lparr>cu_data = data, cu_size = of_nat (length data), cu_position = 0\<rparr>"

definition read_section_header :: "u8 list \<Rightarrow> u64 \<Rightarrow> section_header option" where
  "read_section_header data offset = do {
     c \<leftarrow> seek offset (bytes_cursor data);
     (name, c) \<leftarrow> fixed 4 c;
     (typ, c) \<leftarrow> fixed 4 c;
     c \<leftarrow> skip 8 c;
     c \<leftarrow> skip 8 c;
     (off, c) \<leftarrow> fixed 8 c;
     (sz, c) \<leftarrow> fixed 8 c;
     (link, c) \<leftarrow> fixed 4 c;
     c \<leftarrow> skip 4 c;
     c \<leftarrow> skip 8 c;
     (entry_size, c) \<leftarrow> fixed 8 c;
     Some \<lparr>sh_name = name, sh_type = typ, sh_offset = off, sh_size = sz, sh_link = link, sh_entry_size = entry_size\<rparr>
   }"

definition view_of :: "u8 list \<Rightarrow> section_header \<Rightarrow> view" where
  "view_of data s =
     (let sz = of_nat (length data) in
      if sh_size s = 0 \<or> sh_offset s > sz \<or> sh_size s > sz - sh_offset s then empty_view
      else \<lparr>sv_data = drop (unat (sh_offset s)) data, sv_size = sh_size s\<rparr>)"

text \<open>The bytes of a section; a null pointer has none.\<close>

definition section_data :: "module \<Rightarrow> elf_section \<Rightarrow> u8 list" where
  "section_data mo s =
     (let sz = of_nat (length (mo_mapping mo)) in
      if se_size s = 0 \<or> se_offset s > sz \<or> se_size s > sz - se_offset s then []
      else drop (unat (se_offset s)) (mo_mapping mo))"

definition section_view :: "module \<Rightarrow> elf_section \<Rightarrow> view" where
  "section_view mo s = \<lparr>sv_data = section_data mo s, sv_size = se_size s\<rparr>"

definition detail_tables :: "module \<Rightarrow> tables" where
  "detail_tables mo = \<lparr>tb_debug_str = section_view mo (mo_str mo), tb_debug_line_str = section_view mo (mo_line_str mo),
     tb_debug_str_offsets = section_view mo (mo_str_offsets mo), tb_debug_addr = section_view mo (mo_addr mo),
     tb_debug_line = section_view mo (mo_line mo), tb_debug_rnglists = section_view mo (mo_rnglists mo),
     tb_debug_ranges = section_view mo (mo_ranges mo), tb_working_directory = [], tb_str_offsets_base = 0,
     tb_addr_base = 0, tb_address_size = 8, tb_offset_size = 4\<rparr>"

text \<open>The function one symbol names: \<^term>\<open>Some None\<close> is a symbol that is passed over.\<close>

definition read_symbol :: "view \<Rightarrow> view \<Rightarrow> u64 \<Rightarrow> func option option" where
  "read_symbol symbols strings offset = do {
     c \<leftarrow> seek offset (view_cursor symbols);
     (name_offset, c) \<leftarrow> fixed 4 c;
     (info, c) \<leftarrow> fixed 1 c;
     c \<leftarrow> skip 3 c;
     (addr, c) \<leftarrow> fixed 8 c;
     (len, c) \<leftarrow> fixed 8 c;
     Some (if info AND 0xF \<noteq> STT_FUNC \<or> addr = 0 \<or> len = 0 then None
           else let binding = drop_bit 4 info in
             if binding \<noteq> 0 \<and> binding \<noteq> STB_GLOBAL \<and> binding \<noteq> STB_WEAK then None
             else case string_at name_offset strings of
                    None \<Rightarrow> None
                  | Some name \<Rightarrow> if name = [] then None else Some \<lparr>fn_address = addr, fn_size = len, fn_name = name\<rparr>)
   }"

text \<open>The loop over the symbols; false is the return inside it, before the sort.\<close>

fun read_symbols :: "nat \<Rightarrow> u64 \<Rightarrow> u64 \<Rightarrow> view \<Rightarrow> view \<Rightarrow> func list \<Rightarrow> bool \<times> func list" where
  "read_symbols 0 index entry_size symbols strings fs = (True, fs)"
| "read_symbols (Suc n) index entry_size symbols strings fs =
     (case read_symbol symbols strings (index * entry_size) of
        None \<Rightarrow> (False, fs)
      | Some None \<Rightarrow> read_symbols n (index + 1) entry_size symbols strings fs
      | Some (Some f) \<Rightarrow> read_symbols n (index + 1) entry_size symbols strings (fs @ [f]))"

definition read_functions :: "module \<Rightarrow> module" where
  "read_functions mo =
     (let symbols = section_view mo (mo_symtab mo); strings = section_view mo (mo_strtab mo) in
      if sv_data symbols = [] \<or> sv_data strings = [] then mo
      else
        (let entry_size = (if se_entry_size (mo_symtab mo) \<noteq> 0 then se_entry_size (mo_symtab mo) else ELF_SYMBOL_SIZE) in
         if entry_size < ELF_SYMBOL_SIZE then mo
         else
           (let (complete, fs) = read_symbols (unat (se_size (mo_symtab mo) div entry_size)) 0 entry_size symbols strings (mo_functions mo)
            in mo\<lparr>mo_functions := (if complete then sort_key fn_address fs else fs)\<rparr>)))"

definition function_at :: "module \<Rightarrow> u64 \<Rightarrow> u8 list option" where
  "function_at mo link_address =
     (let fs = mo_functions mo;
          found = length (takeWhile (\<lambda>f. \<not> link_address < fn_address f) fs)
      in if fs = [] \<or> found = 0 then None
         else let candidate = fs ! (found - 1) in
           if link_address \<ge> fn_address candidate + fn_size candidate then None else Some (fn_name candidate))"

function read_units :: "view \<Rightarrow> view \<Rightarrow> tables \<Rightarrow> u64 \<Rightarrow> cunit list \<Rightarrow> cunit list" where
  "read_units info abbrev tb offset units =
     (if offset < sv_size info then
        (case do { c \<leftarrow> seek offset (view_cursor info); read_unit abbrev tb c } of
           None \<Rightarrow> units
         | Some (un, next_offset) \<Rightarrow>
             if next_offset \<le> offset then units
             else read_units info abbrev tb next_offset (if un_has_line_program un then units @ [un] else units))
      else units)"
  by pat_completeness auto
termination
  by (relation "measure (\<lambda>(info, abbrev, tb, offset, units). unat (sv_size info) - unat offset)")
    (auto simp: word_less_nat_alt word_le_nat_alt)

declare read_units.simps [simp del]

definition read_compilation_units :: "module \<Rightarrow> module" where
  "read_compilation_units mo =
     (let info = section_view mo (mo_info mo); abbrev = section_view mo (mo_abbrev mo) in
      if sv_data info = [] \<or> sv_data abbrev = [] then mo
      else mo\<lparr>mo_units := read_units info abbrev (detail_tables mo) 0 (mo_units mo)\<rparr>)"

text \<open>The table of wanted sections, in its order: the first whose name fits is set.\<close>

definition set_section :: "u8 list \<Rightarrow> elf_section \<Rightarrow> module \<Rightarrow> module option" where
  "set_section name s mo =
     (if name = ascii ''.symtab'' then Some (mo\<lparr>mo_symtab := s\<rparr>)
      else if name = ascii ''.debug_info'' then Some (mo\<lparr>mo_info := s\<rparr>)
      else if name = ascii ''.debug_abbrev'' then Some (mo\<lparr>mo_abbrev := s\<rparr>)
      else if name = ascii ''.debug_line'' then Some (mo\<lparr>mo_line := s\<rparr>)
      else if name = ascii ''.debug_str'' then Some (mo\<lparr>mo_str := s\<rparr>)
      else if name = ascii ''.debug_line_str'' then Some (mo\<lparr>mo_line_str := s\<rparr>)
      else if name = ascii ''.debug_str_offsets'' then Some (mo\<lparr>mo_str_offsets := s\<rparr>)
      else if name = ascii ''.debug_addr'' then Some (mo\<lparr>mo_addr := s\<rparr>)
      else if name = ascii ''.debug_rnglists'' then Some (mo\<lparr>mo_rnglists := s\<rparr>)
      else if name = ascii ''.debug_ranges'' then Some (mo\<lparr>mo_ranges := s\<rparr>)
      else None)"

definition take_section :: "(u64 \<Rightarrow> section_header option) \<Rightarrow> view \<Rightarrow> section_header \<Rightarrow> module \<Rightarrow> module" where
  "take_section section_at name_table s mo =
     (case string_at (sh_name s) name_table of
        None \<Rightarrow> mo
      | Some name \<Rightarrow>
          (case set_section name \<lparr>se_offset = sh_offset s, se_size = sh_size s, se_entry_size = sh_entry_size s\<rparr> mo of
             None \<Rightarrow> mo
           | Some mo \<Rightarrow>
               if sh_type s = SHT_SYMTAB then
                 (case section_at (sh_link s) of
                    None \<Rightarrow> mo
                  | Some strings \<Rightarrow>
                      if sh_type strings = SHT_STRTAB
                      then mo\<lparr>mo_strtab := (mo_strtab mo)\<lparr>se_offset := sh_offset strings, se_size := sh_size strings\<rparr>\<rparr>
                      else mo)
               else mo))"

fun take_sections :: "nat \<Rightarrow> u64 \<Rightarrow> (u64 \<Rightarrow> section_header option) \<Rightarrow> view \<Rightarrow> module \<Rightarrow> bool \<times> module" where
  "take_sections 0 index section_at name_table mo = (True, mo)"
| "take_sections (Suc n) index section_at name_table mo =
     (case section_at index of
        None \<Rightarrow> (False, mo)
      | Some s \<Rightarrow> take_sections n (index + 1) section_at name_table (take_section section_at name_table s mo))"

text \<open>The ELF header: its type, and the table of sections.\<close>

definition read_elf_header :: "u8 list \<Rightarrow> (u64 \<times> u64 \<times> u64 \<times> u64 \<times> u64) option" where
  "read_elf_header data = do {
     (magic, c) \<leftarrow> fixed 4 (bytes_cursor data);
     (class_byte, c) \<leftarrow> fixed 1 c;
     (data_byte, c) \<leftarrow> fixed 1 c;
     c \<leftarrow> skip 10 c;
     (typ, c) \<leftarrow> fixed 2 c;
     (unused, c) \<leftarrow> fixed 2 c;
     (unused, c) \<leftarrow> fixed 4 c;
     (unused, c) \<leftarrow> fixed 8 c;
     (unused, c) \<leftarrow> fixed 8 c;
     (section_table, c) \<leftarrow> fixed 8 c;
     (unused, c) \<leftarrow> fixed 4 c;
     (unused, c) \<leftarrow> fixed 2 c;
     (unused, c) \<leftarrow> fixed 2 c;
     (unused, c) \<leftarrow> fixed 2 c;
     (section_entry_size, c) \<leftarrow> fixed 2 c;
     (section_count, c) \<leftarrow> fixed 2 c;
     (section_names, c) \<leftarrow> fixed 2 c;
     (if magic \<noteq> ELF_MAGIC \<or> class_byte \<noteq> ELF_CLASS_64 \<or> data_byte \<noteq> ELF_DATA_LSB then None
      else Some (typ, section_table, section_entry_size, section_count, section_names))
   }"

text \<open>False leaves what was read so far in the module.\<close>

definition read_object :: "module \<Rightarrow> bool \<times> module" where
  "read_object mo =
     (let data = mo_mapping mo; sz = of_nat (length data) in
      case read_elf_header data of
        None \<Rightarrow> (False, mo)
      | Some (typ, section_table, section_entry_size, section_count, section_names) \<Rightarrow>
          (let mo = mo\<lparr>mo_position_independent := (typ = ELF_TYPE_DYN)\<rparr> in
           if section_entry_size \<noteq> ELF_SECTION_ENTRY_SIZE \<or> section_count = 0
              \<or> section_count > sz div ELF_SECTION_ENTRY_SIZE \<or> section_table > sz then (False, mo)
           else
             (let section_at = (\<lambda>index. read_section_header data (section_table + index * section_entry_size)) in
              case section_at section_names of
                None \<Rightarrow> (False, mo)
              | Some names \<Rightarrow>
                  if sh_type names \<noteq> SHT_STRTAB then (False, mo)
                  else case take_sections (unat section_count) 0 section_at (view_of data names) mo of
                         (False, mo) \<Rightarrow> (False, mo)
                       | (True, mo) \<Rightarrow>
                           (let mo = read_compilation_units (read_functions mo)
                            in (mo_functions mo \<noteq> [] \<or> mo_units mo \<noteq> [], mo)))))"

text \<open>The constructor, given the bytes of the file, or none when it could not be opened or mapped.\<close>

definition Module :: "u8 list option \<Rightarrow> module" where
  "Module file =
     (case file of
        None \<Rightarrow> empty_module
      | Some data \<Rightarrow>
          if data = [] then empty_module
          else let (loaded, mo) = read_object (empty_module\<lparr>mo_mapping := data\<rparr>) in mo\<lparr>mo_loaded := loaded\<rparr>)"

definition load_bias_to :: "module \<Rightarrow> u64 \<Rightarrow> u64" where
  "load_bias_to mo load_base = (if mo_position_independent mo then load_base else 0)"

fun source_in :: "nat \<Rightarrow> tables \<Rightarrow> cunit list \<Rightarrow> u64 \<Rightarrow> source_position option run" where
  "source_in fuel tb [] link_address = Returned None"
| "source_in fuel tb (un # us) link_address =
     (if \<not> unit_covers tb un link_address then source_in fuel tb us link_address
      else case line_position fuel tb un link_address of
             Running \<Rightarrow> Running
           | Returned None \<Rightarrow> source_in fuel tb us link_address
           | Returned (Some p) \<Rightarrow> Returned (Some p))"

definition source_at :: "nat \<Rightarrow> module \<Rightarrow> u64 \<Rightarrow> source_position option run" where
  "source_at fuel mo link_address =
     (if mo_units mo = [] then Returned None else source_in fuel (detail_tables mo) (mo_units mo) link_address)"

text \<open>The cache of modules, by path; a null and an empty path have no module.\<close>

definition cache_at :: "(u8 list \<Rightarrow> module) \<Rightarrow> u8 list \<Rightarrow> (u8 list \<times> module) list \<Rightarrow> module option \<times> (u8 list \<times> module) list" where
  "cache_at load path entries =
     (if path = [] then (None, entries)
      else case find (\<lambda>e. fst e = path) entries of
             Some e \<Rightarrow> (Some (snd e), entries)
           | None \<Rightarrow> (Some (load path), entries @ [(path, load path)]))"

section \<open>The function table\<close>

lemma read_symbol_fits:
  assumes "unat offset + 24 \<le> unat (sv_size symbols)"
  shows "read_symbol symbols strings offset \<noteq> None"
proof -
  have "\<not> offset > sv_size symbols" using assms by (simp add: word_less_nat_alt)
  then show ?thesis using assms
    by (simp add: read_symbol_def seek_def view_cursor_def fixed_def skip_def) linarith
qed

lemma read_symbols_complete:
  assumes "(unat index + n) * unat entry_size \<le> unat (sv_size symbols)" "24 \<le> unat entry_size"
  shows "fst (read_symbols n index entry_size symbols strings fs)"
  using assms(1)
proof (induction n arbitrary: index fs)
  case (Suc n)
  have e: "(unat index + Suc n) * unat entry_size
      = unat index * unat entry_size + unat entry_size + n * unat entry_size" by (simp add: algebra_simps)
  have lt: "unat (sv_size symbols) < 2 ^ 64" using unat_lt2p [of "sv_size symbols"] by simp
  have "unat (index * entry_size) = unat index * unat entry_size"
    using Suc.prems e lt by (intro unat_mult_lem [THEN iffD1]) simp
  then have "read_symbol symbols strings (index * entry_size) \<noteq> None"
    using Suc.prems e assms(2) by (intro read_symbol_fits) linarith
  moreover have "unat (index + 1) = unat index + 1"
  proof -
    have "unat index + Suc n \<le> (unat index + Suc n) * unat entry_size"
      using mult_le_mono2 [of 1 "unat entry_size" "unat index + Suc n"] assms(2) by simp
    then have "unat index + 1 < 2 ^ 64" using Suc.prems lt by linarith
    then show ?thesis using unat_add_nowrap [of index 1] by simp
  qed
  ultimately show ?case using Suc.IH [of "index + 1"] Suc.prems by (auto split: option.splits)
qed simp

text \<open>A table of functions that do not overlap, each with a size and below the top of the address space.\<close>

definition holds_address :: "u64 \<Rightarrow> func \<Rightarrow> bool" where
  "holds_address a f \<longleftrightarrow> unat (fn_address f) \<le> unat a \<and> unat a < unat (fn_address f) + unat (fn_size f)"

definition functions_apart :: "func list \<Rightarrow> bool" where
  "functions_apart fs \<longleftrightarrow> list_all (\<lambda>f. 0 < fn_size f \<and> unat (fn_address f) + unat (fn_size f) < 2 ^ 64) fs
     \<and> list_all (\<lambda>f. list_all (\<lambda>g. f = g \<or> unat (fn_address f) + unat (fn_size f) \<le> unat (fn_address g)
          \<or> unat (fn_address g) + unat (fn_size g) \<le> unat (fn_address f)) fs) fs"

lemma sorted_prefix:
  assumes "sorted (map fn_address fs)" "g \<in> set fs" "\<not> a < fn_address g"
  shows "g \<in> set (takeWhile (\<lambda>f. \<not> a < fn_address f) fs)"
  using assms
proof (induction fs)
  case (Cons f fs)
  have "\<not> a < fn_address f" using Cons.prems by auto
  then show ?case using Cons by auto
qed simp

lemma sorted_last:
  assumes "sorted (map fn_address fs)" "g \<in> set fs"
  shows "fn_address g \<le> fn_address (last fs)"
  using assms by (induction fs) (auto simp: last_in_set)

lemma candidate:
  assumes "sorted (map fn_address fs)" "functions_apart fs" "g \<in> set fs" "holds_address a g"
  defines "below \<equiv> takeWhile (\<lambda>f. \<not> a < fn_address f) fs"
  shows "below \<noteq> [] \<and> last below = g"
proof -
  have le: "\<not> a < fn_address g" using assms(4) by (simp add: holds_address_def word_less_nat_alt not_less)
  have g: "g \<in> set below" unfolding below_def by (rule sorted_prefix [OF assms(1,3) le])
  let ?l = "last below"
  have l: "?l \<in> set below" using g by (intro last_in_set) auto
  then have l': "?l \<in> set fs" "\<not> a < fn_address ?l" unfolding below_def by (auto dest: set_takeWhileD)
  have "sorted (map fn_address below)"
    unfolding below_def using assms(1) by (metis sorted_append takeWhile_dropWhile_id map_append)
  then have "fn_address g \<le> fn_address ?l" by (rule sorted_last [OF _ g])
  moreover have "0 < unat (fn_size ?l)" using assms(2) l'(1) by (auto simp: functions_apart_def list_all_iff word_less_nat_alt)
  moreover have "?l = g \<or> unat (fn_address ?l) + unat (fn_size ?l) \<le> unat (fn_address g)
      \<or> unat (fn_address g) + unat (fn_size g) \<le> unat (fn_address ?l)"
    using assms(2,3) l'(1) by (simp add: functions_apart_def list_all_iff)
  ultimately have "?l = g"
    using assms(4) l'(2) by (auto simp: holds_address_def word_less_nat_alt word_le_nat_alt)
  then show ?thesis using g by auto
qed

section \<open>Properties\<close>

text \<open>
  The function table is in address order after the symbols of an object are read, whatever the
  object: no symbol of a table that is a whole number of entries runs past its section, so the return
  in the loop that would skip the sort is never taken.
\<close>

lemma read_functions_sorted:
  assumes "mo_functions mo = []"
  shows "sorted (map fn_address (mo_functions (read_functions mo)))"
proof -
  let ?sy = "section_view mo (mo_symtab mo)" and ?st = "section_view mo (mo_strtab mo)"
  let ?es = "if se_entry_size (mo_symtab mo) \<noteq> 0 then se_entry_size (mo_symtab mo) else ELF_SYMBOL_SIZE"
  let ?n = "se_size (mo_symtab mo) div ?es"
  show ?thesis
  proof (cases "sv_data ?sy = [] \<or> sv_data ?st = [] \<or> ?es < ELF_SYMBOL_SIZE")
    case True
    then show ?thesis using assms by (auto simp: read_functions_def Let_def)
  next
    case False
    have "24 \<le> unat ?es" using False by (simp add: elf word_less_nat_alt split: if_splits)
    moreover have "(unat (0 :: u64) + unat ?n) * unat ?es \<le> unat (sv_size ?sy)"
      by (simp add: section_view_def unat_div_distrib)
    ultimately have "fst (read_symbols (unat ?n) 0 ?es ?sy ?st [])" by (intro read_symbols_complete)
    then show ?thesis using False assms by (auto simp: read_functions_def Let_def split: prod.split)
  qed
qed

text \<open>
  C31. In a table of functions in address order that do not overlap, a lookup returns the name of the
  function that contains the address, and nothing exactly when none does.
\<close>

theorem function_at_exact:
  assumes "sorted (map fn_address (mo_functions mo))" "functions_apart (mo_functions mo)"
  shows "function_at mo a = map_option fn_name (find (holds_address a) (mo_functions mo))"
proof -
  let ?fs = "mo_functions mo"
  let ?below = "takeWhile (\<lambda>f. \<not> a < fn_address f) ?fs"
  have cand: "?fs ! (length ?below - 1) = last ?below" if "?below \<noteq> []"
    using that by (simp add: last_conv_nth takeWhile_nth)
  have hit: "(a \<ge> fn_address f + fn_size f) \<longleftrightarrow> \<not> holds_address a f" if "f \<in> set ?below" for f
  proof -
    have f: "f \<in> set ?fs" "\<not> a < fn_address f" using that by (auto dest: set_takeWhileD)
    then have "unat (fn_address f + fn_size f) = unat (fn_address f) + unat (fn_size f)"
      using assms(2) by (intro unat_add_nowrap) (auto simp: functions_apart_def list_all_iff)
    then show ?thesis using f(2) by (auto simp: holds_address_def word_le_nat_alt word_less_nat_alt)
  qed
  show ?thesis
  proof (cases "find (holds_address a) ?fs")
    case (Some g)
    then have "g \<in> set ?fs" "holds_address a g" by (auto simp: find_Some_iff)
    then have "?below \<noteq> []" "last ?below = g" using candidate [OF assms] by auto
    then show ?thesis using Some cand hit [of g] \<open>holds_address a g\<close> last_in_set [of ?below]
      by (auto simp: function_at_def Let_def)
  next
    case None
    have no: "\<not> holds_address a f" if "f \<in> set ?fs" for f using None that by (simp add: find_None_iff)
    have "a \<ge> fn_address (last ?below) + fn_size (last ?below)" if "?below \<noteq> []"
    proof -
      have l: "last ?below \<in> set ?below" using that by (rule last_in_set)
      then have "last ?below \<in> set ?fs" by (blast dest: set_takeWhileD)
      then show ?thesis using hit [OF l] no by blast
    qed
    then show ?thesis using None cand by (auto simp: function_at_def Let_def)
  qed
qed

definition fits :: "module \<Rightarrow> elf_section \<Rightarrow> bool" where
  "fits mo s \<longleftrightarrow> se_size s = 0 \<or> unat (se_offset s) + unat (se_size s) \<le> length (mo_mapping mo)"

text \<open>
  The views the reader works on stay inside the mapped file exactly when every section of the
  object is empty or lies in the file.
\<close>

lemma section_view_inside:
  assumes "length (mo_mapping mo) < 2 ^ 64"
  shows "view_ok (section_view mo s) \<longleftrightarrow> fits mo s"
proof -
  let ?n = "length (mo_mapping mo)"
  have n: "unat (of_nat ?n :: u64) = ?n" using assms by (simp add: unat_of_nat_small)
  show ?thesis
  proof (cases "se_size s = 0 \<or> se_offset s > of_nat ?n")
    case True
    then show ?thesis using n
      by (auto simp: view_ok_def section_view_def section_data_def Let_def fits_def word_less_nat_alt unat_eq_0)
  next
    case False
    then have le: "se_offset s \<le> of_nat ?n" "unat (se_size s) \<noteq> 0" by (auto simp: unat_eq_0)
    then have "unat (of_nat ?n - se_offset s) = ?n - unat (se_offset s)" by (simp add: unat_sub_le n)
    then show ?thesis using False le n
      by (auto simp: view_ok_def section_view_def section_data_def Let_def fits_def word_less_nat_alt word_le_nat_alt)
  qed
qed

section \<open>Witnesses\<close>

definition sample_functions :: "func list" where
  "sample_functions = [\<lparr>fn_address = 0x1000, fn_size = 0x20, fn_name = [102]\<rparr>, \<lparr>fn_address = 0x2000, fn_size = 0x10, fn_name = [103]\<rparr>]"

theorem function_at_exact_witness:
  "function_at (empty_module\<lparr>mo_functions := sample_functions\<rparr>) 0x2005 = Some [103]
   \<and> function_at (empty_module\<lparr>mo_functions := sample_functions\<rparr>) 0x1020 = None"
proof -
  let ?m = "empty_module\<lparr>mo_functions := sample_functions\<rparr>"
  have s: "sorted (map fn_address (mo_functions ?m))" "functions_apart (mo_functions ?m)"
    by (simp_all add: sample_functions_def functions_apart_def)
  show ?thesis
    unfolding function_at_exact [OF s] by (simp add: sample_functions_def holds_address_def)
qed

definition sample_module :: module where
  "sample_module = empty_module\<lparr>
     mo_mapping := [1, 0, 0, 0, 2, 0, 0, 0, 0x20, 0, 0, 0, 0, 0, 0, 0, 8, 0, 0, 0, 0, 0, 0, 0,
                    1, 0, 0, 0, 0x12, 0, 0, 0, 0x10, 0, 0, 0, 0, 0, 0, 0, 8, 0, 0, 0, 0, 0, 0, 0, 0, 102, 0],
     mo_symtab := \<lparr>se_offset = 0, se_size = 48, se_entry_size = 24\<rparr>,
     mo_strtab := \<lparr>se_offset = 48, se_size = 3, se_entry_size = 0\<rparr>\<rparr>"

lemma read_functions_sorted_witness:
  "sorted (map fn_address (mo_functions (read_functions sample_module))) \<and> length (mo_functions (read_functions sample_module)) = 2"
proof -
  have "mo_functions sample_module = []" by (simp add: sample_module_def empty_module_def)
  moreover have "length (mo_functions (read_functions sample_module)) = 2" by code_simp
  ultimately show ?thesis using read_functions_sorted by blast
qed

text \<open>
  A section header that claims bytes beyond the end of the file leaves a view of that size over a null
  pointer, and the bounds check of a cursor lets a read of it through.
\<close>

lemma section_view_inside_witness:
  "\<not> view_ok (section_view (empty_module\<lparr>mo_mapping := [1, 2, 3, 4]\<rparr>) \<lparr>se_offset = 0, se_size = 100, se_entry_size = 0\<rparr>)
   \<and> fixed 4 (view_cursor (section_view (empty_module\<lparr>mo_mapping := [1, 2, 3, 4]\<rparr>) \<lparr>se_offset = 0, se_size = 100, se_entry_size = 0\<rparr>)) \<noteq> None"
proof -
  let ?m = "empty_module\<lparr>mo_mapping := [1, 2, 3, 4]\<rparr>" and ?s = "\<lparr>se_offset = 0, se_size = 100, se_entry_size = 0\<rparr> :: elf_section"
  have "\<not> fits ?m ?s" by (simp add: fits_def)
  moreover have "fixed 4 (view_cursor (section_view ?m ?s)) \<noteq> None" by (simp add: fixed_def view_cursor_def section_view_def)
  ultimately show ?thesis using section_view_inside [of ?m ?s] by simp
qed

end
