(* ===== verification/Soo_Vec.thy ===== *)
theory Soo_Vec
  imports Prelude
begin

text \<open>
  \<^verbatim>\<open>base::SooVec\<close> (\<^verbatim>\<open>include/fpag/base/soo_vec.h\<close>): a vector that keeps up to \<open>N\<close> elements inside itself
  and moves to a heap block beyond, its typed indices (\<^verbatim>\<open>idx.h\<close>, \<^verbatim>\<open>idx_range.h\<close>) and its slices
  (\<^verbatim>\<open>soo_vec_slice.h\<close>).

  Storage is a list of cells, and a cell holds an object or none: constructing needs a cell without an
  object, destroying one with an object, and releasing a block one whose cells are all empty. An operation
  that breaks a rule has no result, so a result means that no object was constructed over another,
  destroyed twice or leaked. The allocator is not part of the repository: \<open>room n\<close> says whether a block of
  \<open>n\<close> elements can be had, and an allocation that fails throws, which is the \<open>False\<close> of \<open>sv_reserve\<close>.
  Moving an element hands its value over and destroys the source.
\<close>

section \<open>Definitions\<close>

subsection \<open>Indices\<close>

definition INVALID_IDX :: u32 where "INVALID_IDX = - 1"

type_synonym 'i idx = "'i word"

definition idx_invalid :: "'i::len idx" where "idx_invalid = ucast INVALID_IDX"

definition idx_is_valid :: "'i::len idx \<Rightarrow> bool" where
  "idx_is_valid i \<longleftrightarrow> unat i \<noteq> unat INVALID_IDX"

definition idx_next :: "'i::len idx \<Rightarrow> 'i idx" where "idx_next i = i + 1"
definition idx_add :: "'i::len idx \<Rightarrow> 'i idx \<Rightarrow> 'i idx" where "idx_add l r = l + r"
definition idx_sub :: "'i::len idx \<Rightarrow> 'i idx \<Rightarrow> 'i idx" where "idx_sub l r = l - r"

record 'w idx_range =
  ir_head :: 'w
  ir_size :: 'w

definition range_begin :: "'i::len word idx_range \<Rightarrow> 'i word" where "range_begin r = ir_head r"
definition range_end :: "'i::len word idx_range \<Rightarrow> 'i word" where "range_end r = ir_head r + ir_size r"
definition range_empty :: "'i::len word idx_range \<Rightarrow> bool" where "range_empty r \<longleftrightarrow> ir_size r = 0"

definition range_at :: "bool \<Rightarrow> 'i::len word idx_range \<Rightarrow> 'i word \<Rightarrow> 'i idx option" where
  "range_at dbg r offset = do {
     fpag_dcheck dbg (offset < ir_size r);
     Some (ir_head r + offset)
   }"

definition range_from_to :: "'i::len idx \<Rightarrow> 'i idx \<Rightarrow> 'i word idx_range" where
  "range_from_to from till = \<lparr>ir_head = from, ir_size = till - from + 1\<rparr>"

fun range_walk :: "nat \<Rightarrow> 'i::len word \<Rightarrow> 'i word \<Rightarrow> 'i idx list option" where
  "range_walk 0 it stop = (if it = stop then Some [] else None)"
| "range_walk (Suc steps) it stop =
     (if it = stop then Some [] else do { rest \<leftarrow> range_walk steps (it + 1) stop; Some (it # rest) })"

subsection \<open>Storage\<close>

type_synonym 'a cells = "'a option list"

record 'a heap =
  hp_blocks :: "nat \<Rightarrow> 'a cells option"
  hp_next :: nat

datatype 'a store = Inline "'a cells" | Dynamic nat

record 'a soo_vec =
  sv_size :: usize
  sv_capacity :: usize
  sv_store :: "'a store"

definition construct_at :: "nat \<Rightarrow> 'a \<Rightarrow> 'a cells \<Rightarrow> 'a cells option" where
  "construct_at i x cs = (if i < length cs \<and> cs ! i = None then Some (cs[i := Some x]) else None)"

definition destroy_at :: "nat \<Rightarrow> 'a cells \<Rightarrow> 'a cells option" where
  "destroy_at i cs = (if i < length cs \<and> cs ! i \<noteq> None then Some (cs[i := None]) else None)"

definition allocate :: "usize \<Rightarrow> 'a heap \<Rightarrow> nat \<times> 'a heap" where
  "allocate n h = (hp_next h,
     h\<lparr>hp_blocks := (hp_blocks h)(hp_next h \<mapsto> replicate (unat n) None), hp_next := hp_next h + 1\<rparr>)"

definition deallocate :: "nat \<Rightarrow> usize \<Rightarrow> 'a heap \<Rightarrow> 'a heap option" where
  "deallocate b n h = (if hp_blocks h b = Some (replicate (unat n) None)
     then Some (h\<lparr>hp_blocks := (hp_blocks h)(b := None)\<rparr>) else None)"

definition is_dynamic :: "usize \<Rightarrow> 'a soo_vec \<Rightarrow> bool" where
  "is_dynamic N v \<longleftrightarrow> sv_capacity v > N"

definition sv_data :: "usize \<Rightarrow> 'a soo_vec \<Rightarrow> 'a heap \<Rightarrow> 'a cells option" where
  "sv_data N v h = (case sv_store v of
     Inline cs \<Rightarrow> (if is_dynamic N v then None else Some cs)
   | Dynamic b \<Rightarrow> (if is_dynamic N v then hp_blocks h b else None))"

definition sv_put :: "'a soo_vec \<Rightarrow> 'a cells \<Rightarrow> 'a heap \<Rightarrow> 'a soo_vec \<times> 'a heap" where
  "sv_put v cs h = (case sv_store v of
     Inline _ \<Rightarrow> (v\<lparr>sv_store := Inline cs\<rparr>, h)
   | Dynamic b \<Rightarrow> (v, h\<lparr>hp_blocks := (hp_blocks h)(b \<mapsto> cs)\<rparr>))"

definition empty_soo :: "usize \<Rightarrow> 'a soo_vec" where
  "empty_soo N = \<lparr>sv_size = 0, sv_capacity = N, sv_store = Inline (replicate (unat N) None)\<rparr>"

subsection \<open>Operations\<close>

fun relocate :: "nat \<Rightarrow> nat \<Rightarrow> 'a cells \<Rightarrow> 'a cells \<Rightarrow> ('a cells \<times> 'a cells) option" where
  "relocate i 0 old new = Some (old, new)"
| "relocate i (Suc k) old new = do {
     x \<leftarrow> (if i < length old then old ! i else None);
     new \<leftarrow> construct_at i x new;
     old \<leftarrow> destroy_at i old;
     relocate (Suc i) k old new
   }"

fun destroy_from :: "nat \<Rightarrow> nat \<Rightarrow> 'a cells \<Rightarrow> 'a cells option" where
  "destroy_from i 0 cs = Some cs"
| "destroy_from i (Suc k) cs = do { cs \<leftarrow> destroy_at i cs; destroy_from (Suc i) k cs }"

definition sv_reserve :: "usize \<Rightarrow> (usize \<Rightarrow> bool) \<Rightarrow> usize \<Rightarrow> 'a soo_vec \<Rightarrow> 'a heap \<Rightarrow> (bool \<times> 'a soo_vec \<times> 'a heap) option" where
  "sv_reserve N room new_capacity v h =
     (if new_capacity \<le> sv_capacity v then Some (True, v, h)
      else if \<not> room new_capacity then Some (False, v, h)
      else do {
        let (b, h) = allocate new_capacity h;
        current \<leftarrow> sv_data N v h;
        new \<leftarrow> hp_blocks h b;
        (current, new) \<leftarrow> relocate 0 (unat (sv_size v)) current new;
        let (v, h) = sv_put v current h;
        let h = h\<lparr>hp_blocks := (hp_blocks h)(b \<mapsto> new)\<rparr>;
        h \<leftarrow> (case sv_store v of
               Dynamic old \<Rightarrow> (if is_dynamic N v then deallocate old (sv_capacity v) h else None)
             | Inline _ \<Rightarrow> (if is_dynamic N v then None else Some h));
        Some (True, v\<lparr>sv_store := Dynamic b, sv_capacity := new_capacity\<rparr>, h)
      })"

definition sv_construct_back :: "usize \<Rightarrow> 'a \<Rightarrow> 'a soo_vec \<Rightarrow> 'a heap \<Rightarrow> ('a soo_vec \<times> 'a heap) option" where
  "sv_construct_back N x v h = do {
     cs \<leftarrow> sv_data N v h;
     cs \<leftarrow> construct_at (unat (sv_size v)) x cs;
     Some (sv_put v cs h)
   }"

definition sv_emplace_back ::
  "usize \<Rightarrow> (usize \<Rightarrow> bool) \<Rightarrow> 'a \<Rightarrow> 'a soo_vec \<Rightarrow> 'a heap \<Rightarrow> ('i::len idx option \<times> 'a soo_vec \<times> 'a heap) option" where
  "sv_emplace_back N room x v h = do {
     (ok, v, h) \<leftarrow> (if sv_size v = sv_capacity v
                    then sv_reserve N room (if sv_capacity v = 0 then 1 else sv_capacity v * 2) v h
                    else Some (True, v, h));
     (if \<not> ok then Some (None, v, h)
      else do {
        (v, h) \<leftarrow> sv_construct_back N x v h;
        let new_idx = sv_size v;
        Some (Some (ucast new_idx), v\<lparr>sv_size := sv_size v + 1\<rparr>, h)
      })
   }"

definition sv_pop_back :: "bool \<Rightarrow> usize \<Rightarrow> 'a soo_vec \<Rightarrow> 'a heap \<Rightarrow> ('a soo_vec \<times> 'a heap) option" where
  "sv_pop_back dbg N v h = do {
     fpag_dcheck dbg (sv_size v > 0);
     let v = v\<lparr>sv_size := sv_size v - 1\<rparr>;
     cs \<leftarrow> sv_data N v h;
     cs \<leftarrow> destroy_at (unat (sv_size v)) cs;
     Some (sv_put v cs h)
   }"

definition sv_clear :: "usize \<Rightarrow> 'a soo_vec \<Rightarrow> 'a heap \<Rightarrow> ('a soo_vec \<times> 'a heap) option" where
  "sv_clear N v h = do {
     cs \<leftarrow> sv_data N v h;
     cs \<leftarrow> destroy_from 0 (unat (sv_size v)) cs;
     let (v, h) = sv_put v cs h;
     (v, h) \<leftarrow> (case sv_store v of
            Dynamic b \<Rightarrow> (if is_dynamic N v then do {
                            h \<leftarrow> deallocate b (sv_capacity v) h;
                            Some (v\<lparr>sv_store := Inline (replicate (unat N) None)\<rparr>, h)
                          } else None)
          | Inline _ \<Rightarrow> (if is_dynamic N v then None else Some (v, h)));
     Some (v\<lparr>sv_size := 0, sv_capacity := N\<rparr>, h)
   }"

definition sv_move_from :: "usize \<Rightarrow> 'a soo_vec \<Rightarrow> 'a soo_vec \<Rightarrow> ('a soo_vec \<times> 'a soo_vec) option" where
  "sv_move_from N self other = do {
     let self = self\<lparr>sv_size := sv_size other, sv_capacity := sv_capacity other\<rparr>;
     (self, other) \<leftarrow>
       (case sv_store other of
          Dynamic b \<Rightarrow>
            (if is_dynamic N other
             then Some (self\<lparr>sv_store := Dynamic b\<rparr>, other\<lparr>sv_store := Inline (replicate (unat N) None)\<rparr>)
             else None)
        | Inline theirs \<Rightarrow>
            (if is_dynamic N other then None
             else case sv_store self of
               Dynamic _ \<Rightarrow> None
             | Inline mine \<Rightarrow> do {
                 (theirs, mine) \<leftarrow> relocate 0 (unat (sv_size self)) theirs mine;
                 Some (self\<lparr>sv_store := Inline mine\<rparr>, other\<lparr>sv_store := Inline theirs\<rparr>)
               }));
     Some (self, other\<lparr>sv_size := 0, sv_capacity := N\<rparr>)
   }"

definition sv_move_assign :: "usize \<Rightarrow> 'a soo_vec \<Rightarrow> 'a soo_vec \<Rightarrow> 'a heap \<Rightarrow> ('a soo_vec \<times> 'a soo_vec \<times> 'a heap) option" where
  "sv_move_assign N self other h = do {
     (self, h) \<leftarrow> sv_clear N self h;
     (self, other) \<leftarrow> sv_move_from N self other;
     Some (self, other, h)
   }"

definition sv_at :: "bool \<Rightarrow> usize \<Rightarrow> usize \<Rightarrow> 'a soo_vec \<Rightarrow> 'a heap \<Rightarrow> 'a option" where
  "sv_at dbg N offset v h = do {
     fpag_dcheck dbg (offset < sv_size v);
     cs \<leftarrow> sv_data N v h;
     (if unat offset < length cs then cs ! unat offset else None)
   }"

definition sv_at_idx :: "bool \<Rightarrow> usize \<Rightarrow> 'i::len idx \<Rightarrow> 'a soo_vec \<Rightarrow> 'a heap \<Rightarrow> 'a option" where
  "sv_at_idx dbg N i v h = sv_at dbg N (ucast i) v h"

definition sv_front :: "bool \<Rightarrow> usize \<Rightarrow> 'a soo_vec \<Rightarrow> 'a heap \<Rightarrow> 'a option" where
  "sv_front dbg N v h = do {
     fpag_dcheck dbg (sv_size v \<noteq> 0);
     cs \<leftarrow> sv_data N v h;
     (if 0 < length cs then cs ! 0 else None)
   }"

definition sv_back :: "bool \<Rightarrow> usize \<Rightarrow> 'a soo_vec \<Rightarrow> 'a heap \<Rightarrow> 'a option" where
  "sv_back dbg N v h = do {
     fpag_dcheck dbg (sv_size v \<noteq> 0);
     cs \<leftarrow> sv_data N v h;
     (if unat (sv_size v - 1) < length cs then cs ! unat (sv_size v - 1) else None)
   }"

definition sv_idx_range :: "'a soo_vec \<Rightarrow> 'i::len word idx_range" where
  "sv_idx_range v = \<lparr>ir_head = 0, ir_size = ucast (sv_size v)\<rparr>"

text \<open>
  The loop the copy constructor and the copy assignment share. It reads through a typed index, so the
  position is cut to the width \<open>'i\<close> of the index; \<open>TYPE('i)\<close> is that width.
\<close>

fun sv_copy_from ::
  "'i::len itself \<Rightarrow> bool \<Rightarrow> usize \<Rightarrow> (usize \<Rightarrow> bool) \<Rightarrow> nat \<Rightarrow> usize \<Rightarrow> 'a soo_vec \<Rightarrow> 'a soo_vec \<Rightarrow> 'a heap
    \<Rightarrow> (bool \<times> 'a soo_vec \<times> 'a heap) option" where
  "sv_copy_from W dbg N room 0 i other v h = Some (True, v, h)"
| "sv_copy_from W dbg N room (Suc k) i other v h = do {
     x \<leftarrow> sv_at_idx dbg N (ucast i :: 'i idx) other h;
     (r, v, h) \<leftarrow> (sv_emplace_back N room x v h :: ('i idx option \<times> 'a soo_vec \<times> 'a heap) option);
     (if r = None then Some (False, v, h) else sv_copy_from W dbg N room k (i + 1) other v h)
   }"

definition sv_copy ::
  "'i::len itself \<Rightarrow> bool \<Rightarrow> usize \<Rightarrow> (usize \<Rightarrow> bool) \<Rightarrow> 'a soo_vec \<Rightarrow> 'a heap \<Rightarrow> (bool \<times> 'a soo_vec \<times> 'a heap) option" where
  "sv_copy W dbg N room other h = do {
     (ok, v, h) \<leftarrow> sv_reserve N room (sv_size other) (empty_soo N) h;
     (if \<not> ok then Some (False, v, h) else sv_copy_from W dbg N room (unat (sv_size other)) 0 other v h)
   }"

definition sv_copy_assign ::
  "'i::len itself \<Rightarrow> bool \<Rightarrow> usize \<Rightarrow> (usize \<Rightarrow> bool) \<Rightarrow> 'a soo_vec \<Rightarrow> 'a soo_vec \<Rightarrow> 'a heap \<Rightarrow> (bool \<times> 'a soo_vec \<times> 'a heap) option" where
  "sv_copy_assign W dbg N room self other h = do {
     (self, h) \<leftarrow> sv_clear N self h;
     (ok, v, h) \<leftarrow> sv_reserve N room (sv_size other) self h;
     (if \<not> ok then Some (False, v, h) else sv_copy_from W dbg N room (unat (sv_size other)) 0 other v h)
   }"

fun sv_init_list :: "usize \<Rightarrow> (usize \<Rightarrow> bool) \<Rightarrow> 'a list \<Rightarrow> 'a soo_vec \<Rightarrow> 'a heap \<Rightarrow> (bool \<times> 'a soo_vec \<times> 'a heap) option" where
  "sv_init_list N room [] v h = Some (True, v, h)"
| "sv_init_list N room (x # xs) v h = do {
     (r, v, h) \<leftarrow> (sv_emplace_back N room x v h :: (32 idx option \<times> 'a soo_vec \<times> 'a heap) option);
     (if r = None then Some (False, v, h) else sv_init_list N room xs v h)
   }"

definition sv_of_list :: "usize \<Rightarrow> (usize \<Rightarrow> bool) \<Rightarrow> 'a list \<Rightarrow> 'a heap \<Rightarrow> (bool \<times> 'a soo_vec \<times> 'a heap) option" where
  "sv_of_list N room xs h = do {
     (ok, v, h) \<leftarrow> sv_reserve N room (of_nat (length xs)) (empty_soo N) h;
     (if \<not> ok then Some (False, v, h) else sv_init_list N room xs v h)
   }"


section \<open>Representation\<close>

text \<open>
  \<open>soo_rep N xs v h\<close>: the vector holds exactly the elements \<open>xs\<close>, at the front of its cells. \<open>others v h\<close>
  is the heap as the rest of the program sees it: all blocks but the one this vector owns.
\<close>

definition heap_ok :: "'a heap \<Rightarrow> bool" where
  "heap_ok h \<longleftrightarrow> (\<forall>b \<ge> hp_next h. hp_blocks h b = None)"

definition filled :: "'a list \<Rightarrow> nat \<Rightarrow> 'a cells" where
  "filled xs n = map Some xs @ replicate (n - length xs) None"

definition soo_rep :: "usize \<Rightarrow> 'a list \<Rightarrow> 'a soo_vec \<Rightarrow> 'a heap \<Rightarrow> bool" where
  "soo_rep N xs v h \<longleftrightarrow> heap_ok h \<and> sv_data N v h = Some (filled xs (unat (sv_capacity v)))
     \<and> unat (sv_size v) = length xs \<and> length xs \<le> unat (sv_capacity v)
     \<and> N \<le> sv_capacity v \<and> unat (sv_capacity v) < 2 ^ 63"

definition others :: "'a soo_vec \<Rightarrow> 'a heap \<Rightarrow> nat \<Rightarrow> 'a cells option" where
  "others v h = (case sv_store v of Inline _ \<Rightarrow> hp_blocks h | Dynamic b \<Rightarrow> (hp_blocks h)(b := None))"

lemma length_filled [simp]: "length xs \<le> n \<Longrightarrow> length (filled xs n) = n"
  by (simp add: filled_def)

lemma filled_Nil [simp]: "filled [] n = replicate n None"
  by (simp add: filled_def)

lemma filled_nth: "i < n \<Longrightarrow> length xs \<le> n \<Longrightarrow> filled xs n ! i = (if i < length xs then Some (xs ! i) else None)"
  by (simp add: filled_def nth_append)

lemma filled_snoc: "length xs < n \<Longrightarrow> (filled xs n)[length xs := Some x] = filled (xs @ [x]) n"
  by (rule nth_equalityI) (simp_all add: filled_nth nth_list_update nth_append less_Suc_eq)

lemma filled_butlast:
  "xs \<noteq> [] \<Longrightarrow> length xs \<le> n \<Longrightarrow> (filled xs n)[length xs - 1 := None] = filled (butlast xs) n"
  by (rule nth_equalityI) (auto simp: filled_nth nth_list_update nth_butlast)

lemma construct_filled: "length xs < n \<Longrightarrow> construct_at (length xs) x (filled xs n) = Some (filled (xs @ [x]) n)"
  by (simp add: construct_at_def filled_nth filled_snoc)

lemma destroy_filled:
  "xs \<noteq> [] \<Longrightarrow> length xs \<le> n \<Longrightarrow> destroy_at (length xs - 1) (filled xs n) = Some (filled (butlast xs) n)"
  using filled_butlast[of xs n] by (cases xs rule: rev_cases) (auto simp: destroy_at_def filled_nth)

lemma relocate_run:
  "relocate (length pre) (length xs) (replicate (length pre) None @ map Some xs @ old)
     (map Some pre @ replicate (length xs) None @ new)
   = Some (replicate (length pre + length xs) None @ old, map Some (pre @ xs) @ new)"
proof (induction xs arbitrary: pre)
  case (Cons x xs)
  have "relocate (length (pre @ [x])) (length xs) (replicate (length (pre @ [x])) None @ map Some xs @ old)
     (map Some (pre @ [x]) @ replicate (length xs) None @ new)
     = Some (replicate (length (pre @ [x]) + length xs) None @ old, map Some ((pre @ [x]) @ xs) @ new)"
    by (rule Cons.IH)
  then show ?case
    by (simp add: construct_at_def destroy_at_def nth_append list_update_append replicate_app_Cons_same)
qed simp

lemma relocate_filled:
  assumes "length xs \<le> m" "length xs \<le> n"
  shows "relocate 0 (length xs) (filled xs m) (replicate n None) = Some (replicate m None, filled xs n)"
proof -
  have "replicate n None = replicate (length xs) None @ replicate (n - length xs) None"
    and "replicate m None = replicate (length xs) None @ replicate (m - length xs) None"
    using assms by (simp_all flip: replicate_add)
  then show ?thesis
    using relocate_run[of "[]" xs "replicate (m - length xs) None" "replicate (n - length xs) None"]
    unfolding filled_def by (metis append_Nil list.map(1) list.size(3) replicate_0 add_0)
qed

lemma destroy_from_run:
  "destroy_from k (length xs) (replicate k None @ map Some xs @ rest)
     = Some (replicate (k + length xs) None @ rest)"
proof (induction xs arbitrary: k)
  case (Cons x xs)
  then show ?case
    using Cons[of "Suc k"]
    by (simp add: destroy_at_def nth_append list_update_append replicate_app_Cons_same)
qed simp

lemma destroy_from_filled:
  assumes "length xs \<le> n"
  shows "destroy_from 0 (length xs) (filled xs n) = Some (replicate n None)"
  using destroy_from_run[of 0 xs "replicate (n - length xs) None"] assms
  by (simp add: filled_def flip: replicate_add)


section \<open>What the operations do\<close>

lemma soo_rep_inline:
  assumes "soo_rep N xs v h" "sv_store v = Inline cs"
  shows "sv_capacity v = N" "cs = filled xs (unat N)"
  using assms by (auto simp: soo_rep_def sv_data_def is_dynamic_def split: if_splits)

lemma soo_rep_dynamic:
  assumes "soo_rep N xs v h" "sv_store v = Dynamic b"
  shows "sv_capacity v > N" "hp_blocks h b = Some (filled xs (unat (sv_capacity v)))" "b < hp_next h"
  using assms by (auto simp: soo_rep_def sv_data_def is_dynamic_def heap_ok_def not_less split: if_splits)
    (metis not_le option.distinct(1))

lemma empty_soo_rep: "heap_ok h \<Longrightarrow> unat N < 2 ^ 63 \<Longrightarrow> soo_rep N [] (empty_soo N) h"
  by (simp add: soo_rep_def empty_soo_def sv_data_def is_dynamic_def)

lemma reserve_grows:
  assumes rep: "soo_rep N xs v h" and grow: "\<not> c \<le> sv_capacity v" and bound: "unat c < 2 ^ 63" and "room c"
  shows "\<exists>v' h'. sv_reserve N room c v h = Some (True, v', h') \<and> soo_rep N xs v' h'
    \<and> others v' h' = others v h \<and> sv_capacity v' = c"
proof -
  have lens: "length xs \<le> unat (sv_capacity v)" "length xs \<le> unat c" "unat (sv_size v) = length xs"
    and ok: "heap_ok h" and fresh: "hp_blocks h (hp_next h) = None"
    using rep grow by (auto simp: soo_rep_def heap_ok_def word_le_nat_alt)
  note moves = relocate_filled[OF lens(1,2)]
  have "N < c" using rep grow by (auto simp: soo_rep_def)
  show ?thesis
  proof (cases "sv_store v")
    case (Inline cs)
    note inl = soo_rep_inline[OF rep Inline]
    show ?thesis
      using Inline inl moves lens ok fresh grow bound \<open>room c\<close> \<open>N < c\<close>
      by (simp add: sv_reserve_def allocate_def sv_data_def is_dynamic_def sv_put_def soo_rep_def others_def
          heap_ok_def fun_upd_idem)
  next
    case (Dynamic b)
    note dyn = soo_rep_dynamic[OF rep Dynamic]
    show ?thesis
      using Dynamic dyn moves lens ok fresh grow bound \<open>room c\<close> \<open>N < c\<close>
      by (auto simp: sv_reserve_def allocate_def sv_data_def is_dynamic_def sv_put_def soo_rep_def others_def
          heap_ok_def deallocate_def fun_eq_iff)
  qed
qed

lemma soo_reserve_spec:
  assumes "soo_rep N xs v h" "room c \<Longrightarrow> unat c < 2 ^ 63"
  obtains ok v' h' where "sv_reserve N room c v h = Some (ok, v', h')" "soo_rep N xs v' h'"
    "others v' h' = others v h" "ok \<longleftrightarrow> c \<le> sv_capacity v \<or> room c" "ok \<Longrightarrow> c \<le> sv_capacity v'"
    "sv_capacity v \<le> sv_capacity v'"
proof (cases "\<not> c \<le> sv_capacity v \<and> room c")
  case True
  then show ?thesis using reserve_grows[of N xs v h c room] assms that by fastforce
next
  case False
  then show ?thesis using assms that[of True v h] that[of False v h]
    by (cases "c \<le> sv_capacity v") (simp_all add: sv_reserve_def)
qed

lemma construct_back_spec:
  assumes rep: "soo_rep N xs v h" and "unat (sv_size v) < unat (sv_capacity v)"
  obtains v' h' where "sv_construct_back N x v h = Some (v', h')" "sv_size v' = sv_size v" "sv_capacity v' = sv_capacity v"
    "soo_rep N (xs @ [x]) (v'\<lparr>sv_size := sv_size v + 1\<rparr>) h'" "others (v'\<lparr>sv_size := sv_size v + 1\<rparr>) h' = others v h"
proof -
  have lens: "length xs < unat (sv_capacity v)" "unat (sv_size v) = length xs" and ok: "heap_ok h"
    and data: "sv_data N v h = Some (filled xs (unat (sv_capacity v)))"
    using assms by (auto simp: soo_rep_def)
  have size: "unat (sv_size v + 1) = Suc (length xs)"
    using lens unat_lt2p[of "sv_capacity v"] by (subst unat_add_nowrap) auto
  note more = construct_filled[OF lens(1), of x] size lens ok data
  show ?thesis
  proof (cases "sv_store v")
    case (Inline cs)
    with more soo_rep_inline[OF rep Inline] show ?thesis
      by (intro that[of "v\<lparr>sv_store := Inline (filled (xs @ [x]) (unat N))\<rparr>" h])
        (use rep in \<open>auto simp: sv_construct_back_def sv_put_def soo_rep_def sv_data_def is_dynamic_def others_def\<close>)
  next
    case (Dynamic b)
    with more soo_rep_dynamic[OF rep Dynamic] show ?thesis
      by (intro that[of v "h\<lparr>hp_blocks := (hp_blocks h)(b \<mapsto> filled (xs @ [x]) (unat (sv_capacity v)))\<rparr>"])
        (use rep in \<open>auto simp: sv_construct_back_def sv_put_def soo_rep_def sv_data_def is_dynamic_def others_def
          heap_ok_def fun_eq_iff\<close>)
  qed
qed


definition grown :: "'a soo_vec \<Rightarrow> usize" where
  "grown v = (if sv_capacity v = 0 then 1 else sv_capacity v * 2)"

lemma grown_larger:
  assumes "soo_rep N xs v h"
  shows "sv_capacity v < grown v"
proof (cases "sv_capacity v = 0")
  case False
  then have "0 < unat (sv_capacity v)" by (simp add: unat_gt_0)
  moreover have "unat (sv_capacity v * 2) = unat (sv_capacity v) * 2"
    using assms by (simp add: soo_rep_def unat_word_ariths)
  ultimately show ?thesis using False by (simp add: grown_def word_less_nat_alt)
qed (simp add: grown_def)

lemma soo_emplace_spec:
  assumes rep: "soo_rep N xs v h" and bound: "\<And>c. room c \<Longrightarrow> unat c < 2 ^ 63"
  obtains (room) v' h' where "sv_emplace_back N room x v h = Some (Some (of_nat (length xs) :: 'i::len idx), v', h')"
      "soo_rep N (xs @ [x]) v' h'" "others v' h' = others v h"
      "sv_size v \<noteq> sv_capacity v \<Longrightarrow> sv_capacity v' = sv_capacity v"
    | (full) "sv_emplace_back N room x v h = Some (None :: 'i idx option, v, h)"
      "sv_size v = sv_capacity v" "\<not> room (grown v)"
proof -
  have idx: "ucast (sv_size w) = (of_nat (length xs) :: 'i idx)" if "soo_rep N xs w k" for w :: "'a soo_vec" and k
    using that of_nat_unat[of "sv_size w"] by (metis soo_rep_def)
  show ?thesis
  proof (cases "sv_size v = sv_capacity v")
    case True
    show ?thesis
    proof (cases "room (grown v)")
      case True
      obtain v1 h1 where res: "sv_reserve N room (grown v) v h = Some (True, v1, h1)" "soo_rep N xs v1 h1"
        "others v1 h1 = others v h" "sv_capacity v1 = grown v"
        using reserve_grows[OF rep _ bound[OF True], of room] True grown_larger[OF rep] by (auto simp: not_le)
      have "unat (sv_size v1) < unat (sv_capacity v1)"
        using res \<open>sv_size v = sv_capacity v\<close> rep grown_larger[OF rep] by (auto simp: soo_rep_def word_less_nat_alt)
      from construct_back_spec[OF res(2) this, of x] obtain v2 h2 where
        "sv_construct_back N x v1 h1 = Some (v2, h2)" "sv_size v2 = sv_size v1" "sv_capacity v2 = sv_capacity v1"
        "soo_rep N (xs @ [x]) (v2\<lparr>sv_size := sv_size v1 + 1\<rparr>) h2"
        "others (v2\<lparr>sv_size := sv_size v1 + 1\<rparr>) h2 = others v1 h1" .
      with res idx[OF res(2)] \<open>sv_size v = sv_capacity v\<close> show ?thesis
        by (intro room[of "v2\<lparr>sv_size := sv_size v1 + 1\<rparr>" h2]) (simp_all add: sv_emplace_back_def grown_def)
    next
      case False
      with \<open>sv_size v = sv_capacity v\<close> grown_larger[OF rep] show ?thesis
        by (intro full) (auto simp: sv_emplace_back_def grown_def sv_reserve_def not_le split: if_splits)
    qed
  next
    case False
    then have "unat (sv_size v) < unat (sv_capacity v)"
      using rep unsigned_word_eqI[of "sv_size v" "sv_capacity v"] by (auto simp: soo_rep_def le_less)
    from construct_back_spec[OF rep this, of x] obtain v2 h2 where
      "sv_construct_back N x v h = Some (v2, h2)" "sv_size v2 = sv_size v" "sv_capacity v2 = sv_capacity v"
      "soo_rep N (xs @ [x]) (v2\<lparr>sv_size := sv_size v + 1\<rparr>) h2"
      "others (v2\<lparr>sv_size := sv_size v + 1\<rparr>) h2 = others v h" .
    with False idx[OF rep] show ?thesis by (intro room[of "v2\<lparr>sv_size := sv_size v + 1\<rparr>" h2]) (simp_all add: sv_emplace_back_def)
  qed
qed

lemma soo_pop_spec:
  assumes rep: "soo_rep N xs v h" and "xs \<noteq> []"
  obtains v' h' where "sv_pop_back dbg N v h = Some (v', h')" "soo_rep N (butlast xs) v' h'" "others v' h' = others v h"
proof -
  have lens: "length xs \<le> unat (sv_capacity v)" "unat (sv_size v) = length xs" and pos: "0 < sv_size v"
    using assms by (auto simp: soo_rep_def word_less_nat_alt)
  have size: "unat (sv_size v - 1) = length xs - 1"
    using lens assms(2) by (subst unat_sub_le) (auto simp: word_le_nat_alt Suc_le_eq)
  note less = destroy_filled[OF assms(2) lens(1)] size lens pos
  show ?thesis
  proof (cases "sv_store v")
    case (Inline cs)
    with less soo_rep_inline[OF rep Inline] show ?thesis
      by (intro that[of "v\<lparr>sv_size := sv_size v - 1, sv_store := Inline (filled (butlast xs) (unat N))\<rparr>" h])
        (use rep in \<open>auto simp: sv_pop_back_def sv_put_def soo_rep_def sv_data_def is_dynamic_def others_def\<close>)
  next
    case (Dynamic b)
    with less soo_rep_dynamic[OF rep Dynamic] show ?thesis
      by (intro that[of "v\<lparr>sv_size := sv_size v - 1\<rparr>"
            "h\<lparr>hp_blocks := (hp_blocks h)(b \<mapsto> filled (butlast xs) (unat (sv_capacity v)))\<rparr>"])
        (use rep in \<open>auto simp: sv_pop_back_def sv_put_def soo_rep_def sv_data_def is_dynamic_def others_def
          heap_ok_def fun_eq_iff\<close>)
  qed
qed

lemma soo_clear_spec:
  assumes rep: "soo_rep N xs v h"
  obtains h' where "sv_clear N v h = Some (empty_soo N, h')" "heap_ok h'" "hp_blocks h' = others v h"
proof -
  have lens: "length xs \<le> unat (sv_capacity v)" "unat (sv_size v) = length xs" "heap_ok h"
    using assms by (auto simp: soo_rep_def)
  note gone = destroy_from_filled[OF lens(1)] lens
  show ?thesis
  proof (cases "sv_store v")
    case (Inline cs)
    with gone soo_rep_inline[OF rep Inline] show ?thesis
      by (intro that[of h]) (auto simp: sv_clear_def sv_put_def sv_data_def is_dynamic_def others_def empty_soo_def)
  next
    case (Dynamic b)
    with gone soo_rep_dynamic[OF rep Dynamic] show ?thesis
      by (intro that[of "h\<lparr>hp_blocks := (hp_blocks h)(b := None)\<rparr>"])
        (auto simp: sv_clear_def sv_put_def sv_data_def is_dynamic_def others_def empty_soo_def deallocate_def heap_ok_def)
  qed
qed

lemma sv_at_spec:
  assumes "soo_rep N xs v h" "unat i < length xs"
  shows "sv_at dbg N i v h = Some (xs ! unat i)"
  using assms by (simp add: sv_at_def soo_rep_def filled_nth word_less_nat_alt)

lemma sv_front_spec:
  assumes "soo_rep N xs v h" "xs \<noteq> []"
  shows "sv_front dbg N v h = Some (hd xs)"
proof -
  have "sv_size v \<noteq> 0" using assms by (auto simp: soo_rep_def)
  with assms show ?thesis by (cases xs) (auto simp: sv_front_def soo_rep_def filled_def)
qed

lemma sv_back_spec:
  assumes "soo_rep N xs v h" "xs \<noteq> []"
  shows "sv_back dbg N v h = Some (last xs)"
proof -
  have "sv_size v \<noteq> 0" "unat (sv_size v) = length xs" "length xs \<le> unat (sv_capacity v)"
    "length xs - Suc 0 < unat (sv_capacity v)"
    using assms by (auto simp: soo_rep_def Suc_le_eq intro: Suc_le_lessD)
  moreover from this have "unat (sv_size v - 1) = length xs - 1"
    using assms(2) by (subst unat_sub_le) (auto simp: word_le_nat_alt Suc_le_eq)
  ultimately show ?thesis using assms by (simp add: sv_back_def soo_rep_def filled_nth last_conv_nth)
qed


lemma move_from_spec:
  assumes rep: "soo_rep N xs other h"
  shows "sv_move_from N (empty_soo N) other = Some (other, empty_soo N)"
proof (cases "sv_store other")
  case (Inline cs)
  note inl = soo_rep_inline[OF rep Inline]
  have lens: "length xs \<le> unat N" "unat (sv_size other) = length xs"
    using rep inl by (auto simp: soo_rep_def)
  show ?thesis
    using Inline inl lens relocate_filled[OF lens(1,1)]
    by (simp add: sv_move_from_def empty_soo_def is_dynamic_def)
next
  case (Dynamic b)
  then show ?thesis using soo_rep_dynamic[OF rep Dynamic]
    by (simp add: sv_move_from_def empty_soo_def is_dynamic_def)
qed

subsection \<open>Two vectors on one heap\<close>

definition soo_apart :: "'a soo_vec \<Rightarrow> 'a soo_vec \<Rightarrow> bool" where
  "soo_apart u v \<longleftrightarrow> (case sv_store u of Inline _ \<Rightarrow> True | Dynamic b \<Rightarrow> sv_store v \<noteq> Dynamic b)"

lemma others_apart: "soo_apart u v \<Longrightarrow> sv_store u = Dynamic b \<Longrightarrow> others v h b = hp_blocks h b"
  by (simp add: soo_apart_def others_def split: store.splits)

lemma others_Some: "others v h b = Some cs \<Longrightarrow> sv_store v \<noteq> Dynamic b \<and> hp_blocks h b = Some cs"
  by (auto simp: others_def split: store.splits if_splits)

lemma soo_apart_keeps:
  assumes rep: "soo_rep N ys u h" and ap: "soo_apart u v" and oth: "others v' h' = others v h" and ok: "heap_ok h'"
  shows "soo_rep N ys u h' \<and> soo_apart u v'"
proof (cases "sv_store u")
  case (Inline cs)
  with rep ok show ?thesis by (auto simp: soo_rep_def soo_apart_def sv_data_def)
next
  case (Dynamic b)
  have "others v' h' b = Some (filled ys (unat (sv_capacity u)))"
    using soo_rep_dynamic[OF rep Dynamic] others_apart[OF ap Dynamic] oth by simp
  from others_Some[OF this] rep ok Dynamic show ?thesis
    by (auto simp: soo_rep_def soo_apart_def sv_data_def split: if_splits)
qed

lemma copy_from_spec:
  fixes W :: "'i::len itself"
  assumes bound: "\<And>c. room c \<Longrightarrow> unat c < 2 ^ 63"
    and "soo_rep N ys u h" "soo_rep N zs v h" "soo_apart u v"
    and "unat i + k = length ys" "length zs + k \<le> unat (sv_capacity v)"
  shows "\<exists>v' h'. sv_copy_from W dbg N room k i u v h = Some (True, v', h') \<and> soo_rep N ys u h' \<and> soo_apart u v'
    \<and> soo_rep N (zs @ map (\<lambda>j. ys ! (j mod 2 ^ LENGTH('i))) [unat i..<length ys]) v' h' \<and> others v' h' = others v h"
  using assms(2-)
proof (induction k arbitrary: i zs v h)
  case (Suc k)
  have small: "unat i < length ys" and len: "length ys < 2 ^ 63"
    using Suc.prems by (auto simp: soo_rep_def)
  have next_i: "unat (i + 1) = Suc (unat i)" using small len by (subst unat_add_nowrap) auto
  have cut: "unat (ucast (ucast i :: 'i idx) :: usize) = unat i mod 2 ^ LENGTH('i)"
    by (simp add: unsigned_ucast_eq take_bit_eq_mask flip: unat_and_mask)
  then have "unat (ucast (ucast i :: 'i idx) :: usize) < length ys"
    using small by (metis le_less_trans mod_less_eq_dividend)
  from sv_at_spec[OF Suc.prems(1) this]
  have at: "sv_at_idx dbg N (ucast i :: 'i idx) u h = Some (ys ! (unat i mod 2 ^ LENGTH('i)))"
    by (simp add: sv_at_idx_def cut)
  have free: "sv_size v \<noteq> sv_capacity v" using Suc.prems(2,5) by (auto simp: soo_rep_def)
  show ?case
  proof (rule soo_emplace_spec[where 'i = 'i, OF Suc.prems(2) bound, of room "ys ! (unat i mod 2 ^ LENGTH('i))"])
    fix v' h'
    assume push: "sv_emplace_back N room (ys ! (unat i mod 2 ^ LENGTH('i))) v h
        = Some (Some (of_nat (length zs) :: 'i idx), v', h')"
      and rep: "soo_rep N (zs @ [ys ! (unat i mod 2 ^ LENGTH('i))]) v' h'" and oth: "others v' h' = others v h"
      and cap: "sv_size v \<noteq> sv_capacity v \<Longrightarrow> sv_capacity v' = sv_capacity v"
    have "soo_rep N ys u h' \<and> soo_apart u v'"
      using soo_apart_keeps[OF Suc.prems(1,3) oth] rep by (simp add: soo_rep_def)
    with Suc.IH[OF _ rep, of "i + 1"] Suc.prems(4,5) next_i cap[OF free] obtain v2 h2 where
      "sv_copy_from W dbg N room k (i + 1) u v' h' = Some (True, v2, h2)" "soo_rep N ys u h2" "soo_apart u v2"
      "soo_rep N ((zs @ [ys ! (unat i mod 2 ^ LENGTH('i))])
         @ map (\<lambda>j. ys ! (j mod 2 ^ LENGTH('i))) [Suc (unat i)..<length ys]) v2 h2" "others v2 h2 = others v' h'"
      by auto
    then show ?thesis using at push oth small by (simp add: upt_conv_Cons)
  qed (use free in auto)
qed simp


section \<open>The contract of a sequence\<close>

text \<open>
  What a client of a vector relies on, on lists. An operation answers with the index of the element it
  appended, or with nothing when the allocator refused, which it may do only for a request of at most
  \<open>2 n + 1\<close> elements where \<open>n\<close> are held. The client pops only what is not empty. \<open>outside\<close> is the memory the
  sequence does not own.
\<close>

datatype 'a seq_op = Push 'a | Pop | Clear

fun run_seq ::
  "('a \<Rightarrow> 's \<Rightarrow> ('r option \<times> 's) option) \<Rightarrow> ('s \<Rightarrow> 's option) \<Rightarrow> ('s \<Rightarrow> 's option) \<Rightarrow> ('s \<Rightarrow> bool)
    \<Rightarrow> 'a seq_op list \<Rightarrow> 's \<Rightarrow> ('r option list \<times> 's) option" where
  "run_seq push pop clear isempty [] s = Some ([], s)"
| "run_seq push pop clear isempty (Push x # ops) s = do {
     (r, s) \<leftarrow> push x s;
     (rs, s) \<leftarrow> run_seq push pop clear isempty ops s;
     Some (r # rs, s)
   }"
| "run_seq push pop clear isempty (Pop # ops) s = do {
     s \<leftarrow> (if isempty s then Some s else pop s);
     run_seq push pop clear isempty ops s
   }"
| "run_seq push pop clear isempty (Clear # ops) s = do {
     s \<leftarrow> clear s;
     run_seq push pop clear isempty ops s
   }"

fun spec_seq :: "(nat \<Rightarrow> bool) \<Rightarrow> (nat \<Rightarrow> 'r) \<Rightarrow> 'a seq_op list \<Rightarrow> 'r option list \<Rightarrow> 'a list \<Rightarrow> 'a list option" where
  "spec_seq room idx_of [] [] xs = Some xs"
| "spec_seq room idx_of (Push x # ops) (Some i # rs) xs =
     (if i = idx_of (length xs) then spec_seq room idx_of ops rs (xs @ [x]) else None)"
| "spec_seq room idx_of (Push x # ops) (None # rs) xs =
     (if list_ex (\<lambda>c. \<not> room c) [0 ..< 2 * length xs + 2] then spec_seq room idx_of ops rs xs else None)"
| "spec_seq room idx_of (Pop # ops) rs xs = spec_seq room idx_of ops rs (butlast xs)"
| "spec_seq room idx_of (Clear # ops) rs xs = spec_seq room idx_of ops rs []"
| "spec_seq room idx_of _ _ xs = None"

locale seq_container =
  fixes ok :: "'s \<Rightarrow> bool" and elems :: "'s \<Rightarrow> 'a list" and outside :: "'s \<Rightarrow> 'o"
    and push :: "'a \<Rightarrow> 's \<Rightarrow> ('r option \<times> 's) option" and pop :: "'s \<Rightarrow> 's option" and clear :: "'s \<Rightarrow> 's option"
    and isempty :: "'s \<Rightarrow> bool" and idx_of :: "nat \<Rightarrow> 'r" and room :: "nat \<Rightarrow> bool"
  assumes push_law: "ok s \<Longrightarrow> \<exists>r s'. push x s = Some (r, s') \<and> ok s' \<and> outside s' = outside s \<and>
      (case r of Some i \<Rightarrow> i = idx_of (length (elems s)) \<and> elems s' = elems s @ [x]
       | None \<Rightarrow> elems s' = elems s \<and> (\<exists>c \<le> 2 * length (elems s) + 1. \<not> room c))"
    and pop_law: "ok s \<Longrightarrow> elems s \<noteq> [] \<Longrightarrow>
      \<exists>s'. pop s = Some s' \<and> ok s' \<and> outside s' = outside s \<and> elems s' = butlast (elems s)"
    and clear_law: "ok s \<Longrightarrow> \<exists>s'. clear s = Some s' \<and> ok s' \<and> outside s' = outside s \<and> elems s' = []"
    and empty_law: "ok s \<Longrightarrow> isempty s \<longleftrightarrow> elems s = []"
begin

lemma run_refines:
  "ok s \<Longrightarrow> \<exists>rs s'. run_seq push pop clear isempty ops s = Some (rs, s') \<and> ok s' \<and> outside s' = outside s
     \<and> spec_seq room idx_of ops rs (elems s) = Some (elems s')"
proof (induction ops arbitrary: s)
  case (Cons op ops)
  show ?case
  proof (cases op)
    case (Push x)
    from push_law[OF Cons.prems, of x] obtain r s1 where step: "push x s = Some (r, s1)" "ok s1" "outside s1 = outside s"
      "case r of Some i \<Rightarrow> i = idx_of (length (elems s)) \<and> elems s1 = elems s @ [x]
        | None \<Rightarrow> elems s1 = elems s \<and> (\<exists>c \<le> 2 * length (elems s) + 1. \<not> room c)" by blast
    from Cons.IH[OF step(2)] obtain rs s2 where "run_seq push pop clear isempty ops s1 = Some (rs, s2)" "ok s2"
      "outside s2 = outside s1" "spec_seq room idx_of ops rs (elems s1) = Some (elems s2)" by blast
    with step Push show ?thesis by (cases r) (auto simp: list_ex_iff less_Suc_eq_le simp del: upt_Suc)
  next
    case Pop
    obtain s1 where step: "(if isempty s then Some s else pop s) = Some s1" "ok s1" "outside s1 = outside s"
      "elems s1 = butlast (elems s)"
      using pop_law[OF Cons.prems] empty_law[OF Cons.prems] Cons.prems by (cases "isempty s") auto
    with Cons.IH[OF step(2)] Pop show ?thesis by auto
  next
    case Clear
    from clear_law[OF Cons.prems] obtain s1 where step: "clear s = Some s1" "ok s1" "outside s1 = outside s" "elems s1 = []"
      by blast
    with Cons.IH[OF step(2)] Clear show ?thesis by auto
  qed
qed simp

end

definition soo_elems :: "usize \<Rightarrow> 'a soo_vec \<times> 'a heap \<Rightarrow> 'a list" where
  "soo_elems N = (\<lambda>(v, h). case sv_data N v h of Some cs \<Rightarrow> map the (take (unat (sv_size v)) cs) | None \<Rightarrow> [])"

definition soo_ok :: "usize \<Rightarrow> (usize \<Rightarrow> bool) \<Rightarrow> 'a soo_vec \<times> 'a heap \<Rightarrow> bool" where
  "soo_ok N room = (\<lambda>(v, h). soo_rep N (soo_elems N (v, h)) v h \<and> (\<forall>c. room c \<longrightarrow> unat c < 2 ^ 63))"

definition sv_empty :: "'a soo_vec \<Rightarrow> bool" where "sv_empty v \<longleftrightarrow> sv_size v = 0"

definition room_for :: "(usize \<Rightarrow> bool) \<Rightarrow> nat \<Rightarrow> bool" where "room_for room c \<longleftrightarrow> room (of_nat c)"

lemma soo_elems_rep: "soo_rep N xs v h \<Longrightarrow> soo_elems N (v, h) = xs"
  by (simp add: soo_elems_def soo_rep_def filled_def)

lemma soo_okI: "soo_rep N xs v h \<Longrightarrow> (\<And>c. room c \<Longrightarrow> unat c < 2 ^ 63) \<Longrightarrow> soo_ok N room (v, h)"
  by (simp add: soo_ok_def soo_elems_rep)

lemma grown_full:
  assumes "soo_rep N xs v h" "sv_size v = sv_capacity v" "\<not> room (grown v)"
  shows "\<exists>c \<le> 2 * length xs + 1. \<not> room_for room c"
proof (intro exI[of _ "unat (grown v)"] conjI)
  have "unat (sv_capacity v * 2) = 2 * length xs"
    using assms(1,2) by (simp add: soo_rep_def unat_word_ariths)
  then show "unat (grown v) \<le> 2 * length xs + 1" by (simp add: grown_def)
  show "\<not> room_for room (unat (grown v))" using assms(3) by (simp add: room_for_def)
qed

interpretation soo: seq_container "soo_ok N room" "soo_elems N" "\<lambda>(v, h). others v h"
  "\<lambda>x (v, h). sv_emplace_back N room x v h" "\<lambda>(v, h). sv_pop_back dbg N v h" "\<lambda>(v, h). sv_clear N v h"
  "\<lambda>(v, h). sv_empty v" "\<lambda>n. of_nat n :: 'i::len idx" "room_for room"
proof (unfold_locales; clarify)
  fix v :: "'a soo_vec" and h and x
  assume "soo_ok N room (v, h)"
  then have rep: "soo_rep N (soo_elems N (v, h)) v h" and bound: "\<And>c. room c \<Longrightarrow> unat c < 2 ^ 63"
    by (auto simp: soo_ok_def)
  show "sv_empty v \<longleftrightarrow> soo_elems N (v, h) = []"
    using rep unsigned_word_eqI[of "sv_size v" 0] by (auto simp: sv_empty_def soo_rep_def)
  show "\<exists>s'. sv_clear N v h = Some s' \<and> soo_ok N room s' \<and> (case s' of (v, h) \<Rightarrow> others v h) = others v h
      \<and> soo_elems N s' = []"
  proof (rule soo_clear_spec[OF rep])
    fix h' assume clr: "sv_clear N v h = Some (empty_soo N, h')" "heap_ok h'" "hp_blocks h' = others v h"
    have "soo_rep N [] (empty_soo N) h'"
      using clr rep by (intro empty_soo_rep) (auto simp: soo_rep_def word_le_nat_alt)
    from soo_okI[OF this bound] soo_elems_rep[OF this] clr show ?thesis
      by (simp add: others_def empty_soo_def)
  qed
  show "\<exists>s'. sv_pop_back dbg N v h = Some s' \<and> soo_ok N room s' \<and> (case s' of (v, h) \<Rightarrow> others v h) = others v h
      \<and> soo_elems N s' = butlast (soo_elems N (v, h))" if "soo_elems N (v, h) \<noteq> []"
    by (rule soo_pop_spec[OF rep that, of dbg]) (auto simp: soo_elems_rep intro!: soo_okI dest: bound)
  show "\<exists>r s'. sv_emplace_back N room x v h = Some (r, s') \<and> soo_ok N room s'
      \<and> (case s' of (v, h) \<Rightarrow> others v h) = others v h \<and>
      (case r of None \<Rightarrow> soo_elems N s' = soo_elems N (v, h)
           \<and> (\<exists>c \<le> 2 * length (soo_elems N (v, h)) + 1. \<not> room_for room c)
       | Some i \<Rightarrow> i = (of_nat (length (soo_elems N (v, h))) :: 'i idx) \<and> soo_elems N s' = soo_elems N (v, h) @ [x])"
  proof (rule soo_emplace_spec[where 'i = 'i, OF rep bound, of room x])
    assume "sv_emplace_back N room x v h = Some (None :: 'i idx option, v, h)"
      "sv_size v = sv_capacity v" "\<not> room (grown v)"
    with grown_full[OF rep] \<open>soo_ok N room (v, h)\<close> show ?thesis by auto
  qed (auto simp: soo_elems_rep intro!: soo_okI dest: bound)
qed


section \<open>Copies and moves\<close>

lemma soo_copy_spec:
  fixes W :: "'i::len itself"
  assumes bound: "\<And>c. room c \<Longrightarrow> unat c < 2 ^ 63" and rep: "soo_rep N ys u h"
    and fits: "sv_size u \<le> N \<or> room (sv_size u)"
  shows "\<exists>v' h'. sv_copy W dbg N room u h = Some (True, v', h') \<and> soo_rep N ys u h' \<and> soo_apart u v'
    \<and> soo_rep N (map (\<lambda>j. ys ! (j mod 2 ^ LENGTH('i))) [0..<length ys]) v' h' \<and> others v' h' = hp_blocks h"
proof -
  have fresh: "soo_rep N [] (empty_soo N) h" and ap: "soo_apart u (empty_soo N)" and cap: "sv_capacity (empty_soo N) = N"
    using rep empty_soo_rep[of h N] by (auto simp: soo_rep_def word_le_nat_alt soo_apart_def empty_soo_def split: store.splits)
  show ?thesis
  proof (rule soo_reserve_spec[OF fresh, of room "sv_size u"])
    fix ok v1 h1
    assume res: "sv_reserve N room (sv_size u) (empty_soo N) h = Some (ok, v1, h1)" "soo_rep N [] v1 h1"
      "others v1 h1 = others (empty_soo N) h" "ok \<longleftrightarrow> sv_size u \<le> sv_capacity (empty_soo N) \<or> room (sv_size u)"
      "ok \<Longrightarrow> sv_size u \<le> sv_capacity v1"
    from res(4) fits have ok by (simp add: cap)
    from res(5)[OF this] rep have "length ys \<le> unat (sv_capacity v1)"
      by (simp add: soo_rep_def word_le_nat_alt)
    moreover have kept: "soo_rep N ys u h1" "soo_apart u v1"
      using soo_apart_keeps[OF rep ap res(3)] res(2) by (simp_all add: soo_rep_def)
    ultimately show ?thesis
      using \<open>ok\<close> copy_from_spec[OF bound kept(1) res(2) kept(2), of room 0 "length ys" W dbg] res rep
      by (auto simp: sv_copy_def soo_rep_def others_def empty_soo_def)
  qed (rule bound)
qed

lemma move_assign_spec:
  assumes "soo_rep N zs self h" "soo_rep N xs other h" "soo_apart other self"
  obtains h' where "sv_move_assign N self other h = Some (other, empty_soo N, h')"
    "soo_rep N xs other h'" "hp_blocks h' = others self h"
proof (rule soo_clear_spec[OF assms(1)])
  fix h' assume clr: "sv_clear N self h = Some (empty_soo N, h')" "heap_ok h'" "hp_blocks h' = others self h"
  have "soo_rep N xs other h'"
    using soo_apart_keeps[OF assms(2,3) _ clr(2), of "empty_soo N"] clr(3) by (simp add: others_def empty_soo_def)
  with clr move_from_spec[OF assms(2)] show thesis by (intro that) (simp_all add: sv_move_assign_def)
qed

lemma range_walk_spec:
  fixes it :: "'i::len word"
  assumes "n < 2 ^ LENGTH('i)"
  shows "range_walk n it (it + of_nat n) = Some (map (\<lambda>k. it + of_nat k) [0..<n])"
  using assms
proof (induction n arbitrary: it)
  case (Suc n)
  have "of_nat (Suc n) \<noteq> (0 :: 'i word)"
    using Suc.prems unat_of_nat_small[of "Suc n", where 'a = 'i] by (metis nat.distinct(1) unat_0)
  then have "it \<noteq> it + of_nat (Suc n)" by (metis add.right_neutral add_left_cancel)
  moreover have "map (\<lambda>k. it + of_nat k) [0..<Suc n] = it # map (\<lambda>k. (it + 1) + of_nat k) [0..<n]"
    by (simp add: upt_conv_Cons del: upt_Suc flip: map_Suc_upt)
  moreover have "it + of_nat (Suc n) = (it + 1) + of_nat n" by (simp add: algebra_simps)
  ultimately show ?case using Suc.IH[of "it + 1"] Suc.prems by (simp add: add.assoc del: upt_Suc)
qed simp

section \<open>Properties\<close>

text \<open>
  C12. Whatever a client appends, removes and clears, \<^verbatim>\<open>SooVec\<close> behaves as a list: no operation breaks a
  rule of object lifetime or an assertion, every append answers with the position of the new element, an
  append fails only when the allocator refuses a block of at most twice the elements held plus one, the
  elements read back are those of the list, and when the vector is destroyed the heap is exactly what it was
  before, so no block and no element leaks.
\<close>

theorem soo_run_refines:
  fixes h :: "'a heap"
  assumes "heap_ok h" and "unat N < 2 ^ 63" and bound: "\<And>c. room c \<Longrightarrow> unat c < 2 ^ 63"
  shows "\<exists>rs v h' h''. run_seq (\<lambda>x (v, h). sv_emplace_back N room x v h) (\<lambda>(v, h). sv_pop_back dbg N v h)
         (\<lambda>(v, h). sv_clear N v h) (\<lambda>(v, h). sv_empty v) ops (empty_soo N, h)
       = Some (rs :: 'i::len idx option list, v, h')
     \<and> spec_seq (room_for room) of_nat ops rs [] = Some (soo_elems N (v, h'))
     \<and> (\<forall>i < sv_size v. sv_at dbg N i v h' = Some (soo_elems N (v, h') ! unat i))
     \<and> unat (sv_size v) = length (soo_elems N (v, h'))
     \<and> sv_clear N v h' = Some (empty_soo N, h'') \<and> hp_blocks h'' = hp_blocks h"
proof -
  let ?run = "run_seq (\<lambda>x (v, h). sv_emplace_back N room x v h) (\<lambda>(v, h). sv_pop_back dbg N v h)
    (\<lambda>(v, h). sv_clear N v h) (\<lambda>(v, h). sv_empty v) ops (empty_soo N, h)"
  have rep0: "soo_rep N [] (empty_soo N) h" using assms by (intro empty_soo_rep)
  have "soo_ok N room (empty_soo N, h)" by (rule soo_okI[OF rep0 bound])
  from soo.run_refines[where dbg = dbg and ops = ops, OF this]
  obtain rs v h' where run: "?run = Some (rs :: 'i idx option list, v, h')" and ok: "soo_ok N room (v, h')"
    and oth: "others v h' = others (empty_soo N) h"
    and spec: "spec_seq (room_for room) of_nat ops rs (soo_elems N (empty_soo N, h)) = Some (soo_elems N (v, h'))"
    by (auto simp: split_def)
  from ok have rep: "soo_rep N (soo_elems N (v, h')) v h'" by (simp add: soo_ok_def)
  have size: "unat (sv_size v) = length (soo_elems N (v, h'))" using rep by (simp add: soo_rep_def)
  from soo_clear_spec[OF rep] oth obtain h'' where "sv_clear N v h' = Some (empty_soo N, h'')" "hp_blocks h'' = hp_blocks h"
    by (auto simp: others_def empty_soo_def)
  with run spec size sv_at_spec[OF rep] show ?thesis
    by (auto simp: soo_elems_rep[OF rep0] word_less_nat_alt)
qed


definition no_heap :: "'a heap" where "no_heap = \<lparr>hp_blocks = (\<lambda>_. None), hp_next = 0\<rparr>"

theorem soo_run_refines_witness:
  "heap_ok (no_heap :: nat heap) \<and> unat (2 :: usize) < 2 ^ 63 \<and>
   (\<exists>rs v h' h''. run_seq (\<lambda>x (v, h). sv_emplace_back 2 (\<lambda>c. c \<le> 8) x v h) (\<lambda>(v, h). sv_pop_back True 2 v h)
         (\<lambda>(v, h). sv_clear 2 v h) (\<lambda>(v, h). sv_empty v) [Push 5, Push 6, Push 7, Pop] (empty_soo 2, no_heap :: nat heap)
       = Some (rs :: 32 idx option list, v, h')
     \<and> spec_seq (room_for (\<lambda>c. c \<le> 8)) of_nat [Push 5, Push 6, Push 7, Pop] rs [] = Some (soo_elems 2 (v, h'))
     \<and> sv_clear 2 v h' = Some (empty_soo 2, h'') \<and> hp_blocks h'' = hp_blocks no_heap)"
proof -
  have "heap_ok (no_heap :: nat heap)" by (simp add: heap_ok_def no_heap_def)
  moreover have "unat (2 :: usize) < 2 ^ 63" by simp
  moreover have "c \<le> 8 \<Longrightarrow> unat c < 2 ^ 63" for c :: usize by (simp add: word_le_nat_alt)
  ultimately show ?thesis
    using soo_run_refines[where 'i = 32, of "no_heap :: nat heap" 2 "\<lambda>c. c \<le> 8" True "[Push 5, Push 6, Push 7, Pop]"]
    by blast
qed

text \<open>
  C15. The copy constructor reads its source through the typed index, so the element at position \<open>j\<close> of the copy
  is the element at position \<open>j mod 2 ^ w\<close> of the source, \<open>w\<close> the width of the index: the copy is equal to its
  source exactly while the source's length is at most \<open>2 ^ w\<close>. The copy has its own storage, the source and the
  rest of the heap are left alone, and this holds whenever the allocator has room for one block of the
  source's length.
\<close>

theorem soo_copy_exact:
  fixes h :: "'a heap"
  assumes "\<And>c. room c \<Longrightarrow> unat c < 2 ^ 63" and "soo_rep N ys u h" and "sv_size u \<le> N \<or> room (sv_size u)"
  shows "\<exists>v' h' zs. sv_copy TYPE('i::len) dbg N room u h = Some (True, v', h')
     \<and> soo_rep N zs v' h' \<and> length zs = length ys \<and> (\<forall>j < length ys. zs ! j = ys ! (j mod 2 ^ LENGTH('i)))
     \<and> (length ys \<le> 2 ^ LENGTH('i) \<longrightarrow> zs = ys)
     \<and> soo_rep N ys u h' \<and> soo_apart u v' \<and> others v' h' = hp_blocks h"
proof -
  let ?zs = "map (\<lambda>j. ys ! (j mod 2 ^ LENGTH('i))) [0..<length ys]"
  have "?zs = ys" if "length ys \<le> 2 ^ LENGTH('i)"
    using that by (intro nth_equalityI) auto
  moreover obtain v' h' where "sv_copy TYPE('i) dbg N room u h = Some (True, v', h')" "soo_rep N ys u h'" "soo_apart u v'"
    "soo_rep N ?zs v' h'" "others v' h' = hp_blocks h"
    using soo_copy_spec[of room N ys u h "TYPE('i)" dbg] assms by blast
  ultimately show ?thesis by (intro exI[of _ v'] exI[of _ h'] exI[of _ ?zs]) auto
qed

definition two_soo :: "nat soo_vec" where
  "two_soo = \<lparr>sv_size = 2, sv_capacity = 2, sv_store = Inline [Some 5, Some 6]\<rparr>"

theorem soo_copy_exact_witness:
  "soo_rep 2 [5, 6] two_soo no_heap \<and>
   (\<exists>v' h' zs. sv_copy TYPE(8) True 2 (\<lambda>c. c \<le> 8) two_soo no_heap = Some (True, v', h')
     \<and> soo_rep 2 zs v' h' \<and> zs = [5, 6] \<and> soo_rep 2 [5, 6] two_soo h' \<and> soo_apart two_soo v')"
proof -
  have "c \<le> 8 \<Longrightarrow> unat c < 2 ^ 63" for c :: usize by (simp add: word_le_nat_alt)
  moreover have rep: "soo_rep 2 [5, 6] two_soo no_heap"
    by (simp add: soo_rep_def two_soo_def no_heap_def heap_ok_def sv_data_def is_dynamic_def filled_def)
  moreover have "sv_size two_soo \<le> 2" by (simp add: two_soo_def)
  ultimately show ?thesis
    using soo_copy_exact[where 'i = 8, of "\<lambda>c. c \<le> 8" 2 "[5, 6]" two_soo no_heap True] by auto
qed

end
