(* ===== verification/Vec.thy ===== *)
theory Vec
  imports Soo_Vec
begin

text \<open>
  The other users of the typed index: \<^verbatim>\<open>base::SooVecSlice\<close> (\<^verbatim>\<open>include/fpag/base/soo_vec_slice.h\<close>;
  \<^verbatim>\<open>vec_slice.h\<close> is the same text under another class name), the slices a \<^verbatim>\<open>SooVec\<close> hands out, and
  \<^verbatim>\<open>base::Vec\<close> (\<^verbatim>\<open>vec.h\<close>), a typed index over \<^verbatim>\<open>std::vector\<close>. The standard vector is a list; \<open>room n\<close> says
  whether it can be made to hold \<open>n\<close> elements, and a refusal leaves it as it was. A slice is an offset into
  the elements behind its pointer and a length, and reading outside them has no result.
\<close>

section \<open>Definitions\<close>

subsection \<open>Slices\<close>

record slice =
  sl_data :: nat
  sl_size :: usize

definition empty_slice :: slice where "empty_slice = \<lparr>sl_data = 0, sl_size = 0\<rparr>"

definition slice_between :: "bool \<Rightarrow> nat \<Rightarrow> nat \<Rightarrow> slice option" where
  "slice_between dbg first_at last_at = do {
     let s = \<lparr>sl_data = first_at, sl_size = (if last_at \<ge> first_at then of_nat (last_at - first_at) else 0)\<rparr>;
     fpag_dcheck dbg (last_at \<ge> first_at);
     Some s
   }"

definition read_at :: "'a list \<Rightarrow> nat \<Rightarrow> 'a option" where
  "read_at mem i = (if i < length mem then Some (mem ! i) else None)"

definition slice_at :: "bool \<Rightarrow> 'a list \<Rightarrow> slice \<Rightarrow> usize \<Rightarrow> 'a option" where
  "slice_at dbg mem s offset = do {
     fpag_dcheck dbg (offset < sl_size s);
     read_at mem (sl_data s + unat offset)
   }"

definition slice_at_idx :: "bool \<Rightarrow> 'a list \<Rightarrow> slice \<Rightarrow> 'i::len idx \<Rightarrow> 'a option" where
  "slice_at_idx dbg mem s i = do {
     fpag_dcheck dbg ((ucast i :: usize) < sl_size s);
     read_at mem (sl_data s + unat i)
   }"

definition slice_front :: "bool \<Rightarrow> 'a list \<Rightarrow> slice \<Rightarrow> 'a option" where
  "slice_front dbg mem s = do { fpag_dcheck dbg (sl_size s \<noteq> 0); read_at mem (sl_data s) }"

definition slice_back :: "bool \<Rightarrow> 'a list \<Rightarrow> slice \<Rightarrow> 'a option" where
  "slice_back dbg mem s = do { fpag_dcheck dbg (sl_size s \<noteq> 0); read_at mem (sl_data s + unat (sl_size s - 1)) }"

definition slice_pop_front :: "bool \<Rightarrow> usize \<Rightarrow> slice \<Rightarrow> slice option" where
  "slice_pop_front dbg n s = do {
     fpag_dcheck dbg (n \<le> sl_size s);
     Some \<lparr>sl_data = sl_data s + unat n, sl_size = sl_size s - n\<rparr>
   }"

definition slice_pop_back :: "bool \<Rightarrow> usize \<Rightarrow> slice \<Rightarrow> slice option" where
  "slice_pop_back dbg n s = do { fpag_dcheck dbg (n \<le> sl_size s); Some (s\<lparr>sl_size := sl_size s - n\<rparr>) }"

definition slice_idx_range :: "slice \<Rightarrow> 'i::len word idx_range" where
  "slice_idx_range s = \<lparr>ir_head = 0, ir_size = ucast (sl_size s)\<rparr>"

definition subslice :: "bool \<Rightarrow> usize \<Rightarrow> usize \<Rightarrow> slice \<Rightarrow> slice option" where
  "subslice dbg offset n s = do {
     fpag_dcheck dbg (offset \<le> sl_size s);
     fpag_dcheck dbg (n \<le> sl_size s - offset);
     Some \<lparr>sl_data = sl_data s + unat offset, sl_size = n\<rparr>
   }"

definition subslice_range :: "bool \<Rightarrow> 'i::len word idx_range \<Rightarrow> slice \<Rightarrow> slice option" where
  "subslice_range dbg r s = do {
     let head = (ucast (ir_head r) :: usize);
     let len = (ucast (ir_size r) :: usize);
     fpag_dcheck dbg (head \<le> sl_size s);
     fpag_dcheck dbg (len \<le> sl_size s - head);
     Some \<lparr>sl_data = sl_data s + unat head, sl_size = len\<rparr>
   }"

definition slice_first :: "bool \<Rightarrow> usize \<Rightarrow> slice \<Rightarrow> slice option" where
  "slice_first dbg n s = do { fpag_dcheck dbg (n \<le> sl_size s); Some \<lparr>sl_data = sl_data s, sl_size = n\<rparr> }"

definition slice_last :: "bool \<Rightarrow> usize \<Rightarrow> slice \<Rightarrow> slice option" where
  "slice_last dbg n s = do {
     fpag_dcheck dbg (n \<le> sl_size s);
     Some \<lparr>sl_data = sl_data s + unat (sl_size s - n), sl_size = n\<rparr>
   }"

text \<open>
  \<^verbatim>\<open>slice(offset, size)\<close> checks \<^verbatim>\<open>offset + size\<close>, a sum in the index type: it wraps unless the type is
  narrower than \<^verbatim>\<open>int\<close>, to which both operands are then promoted.
\<close>

definition idx_sum :: "'i::len word \<Rightarrow> 'i word \<Rightarrow> usize" where
  "idx_sum offset n = (if LENGTH('i) < 32 then ucast offset + ucast n else ucast (offset + n))"

definition sv_slice :: "bool \<Rightarrow> 'i::len word \<Rightarrow> 'i word \<Rightarrow> 'a soo_vec \<Rightarrow> slice option" where
  "sv_slice dbg offset n v = do {
     fpag_dcheck dbg (idx_sum offset n \<le> sv_size v);
     Some \<lparr>sl_data = unat offset, sl_size = ucast n\<rparr>
   }"

definition sv_slice_all :: "'i::len itself \<Rightarrow> bool \<Rightarrow> 'a soo_vec \<Rightarrow> slice option" where
  "sv_slice_all W dbg v = sv_slice dbg (0 :: 'i word) (ucast (sv_size v)) v"

subsection \<open>Vec\<close>

definition vec_at :: "bool \<Rightarrow> usize \<Rightarrow> 'a list \<Rightarrow> 'a option" where
  "vec_at dbg offset xs = do { fpag_dcheck dbg (unat offset < length xs); read_at xs (unat offset) }"

definition vec_at_idx :: "bool \<Rightarrow> 'i::len idx \<Rightarrow> 'a list \<Rightarrow> 'a option" where
  "vec_at_idx dbg i xs = do { fpag_dcheck dbg (unat (ucast i :: usize) < length xs); read_at xs (unat i) }"

definition vec_resize :: "(nat \<Rightarrow> bool) \<Rightarrow> 'a \<Rightarrow> usize \<Rightarrow> 'a list \<Rightarrow> bool \<times> 'a list" where
  "vec_resize room init_value n xs = (if unat n \<le> length xs then (True, take (unat n) xs)
     else if room (unat n) then (True, xs @ replicate (unat n - length xs) init_value) else (False, xs))"

definition vec_emplace_back :: "(nat \<Rightarrow> bool) \<Rightarrow> 'a \<Rightarrow> 'a list \<Rightarrow> ('i::len idx option \<times> 'a list) option" where
  "vec_emplace_back room x xs =
     (if room (length xs + 1)
      then let xs = xs @ [x] in Some (Some (of_nat (length xs - 1)), xs)
      else Some (None, xs))"

definition vec_pop_back :: "bool \<Rightarrow> 'a list \<Rightarrow> 'a list option" where
  "vec_pop_back dbg xs = do { fpag_dcheck dbg (xs \<noteq> []); (if xs = [] then None else Some (butlast xs)) }"

definition vec_clear :: "'a list \<Rightarrow> 'a list option" where "vec_clear xs = Some []"

definition vec_empty :: "'a list \<Rightarrow> bool" where "vec_empty xs \<longleftrightarrow> xs = []"

definition vec_front :: "bool \<Rightarrow> 'a list \<Rightarrow> 'a option" where
  "vec_front dbg xs = do { fpag_dcheck dbg (xs \<noteq> []); read_at xs 0 }"

definition vec_back :: "bool \<Rightarrow> 'a list \<Rightarrow> 'a option" where
  "vec_back dbg xs = do { fpag_dcheck dbg (xs \<noteq> []); (if xs = [] then None else read_at xs (length xs - 1)) }"

definition vec_idx_range :: "'a list \<Rightarrow> 'i::len word idx_range" where
  "vec_idx_range xs = \<lparr>ir_head = 0, ir_size = of_nat (length xs)\<rparr>"

definition vec_slice :: "bool \<Rightarrow> 'i::len word \<Rightarrow> 'i word \<Rightarrow> 'a list \<Rightarrow> slice option" where
  "vec_slice dbg offset n xs = do {
     fpag_dcheck dbg (unat (idx_sum offset n) \<le> length xs);
     Some \<lparr>sl_data = unat offset, sl_size = ucast n\<rparr>
   }"

definition vec_slice_all :: "'i::len itself \<Rightarrow> bool \<Rightarrow> 'a list \<Rightarrow> slice option" where
  "vec_slice_all W dbg xs = vec_slice dbg (0 :: 'i word) (of_nat (length xs)) xs"

section \<open>Windows\<close>

definition slice_ok :: "'a list \<Rightarrow> slice \<Rightarrow> bool" where
  "slice_ok mem s \<longleftrightarrow> sl_data s + unat (sl_size s) \<le> length mem"

definition slice_elems :: "'a list \<Rightarrow> slice \<Rightarrow> 'a list" where
  "slice_elems mem s = take (unat (sl_size s)) (drop (sl_data s) mem)"

lemma slice_at_elems:
  "slice_ok mem s \<Longrightarrow> i < sl_size s \<Longrightarrow> slice_at dbg mem s i = Some (slice_elems mem s ! unat i)"
  by (simp add: slice_at_def slice_ok_def slice_elems_def read_at_def word_less_nat_alt)

lemma subslice_elems:
  assumes "slice_ok mem s" "subslice True offset n s = Some t"
  shows "slice_ok mem t" "slice_elems mem t = take (unat n) (drop (unat offset) (slice_elems mem s))"
proof -
  from assms(2) have le: "offset \<le> sl_size s" "n \<le> sl_size s - offset"
    and t: "t = \<lparr>sl_data = sl_data s + unat offset, sl_size = n\<rparr>"
    by (auto simp: subslice_def checks)
  then have "unat offset + unat n \<le> unat (sl_size s)" by (simp add: word_le_nat_alt unat_sub_le)
  with assms(1) show "slice_ok mem t" "slice_elems mem t = take (unat n) (drop (unat offset) (slice_elems mem s))"
    by (simp_all add: slice_ok_def slice_elems_def t drop_take add.commute)
qed

lemma slice_first_subslice: "slice_first dbg n s = subslice dbg 0 n s"
  by (simp add: slice_first_def subslice_def)

lemma slice_pop_front_subslice: "n \<le> sl_size s \<Longrightarrow> slice_pop_front dbg n s = subslice dbg n (sl_size s - n) s"
  by (simp add: slice_pop_front_def subslice_def)

lemma slice_pop_back_subslice: "n \<le> sl_size s \<Longrightarrow> slice_pop_back dbg n s = subslice dbg 0 (sl_size s - n) s"
  by (simp add: slice_pop_back_def subslice_def word_sub_le)

lemma slice_last_subslice: "n \<le> sl_size s \<Longrightarrow> slice_last dbg n s = subslice dbg (sl_size s - n) n s"
  by (simp add: slice_last_def subslice_def word_sub_le)


text \<open>What a chain of narrowing operations does to a list, and stops where it asks for more than there is.\<close>

datatype slice_op = Pop_Front usize | Pop_Back usize | Sub_Slice usize usize | First usize | Last usize

fun slice_step :: "bool \<Rightarrow> slice_op \<Rightarrow> slice \<Rightarrow> slice option" where
  "slice_step dbg (Pop_Front n) s = slice_pop_front dbg n s"
| "slice_step dbg (Pop_Back n) s = slice_pop_back dbg n s"
| "slice_step dbg (Sub_Slice offset n) s = subslice dbg offset n s"
| "slice_step dbg (First n) s = slice_first dbg n s"
| "slice_step dbg (Last n) s = slice_last dbg n s"

fun slice_run :: "bool \<Rightarrow> slice_op list \<Rightarrow> slice \<Rightarrow> slice option" where
  "slice_run dbg [] s = Some s"
| "slice_run dbg (op # ops) s = do { s \<leftarrow> slice_step dbg op s; slice_run dbg ops s }"

definition list_window :: "nat \<Rightarrow> nat \<Rightarrow> 'a list \<Rightarrow> 'a list option" where
  "list_window offset n xs = (if offset + n \<le> length xs then Some (take n (drop offset xs)) else None)"

fun list_step :: "slice_op \<Rightarrow> 'a list \<Rightarrow> 'a list option" where
  "list_step (Pop_Front n) xs = (if unat n \<le> length xs then Some (drop (unat n) xs) else None)"
| "list_step (Pop_Back n) xs = (if unat n \<le> length xs then Some (take (length xs - unat n) xs) else None)"
| "list_step (Sub_Slice offset n) xs = list_window (unat offset) (unat n) xs"
| "list_step (First n) xs = list_window 0 (unat n) xs"
| "list_step (Last n) xs = (if unat n \<le> length xs then Some (drop (length xs - unat n) xs) else None)"

fun list_run :: "slice_op list \<Rightarrow> 'a list \<Rightarrow> 'a list option" where
  "list_run [] xs = Some xs"
| "list_run (op # ops) xs = do { xs \<leftarrow> list_step op xs; list_run ops xs }"

lemma length_slice_elems: "slice_ok mem s \<Longrightarrow> length (slice_elems mem s) = unat (sl_size s)"
  by (simp add: slice_ok_def slice_elems_def)

lemma subslice_refines:
  assumes "slice_ok mem s"
  shows "map_option (slice_elems mem) (subslice True offset n s) = list_window (unat offset) (unat n) (slice_elems mem s)"
proof (cases "subslice True offset n s")
  case None
  then have "\<not> (offset \<le> sl_size s \<and> n \<le> sl_size s - offset)" by (auto simp: subslice_def)
  then have "\<not> unat offset + unat n \<le> unat (sl_size s)" by (auto simp: word_le_nat_alt unat_sub_le)
  then show ?thesis using None length_slice_elems[OF assms] by (simp add: list_window_def)
next
  case (Some t)
  from Some have "offset \<le> sl_size s" "n \<le> sl_size s - offset" by (auto simp: subslice_def checks)
  then have "unat offset + unat n \<le> unat (sl_size s)" by (simp add: word_le_nat_alt unat_sub_le)
  then show ?thesis using Some subslice_elems[OF assms Some] length_slice_elems[OF assms] by (simp add: list_window_def)
qed

lemma slice_step_refines:
  assumes ok: "slice_ok mem s"
  shows "map_option (slice_elems mem) (slice_step True op s) = list_step op (slice_elems mem s)"
    and "slice_step True op s = Some t \<Longrightarrow> slice_ok mem t"
proof -
  note len = length_slice_elems[OF ok]
  have "map_option (slice_elems mem) (slice_step True op s) = list_step op (slice_elems mem s)
    \<and> (\<forall>t. slice_step True op s = Some t \<longrightarrow> slice_ok mem t)"
  proof (cases op)
    case (Pop_Front n)
    show ?thesis
    proof (cases "n \<le> sl_size s")
      case True
      then show ?thesis using Pop_Front len subslice_refines[OF ok, of n "sl_size s - n"] subslice_elems(1)[OF ok]
        by (auto simp: slice_pop_front_subslice list_window_def unat_sub_le word_le_nat_alt)
    next
      case False
      then show ?thesis using Pop_Front len by (simp add: slice_pop_front_def word_le_nat_alt fpag_dcheck_def)
    qed
  next
    case (Pop_Back n)
    show ?thesis
    proof (cases "n \<le> sl_size s")
      case True
      then show ?thesis using Pop_Back len subslice_refines[OF ok, of 0 "sl_size s - n"] subslice_elems(1)[OF ok]
        by (auto simp: slice_pop_back_subslice list_window_def unat_sub_le word_le_nat_alt)
    next
      case False
      then show ?thesis using Pop_Back len by (simp add: slice_pop_back_def word_le_nat_alt fpag_dcheck_def)
    qed
  next
    case (Last n)
    show ?thesis
    proof (cases "n \<le> sl_size s")
      case True
      then show ?thesis using Last len subslice_refines[OF ok, of "sl_size s - n" n] subslice_elems(1)[OF ok]
        by (auto simp: slice_last_subslice list_window_def unat_sub_le word_le_nat_alt)
    next
      case False
      then show ?thesis using Last len by (simp add: slice_last_def word_le_nat_alt fpag_dcheck_def)
    qed
  qed (use subslice_refines[OF ok] subslice_elems(1)[OF ok] in \<open>auto simp: slice_first_subslice\<close>)
  then show "map_option (slice_elems mem) (slice_step True op s) = list_step op (slice_elems mem s)"
    and "slice_step True op s = Some t \<Longrightarrow> slice_ok mem t" by auto
qed

lemma slice_run_refines:
  "slice_ok mem s \<Longrightarrow> map_option (slice_elems mem) (slice_run True ops s) = list_run ops (slice_elems mem s)
    \<and> (\<forall>t. slice_run True ops s = Some t \<longrightarrow> slice_ok mem t)"
proof (induction ops arbitrary: s)
  case (Cons op ops)
  show ?case
  proof (cases "slice_step True op s")
    case None
    then show ?thesis using slice_step_refines(1)[OF Cons.prems, of op] by simp
  next
    case (Some t)
    then show ?thesis
      using slice_step_refines(1)[OF Cons.prems, of op, symmetric] Cons.IH[OF slice_step_refines(2)[OF Cons.prems Some]] by simp
  qed
qed simp

section \<open>A slice of a vector\<close>

lemma idx_sum_32: "unat (x :: u32) + unat y < 2 ^ 32 \<Longrightarrow> unat (idx_sum x y) = unat x + unat y"
  by (simp add: idx_sum_def unat_add_nowrap unsigned_ucast_eq take_bit_eq_mod)

lemma sv_slice_refines:
  assumes rep: "soo_rep N xs v h" and sum: "unat (offset :: u32) + unat n < 2 ^ 32"
  shows "map_option (slice_elems xs) (sv_slice True offset n v) = list_window (unat offset) (unat n) xs"
    and "sv_slice True offset n v = Some s \<Longrightarrow> slice_ok xs s"
proof -
  have n: "unat (ucast n :: usize) = unat n"
    using unat_lt2p[of n] by (simp add: unsigned_ucast_eq take_bit_eq_mod)
  have "idx_sum offset n \<le> sv_size v \<longleftrightarrow> unat offset + unat n \<le> length xs"
    using rep idx_sum_32[OF sum] by (simp add: soo_rep_def word_le_nat_alt)
  then show "map_option (slice_elems xs) (sv_slice True offset n v) = list_window (unat offset) (unat n) xs"
    and "sv_slice True offset n v = Some s \<Longrightarrow> slice_ok xs s"
    using n by (auto simp: sv_slice_def list_window_def slice_elems_def slice_ok_def fpag_dcheck_def fpag_check_def)
qed

interpretation vec: seq_container "\<lambda>_. True" "\<lambda>xs. xs" "\<lambda>_. ()" "vec_emplace_back room" "vec_pop_back dbg" vec_clear
  vec_empty "\<lambda>n. of_nat n :: 'i::len idx" room
  by unfold_locales (auto simp: vec_emplace_back_def vec_pop_back_def vec_clear_def vec_empty_def Let_def
      intro!: exI[of _ "Suc (length _)"])


section \<open>Properties\<close>

text \<open>
  C14. In a debug build, a slice taken of a \<^verbatim>\<open>SooVec\<close> through 32-bit indices is accepted exactly when the sum of
  offset and size, taken modulo \<open>2 ^ 32\<close>, is at most the size of the vector. When the sum does not wrap, that
  slice, narrowed by any chain of \<^verbatim>\<open>subslice\<close>, \<^verbatim>\<open>first\<close>, \<^verbatim>\<open>last\<close>, \<^verbatim>\<open>pop_front\<close> and \<^verbatim>\<open>pop_back\<close>, shows exactly the
  elements the same chain selects from the list the vector holds: the assertions stop exactly the chains that
  ask for more than there is, and every slice that comes out lies inside the vector, so that reading it at any
  offset below its size gives the element. When it wraps, a slice that is accepted reaches past a vector of
  fewer than \<open>2 ^ 32\<close> elements.
\<close>

theorem soo_slice_chain:
  fixes offset n :: u32
  assumes "soo_rep N xs v h"
  shows "sv_slice True offset n v = (if (unat offset + unat n) mod 2 ^ 32 \<le> length xs
         then Some \<lparr>sl_data = unat offset, sl_size = ucast n\<rparr> else None)
     \<and> (unat offset + unat n < 2 ^ 32 \<longrightarrow>
          map_option (slice_elems xs) (sv_slice True offset n v \<bind> slice_run True ops)
            = list_window (unat offset) (unat n) xs \<bind> list_run ops
        \<and> (\<forall>s i. sv_slice True offset n v \<bind> slice_run True ops = Some s \<longrightarrow> i < sl_size s
             \<longrightarrow> slice_at dbg xs s i = Some (slice_elems xs s ! unat i)))
     \<and> (2 ^ 32 \<le> unat offset + unat n \<longrightarrow> length xs < 2 ^ 32 \<longrightarrow>
          (\<forall>s. sv_slice True offset n v = Some s \<longrightarrow> length xs < sl_data s + unat (sl_size s)))"
proof (intro conjI impI allI)
  have idx: "unat (idx_sum offset n) = (unat offset + unat n) mod 2 ^ 32"
    by (simp add: idx_sum_def unsigned_ucast_eq take_bit_eq_mod unat_word_ariths mod_mod_cancel)
  show eq: "sv_slice True offset n v = (if (unat offset + unat n) mod 2 ^ 32 \<le> length xs
         then Some \<lparr>sl_data = unat offset, sl_size = ucast n\<rparr> else None)"
    using assms idx by (auto simp: sv_slice_def soo_rep_def word_le_nat_alt fpag_dcheck_def fpag_check_def)
  show "map_option (slice_elems xs) (sv_slice True offset n v \<bind> slice_run True ops)
       = list_window (unat offset) (unat n) xs \<bind> list_run ops" if "unat offset + unat n < 2 ^ 32"
    using sv_slice_refines[OF assms that] slice_run_refines[of xs _ ops]
    by (cases "sv_slice True offset n v") (auto simp: eq_commute[of _ "list_window _ _ _"])
  show "slice_at dbg xs s i = Some (slice_elems xs s ! unat i)"
    if sum: "unat offset + unat n < 2 ^ 32" and run: "sv_slice True offset n v \<bind> slice_run True ops = Some s"
      and i: "i < sl_size s" for s i
  proof -
    have "slice_ok xs s"
      using run sv_slice_refines(2)[OF assms sum] slice_run_refines[of xs _ ops] by (auto simp: bind_eq_Some_conv)
    then show ?thesis using i by (rule slice_at_elems)
  qed
  have "unat (ucast n :: usize) = unat n" using unat_lt2p[of n] by (simp add: unsigned_ucast_eq take_bit_eq_mod)
  then show "length xs < sl_data s + unat (sl_size s)"
    if "2 ^ 32 \<le> unat offset + unat n" "length xs < 2 ^ 32" "sv_slice True offset n v = Some s" for s
    using that eq by (auto split: if_splits)
qed

theorem soo_slice_chain_witness:
  "soo_rep 2 [5, 6] two_soo no_heap \<and>
   map_option (slice_elems [5, 6 :: nat]) (sv_slice True (0 :: u32) 2 two_soo \<bind> slice_run True [Pop_Front 1])
     = Some [6] \<and> sv_slice True (0xFFFFFFFF :: u32) 2 two_soo = Some \<lparr>sl_data = 0xFFFFFFFF, sl_size = 2\<rparr>"
proof -
  have rep: "soo_rep 2 [5, 6] two_soo no_heap"
    by (simp add: soo_rep_def two_soo_def no_heap_def heap_ok_def sv_data_def is_dynamic_def filled_def)
  have "map_option (slice_elems [5, 6 :: nat]) (sv_slice True (0 :: u32) 2 two_soo \<bind> slice_run True [Pop_Front 1]) = Some [6]"
    using soo_slice_chain[OF rep, of 0 2 "[Pop_Front 1]" True] by (auto simp: list_window_def)
  moreover have "sv_slice True (0xFFFFFFFF :: u32) 2 two_soo = Some \<lparr>sl_data = 0xFFFFFFFF, sl_size = 2\<rparr>"
    using soo_slice_chain[OF rep, of "0xFFFFFFFF" 2 "[]" True] by simp
  ultimately show ?thesis using rep by simp
qed

end
