(* ===== verification/Tagged_Union.thy ===== *)
theory Tagged_Union
  imports Prelude
begin

text \<open>
  \<^verbatim>\<open>base::TaggedUnion\<close> (\<^verbatim>\<open>include/fpag/base/tagged_union.h\<close>, \<^verbatim>\<open>tagged_union_internal.h\<close>) and the untagged
  \<^verbatim>\<open>base::Union\<close> (\<^verbatim>\<open>union.h\<close>).

  A member type is what the templates ask of it: which type it is, whether it is \<^verbatim>\<open>void\<close>, empty, trivially
  destructible, its size and alignment. The storage holds at most one live object together with the type it was
  constructed at. Constructing needs a storage without an object, a destructor that runs needs an object of
  its own type, and an operation that breaks one of these rules has no result; the lifetime of a trivially
  destructible object ends without a call. \<open>moved v\<close> is what a moved-from object of value \<open>v\<close> is left with, and
  \<open>w\<close> is the number of bits of the enumeration that stores the tag.
\<close>

section \<open>Definitions\<close>

subsection \<open>Types\<close>

record ty =
  ty_id :: nat
  ty_void :: bool
  ty_empty :: bool
  ty_trivial :: bool
  ty_size :: nat
  ty_align :: nat

definition safe_size_of :: "ty \<Rightarrow> nat" where "safe_size_of T = (if ty_void T then 0 else ty_size T)"
definition safe_align_of :: "ty \<Rightarrow> nat" where "safe_align_of T = (if ty_void T then 1 else ty_align T)"

definition storage_max_size :: "ty list \<Rightarrow> nat" where "storage_max_size Ts = foldr max (map safe_size_of Ts) 0"
definition storage_max_align :: "ty list \<Rightarrow> nat" where "storage_max_align Ts = foldr max (map safe_align_of Ts) 0"

fun find_index :: "ty \<Rightarrow> nat \<Rightarrow> ty list \<Rightarrow> nat \<Rightarrow> nat" where
  "find_index target i [] found = found"
| "find_index target i (T # Ts) found = find_index target (Suc i) Ts (if target = T then i else found)"

definition type_index :: "ty \<Rightarrow> ty list \<Rightarrow> nat" where
  "type_index target Ts = find_index target 0 Ts (length Ts)"

definition contains_type :: "ty \<Rightarrow> ty list \<Rightarrow> bool" where
  "contains_type target Ts = list_ex (\<lambda>T. target = T) Ts"

fun type_at :: "nat \<Rightarrow> ty list \<Rightarrow> ty option" where
  "type_at i [] = None"
| "type_at 0 (T # Ts) = Some T"
| "type_at (Suc i) (T # Ts) = type_at i Ts"

definition tag_type_bits :: "nat \<Rightarrow> nat" where
  "tag_type_bits n = (if n \<le> 255 then 8 else if n \<le> 65535 then 16 else if n \<le> 4294967295 then 32 else 64)"

definition validate_tag_enum :: "nat option \<Rightarrow> nat option \<Rightarrow> nat \<Rightarrow> bool" where
  "validate_tag_enum count_member alt_count_member expected =
     (case count_member of Some n \<Rightarrow> n = expected
      | None \<Rightarrow> (case alt_count_member of Some n \<Rightarrow> n = expected | None \<Rightarrow> True))"

subsection \<open>TaggedUnion\<close>

record 'v tunion =
  tu_obj :: "(ty \<times> 'v) option"
  tu_tag :: nat

definition construct_obj :: "ty \<Rightarrow> 'v \<Rightarrow> 'v tunion \<Rightarrow> 'v tunion option" where
  "construct_obj T x u = (if tu_obj u = None then Some (u\<lparr>tu_obj := Some (T, x)\<rparr>) else None)"

definition obj_of :: "ty \<Rightarrow> 'v tunion \<Rightarrow> 'v option" where
  "obj_of T u = (case tu_obj u of Some (T', x) \<Rightarrow> (if T' = T then Some x else None) | None \<Rightarrow> None)"

definition tu_init_void :: "nat \<Rightarrow> ty list \<Rightarrow> ty \<Rightarrow> 'v tunion" where
  "tu_init_void w Ts T = \<lparr>tu_obj = None, tu_tag = type_index T Ts mod 2 ^ w\<rparr>"

definition tu_init :: "nat \<Rightarrow> ty list \<Rightarrow> ty \<Rightarrow> 'v \<Rightarrow> 'v tunion option" where
  "tu_init w Ts T x = do {
     let u = \<lparr>tu_obj = None, tu_tag = type_index T Ts mod 2 ^ w\<rparr>;
     (if \<not> ty_empty T then construct_obj T x u else Some u)
   }"

definition destroy_at_index :: "ty \<Rightarrow> 'v tunion \<Rightarrow> 'v tunion option" where
  "destroy_at_index T u =
     (if \<not> ty_void T \<and> \<not> ty_trivial T
      then do { x \<leftarrow> obj_of T u; Some (u\<lparr>tu_obj := None\<rparr>) }
      else Some (u\<lparr>tu_obj := None\<rparr>))"

definition destroy_current :: "ty list \<Rightarrow> 'v tunion \<Rightarrow> 'v tunion option" where
  "destroy_current Ts u = (case type_at (tu_tag u) Ts of Some T \<Rightarrow> destroy_at_index T u | None \<Rightarrow> Some u)"

definition copy_at_index :: "ty \<Rightarrow> 'v tunion \<Rightarrow> 'v tunion \<Rightarrow> 'v tunion option" where
  "copy_at_index T other u =
     (if \<not> ty_void T \<and> \<not> ty_empty T then do { x \<leftarrow> obj_of T other; construct_obj T x u } else Some u)"

definition copy_construct_from :: "ty list \<Rightarrow> 'v tunion \<Rightarrow> 'v tunion \<Rightarrow> 'v tunion option" where
  "copy_construct_from Ts other u =
     (case type_at (tu_tag u) Ts of Some T \<Rightarrow> copy_at_index T other u | None \<Rightarrow> Some u)"

definition move_at_index :: "('v \<Rightarrow> 'v) \<Rightarrow> ty \<Rightarrow> 'v tunion \<Rightarrow> 'v tunion \<Rightarrow> ('v tunion \<times> 'v tunion) option" where
  "move_at_index moved T other u =
     (if \<not> ty_void T \<and> \<not> ty_empty T
      then do {
        x \<leftarrow> obj_of T other;
        u \<leftarrow> construct_obj T x u;
        Some (u, other\<lparr>tu_obj := Some (T, moved x)\<rparr>)
      }
      else Some (u, other))"

definition move_construct_from ::
  "('v \<Rightarrow> 'v) \<Rightarrow> ty list \<Rightarrow> 'v tunion \<Rightarrow> 'v tunion \<Rightarrow> ('v tunion \<times> 'v tunion) option" where
  "move_construct_from moved Ts other u =
     (case type_at (tu_tag u) Ts of Some T \<Rightarrow> move_at_index moved T other u | None \<Rightarrow> Some (u, other))"

definition tu_copy :: "ty list \<Rightarrow> 'v tunion \<Rightarrow> 'v tunion option" where
  "tu_copy Ts other = copy_construct_from Ts other \<lparr>tu_obj = None, tu_tag = tu_tag other\<rparr>"

definition tu_copy_assign :: "ty list \<Rightarrow> 'v tunion \<Rightarrow> 'v tunion \<Rightarrow> 'v tunion option" where
  "tu_copy_assign Ts u other = do {
     u \<leftarrow> destroy_current Ts u;
     copy_construct_from Ts other (u\<lparr>tu_tag := tu_tag other\<rparr>)
   }"

definition tu_move :: "('v \<Rightarrow> 'v) \<Rightarrow> ty list \<Rightarrow> 'v tunion \<Rightarrow> ('v tunion \<times> 'v tunion) option" where
  "tu_move moved Ts other = move_construct_from moved Ts other \<lparr>tu_obj = None, tu_tag = tu_tag other\<rparr>"

definition tu_move_assign :: "('v \<Rightarrow> 'v) \<Rightarrow> ty list \<Rightarrow> 'v tunion \<Rightarrow> 'v tunion \<Rightarrow> ('v tunion \<times> 'v tunion) option" where
  "tu_move_assign moved Ts u other = do {
     u \<leftarrow> destroy_current Ts u;
     move_construct_from moved Ts other (u\<lparr>tu_tag := tu_tag other\<rparr>)
   }"

definition tu_is :: "ty list \<Rightarrow> ty \<Rightarrow> 'v tunion \<Rightarrow> bool" where
  "tu_is Ts T u \<longleftrightarrow> tu_tag u = type_index T Ts"

text \<open>The object a \<^verbatim>\<open>get\<close> refers to; at \<^verbatim>\<open>void\<close> there is nothing to refer to.\<close>

definition tu_get :: "bool \<Rightarrow> ty list \<Rightarrow> ty \<Rightarrow> 'v tunion \<Rightarrow> 'v option option" where
  "tu_get dbg Ts T u = do {
     fpag_dcheck dbg (tu_is Ts T u);
     (if ty_void T then Some None else do { x \<leftarrow> obj_of T u; Some (Some x) })
   }"

subsection \<open>Union\<close>

fun copy_bytes :: "nat \<Rightarrow> nat \<Rightarrow> u8 list \<Rightarrow> u8 list \<Rightarrow> u8 list option" where
  "copy_bytes i 0 src dst = Some dst"
| "copy_bytes i (Suc k) src dst =
     (if i < length src \<and> i < length dst then copy_bytes (Suc i) k src (dst[i := src ! i]) else None)"

definition union_set :: "('v \<Rightarrow> u8 list) \<Rightarrow> 'v \<Rightarrow> u8 list \<Rightarrow> u8 list option" where
  "union_set to_bytes x storage = (let bytes = to_bytes x in copy_bytes 0 (length bytes) bytes storage)"

definition union_get :: "nat \<Rightarrow> (u8 list \<Rightarrow> 'v) \<Rightarrow> u8 list \<Rightarrow> 'v option" where
  "union_get n of_bytes storage = do {
     bytes \<leftarrow> copy_bytes 0 n storage (replicate n 0);
     Some (of_bytes bytes)
   }"

section \<open>Types and tags\<close>

lemma type_at_nth: "type_at i Ts = (if i < length Ts then Some (Ts ! i) else None)"
  by (induction i Ts rule: type_at.induct) auto

lemma find_index_none: "T \<notin> set Ts \<Longrightarrow> find_index T i Ts d = d"
  by (induction Ts arbitrary: i d) auto

lemma find_index_spec:
  assumes "T \<in> set Ts"
  obtains k where "find_index T i Ts d = i + k" "k < length Ts" "Ts ! k = T" "T \<notin> set (drop (Suc k) Ts)"
  using assms
proof (induction Ts arbitrary: i d thesis)
  case (Cons S Ts)
  show ?case
  proof (cases "T \<in> set Ts")
    case True
    from Cons.IH[OF _ this, of "Suc i" "if T = S then i else d"] obtain k where
      "find_index T (Suc i) Ts (if T = S then i else d) = Suc i + k" "k < length Ts" "Ts ! k = T" "T \<notin> set (drop (Suc k) Ts)"
      by blast
    then show ?thesis by (intro Cons.prems(1)[of "Suc k"]) auto
  next
    case False
    with Cons.prems(2) show ?thesis by (intro Cons.prems(1)[of 0]) (auto simp: find_index_none)
  qed
qed simp

lemma type_index_spec:
  assumes "T \<in> set Ts"
  shows "type_index T Ts < length Ts" "Ts ! type_index T Ts = T"
  using find_index_spec[OF assms, of 0 "length Ts"] by (auto simp: type_index_def)

lemma type_index_inject: "S \<in> set Ts \<Longrightarrow> T \<in> set Ts \<Longrightarrow> type_index S Ts = type_index T Ts \<longleftrightarrow> S = T"
  by (metis type_index_spec(2))

lemma tag_type_bits_enough:
  assumes "n < 2 ^ 64"
  shows "n \<le> 2 ^ tag_type_bits n"
proof -
  have "n \<le> 2 ^ 8" if "n \<le> 255" using that by (rule order_trans) simp
  moreover have "n \<le> 2 ^ 16" if "n \<le> 65535" using that by (rule order_trans) simp
  moreover have "n \<le> 2 ^ 32" if "n \<le> 4294967295" using that by (rule order_trans) simp
  ultimately show ?thesis using less_imp_le[OF assms] unfolding tag_type_bits_def by (auto simp only: split: if_splits)
qed

lemma foldr_max_ge: "x \<in> set xs \<Longrightarrow> x \<le> foldr max xs (a :: nat)"
  by (induction xs) (auto simp: max.coboundedI2)

lemma storage_holds: "T \<in> set Ts \<Longrightarrow> safe_size_of T \<le> storage_max_size Ts \<and> safe_align_of T \<le> storage_max_align Ts"
  unfolding storage_max_size_def storage_max_align_def by (intro conjI foldr_max_ge) auto


section \<open>Type soundness\<close>

text \<open>
  \<open>tu_ok\<close>: the tag names a member type, and the storage holds an object of that type exactly when the type has
  one. \<open>tu_abs\<close> forgets the tag and the storage: a union is a type and, where the type has state, a value.
\<close>

definition tu_ok :: "ty list \<Rightarrow> 'v tunion \<Rightarrow> bool" where
  "tu_ok Ts u \<longleftrightarrow> (case type_at (tu_tag u) Ts of None \<Rightarrow> False
     | Some T \<Rightarrow> tu_tag u = type_index T Ts \<and>
        (case tu_obj u of None \<Rightarrow> ty_void T \<or> ty_empty T
         | Some (T', x) \<Rightarrow> T' = T \<and> \<not> ty_void T \<and> \<not> ty_empty T))"

definition tu_abs :: "ty list \<Rightarrow> 'v tunion \<Rightarrow> ty \<times> 'v option" where
  "tu_abs Ts u = (Ts ! tu_tag u, map_option snd (tu_obj u))"

definition no_empty_dtor :: "ty list \<Rightarrow> bool" where
  "no_empty_dtor Ts = list_all (\<lambda>T. ty_empty T \<and> \<not> ty_void T \<longrightarrow> ty_trivial T) Ts"

lemma tu_okE:
  assumes "tu_ok Ts u"
  obtains (holds) T x where "T \<in> set Ts" "u = \<lparr>tu_obj = Some (T, x), tu_tag = type_index T Ts\<rparr>"
      "type_at (type_index T Ts) Ts = Some T" "\<not> ty_void T" "\<not> ty_empty T"
    | (stateless) T where "T \<in> set Ts" "u = \<lparr>tu_obj = None, tu_tag = type_index T Ts\<rparr>"
      "type_at (type_index T Ts) Ts = Some T" "ty_void T \<or> ty_empty T"
proof -
  define T where "T = Ts ! tu_tag u"
  have T: "T = Ts ! tu_tag u" "tu_tag u < length Ts" "tu_tag u = type_index T Ts"
    and ob: "case tu_obj u of None \<Rightarrow> ty_void T \<or> ty_empty T | Some (T', x) \<Rightarrow> T' = T \<and> \<not> ty_void T \<and> \<not> ty_empty T"
    using assms unfolding tu_ok_def type_at_nth T_def[symmetric] by (auto simp: T_def[symmetric] split: if_splits)
  have "T \<in> set Ts" using T(1,2) by simp
  moreover have "type_at (type_index T Ts) Ts = Some T" using T by (simp add: type_at_nth)
  ultimately show ?thesis using T(3) ob holds[of T] stateless[of T] by (cases u; cases "tu_obj u") auto
qed

lemma type_at_index: "T \<in> set Ts \<Longrightarrow> type_at (type_index T Ts) Ts = Some T"
  using type_index_spec by (simp add: type_at_nth)

lemma tu_ok_simps:
  assumes "T \<in> set Ts"
  shows "tu_ok Ts \<lparr>tu_obj = Some (T, x), tu_tag = type_index T Ts\<rparr> \<longleftrightarrow> \<not> ty_void T \<and> \<not> ty_empty T"
    and "tu_ok Ts \<lparr>tu_obj = None, tu_tag = type_index T Ts\<rparr> \<longleftrightarrow> ty_void T \<or> ty_empty T"
    and "tu_abs Ts \<lparr>tu_obj = ob, tu_tag = type_index T Ts\<rparr> = (T, map_option snd ob)"
  using type_index_spec[OF assms] by (auto simp: tu_ok_def tu_abs_def type_at_nth)

lemmas tu_ops = construct_obj_def obj_of_def destroy_current_def destroy_at_index_def copy_construct_from_def
  copy_at_index_def move_construct_from_def move_at_index_def

lemma tag_fits: "T \<in> set Ts \<Longrightarrow> length Ts \<le> 2 ^ w \<Longrightarrow> type_index T Ts mod 2 ^ w = type_index T Ts"
  using type_index_spec(1)[of T Ts] by simp

lemma tu_init_spec:
  assumes "T \<in> set Ts" "length Ts \<le> 2 ^ w" "\<not> ty_void T"
  obtains u where "tu_init w Ts T x = Some u" "tu_ok Ts u" "tu_abs Ts u = (T, if ty_empty T then None else Some x)"
  using assms that by (cases "ty_empty T") (auto simp: tu_init_def tag_fits construct_obj_def tu_ok_simps Let_def)

lemma tu_init_void_spec:
  assumes "T \<in> set Ts" "length Ts \<le> 2 ^ w" "ty_void T"
  shows "tu_ok Ts (tu_init_void w Ts T)" "tu_abs Ts (tu_init_void w Ts T) = (T, None)"
  using assms by (simp_all add: tu_init_void_def tag_fits tu_ok_simps)

lemma tu_destroy_spec:
  assumes "tu_ok Ts u" "no_empty_dtor Ts \<or> destroy_current Ts u \<noteq> None"
  shows "destroy_current Ts u = Some (u\<lparr>tu_obj := None\<rparr>)"
  using assms(1)
proof (cases rule: tu_okE)
  case (holds T x)
  then show ?thesis by (simp add: tu_ops)
next
  case (stateless T)
  with assms(2) have "ty_void T \<or> ty_trivial T" by (auto simp: no_empty_dtor_def list_all_iff tu_ops split: if_splits)
  with stateless show ?thesis by (auto simp: tu_ops)
qed

lemma tu_copy_from_spec:
  assumes "tu_ok Ts other" "tu_obj u = None"
  shows "copy_construct_from Ts other (u\<lparr>tu_tag := tu_tag other\<rparr>) = Some other"
  using assms by (cases rule: tu_okE; cases u) (auto simp: tu_ops)

definition moved_from :: "('v \<Rightarrow> 'v) \<Rightarrow> 'v tunion \<Rightarrow> 'v tunion" where
  "moved_from moved u = u\<lparr>tu_obj := map_option (\<lambda>(T, x). (T, moved x)) (tu_obj u)\<rparr>"

lemma tu_move_from_spec:
  assumes "tu_ok Ts other" "tu_obj u = None"
  shows "move_construct_from moved Ts other (u\<lparr>tu_tag := tu_tag other\<rparr>) = Some (other, moved_from moved other)"
  using assms by (cases rule: tu_okE; cases u) (auto simp: tu_ops moved_from_def)

lemma moved_from_ok:
  assumes "tu_ok Ts u"
  shows "tu_ok Ts (moved_from moved u)" "tu_abs Ts (moved_from moved u) = map_prod id (map_option moved) (tu_abs Ts u)"
  using assms by (auto simp: moved_from_def tu_ok_def tu_abs_def option.map_comp comp_def split: option.splits)

lemma tu_ok_tag:
  assumes "tu_ok Ts u"
  shows "tu_tag u = type_index (fst (tu_abs Ts u)) Ts" "fst (tu_abs Ts u) \<in> set Ts"
  using assms by (auto simp: tu_ok_def tu_abs_def type_at_nth split: if_splits option.splits)

lemma tu_get_spec:
  assumes ok: "tu_ok Ts u" and T: "T \<in> set Ts" "tu_is Ts T u"
  shows "tu_get dbg Ts T u = (if ty_void T \<or> \<not> ty_empty T then Some (snd (tu_abs Ts u)) else None)" "fst (tu_abs Ts u) = T"
proof -
  have tag: "tu_tag u = type_index T Ts" using T(2) by (simp add: tu_is_def)
  show "fst (tu_abs Ts u) = T" using T tag type_index_spec[of T Ts] by (simp add: tu_abs_def)
  show "tu_get dbg Ts T u = (if ty_void T \<or> \<not> ty_empty T then Some (snd (tu_abs Ts u)) else None)"
    using ok
  proof (cases rule: tu_okE)
    case (holds S x)
    then have "S = T" using tag T type_index_inject by simp
    with holds T show ?thesis by (simp add: tu_get_def tu_abs_def obj_of_def)
  next
    case (stateless S)
    then have "S = T" using tag T type_index_inject by simp
    with stateless T show ?thesis by (auto simp: tu_get_def tu_abs_def obj_of_def)
  qed
qed


section \<open>Programs over unions\<close>

text \<open>
  Variables hold unions. A program constructs a variable that is not alive, and copies, moves, assigns and
  destroys those that are, which is all the language allows; other steps are skipped. On the side of the
  contract a variable holds a type and a value.
\<close>

datatype 'v tu_op = Init nat ty 'v | Init_Void nat ty | Copy nat nat | Move nat nat | Assign nat nat
  | Move_Assign nat nat | Destroy nat

fun tu_step :: "nat \<Rightarrow> ty list \<Rightarrow> ('v \<Rightarrow> 'v) \<Rightarrow> 'v tu_op \<Rightarrow> (nat \<rightharpoonup> 'v tunion) \<Rightarrow> (nat \<rightharpoonup> 'v tunion) option" where
  "tu_step w Ts moved (Init x T a) env =
     (if env x = None \<and> \<not> ty_void T \<and> contains_type T Ts
      then do { u \<leftarrow> tu_init w Ts T a; Some (env(x \<mapsto> u)) } else Some env)"
| "tu_step w Ts moved (Init_Void x T) env =
     (if env x = None \<and> ty_void T \<and> contains_type T Ts then Some (env(x \<mapsto> tu_init_void w Ts T)) else Some env)"
| "tu_step w Ts moved (Copy x y) env =
     (case (env x, env y) of (None, Some other) \<Rightarrow> do { u \<leftarrow> tu_copy Ts other; Some (env(x \<mapsto> u)) } | _ \<Rightarrow> Some env)"
| "tu_step w Ts moved (Move x y) env =
     (case (env x, env y) of
        (None, Some other) \<Rightarrow> do { (u, other) \<leftarrow> tu_move moved Ts other; Some (env(x \<mapsto> u, y \<mapsto> other)) }
      | _ \<Rightarrow> Some env)"
| "tu_step w Ts moved (Assign x y) env =
     (case (env x, env y) of
        (Some u, Some other) \<Rightarrow>
          (if x \<noteq> y then do { u \<leftarrow> tu_copy_assign Ts u other; Some (env(x \<mapsto> u)) } else Some env)
      | _ \<Rightarrow> Some env)"
| "tu_step w Ts moved (Move_Assign x y) env =
     (case (env x, env y) of
        (Some u, Some other) \<Rightarrow>
          (if x \<noteq> y then do { (u, other) \<leftarrow> tu_move_assign moved Ts u other; Some (env(x \<mapsto> u, y \<mapsto> other)) } else Some env)
      | _ \<Rightarrow> Some env)"
| "tu_step w Ts moved (Destroy x) env =
     (case env x of
        Some u \<Rightarrow> do { u \<leftarrow> destroy_current Ts u; (if tu_obj u = None then Some (env(x := None)) else None) }
      | None \<Rightarrow> Some env)"

fun tu_run :: "nat \<Rightarrow> ty list \<Rightarrow> ('v \<Rightarrow> 'v) \<Rightarrow> 'v tu_op list \<Rightarrow> (nat \<rightharpoonup> 'v tunion) \<Rightarrow> (nat \<rightharpoonup> 'v tunion) option" where
  "tu_run w Ts moved [] env = Some env"
| "tu_run w Ts moved (op # ops) env = do { env \<leftarrow> tu_step w Ts moved op env; tu_run w Ts moved ops env }"

definition give :: "('v \<Rightarrow> 'v) \<Rightarrow> ty \<times> 'v option \<Rightarrow> ty \<times> 'v option" where
  "give moved = map_prod id (map_option moved)"

fun spec_step :: "ty list \<Rightarrow> ('v \<Rightarrow> 'v) \<Rightarrow> 'v tu_op \<Rightarrow> (nat \<rightharpoonup> ty \<times> 'v option) \<Rightarrow> (nat \<rightharpoonup> ty \<times> 'v option)" where
  "spec_step Ts moved (Init x T a) env =
     (if env x = None \<and> \<not> ty_void T \<and> T \<in> set Ts then env(x \<mapsto> (T, if ty_empty T then None else Some a)) else env)"
| "spec_step Ts moved (Init_Void x T) env =
     (if env x = None \<and> ty_void T \<and> T \<in> set Ts then env(x \<mapsto> (T, None)) else env)"
| "spec_step Ts moved (Copy x y) env =
     (if env x = None \<and> env y \<noteq> None then env(x := env y) else env)"
| "spec_step Ts moved (Move x y) env =
     (if env x = None \<and> env y \<noteq> None then env(x := env y, y := map_option (give moved) (env y)) else env)"
| "spec_step Ts moved (Assign x y) env =
     (if env x \<noteq> None \<and> env y \<noteq> None then env(x := env y) else env)"
| "spec_step Ts moved (Move_Assign x y) env =
     (if env x \<noteq> None \<and> env y \<noteq> None \<and> x \<noteq> y then env(x := env y, y := map_option (give moved) (env y)) else env)"
| "spec_step Ts moved (Destroy x) env = env(x := None)"

definition env_ok :: "ty list \<Rightarrow> (nat \<rightharpoonup> 'v tunion) \<Rightarrow> bool" where
  "env_ok Ts env \<longleftrightarrow> (\<forall>x u. env x = Some u \<longrightarrow> tu_ok Ts u)"

definition env_abs :: "ty list \<Rightarrow> (nat \<rightharpoonup> 'v tunion) \<Rightarrow> (nat \<rightharpoonup> ty \<times> 'v option)" where
  "env_abs Ts env = map_option (tu_abs Ts) \<circ> env"

lemma env_simps:
  "env_ok Ts env \<Longrightarrow> tu_ok Ts u \<Longrightarrow> env_ok Ts (env(x \<mapsto> u))"
  "env_ok Ts env \<Longrightarrow> env_ok Ts (env(x := None))"
  "env_abs Ts (env(x \<mapsto> u)) = (env_abs Ts env)(x \<mapsto> tu_abs Ts u)"
  "env_abs Ts (env(x := None)) = (env_abs Ts env)(x := None)"
  "env_abs Ts env x = map_option (tu_abs Ts) (env x)"
  by (auto simp: env_ok_def env_abs_def)

lemma env_empty: "env_ok Ts Map.empty" "env_abs Ts Map.empty = Map.empty"
  by (auto simp: env_ok_def env_abs_def)

lemma env_okD: "env_ok Ts env \<Longrightarrow> env x = Some u \<Longrightarrow> tu_ok Ts u"
  by (simp add: env_ok_def)

lemma fresh_union: "\<lparr>tu_obj = None, tu_tag = t\<rparr> = \<lparr>tu_obj = None, tu_tag = 0\<rparr>\<lparr>tu_tag := t\<rparr>"
  by simp

lemma tu_copies:
  assumes "tu_ok Ts other"
  shows "tu_copy Ts other = Some other" "tu_move moved Ts other = Some (other, moved_from moved other)"
  unfolding tu_copy_def tu_move_def
  using tu_copy_from_spec[OF assms, of "\<lparr>tu_obj = None, tu_tag = 0\<rparr>"]
    tu_move_from_spec[OF assms, of "\<lparr>tu_obj = None, tu_tag = 0\<rparr>"] by simp_all

lemma tu_assigns:
  assumes "tu_ok Ts u" "tu_ok Ts other" "no_empty_dtor Ts \<or> destroy_current Ts u \<noteq> None"
  shows "tu_copy_assign Ts u other = Some other"
    "tu_move_assign moved Ts u other = Some (other, moved_from moved other)"
  unfolding tu_copy_assign_def tu_move_assign_def
  using tu_destroy_spec[OF assms(1,3)] tu_copy_from_spec[OF assms(2), of "u\<lparr>tu_obj := None\<rparr>"]
    tu_move_from_spec[OF assms(2), of "u\<lparr>tu_obj := None\<rparr>"] by simp_all

lemma contains_type_set: "contains_type T Ts \<longleftrightarrow> T \<in> set Ts"
  by (auto simp: contains_type_def list_ex_iff)

lemma tu_step_refines:
  assumes ok: "env_ok Ts env" and Ts: "no_empty_dtor Ts \<or> tu_step w Ts moved op env \<noteq> None" "length Ts \<le> 2 ^ w"
  shows "\<exists>env'. tu_step w Ts moved op env = Some env' \<and> env_ok Ts env' \<and> env_abs Ts env' = spec_step Ts moved op (env_abs Ts env)"
proof (cases op)
  case (Init x T a)
  show ?thesis
  proof (cases "env x = None \<and> \<not> ty_void T \<and> T \<in> set Ts")
    case True
    then obtain u where "tu_init w Ts T a = Some u" "tu_ok Ts u" "tu_abs Ts u = (T, if ty_empty T then None else Some a)"
      using tu_init_spec[OF _ Ts(2), of T a] by blast
    with Init True ok show ?thesis by (simp add: contains_type_set env_simps)
  qed (use Init ok in \<open>auto simp: contains_type_set env_simps\<close>)
next
  case (Init_Void x T)
  then show ?thesis using ok by (auto simp: contains_type_set env_simps tu_init_void_spec[OF _ Ts(2)])
next
  case (Copy x y)
  then show ?thesis using ok env_okD[OF ok, of y]
    by (auto simp: env_simps tu_copies split: option.splits)
next
  case (Move x y)
  then show ?thesis using ok env_okD[OF ok, of y]
    by (auto simp: env_simps give_def tu_copies moved_from_ok split: option.splits)
next
  case (Assign x y)
  then have "no_empty_dtor Ts \<or> destroy_current Ts u \<noteq> None" if "env x = Some u" "env y = Some v" "x \<noteq> y" for u v
    using Ts(1) that by (auto simp: tu_copy_assign_def)
  then show ?thesis using Assign ok env_okD[OF ok, of x] env_okD[OF ok, of y]
    by (auto simp: env_simps tu_assigns split: option.splits)
next
  case (Move_Assign x y)
  then have "no_empty_dtor Ts \<or> destroy_current Ts u \<noteq> None" if "env x = Some u" "env y = Some v" "x \<noteq> y" for u v
    using Ts(1) that by (auto simp: tu_move_assign_def)
  then show ?thesis using Move_Assign ok env_okD[OF ok, of x] env_okD[OF ok, of y]
    by (auto simp: env_simps give_def tu_assigns moved_from_ok split: option.splits)
next
  case (Destroy x)
  then have "no_empty_dtor Ts \<or> destroy_current Ts u \<noteq> None" if "env x = Some u" for u using Ts(1) that by auto
  then show ?thesis using Destroy ok env_okD[OF ok, of x]
    by (auto simp: env_simps tu_destroy_spec split: option.splits)
qed

lemma tu_run_refines:
  "env_ok Ts env \<Longrightarrow> no_empty_dtor Ts \<or> tu_run w Ts moved ops env \<noteq> None \<Longrightarrow> length Ts \<le> 2 ^ w \<Longrightarrow>
   \<exists>env'. tu_run w Ts moved ops env = Some env' \<and> env_ok Ts env'
     \<and> env_abs Ts env' = fold (spec_step Ts moved) ops (env_abs Ts env)"
proof (induction ops arbitrary: env)
  case (Cons op ops)
  then have "no_empty_dtor Ts \<or> tu_step w Ts moved op env \<noteq> None" by auto
  from tu_step_refines[OF Cons.prems(1) this Cons.prems(3)] obtain env1 where
    "tu_step w Ts moved op env = Some env1" "env_ok Ts env1" "env_abs Ts env1 = spec_step Ts moved op (env_abs Ts env)" by blast
  with Cons.IH[of env1] Cons.prems show ?case by auto
qed simp

lemma copy_bytes_spec:
  "i + k \<le> length src \<Longrightarrow> i + k \<le> length dst \<Longrightarrow>
   copy_bytes i k src dst = Some (take i dst @ take k (drop i src) @ drop (i + k) dst)"
proof (induction i k src dst rule: copy_bytes.induct)
  case (2 i k src dst)
  then have "copy_bytes i (Suc k) src dst
      = Some (take (Suc i) (dst[i := src ! i]) @ take k (drop (Suc i) src) @ drop (Suc i + k) (dst[i := src ! i]))" by simp
  moreover have "take (Suc k) (drop i src) = src ! i # take k (drop (Suc i) src)"
    using 2 by (simp flip: Cons_nth_drop_Suc)
  ultimately show ?case using 2 by (simp add: take_Suc_conv_app_nth)
qed simp

lemma union_set_get:
  assumes "length (to_bytes x) = n" "n \<le> length st" "of_bytes (to_bytes x) = x"
  shows "\<exists>st'. union_set to_bytes x st = Some st' \<and> union_get n of_bytes st' = Some x \<and> length st' = length st
    \<and> drop n st' = drop n st"
  using assms by (simp add: union_set_def union_get_def copy_bytes_spec Let_def)

text \<open>An empty member type with a destructor is never constructed and always destroyed.\<close>

lemma empty_dtor_breaks:
  assumes "T \<in> set Ts" "length Ts \<le> 2 ^ w" "ty_empty T" "\<not> ty_void T" "\<not> ty_trivial T"
  shows "tu_init w Ts T x \<bind> destroy_current Ts = None"
  using assms type_index_spec[OF assms(1)]
  by (simp add: tu_init_def tag_fits destroy_current_def type_at_nth destroy_at_index_def obj_of_def)

lemma empty_dtor_run:
  fixes moved :: "'v \<Rightarrow> 'v"
  assumes "length Ts \<le> 2 ^ w" "\<not> no_empty_dtor Ts"
  shows "\<exists>ops. tu_run w Ts moved ops Map.empty = None"
proof -
  obtain T where T: "T \<in> set Ts" "ty_empty T" "\<not> ty_void T" "\<not> ty_trivial T"
    using assms(2) by (auto simp: no_empty_dtor_def list_all_iff)
  obtain u where u: "tu_init w Ts T (undefined :: 'v) = Some u" using tu_init_spec[OF T(1) assms(1) T(3)] by metis
  then have "destroy_current Ts u = None" using empty_dtor_breaks[OF T(1) assms(1) T(2-4), of "undefined :: 'v"] by simp
  then show ?thesis using u T
    by (intro exI[of _ "[Init 0 T undefined, Destroy 0]"]) (simp add: contains_type_set)
qed

lemma tu_get_exact:
  assumes "tu_ok Ts u" "T \<in> set Ts"
  shows "(tu_is Ts T u \<longleftrightarrow> fst (tu_abs Ts u) = T) \<and> tu_get True Ts T u
    = (if fst (tu_abs Ts u) = T \<and> (ty_void T \<or> \<not> ty_empty T) then Some (snd (tu_abs Ts u)) else None)"
proof -
  have is_iff: "tu_is Ts T u \<longleftrightarrow> fst (tu_abs Ts u) = T"
    using type_index_inject[OF tu_ok_tag(2)[OF assms(1)] assms(2)] tu_ok_tag(1)[OF assms(1)] by (metis tu_is_def)
  show ?thesis
  proof (cases "tu_is Ts T u")
    case True
    then show ?thesis using tu_get_spec(1)[OF assms True] is_iff by auto
  next
    case False
    then have "tu_get True Ts T u = None" by (simp add: tu_get_def fpag_dcheck_def)
    then show ?thesis using False is_iff by auto
  qed
qed

section \<open>Properties\<close>

text \<open>
  C13. Type soundness of \<^verbatim>\<open>TaggedUnion\<close> with a tag wide enough for the number of its member types. Every program
  of constructions, copies, moves, assignments and destructions runs, without constructing over a live object,
  destroying what is not there or reading at another type, exactly when no empty member type has a destructor
  to run; otherwise some program destroys an object that was never constructed. After every program that runs,
  whatever the member types, each live variable carries the type and the value that value semantics gives it,
  its tag names that type, and a checked \<^verbatim>\<open>get\<close> at a member type returns that value exactly when the
  variable carries the type and the type is not an empty class: of an empty class there is no object to refer to.
\<close>

theorem tagged_union_sound:
  assumes "length Ts \<le> 2 ^ w"
  shows "((\<forall>ops. tu_run w Ts moved ops Map.empty \<noteq> None) \<longleftrightarrow> no_empty_dtor Ts)
    \<and> (\<forall>ops env. tu_run w Ts moved ops Map.empty = Some env \<longrightarrow>
         env_abs Ts env = fold (spec_step Ts moved) ops Map.empty
       \<and> (\<forall>x u T. env x = Some u \<longrightarrow> T \<in> set Ts \<longrightarrow>
            (tu_is Ts T u \<longleftrightarrow> fst (tu_abs Ts u) = T) \<and>
            tu_get True Ts T u = (if fst (tu_abs Ts u) = T \<and> (ty_void T \<or> \<not> ty_empty T)
              then Some (snd (tu_abs Ts u)) else None)))"
    (is "?runs \<and> ?sound")
proof
  have runs: "\<exists>env'. tu_run w Ts moved ops Map.empty = Some env' \<and> env_ok Ts env'
      \<and> env_abs Ts env' = fold (spec_step Ts moved) ops Map.empty"
    if "no_empty_dtor Ts \<or> tu_run w Ts moved ops Map.empty \<noteq> None" for ops
    using tu_run_refines[OF _ that assms] by (simp add: env_empty)
  show ?runs using runs empty_dtor_run[OF assms, of moved] by blast
  show ?sound using runs tu_get_exact env_okD by (metis option.distinct(1) option.inject)
qed

definition int_ty :: ty where
  "int_ty = \<lparr>ty_id = 1, ty_void = False, ty_empty = False, ty_trivial = True, ty_size = 4, ty_align = 4\<rparr>"
definition string_ty :: ty where
  "string_ty = \<lparr>ty_id = 2, ty_void = False, ty_empty = False, ty_trivial = False, ty_size = 32, ty_align = 8\<rparr>"

theorem tagged_union_sound_witness:
  "length [int_ty, string_ty] \<le> 2 ^ 8 \<and>
   (\<exists>env. tu_run 8 [int_ty, string_ty] id [Init 0 int_ty (7 :: nat), Init 1 string_ty 9, Assign 0 1] Map.empty = Some env
     \<and> env_abs [int_ty, string_ty] env 0 = Some (string_ty, Some 9))"
proof -
  let ?ops = "[Init 0 int_ty (7 :: nat), Init 1 string_ty 9, Assign 0 1]"
  have types: "no_empty_dtor [int_ty, string_ty]" "length [int_ty, string_ty] \<le> 2 ^ 8"
    by (simp_all add: no_empty_dtor_def int_ty_def string_ty_def)
  note sound = tagged_union_sound[OF types(2), of "id :: nat \<Rightarrow> nat"]
  obtain env where run: "tu_run 8 [int_ty, string_ty] id ?ops Map.empty = Some env"
    using iffD2[OF conjunct1[OF sound] types(1)] by blast
  have "int_ty \<noteq> string_ty" "\<not> ty_void int_ty" "\<not> ty_void string_ty" "\<not> ty_empty string_ty"
    by (simp_all add: int_ty_def string_ty_def)
  moreover have "env_abs [int_ty, string_ty] env = fold (spec_step [int_ty, string_ty] id) ?ops Map.empty"
    using conjunct2[OF sound] run by blast
  ultimately show ?thesis using run types(2) by auto
qed

end
