(* ===== verification/File_System.thy ===== *)
theory File_System
  imports Text
begin

text \<open>
  Files as \<^verbatim>\<open>src/io/io_util.cc\<close> uses them on a POSIX system. The kernel is not part of the repository. Its
  state is what the calls show of it: names, the nodes they stand for, and open descriptors. What it is free to
  decide comes from a list of answers, one for each call: to refuse the call, to transfer fewer bytes than
  asked, or to do all of it; when the list is used up every call is done in full. A result that holds for
  every list of answers holds for every behaviour of the kernel that the manual pages allow: an \<^verbatim>\<open>open\<close> that
  succeeds gives a descriptor not in use, a \<^verbatim>\<open>read\<close> or \<^verbatim>\<open>write\<close> that succeeds moves at least one byte when
  there is one to move, and a refused call changes nothing. Characters are bytes.
\<close>

section \<open>Definitions\<close>

subsection \<open>The kernel\<close>

datatype answer = Refuse | Short nat | Full

datatype node = Reg string | Dir

record fd_entry =
  fd_ino :: nat
  fd_offset :: nat
  fd_writable :: bool

record fs =
  fs_names :: "string \<Rightarrow> nat option"
  fs_nodes :: "nat \<Rightarrow> node option"
  fs_fds :: "int \<Rightarrow> fd_entry option"
  fs_next_ino :: nat
  fs_next_fd :: nat
  fs_answers :: "answer list"

definition next_answer :: "fs \<Rightarrow> answer \<times> fs" where
  "next_answer s = (case fs_answers s of [] \<Rightarrow> (Full, s) | a # as \<Rightarrow> (a, s\<lparr>fs_answers := as\<rparr>))"

definition node_of :: "string \<Rightarrow> fs \<Rightarrow> node option" where
  "node_of path s = Option.bind (fs_names s path) (fs_nodes s)"

definition content :: "string \<Rightarrow> fs \<Rightarrow> string option" where
  "content path s = (case node_of path s of Some (Reg c) \<Rightarrow> Some c | _ \<Rightarrow> None)"

definition new_fd :: "nat \<Rightarrow> bool \<Rightarrow> fs \<Rightarrow> int \<times> fs" where
  "new_fd ino writable s = (int (fs_next_fd s),
     s\<lparr>fs_fds := (fs_fds s)(int (fs_next_fd s) \<mapsto> \<lparr>fd_ino = ino, fd_offset = 0, fd_writable = writable\<rparr>),
       fs_next_fd := fs_next_fd s + 1\<rparr>)"

record open_flags =
  of_write :: bool
  of_creat :: bool
  of_trunc :: bool
  of_excl :: bool

abbreviation O_RDONLY :: open_flags where
  "O_RDONLY \<equiv> \<lparr>of_write = False, of_creat = False, of_trunc = False, of_excl = False\<rparr>"

definition sys_open :: "string \<Rightarrow> open_flags \<Rightarrow> fs \<Rightarrow> int \<times> fs" where
  "sys_open path fl s = (let (a, s) = next_answer s in
     if a = Refuse then (- 1, s)
     else case fs_names s path of
       None \<Rightarrow>
         (if \<not> of_creat fl then (- 1, s)
          else new_fd (fs_next_ino s) (of_write fl)
                 (s\<lparr>fs_names := (fs_names s)(path \<mapsto> fs_next_ino s),
                    fs_nodes := (fs_nodes s)(fs_next_ino s \<mapsto> Reg []), fs_next_ino := fs_next_ino s + 1\<rparr>))
     | Some ino \<Rightarrow>
         (if of_creat fl \<and> of_excl fl then (- 1, s)
          else case fs_nodes s ino of
            Some (Reg c) \<Rightarrow>
              new_fd ino (of_write fl) (if of_trunc fl then s\<lparr>fs_nodes := (fs_nodes s)(ino \<mapsto> Reg [])\<rparr> else s)
          | _ \<Rightarrow> (if of_write fl then (- 1, s) else new_fd ino False s)))"

definition sys_close :: "int \<Rightarrow> fs \<Rightarrow> fs" where
  "sys_close fd s = s\<lparr>fs_fds := (fs_fds s)(fd := None)\<rparr>"

fun moved :: "answer \<Rightarrow> nat \<Rightarrow> nat" where
  "moved Refuse n = 0"
| "moved (Short k) n = min (Suc k) n"
| "moved Full n = n"

definition sys_read :: "int \<Rightarrow> nat \<Rightarrow> fs \<Rightarrow> (int \<times> string) \<times> fs" where
  "sys_read fd n s = (let (a, s) = next_answer s in
     if a = Refuse then ((- 1, []), s)
     else case fs_fds s fd of
       None \<Rightarrow> ((- 1, []), s)
     | Some e \<Rightarrow> (case fs_nodes s (fd_ino e) of
         Some (Reg c) \<Rightarrow>
           (let bytes = take (moved a (min n (length c - fd_offset e))) (drop (fd_offset e) c)
            in ((int (length bytes), bytes),
                s\<lparr>fs_fds := (fs_fds s)(fd \<mapsto> e\<lparr>fd_offset := fd_offset e + length bytes\<rparr>)\<rparr>))
       | _ \<Rightarrow> ((- 1, []), s)))"

definition store_at :: "nat \<Rightarrow> string \<Rightarrow> string \<Rightarrow> string" where
  "store_at off bytes c =
     take off c @ replicate (off - length c) CHR 0x00 @ bytes @ drop (off + length bytes) c"

definition sys_write :: "int \<Rightarrow> string \<Rightarrow> fs \<Rightarrow> int \<times> fs" where
  "sys_write fd bytes s = (let (a, s) = next_answer s in
     if a = Refuse then (- 1, s)
     else case fs_fds s fd of
       None \<Rightarrow> (- 1, s)
     | Some e \<Rightarrow> (case fs_nodes s (fd_ino e) of
         Some (Reg c) \<Rightarrow>
           (if \<not> fd_writable e then (- 1, s)
            else let bytes = take (moved a (length bytes)) bytes in
              (int (length bytes),
               s\<lparr>fs_nodes := (fs_nodes s)(fd_ino e \<mapsto> Reg (store_at (fd_offset e) bytes c)),
                 fs_fds := (fs_fds s)(fd \<mapsto> e\<lparr>fd_offset := fd_offset e + length bytes\<rparr>)\<rparr>))
       | _ \<Rightarrow> (- 1, s)))"

definition sys_stat :: "string \<Rightarrow> fs \<Rightarrow> node option \<times> fs" where
  "sys_stat path s = (let (a, s) = next_answer s in if a = Refuse then (None, s) else (node_of path s, s))"

definition sys_fstat :: "int \<Rightarrow> fs \<Rightarrow> node option \<times> fs" where
  "sys_fstat fd s = (let (a, s) = next_answer s in
     if a = Refuse then (None, s)
     else (case fs_fds s fd of Some e \<Rightarrow> fs_nodes s (fd_ino e) | None \<Rightarrow> None, s))"

definition sys_ftruncate :: "int \<Rightarrow> nat \<Rightarrow> fs \<Rightarrow> bool \<times> fs" where
  "sys_ftruncate fd n s = (let (a, s) = next_answer s in
     if a = Refuse then (False, s)
     else case fs_fds s fd of
       None \<Rightarrow> (False, s)
     | Some e \<Rightarrow> (case fs_nodes s (fd_ino e) of
         Some (Reg c) \<Rightarrow>
           (if fd_writable e
            then (True, s\<lparr>fs_nodes := (fs_nodes s)(fd_ino e \<mapsto> Reg (take n c @ replicate (n - length c) CHR 0x00))\<rparr>)
            else (False, s))
       | _ \<Rightarrow> (False, s)))"

definition sys_unlink :: "string \<Rightarrow> fs \<Rightarrow> bool \<times> fs" where
  "sys_unlink path s = (let (a, s) = next_answer s in
     if a = Refuse then (False, s)
     else case node_of path s of
       Some (Reg _) \<Rightarrow> (True, s\<lparr>fs_names := (fs_names s)(path := None)\<rparr>)
     | _ \<Rightarrow> (False, s))"

definition sys_rmdir :: "string \<Rightarrow> fs \<Rightarrow> bool \<times> fs" where
  "sys_rmdir path s = (let (a, s) = next_answer s in
     if a = Refuse then (False, s)
     else case node_of path s of
       Some Dir \<Rightarrow> (True, s\<lparr>fs_names := (fs_names s)(path := None)\<rparr>)
     | _ \<Rightarrow> (False, s))"

text \<open>\<^verbatim>\<open>mkdir\<close> answers whether it made the directory and, when not, whether the name was taken.\<close>

definition sys_mkdir :: "string \<Rightarrow> fs \<Rightarrow> (bool \<times> bool) \<times> fs" where
  "sys_mkdir path s = (let (a, s) = next_answer s in
     if a = Refuse then ((False, False), s)
     else case fs_names s path of
       Some _ \<Rightarrow> ((False, True), s)
     | None \<Rightarrow> ((True, False), s\<lparr>fs_names := (fs_names s)(path \<mapsto> fs_next_ino s),
         fs_nodes := (fs_nodes s)(fs_next_ino s \<mapsto> Dir), fs_next_ino := fs_next_ino s + 1\<rparr>))"

definition sys_rename :: "string \<Rightarrow> string \<Rightarrow> fs \<Rightarrow> bool \<times> fs" where
  "sys_rename old_path new_path s = (let (a, s) = next_answer s in
     if a = Refuse then (False, s)
     else case (node_of old_path s, node_of new_path s) of
       (Some (Reg _), Some Dir) \<Rightarrow> (False, s)
     | (Some Dir, Some (Reg _)) \<Rightarrow> (False, s)
     | (Some _, _) \<Rightarrow> (True, s\<lparr>fs_names := ((fs_names s)(old_path := None))(new_path := fs_names s old_path)\<rparr>)
     | (None, _) \<Rightarrow> (False, s))"

subsection \<open>io\_util\<close>

definition STDOUT_FD :: int where "STDOUT_FD = 1"
definition STDERR_FD :: int where "STDERR_FD = 2"

definition io_write :: "int \<Rightarrow> string \<Rightarrow> fs \<Rightarrow> fs" where
  "io_write fd bytes s = snd (sys_write fd bytes s)"

definition io_read :: "int \<Rightarrow> nat \<Rightarrow> fs \<Rightarrow> (int \<times> string) \<times> fs" where
  "io_read fd n s = sys_read fd n s"

definition is_file :: "string \<Rightarrow> fs \<Rightarrow> bool \<times> fs" where
  "is_file path s = (let (st, s) = sys_stat path s in (case st of Some (Reg _) \<Rightarrow> True | _ \<Rightarrow> False, s))"

definition is_dir :: "string \<Rightarrow> fs \<Rightarrow> bool \<times> fs" where
  "is_dir path s = (let (st, s) = sys_stat path s in (st = Some Dir, s))"

definition io_open :: "string \<Rightarrow> open_flags \<Rightarrow> fs \<Rightarrow> int \<times> fs" where
  "io_open path fl s = sys_open path fl s"

definition DEFAULT_FLAGS :: open_flags where
  "DEFAULT_FLAGS = \<lparr>of_write = True, of_creat = True, of_trunc = True, of_excl = False\<rparr>"

definition io_open_default :: "string \<Rightarrow> fs \<Rightarrow> int \<times> fs" where
  "io_open_default path s = io_open path DEFAULT_FLAGS s"

definition io_close :: "int \<Rightarrow> fs \<Rightarrow> fs" where
  "io_close fd s = (if fd < 0 then s else sys_close fd s)"

definition scoped_fd_reset :: "int \<Rightarrow> int \<Rightarrow> fs \<Rightarrow> int \<times> fs" where
  "scoped_fd_reset fd fresh s = (fresh, if fd \<noteq> - 1 then io_close fd s else s)"

definition scoped_fd_move_assign :: "int \<Rightarrow> int \<Rightarrow> fs \<Rightarrow> int \<times> int \<times> fs" where
  "scoped_fd_move_assign fd other s = (let (_, s) = scoped_fd_reset fd (- 1) s in (other, - 1, s))"

definition scoped_fd_end :: "int \<Rightarrow> fs \<Rightarrow> fs" where
  "scoped_fd_end fd s = snd (scoped_fd_reset fd (- 1) s)"

definition create_file :: "string \<Rightarrow> bool \<Rightarrow> fs \<Rightarrow> bool \<times> fs" where
  "create_file path exist_ok s =
     (let (fd, s) = io_open path \<lparr>of_write = True, of_creat = True, of_trunc = exist_ok, of_excl = \<not> exist_ok\<rparr> s;
          ok = (fd \<noteq> - 1)
      in (ok, scoped_fd_end fd s))"

definition create_directory :: "string \<Rightarrow> bool \<Rightarrow> fs \<Rightarrow> bool \<times> fs" where
  "create_directory path exist_ok s =
     (let ((ok, taken), s) = sys_mkdir path s
      in if ok then (True, s) else if exist_ok \<and> taken then is_dir path s else (False, s))"

definition remove_file :: "string \<Rightarrow> fs \<Rightarrow> bool \<times> fs" where
  "remove_file path s = sys_unlink path s"

definition remove_directory :: "string \<Rightarrow> fs \<Rightarrow> bool \<times> fs" where
  "remove_directory path s = sys_rmdir path s"

definition rename_file :: "string \<Rightarrow> string \<Rightarrow> fs \<Rightarrow> bool \<times> fs" where
  "rename_file old_path new_path s = sys_rename old_path new_path s"

definition ISIZE_MAX :: int where "ISIZE_MAX = 2 ^ 63 - 1"

definition file_size :: "string \<Rightarrow> fs \<Rightarrow> int \<times> fs" where
  "file_size path s =
     (let (file, s) = is_file path s in
      if \<not> file then (- 1, s)
      else let (fd, s) = io_open path O_RDONLY s in
      if fd = - 1 then (- 1, scoped_fd_end fd s)
      else let (st, s) = sys_fstat fd s in
      case st of
        None \<Rightarrow> (- 1, scoped_fd_end fd s)
      | Some nd \<Rightarrow>
          (let size = (case nd of Reg c \<Rightarrow> int (length c) | Dir \<Rightarrow> 0)
           in (if size < 0 \<or> size > ISIZE_MAX then - 1 else size, scoped_fd_end fd s)))"

function read_loop :: "int \<Rightarrow> nat \<Rightarrow> string \<Rightarrow> fs \<Rightarrow> string \<times> fs" where
  "read_loop fd remaining result s =
     (if remaining = 0 then (result, s)
      else let ((bytes, got), s) = sys_read fd remaining s
           in if bytes \<le> 0 then (result, s) else read_loop fd (remaining - nat bytes) (result @ got) s)"
  by pat_completeness auto
termination by (relation "measure (\<lambda>(fd, remaining, result, s). remaining)") auto

declare read_loop.simps [simp del]

definition read_file :: "string \<Rightarrow> fs \<Rightarrow> string \<times> fs" where
  "read_file path s =
     (let (size, s) = file_size path s in
      if size \<le> 0 then ([], s)
      else let (fd, s) = io_open path O_RDONLY s in
      if fd = - 1 then ([], scoped_fd_end fd s)
      else let (result, s) = read_loop fd (nat size) [] s in (result, scoped_fd_end fd s))"

function write_loop :: "int \<Rightarrow> string \<Rightarrow> fs \<Rightarrow> bool \<times> fs" where
  "write_loop fd rest s =
     (if rest = [] then (True, s)
      else let (bytes, s) = sys_write fd rest s
           in if bytes \<le> 0 then (False, s) else write_loop fd (drop (nat bytes) rest) s)"
  by pat_completeness auto
termination by (relation "measure (\<lambda>(fd, rest, s). length rest)") auto

declare write_loop.simps [simp del]

definition write_file :: "string \<Rightarrow> string \<Rightarrow> fs \<Rightarrow> bool \<times> fs" where
  "write_file data output_path s =
     (if data = [] then (False, s)
      else let (fd, s) = io_open output_path DEFAULT_FLAGS s in
      if fd = - 1 then (False, scoped_fd_end fd s)
      else let (ok, s) = write_loop fd data s in (ok, scoped_fd_end fd s))"


section \<open>Well-formed file systems\<close>

definition fs_ok :: "fs \<Rightarrow> bool" where
  "fs_ok s \<longleftrightarrow> (\<forall>fd e. fs_fds s fd = Some e \<longrightarrow> 0 \<le> fd \<and> fd < int (fs_next_fd s) \<and> fd_ino e < fs_next_ino s)
     \<and> (\<forall>path ino. fs_names s path = Some ino \<longrightarrow> ino < fs_next_ino s \<and> fs_nodes s ino \<noteq> None)
     \<and> inj_on (fs_names s) (dom (fs_names s))"

definition no_refusal :: "fs \<Rightarrow> bool" where "no_refusal s = list_all (\<lambda>a. a \<noteq> Refuse) (fs_answers s)"

lemma fs_ok_fresh: "fs_ok s \<Longrightarrow> fs_fds s (int (fs_next_fd s)) = None"
  by (cases "fs_fds s (int (fs_next_fd s))") (auto simp: fs_ok_def)

lemma fs_ok_new_fd: "fs_ok s \<Longrightarrow> ino < fs_next_ino s \<Longrightarrow> fs_ok (snd (new_fd ino w s))"
  by (auto simp: fs_ok_def new_fd_def split: if_splits) fastforce+

lemma fs_ok_create:
  assumes "fs_ok s" "fs_names s path = None"
  shows "fs_ok (s\<lparr>fs_names := (fs_names s)(path \<mapsto> fs_next_ino s), fs_nodes := (fs_nodes s)(fs_next_ino s \<mapsto> nd),
    fs_next_ino := fs_next_ino s + 1\<rparr>)"
proof -
  have "fs_names s q \<noteq> Some (fs_next_ino s)" for q using assms(1) by (auto simp: fs_ok_def)
  then have "inj_on ((fs_names s)(path \<mapsto> fs_next_ino s)) (dom ((fs_names s)(path \<mapsto> fs_next_ino s)))"
    using assms by (auto simp: fs_ok_def inj_on_def dom_def)
  then show ?thesis using assms(1) unfolding fs_ok_def by (auto simp: less_Suc_eq split: if_splits)
qed

lemma fs_ok_put: "fs_ok s \<Longrightarrow> fs_ok (s\<lparr>fs_nodes := (fs_nodes s)(ino \<mapsto> nd)\<rparr>)"
  by (auto simp: fs_ok_def)

lemma fs_ok_shrink:
  assumes "fs_ok t" "fs_names s = fs_names t" "fs_next_fd s = fs_next_fd t" "fs_next_ino s = fs_next_ino t"
    "\<And>i. fs_nodes t i \<noteq> None \<Longrightarrow> fs_nodes s i \<noteq> None"
    "\<And>fd e. fs_fds s fd = Some e \<Longrightarrow> \<exists>e'. fs_fds t fd = Some e' \<and> fd_ino e' = fd_ino e"
  shows "fs_ok s"
  using assms(1) unfolding fs_ok_def assms(2-4) by (metis assms(5,6))

lemma next_answer_frame:
  assumes "next_answer s = (a, s')"
  shows "fs_names s' = fs_names s" "fs_nodes s' = fs_nodes s" "fs_fds s' = fs_fds s" "fs_next_fd s' = fs_next_fd s"
    "fs_next_ino s' = fs_next_ino s" "no_refusal s \<Longrightarrow> a \<noteq> Refuse \<and> no_refusal s'" "fs_ok s' = fs_ok s"
    "node_of path s' = node_of path s"
  using assms by (auto simp: next_answer_def no_refusal_def fs_ok_def node_of_def split: list.splits)

lemma no_refusal_frame: "fs_answers s' = fs_answers s \<Longrightarrow> no_refusal s' = no_refusal s"
  by (simp add: no_refusal_def)

subsection \<open>Transfers\<close>

lemma store_at_end: "off = length c \<Longrightarrow> store_at off bytes c = c @ bytes"
  by (simp add: store_at_def)

lemma moved_le: "moved a n \<le> n"
  by (cases a) auto

lemma moved_pos: "a \<noteq> Refuse \<Longrightarrow> 0 < n \<Longrightarrow> 0 < moved a n"
  by (cases a) auto

definition advanced :: "int \<Rightarrow> fd_entry \<Rightarrow> nat \<Rightarrow> fs \<Rightarrow> fs \<Rightarrow> bool" where
  "advanced fd e k s s' \<longleftrightarrow> fs_names s' = fs_names s \<and> fs_next_fd s' = fs_next_fd s \<and> fs_next_ino s' = fs_next_ino s
     \<and> fs_fds s' = (fs_fds s)(fd \<mapsto> e\<lparr>fd_offset := fd_offset e + k\<rparr>) \<and> (no_refusal s \<longrightarrow> no_refusal s')"

lemma sys_read_spec:
  assumes "fs_fds s fd = Some e" "fs_nodes s (fd_ino e) = Some (Reg c)" "fd_offset e \<le> length c" "sys_read fd n s = ((r, got), s')"
  obtains k where "k \<le> n" "fd_offset e + k \<le> length c" "got = take k (drop (fd_offset e) c)" "advanced fd e k s s'"
    "fs_nodes s' = fs_nodes s" "r \<le> 0 \<longleftrightarrow> k = 0" "r > 0 \<Longrightarrow> r = int k"
    "no_refusal s \<Longrightarrow> 0 < n \<Longrightarrow> fd_offset e < length c \<Longrightarrow> 0 < k"
proof -
  obtain a t where ans: "next_answer s = (a, t)" by fastforce
  note fr = next_answer_frame[OF ans]
  show ?thesis
  proof (cases "a = Refuse")
    case True
    then show ?thesis using assms ans fr
      by (intro that[of 0]) (auto simp: sys_read_def advanced_def fun_upd_idem)
  next
    case False
    let ?k = "moved a (min n (length c - fd_offset e))"
    have le: "?k \<le> n" "fd_offset e + ?k \<le> length c"
      using moved_le[of a "min n (length c - fd_offset e)"] assms(3) by auto
    have len: "min (length c - fd_offset e) ?k = ?k" using le(2) by simp
    have res: "r = int ?k" "got = take ?k (drop (fd_offset e) c)"
      "s' = t\<lparr>fs_fds := (fs_fds t)(fd \<mapsto> e\<lparr>fd_offset := fd_offset e + ?k\<rparr>)\<rparr>"
      using assms(1,2,4) False ans fr(2,3) len by (simp_all add: sys_read_def Let_def)
    then have "advanced fd e ?k s s'" "fs_nodes s' = fs_nodes s"
      using fr by (simp_all add: advanced_def no_refusal_def)
    then show ?thesis using le res(1,2) moved_pos[OF False, of "min n (length c - fd_offset e)"] by (intro that[of ?k]) auto
  qed
qed

lemma advanced_trans:
  "advanced fd e k s t \<Longrightarrow> advanced fd (e\<lparr>fd_offset := fd_offset e + k\<rparr>) m t u \<Longrightarrow> advanced fd e (k + m) s u"
  by (auto simp: advanced_def add.assoc)

lemma read_loop_spec:
  assumes "fs_fds s fd = Some e" "fs_nodes s (fd_ino e) = Some (Reg c)" "fd_offset e + remaining = length c"
  shows "\<exists>k s'. read_loop fd remaining result s = (result @ take k (drop (fd_offset e) c), s') \<and> advanced fd e k s s'
     \<and> k \<le> remaining \<and> fs_nodes s' = fs_nodes s \<and> (no_refusal s \<longrightarrow> k = remaining)"
  using assms
proof (induction remaining arbitrary: result s e rule: less_induct)
  case (less remaining)
  show ?case
  proof (cases "remaining = 0")
    case True
    then show ?thesis using less.prems
      by (intro exI[of _ 0] exI[of _ s]) (auto simp: read_loop.simps advanced_def fun_upd_idem)
  next
    case False
    obtain r got t where rd: "sys_read fd remaining s = ((r, got), t)" by (metis prod.collapse)
    have off: "fd_offset e \<le> length c" using less.prems(3) by simp
    show ?thesis
    proof (rule sys_read_spec[OF less.prems(1,2) off rd])
      fix k assume k: "k \<le> remaining" "fd_offset e + k \<le> length c" "got = take k (drop (fd_offset e) c)"
        "advanced fd e k s t" "fs_nodes t = fs_nodes s" "r \<le> 0 \<longleftrightarrow> k = 0" "r > 0 \<Longrightarrow> r = int k"
        "no_refusal s \<Longrightarrow> 0 < remaining \<Longrightarrow> fd_offset e < length c \<Longrightarrow> 0 < k"
      show ?thesis
      proof (cases "r \<le> 0")
        case True
        then show ?thesis using k rd False less.prems(3)
          by (intro exI[of _ 0] exI[of _ t]) (auto simp: read_loop.simps[of fd remaining])
      next
        case r: False
        let ?e = "e\<lparr>fd_offset := fd_offset e + k\<rparr>"
        have "remaining - k < remaining" using r k False by auto
        from less.IH[OF this, of t ?e "result @ got"] obtain m u where
          rec: "read_loop fd (remaining - k) (result @ got) t = (result @ got @ take m (drop (fd_offset e + k) c), u)"
          "advanced fd ?e m t u" "m \<le> remaining - k" "fs_nodes u = fs_nodes t" "no_refusal t \<longrightarrow> m = remaining - k"
          using less.prems k by (auto simp: advanced_def)
        have "read_loop fd remaining result s = (result @ take (k + m) (drop (fd_offset e) c), u)"
          using r k rd rec(1) False by (simp add: read_loop.simps[of fd remaining] take_add add.commute)
        then show ?thesis using k rec advanced_trans[OF k(4) rec(2)]
          by (intro exI[of _ "k + m"] exI[of _ u]) (auto simp: advanced_def)
      qed
    qed
  qed
qed


lemma sys_write_spec:
  assumes "fs_fds s fd = Some e" "fs_nodes s (fd_ino e) = Some (Reg c)" "fd_offset e = length c" "fd_writable e"
    "sys_write fd bytes s = (r, s')"
  obtains k where "k \<le> length bytes" "advanced fd e k s s'" "fs_nodes s' = (fs_nodes s)(fd_ino e \<mapsto> Reg (c @ take k bytes))"
    "r \<le> 0 \<longleftrightarrow> k = 0" "r > 0 \<Longrightarrow> r = int k" "no_refusal s \<Longrightarrow> bytes \<noteq> [] \<Longrightarrow> 0 < k"
proof -
  obtain a t where ans: "next_answer s = (a, t)" by fastforce
  note fr = next_answer_frame[OF ans]
  show ?thesis
  proof (cases "a = Refuse")
    case True
    then show ?thesis using assms ans fr
      by (intro that[of 0]) (auto simp: sys_write_def advanced_def fun_upd_idem)
  next
    case False
    let ?k = "moved a (length bytes)"
    have le: "?k \<le> length bytes" by (rule moved_le)
    then have len: "length (take ?k bytes) = ?k" by simp
    show ?thesis using False assms ans fr le len moved_pos[of a "length bytes"]
      by (intro that[of ?k]) (auto simp: sys_write_def advanced_def Let_def no_refusal_def store_at_end)
  qed
qed

lemma write_loop_spec:
  assumes "fs_fds s fd = Some e" "fs_nodes s (fd_ino e) = Some (Reg c)" "fd_offset e = length c" "fd_writable e"
  shows "\<exists>ok k s'. write_loop fd rest s = (ok, s') \<and> advanced fd e k s s' \<and> k \<le> length rest
     \<and> fs_nodes s' = (fs_nodes s)(fd_ino e \<mapsto> Reg (c @ take k rest)) \<and> (ok \<longleftrightarrow> k = length rest) \<and> (no_refusal s \<longrightarrow> ok)"
  using assms
proof (induction "length rest" arbitrary: rest s e c rule: less_induct)
  case less
  show ?case
  proof (cases "rest = []")
    case True
    then show ?thesis using less.prems
      by (intro exI[of _ True] exI[of _ 0] exI[of _ s]) (auto simp: write_loop.simps advanced_def fun_upd_idem)
  next
    case False
    obtain r t where wr: "sys_write fd rest s = (r, t)" by fastforce
    show ?thesis
    proof (rule sys_write_spec[OF less.prems wr])
      fix k assume k: "k \<le> length rest" "advanced fd e k s t" "fs_nodes t = (fs_nodes s)(fd_ino e \<mapsto> Reg (c @ take k rest))"
        "r \<le> 0 \<longleftrightarrow> k = 0" "r > 0 \<Longrightarrow> r = int k" "no_refusal s \<Longrightarrow> rest \<noteq> [] \<Longrightarrow> 0 < k"
      show ?thesis
      proof (cases "r \<le> 0")
        case True
        then show ?thesis using k wr False
          by (intro exI[of _ False] exI[of _ 0] exI[of _ t]) (auto simp: write_loop.simps[of fd rest])
      next
        case r: False
        let ?e = "e\<lparr>fd_offset := fd_offset e + k\<rparr>"
        have "length (drop k rest) < length rest" using r k False by (cases rest) auto
        from less.hyps[OF this, of t ?e "c @ take k rest"] obtain ok m u where
          rec: "write_loop fd (drop k rest) t = (ok, u)" "advanced fd ?e m t u" "m \<le> length rest - k"
          "fs_nodes u = (fs_nodes t)(fd_ino e \<mapsto> Reg ((c @ take k rest) @ take m (drop k rest)))"
          "ok \<longleftrightarrow> m = length rest - k" "no_refusal t \<longrightarrow> ok"
          using less.prems k by (auto simp: advanced_def min_absorb2)
        have "write_loop fd rest s = (ok, u)"
          using r k wr rec(1) False by (simp add: write_loop.simps[of fd rest])
        then show ?thesis using k rec advanced_trans[OF k(2) rec(2)]
          by (intro exI[of _ ok] exI[of _ "k + m"] exI[of _ u]) (auto simp: advanced_def take_add)
      qed
    qed
  qed
qed

subsection \<open>Opening and closing\<close>

lemma sys_open_existing:
  assumes ok: "fs_ok s" and "content path s = Some c" and op: "sys_open path O_RDONLY s = (fd, s')"
  obtains (refused) "fd = - 1" "\<not> no_refusal s" "fs_names s' = fs_names s" "fs_nodes s' = fs_nodes s" "fs_fds s' = fs_fds s"
    | (opened) e where "fd \<ge> 0" "fs_fds s fd = None" "fs_fds s' = (fs_fds s)(fd \<mapsto> e)" "fd_offset e = 0"
      "fs_nodes s' (fd_ino e) = Some (Reg c)" "fs_names s path = Some (fd_ino e)"
      "fs_names s' = fs_names s" "fs_nodes s' = fs_nodes s" "no_refusal s \<Longrightarrow> no_refusal s'"
proof -
  obtain a t where ans: "next_answer s = (a, t)" by fastforce
  note fr = next_answer_frame[OF ans]
  obtain ino where ino: "fs_names s path = Some ino" "fs_nodes s ino = Some (Reg c)"
    using assms(2) by (auto simp: content_def node_of_def bind_eq_Some_conv split: option.splits node.splits)
  show ?thesis
  proof (cases "a = Refuse")
    case True
    then show ?thesis using op ans fr by (intro refused) (auto simp: sys_open_def)
  next
    case False
    with op ans fr ino fs_ok_fresh[OF ok] show ?thesis
      by (intro opened[of "\<lparr>fd_ino = ino, fd_offset = 0, fd_writable = False\<rparr>"])
        (auto simp: sys_open_def new_fd_def no_refusal_def)
  qed
qed

lemma sys_open_writing:
  assumes ok: "fs_ok s" and op: "sys_open path DEFAULT_FLAGS s = (fd, s')"
  obtains (refused) "fd = - 1" "\<not> no_refusal s \<or> node_of path s = Some Dir" "fs_fds s' = fs_fds s"
    | (opened) e where "fd \<ge> 0" "fs_fds s fd = None" "fs_fds s' = (fs_fds s)(fd \<mapsto> e)" "fd_offset e = 0" "fd_writable e"
      "fs_nodes s' = (fs_nodes s)(fd_ino e \<mapsto> Reg [])" "fs_names s' = (fs_names s)(path \<mapsto> fd_ino e)"
      "fs_ok s'" "no_refusal s \<Longrightarrow> no_refusal s'" "\<And>q. q \<noteq> path \<Longrightarrow> fs_names s q \<noteq> Some (fd_ino e)"
proof -
  obtain a t where ans: "next_answer s = (a, t)" by fastforce
  note fr = next_answer_frame[OF ans]
  have okt: "fs_ok t" and fresh: "fs_fds t (int (fs_next_fd t)) = None" using fr ok fs_ok_fresh[of t] by simp_all
  consider "a = Refuse" | "a \<noteq> Refuse" "fs_names s path = None"
    | ino c where "a \<noteq> Refuse" "fs_names s path = Some ino" "fs_nodes s ino = Some (Reg c)"
    | ino where "a \<noteq> Refuse" "fs_names s path = Some ino" "fs_nodes s ino = Some Dir"
    using ok by (metis fs_ok_def node.exhaust not_None_eq)
  then show ?thesis
  proof cases
    case 1
    then show ?thesis using op ans fr by (intro refused) (auto simp: sys_open_def)
  next
    case 2
    let ?u = "t\<lparr>fs_names := (fs_names t)(path \<mapsto> fs_next_ino t), fs_nodes := (fs_nodes t)(fs_next_ino t \<mapsto> Reg []),
      fs_next_ino := fs_next_ino t + 1\<rparr>"
    have res: "(fd, s') = new_fd (fs_next_ino t) True ?u" using 2 op ans fr by (simp add: sys_open_def DEFAULT_FLAGS_def)
    moreover have "fs_ok ?u" using okt fr 2 by (intro fs_ok_create) simp_all
    then have "fs_ok (snd (new_fd (fs_next_ino t) True ?u))" by (rule fs_ok_new_fd) simp
    moreover have "fs_names s q \<noteq> Some (fs_next_ino t)" for q using ok fr by (auto simp: fs_ok_def)
    ultimately show ?thesis using fr fresh
      by (intro opened[of "\<lparr>fd_ino = fs_next_ino t, fd_offset = 0, fd_writable = True\<rparr>"]) (auto simp: new_fd_def no_refusal_def)
  next
    case (3 ino c)
    let ?u = "t\<lparr>fs_nodes := (fs_nodes t)(ino \<mapsto> Reg [])\<rparr>"
    have res: "(fd, s') = new_fd ino True ?u" using 3 op ans fr by (simp add: sys_open_def DEFAULT_FLAGS_def)
    moreover have "fs_ok ?u" using okt by (rule fs_ok_put)
    then have "fs_ok (snd (new_fd ino True ?u))" using 3 okt fr by (intro fs_ok_new_fd) (auto simp: fs_ok_def)
    moreover have "q \<noteq> path \<Longrightarrow> fs_names s q \<noteq> Some ino" for q using ok 3 by (auto simp: fs_ok_def inj_on_def dom_def)
    ultimately show ?thesis using fr fresh 3
      by (intro opened[of "\<lparr>fd_ino = ino, fd_offset = 0, fd_writable = True\<rparr>"]) (auto simp: new_fd_def no_refusal_def)
  next
    case 4
    then show ?thesis using op ans fr by (intro refused) (auto simp: sys_open_def DEFAULT_FLAGS_def node_of_def)
  qed
qed

lemma scoped_fd_end_open: "fd \<ge> 0 \<Longrightarrow> scoped_fd_end fd s = s\<lparr>fs_fds := (fs_fds s)(fd := None)\<rparr>"
  by (simp add: scoped_fd_end_def scoped_fd_reset_def io_close_def sys_close_def)

lemma scoped_fd_end_invalid [simp]: "scoped_fd_end (- 1) s = s"
  by (simp add: scoped_fd_end_def scoped_fd_reset_def)

lemma content_frame: "fs_names s' = fs_names s \<Longrightarrow> fs_nodes s' = fs_nodes s \<Longrightarrow> content path s' = content path s"
  by (simp add: content_def node_of_def)

section \<open>Whole files\<close>

lemma write_file_spec:
  assumes ok: "fs_ok s" and data: "data \<noteq> []" and wr: "write_file data path s = (r, s')"
  shows "fs_fds s' = fs_fds s" "r \<Longrightarrow> content path s' = Some data"
    "\<And>q. q \<noteq> path \<Longrightarrow> content q s' = content q s \<or> \<not> r"
    "no_refusal s \<Longrightarrow> node_of path s \<noteq> Some Dir \<Longrightarrow> r \<and> no_refusal s' \<and> fs_ok s'"
proof -
  obtain fd t where op: "sys_open path DEFAULT_FLAGS s = (fd, t)" by fastforce
  have "fs_fds s' = fs_fds s \<and> (r \<longrightarrow> content path s' = Some data) \<and> (\<forall>q. q \<noteq> path \<longrightarrow> content q s' = content q s \<or> \<not> r)
    \<and> (no_refusal s \<longrightarrow> node_of path s \<noteq> Some Dir \<longrightarrow> r \<and> no_refusal s' \<and> fs_ok s')"
    using ok op
  proof (cases rule: sys_open_writing)
    case refused
    then show ?thesis using wr op data by (auto simp: write_file_def io_open_def)
  next
    case (opened e)
    from opened have "fs_fds t fd = Some e" "fs_nodes t (fd_ino e) = Some (Reg [])" by simp_all
    from write_loop_spec[OF this, of data] opened obtain b k u where
      lp: "write_loop fd data t = (b, u)" "advanced fd e k t u" "k \<le> length data"
      "fs_nodes u = (fs_nodes t)(fd_ino e \<mapsto> Reg (take k data))" "b \<longleftrightarrow> k = length data" "no_refusal t \<longrightarrow> b" by auto
    have s': "r = b" "s' = u\<lparr>fs_fds := (fs_fds u)(fd := None)\<rparr>"
      using wr op lp(1) opened(1) data by (auto simp: write_file_def io_open_def scoped_fd_end_open)
    have fds: "fs_fds s' = fs_fds s" using s' lp(2) opened(2,3) by (auto simp: advanced_def fun_upd_idem)
    have "node_of q s' = node_of q s" if "q \<noteq> path" for q
      using that s' lp(2,4) opened(6,7) opened(10)[OF that]
      by (cases "fs_names s q") (auto simp: node_of_def advanced_def)
    then have "content q s' = content q s" if "q \<noteq> path" for q
      using that by (simp add: content_def)
    moreover have "content path s' = Some data" if r
      using that s' lp(2,4,5) opened(7) by (simp add: content_def node_of_def advanced_def)
    moreover have "fs_ok s'"
      using s' lp(2,4) opened(2,3) fds by (intro fs_ok_shrink[OF opened(8)]) (auto simp: advanced_def split: if_splits)
    moreover have "no_refusal s' \<and> r" if "no_refusal s"
      using that s' lp opened(9) by (auto simp: advanced_def no_refusal_def)
    ultimately show ?thesis using fds by auto
  qed
  then show "fs_fds s' = fs_fds s" "r \<Longrightarrow> content path s' = Some data"
    "\<And>q. q \<noteq> path \<Longrightarrow> content q s' = content q s \<or> \<not> r"
    "no_refusal s \<Longrightarrow> node_of path s \<noteq> Some Dir \<Longrightarrow> r \<and> no_refusal s' \<and> fs_ok s'" by auto
qed

definition same_files :: "fs \<Rightarrow> fs \<Rightarrow> bool" where
  "same_files s s' \<longleftrightarrow> fs_names s' = fs_names s \<and> fs_nodes s' = fs_nodes s \<and> fs_fds s' = fs_fds s
     \<and> fs_next_fd s \<le> fs_next_fd s' \<and> fs_next_ino s' = fs_next_ino s \<and> (no_refusal s \<longrightarrow> no_refusal s')"


lemma same_files_ok: "same_files s s' \<Longrightarrow> fs_ok s \<Longrightarrow> fs_ok s'"
  by (fastforce simp: same_files_def fs_ok_def)

lemma same_files_trans: "same_files s t \<Longrightarrow> same_files t u \<Longrightarrow> same_files s u"
  by (auto simp: same_files_def)

lemma same_files_content: "same_files s s' \<Longrightarrow> content path s' = content path s"
  by (simp add: same_files_def content_def node_of_def)

lemma next_answer_same: "next_answer s = (a, s') \<Longrightarrow> same_files s s'"
  by (frule next_answer_frame) (auto simp: same_files_def dest: next_answer_frame)

lemma is_file_spec:
  assumes "content path s = Some c" "is_file path s = (b, s')"
  shows "same_files s s'" "no_refusal s \<Longrightarrow> b"
proof -
  obtain a t where ans: "next_answer s = (a, t)" by fastforce
  have "node_of path s = Some (Reg c)" using assms(1) by (simp add: content_def split: option.splits node.splits)
  then show "same_files s s'" "no_refusal s \<Longrightarrow> b"
    using assms(2) ans next_answer_frame[OF ans] next_answer_same[OF ans]
    by (auto simp: is_file_def sys_stat_def split: if_splits)
qed

lemma sys_fstat_spec:
  assumes "fs_fds s fd = Some e" "fs_nodes s (fd_ino e) = Some nd" "sys_fstat fd s = (st, s')"
  shows "same_files s s'" "st = None \<or> st = Some nd" "no_refusal s \<Longrightarrow> st = Some nd"
proof -
  obtain a t where ans: "next_answer s = (a, t)" by fastforce
  show "same_files s s'" "st = None \<or> st = Some nd" "no_refusal s \<Longrightarrow> st = Some nd"
    using assms ans next_answer_frame[OF ans] next_answer_same[OF ans]
    by (auto simp: sys_fstat_def split: if_splits)
qed

lemma sys_open_next_fd: "sys_open path O_RDONLY s = (fd, s') \<Longrightarrow> fs_next_fd s \<le> fs_next_fd s' \<and> fs_next_ino s' = fs_next_ino s"
  using next_answer_frame[of s "fst (next_answer s)" "snd (next_answer s)"]
  by (auto simp: sys_open_def new_fd_def split: prod.splits if_splits option.splits node.splits)

text \<open>A descriptor that was opened for reading, used and closed again leaves the files as they were.\<close>

lemma opened_closed:
  assumes "fd \<ge> 0" "fs_fds s fd = None" "fs_fds s' = (fs_fds s)(fd \<mapsto> e)" "fs_names s' = fs_names s" "fs_nodes s' = fs_nodes s"
    "fs_next_fd s \<le> fs_next_fd s'" "fs_next_ino s' = fs_next_ino s" "no_refusal s \<Longrightarrow> no_refusal s'"
  shows "same_files s (scoped_fd_end fd s')"
  using assms by (auto simp: same_files_def scoped_fd_end_open no_refusal_def fun_upd_idem)

lemma file_size_spec:
  assumes ok: "fs_ok s" and c: "content path s = Some c" "length c < 2 ^ 63" and sz: "file_size path s = (r, s')"
  shows "same_files s s'" "r = - 1 \<or> r = int (length c)" "no_refusal s \<Longrightarrow> r = int (length c)"
proof -
  obtain b t where f: "is_file path s = (b, t)" by fastforce
  note reg = is_file_spec[OF c(1) f]
  obtain fd u where op: "sys_open path O_RDONLY t = (fd, u)" by fastforce
  have okt: "fs_ok t" "content path t = Some c" using reg(1) ok c(1) same_files_ok same_files_content by auto
  have all: "same_files s s' \<and> (r = - 1 \<or> r = int (length c)) \<and> (no_refusal s \<longrightarrow> r = int (length c))"
  proof (cases b)
    case False
    then show ?thesis using reg sz f by (auto simp: file_size_def)
  next
    case True
    show ?thesis using okt op
    proof (cases rule: sys_open_existing)
      case refused
      then have "same_files t u" using sys_open_next_fd[OF op] by (simp add: same_files_def)
      with refused True reg sz f op show ?thesis
        by (auto simp: file_size_def io_open_def same_files_def)
    next
      case (opened e)
      obtain st w where fst: "sys_fstat fd u = (st, w)" by fastforce
      note stat = sys_fstat_spec[OF _ opened(5) fst]
      have "fs_fds u fd = Some e" using opened by simp
      note stat = stat[OF this]
      have "same_files t (scoped_fd_end fd w)"
        using stat(1) opened sys_open_next_fd[OF op] by (intro opened_closed[of fd t w e]) (auto simp: same_files_def)
      moreover have "s' = scoped_fd_end fd w" "r = (if st = None then - 1 else int (length c))"
        using sz f True op opened(1) fst stat(2) c(2)
        by (auto simp: file_size_def io_open_def ISIZE_MAX_def Let_def)
      ultimately show ?thesis using stat(3) reg opened(9) same_files_trans by (auto simp: same_files_def)
    qed
  qed
  then show "same_files s s'" "r = - 1 \<or> r = int (length c)" "no_refusal s \<Longrightarrow> r = int (length c)" by auto
qed


lemma read_file_spec:
  assumes ok: "fs_ok s" and c: "content path s = Some c" "length c < 2 ^ 63" and rd: "read_file path s = (result, s')"
  shows "same_files s s'" "\<exists>k. result = take k c" "no_refusal s \<Longrightarrow> result = c"
proof -
  obtain r t where sz: "file_size path s = (r, t)" by fastforce
  note size = file_size_spec[OF ok c sz]
  obtain fd u where op: "sys_open path O_RDONLY t = (fd, u)" by fastforce
  have okt: "fs_ok t" "content path t = Some c" using size(1) ok c(1) same_files_ok same_files_content by auto
  have "same_files s s' \<and> (\<exists>k. result = take k c) \<and> (no_refusal s \<longrightarrow> result = c)"
  proof (cases "r \<le> 0")
    case True
    then show ?thesis using size rd sz by (auto simp: read_file_def intro: exI[of _ 0])
  next
    case False
    with size(2) have r: "nat r = length c" by auto
    show ?thesis using okt op
    proof (cases rule: sys_open_existing)
      case refused
      then have "same_files t u" using sys_open_next_fd[OF op] by (simp add: same_files_def)
      with refused False size rd sz op show ?thesis
        by (auto simp: read_file_def io_open_def same_files_def intro: exI[of _ 0])
    next
      case (opened e)
      have "fs_fds u fd = Some e" using opened by simp
      from read_loop_spec[OF this opened(5), of "nat r" "[]"] opened(4) r obtain k w where
        lp: "read_loop fd (nat r) [] u = (take k c, w)" "advanced fd e k u w" "fs_nodes w = fs_nodes u"
        "no_refusal u \<longrightarrow> k = length c" by auto
      have "same_files t (scoped_fd_end fd w)"
        using lp opened sys_open_next_fd[OF op]
        by (intro opened_closed[of fd t w "e\<lparr>fd_offset := fd_offset e + k\<rparr>"]) (auto simp: advanced_def)
      moreover have "s' = scoped_fd_end fd w" "result = take k c"
        using rd sz False op opened(1) lp(1) by (auto simp: read_file_def io_open_def)
      ultimately show ?thesis using size lp(4) opened(9) same_files_trans by (auto simp: same_files_def)
    qed
  qed
  then show "same_files s s'" "\<exists>k. result = take k c" "no_refusal s \<Longrightarrow> result = c" by auto
qed

section \<open>Properties\<close>


text \<open>The stream behind a descriptor that takes everything: open for writing, at the end of what was written.\<close>

definition stream_at :: "int \<Rightarrow> string \<Rightarrow> fs \<Rightarrow> bool" where
  "stream_at fd out s \<longleftrightarrow> fs_answers s = [] \<and>
     (case fs_fds s fd of Some e \<Rightarrow> fd_writable e \<and> fd_offset e = length out \<and> fs_nodes s (fd_ino e) = Some (Reg out)
      | None \<Rightarrow> False)"

lemma io_write_stream: "stream_at fd out s \<Longrightarrow> stream_at fd (out @ bytes) (io_write fd bytes s)"
  by (auto simp: stream_at_def io_write_def sys_write_def next_answer_def store_at_end split: option.splits)

definition empty_fs :: "answer list \<Rightarrow> fs" where
  "empty_fs as = \<lparr>fs_names = Map.empty, fs_nodes = Map.empty, fs_fds = Map.empty, fs_next_ino = 0, fs_next_fd = 3,
     fs_answers = as\<rparr>"

lemma empty_fs_ok: "fs_ok (empty_fs as)"
  by (simp add: fs_ok_def empty_fs_def)


end
