(* ===== verification/Stream_Writer.thy ===== *)
theory Stream_Writer
  imports File_System
begin

text \<open>
  \<^verbatim>\<open>io::FileHandle\<close> (\<^verbatim>\<open>src/io/file_handle.cc\<close>), \<^verbatim>\<open>io::MemoryMappedFile\<close> (\<^verbatim>\<open>src/io/memory_mapped_file.cc\<close>) and
  \<^verbatim>\<open>io::MemoryMappedStreamWriter\<close> (\<^verbatim>\<open>include/fpag/io/memory_mapped_stream_writer.h\<close>) on a POSIX system. A
  shared mapping is a window into the node it maps: a store through it goes to the file. A store outside the
  mapping, beyond the end of the file or through a null pointer has no result. The pointer arithmetic on a null
  base is written out: it is null for the offset 0 and wild for any other.
\<close>

section \<open>Definitions\<close>

subsection \<open>FileHandle\<close>

datatype file_access = Read | ReadWrite

record file_handle =
  fh_handle :: int
  fh_access :: file_access

definition INVALID_HANDLE :: int where "INVALID_HANDLE = - 1"

definition empty_handle :: file_handle where "empty_handle = \<lparr>fh_handle = INVALID_HANDLE, fh_access = Read\<rparr>"

definition fh_is_valid :: "file_handle \<Rightarrow> bool" where "fh_is_valid h \<longleftrightarrow> fh_handle h \<noteq> INVALID_HANDLE"

definition fh_close :: "file_handle \<Rightarrow> fs \<Rightarrow> file_handle \<times> fs" where
  "fh_close h s = (if \<not> fh_is_valid h then (h, s) else (h\<lparr>fh_handle := INVALID_HANDLE\<rparr>, sys_close (fh_handle h) s))"

definition fh_move :: "file_handle \<Rightarrow> file_handle \<times> file_handle" where
  "fh_move other = (\<lparr>fh_handle = fh_handle other, fh_access = fh_access other\<rparr>, other\<lparr>fh_handle := INVALID_HANDLE\<rparr>)"

definition fh_move_assign :: "file_handle \<Rightarrow> file_handle \<Rightarrow> fs \<Rightarrow> file_handle \<times> file_handle \<times> fs" where
  "fh_move_assign h other s = (let (h, s) = fh_close h s
     in (h\<lparr>fh_handle := fh_handle other, fh_access := fh_access other\<rparr>, other\<lparr>fh_handle := INVALID_HANDLE\<rparr>, s))"

definition fh_open :: "string \<Rightarrow> file_access \<Rightarrow> file_handle \<Rightarrow> fs \<Rightarrow> bool \<times> file_handle \<times> fs" where
  "fh_open path access h s =
     (let (h, s) = fh_close h s;
          h = h\<lparr>fh_access := access\<rparr>;
          flags = (if access = ReadWrite then \<lparr>of_write = True, of_creat = True, of_trunc = False, of_excl = False\<rparr> else O_RDONLY);
          (fd, s) = sys_open path flags s
      in (fd \<ge> 0, h\<lparr>fh_handle := fd\<rparr>, s))"

text \<open>The size is handed to the kernel as a signed offset, and a negative one is refused.\<close>

definition fh_resize :: "usize \<Rightarrow> file_handle \<Rightarrow> fs \<Rightarrow> bool \<times> fs" where
  "fh_resize new_size h s =
     (if \<not> fh_is_valid h \<or> fh_access h \<noteq> ReadWrite then (False, s)
      else if unat new_size \<ge> 2 ^ 63 then (False, s)
      else sys_ftruncate (fh_handle h) (unat new_size) s)"

definition fh_get_size :: "file_handle \<Rightarrow> fs \<Rightarrow> usize \<times> fs" where
  "fh_get_size h s =
     (if \<not> fh_is_valid h then (0, s)
      else let (st, s) = sys_fstat (fh_handle h) s
           in (case st of Some (Reg c) \<Rightarrow> of_nat (length c) | _ \<Rightarrow> 0, s))"

subsection \<open>MemoryMappedFile\<close>

record mmap_file =
  mm_data :: "(nat \<times> nat) option"
  mm_size :: usize

definition empty_mmap :: mmap_file where "empty_mmap = \<lparr>mm_data = None, mm_size = 0\<rparr>"

definition is_mapped :: "mmap_file \<Rightarrow> bool" where "is_mapped m \<longleftrightarrow> mm_data m \<noteq> None"

definition mm_close :: "mmap_file \<Rightarrow> mmap_file" where
  "mm_close m = (if \<not> is_mapped m then m else m\<lparr>mm_data := None, mm_size := 0\<rparr>)"

definition mm_move :: "mmap_file \<Rightarrow> mmap_file \<times> mmap_file" where
  "mm_move other = (\<lparr>mm_data = mm_data other, mm_size = mm_size other\<rparr>, other\<lparr>mm_data := None, mm_size := 0\<rparr>)"

definition mm_move_assign :: "mmap_file \<Rightarrow> mmap_file \<Rightarrow> mmap_file \<times> mmap_file" where
  "mm_move_assign m other = (let m = mm_close m
     in (m\<lparr>mm_data := mm_data other, mm_size := mm_size other\<rparr>, other\<lparr>mm_data := None, mm_size := 0\<rparr>))"

definition sys_mmap :: "int \<Rightarrow> nat \<Rightarrow> fs \<Rightarrow> (nat \<times> nat) option \<times> fs" where
  "sys_mmap fd off s = (let (a, s) = next_answer s in
     (if a = Refuse then None else map_option (\<lambda>e. (fd_ino e, off)) (fs_fds s fd), s))"

definition mm_map :: "file_handle \<Rightarrow> usize \<Rightarrow> usize \<Rightarrow> mmap_file \<Rightarrow> fs \<Rightarrow> bool \<times> mmap_file \<times> fs" where
  "mm_map h offset len m s =
     (let m = mm_close m in
      if \<not> fh_is_valid h then (False, m, s)
      else let (fsize, s) = fh_get_size h s in
      if fsize = 0 then (False, m, s)
      else if offset \<ge> fsize then (False, m, s)
      else if len \<noteq> 0 \<and> (offset + len < offset \<or> offset + len > fsize) then (False, m, s)
      else let m = m\<lparr>mm_size := if len = 0 then fsize - offset else len\<rparr>;
               (p, s) = sys_mmap (fh_handle h) (unat offset) s
           in case p of
                None \<Rightarrow> (False, m\<lparr>mm_data := None, mm_size := 0\<rparr>, s)
              | Some addr \<Rightarrow> (True, m\<lparr>mm_data := Some addr\<rparr>, s))"

definition mm_flush :: "mmap_file \<Rightarrow> fs \<Rightarrow> bool \<times> fs" where
  "mm_flush m s = (if \<not> is_mapped m then (False, s) else let (a, s) = next_answer s in (a \<noteq> Refuse, s))"

definition mm_advise :: "mmap_file \<Rightarrow> fs \<Rightarrow> fs" where
  "mm_advise m s = (if \<not> is_mapped m then s else snd (next_answer s))"

definition mm_store :: "mmap_file \<Rightarrow> nat \<Rightarrow> string \<Rightarrow> fs \<Rightarrow> fs option" where
  "mm_store m off bytes s =
     (if bytes = [] then Some s
      else case mm_data m of
        None \<Rightarrow> None
      | Some (ino, base) \<Rightarrow> (case fs_nodes s ino of
          Some (Reg c) \<Rightarrow>
            (if off + length bytes \<le> unat (mm_size m) \<and> base + off + length bytes \<le> length c
             then Some (s\<lparr>fs_nodes := (fs_nodes s)(ino \<mapsto> Reg (store_at (base + off) bytes c))\<rparr>) else None)
        | _ \<Rightarrow> None))"

subsection \<open>MemoryMappedStreamWriter\<close>

record stream_writer =
  sw_file :: file_handle
  sw_mmap :: mmap_file
  sw_capacity :: usize
  sw_offset :: usize

definition empty_writer :: stream_writer where
  "empty_writer = \<lparr>sw_file = empty_handle, sw_mmap = empty_mmap, sw_capacity = 0, sw_offset = 0\<rparr>"

definition sw_open :: "string \<Rightarrow> usize \<Rightarrow> stream_writer \<Rightarrow> fs \<Rightarrow> bool \<times> stream_writer \<times> fs" where
  "sw_open path initial_capacity w s =
     (let (ok, h, s) = fh_open path ReadWrite (sw_file w) s;
          w = w\<lparr>sw_file := h\<rparr> in
      if \<not> ok then (False, w, s)
      else let w = w\<lparr>sw_capacity := initial_capacity\<rparr>;
               (ok, s) = fh_resize (sw_capacity w) (sw_file w) s in
      if \<not> ok then let (h, s) = fh_close (sw_file w) s in (False, w\<lparr>sw_file := h\<rparr>, s)
      else let (ok, m, s) = mm_map (sw_file w) 0 (sw_capacity w) (sw_mmap w) s;
               w = w\<lparr>sw_mmap := m\<rparr> in
      if \<not> ok then let (h, s) = fh_close (sw_file w) s in (False, w\<lparr>sw_file := h\<rparr>, s)
      else (True, w\<lparr>sw_offset := 0\<rparr>, mm_advise m s))"

definition grown_capacity :: "usize \<Rightarrow> usize \<Rightarrow> usize" where
  "grown_capacity cap needed = (if cap * 2 < needed then needed else cap * 2)"

definition sw_reserve_extra :: "usize \<Rightarrow> stream_writer \<Rightarrow> fs \<Rightarrow> bool \<times> stream_writer \<times> fs" where
  "sw_reserve_extra required w s =
     (if sw_offset w + required \<le> sw_capacity w then (True, w, s)
      else let needed = sw_offset w + required;
               new_capacity = grown_capacity (sw_capacity w) needed;
               w = w\<lparr>sw_mmap := mm_close (sw_mmap w)\<rparr>;
               (ok, s) = fh_resize new_capacity (sw_file w) s in
           if \<not> ok then (False, w, s)
           else let (ok, m, s) = mm_map (sw_file w) 0 new_capacity (sw_mmap w) s;
                    w = w\<lparr>sw_mmap := m\<rparr> in
           if \<not> ok then (False, w, s)
           else (True, w\<lparr>sw_capacity := new_capacity\<rparr>, mm_advise m s))"

definition sw_write :: "string \<Rightarrow> stream_writer \<Rightarrow> fs \<Rightarrow> (bool \<times> stream_writer \<times> fs) option" where
  "sw_write data w s =
     (let (ok, w, s) = sw_reserve_extra (of_nat (length data)) w s in
      if \<not> ok then Some (False, w, s)
      else do {
        s \<leftarrow> mm_store (sw_mmap w) (unat (sw_offset w)) data s;
        Some (True, w\<lparr>sw_offset := sw_offset w + of_nat (length data)\<rparr>, s)
      })"

datatype write_ptr = Nullptr | Wild | Into nat

definition sw_prepare :: "usize \<Rightarrow> stream_writer \<Rightarrow> fs \<Rightarrow> write_ptr \<times> stream_writer \<times> fs" where
  "sw_prepare required w s =
     (let (ok, w, s) = sw_reserve_extra required w s in
      if \<not> ok then (Nullptr, w, s)
      else (if is_mapped (sw_mmap w) then Into (unat (sw_offset w))
            else if sw_offset w = 0 then Nullptr else Wild, w, s))"

definition sw_commit :: "usize \<Rightarrow> stream_writer \<Rightarrow> stream_writer" where
  "sw_commit n w = w\<lparr>sw_offset := sw_offset w + n\<rparr>"

definition sw_finish :: "stream_writer \<Rightarrow> fs \<Rightarrow> stream_writer \<times> fs" where
  "sw_finish w s =
     (if \<not> fh_is_valid (sw_file w) then (w, s)
      else let (_, s) = mm_flush (sw_mmap w) s;
               w = w\<lparr>sw_mmap := mm_close (sw_mmap w)\<rparr>;
               (_, s) = fh_resize (sw_offset w) (sw_file w) s;
               (h, s) = fh_close (sw_file w) s
           in (w\<lparr>sw_file := h\<rparr>, s))"

text \<open>A caller that writes one record after the other, whatever the writes before reported.\<close>

fun sw_write_all :: "string list \<Rightarrow> stream_writer \<Rightarrow> fs \<Rightarrow> (bool list \<times> stream_writer \<times> fs) option" where
  "sw_write_all [] w s = Some ([], w, s)"
| "sw_write_all (d # ds) w s = do {
     (ok, w, s) \<leftarrow> sw_write d w s;
     (oks, w, s) \<leftarrow> sw_write_all ds w s;
     Some (ok # oks, w, s)
   }"

section \<open>The open writer\<close>

text \<open>
  \<open>writer_rep base path bytes w s\<close>: the writer has \<open>path\<close> open and mapped up to its capacity, which is the
  size of the file, the file begins with \<open>bytes\<close>, and the other descriptors are those of \<open>base\<close>.
\<close>

definition writer_rep :: "(int \<Rightarrow> fd_entry option) \<Rightarrow> string \<Rightarrow> string \<Rightarrow> stream_writer \<Rightarrow> fs \<Rightarrow> bool" where
  "writer_rep base path bytes w s \<longleftrightarrow> (\<exists>fd e c. sw_file w = \<lparr>fh_handle = fd, fh_access = ReadWrite\<rparr>
     \<and> fd \<ge> 0 \<and> base fd = None \<and> fs_fds s = base(fd \<mapsto> e) \<and> fd_writable e \<and> fs_names s path = Some (fd_ino e)
     \<and> fs_nodes s (fd_ino e) = Some (Reg c) \<and> sw_mmap w = \<lparr>mm_data = Some (fd_ino e, 0), mm_size = sw_capacity w\<rparr>
     \<and> length c = unat (sw_capacity w) \<and> 0 < length c \<and> length c < 2 ^ 63 \<and> unat (sw_offset w) = length bytes
     \<and> take (length bytes) c = bytes)"

lemma sys_ftruncate_spec:
  assumes "fs_fds s fd = Some e" "fs_nodes s (fd_ino e) = Some (Reg c)" "fd_writable e" "sys_ftruncate fd n s = (ok, s')"
  shows "ok \<Longrightarrow> fs_nodes s' = (fs_nodes s)(fd_ino e \<mapsto> Reg (take n c @ replicate (n - length c) CHR 0x00))"
    "fs_fds s' = fs_fds s" "fs_names s' = fs_names s" "no_refusal s \<Longrightarrow> ok \<and> no_refusal s'"
proof -
  obtain a t where ans: "next_answer s = (a, t)" by fastforce
  note fr = next_answer_frame[OF ans]
  show "ok \<Longrightarrow> fs_nodes s' = (fs_nodes s)(fd_ino e \<mapsto> Reg (take n c @ replicate (n - length c) CHR 0x00))"
    "fs_fds s' = fs_fds s" "fs_names s' = fs_names s" "no_refusal s \<Longrightarrow> ok \<and> no_refusal s'"
    using assms ans fr by (auto simp: sys_ftruncate_def no_refusal_def split: if_splits)
qed

lemma mm_advise_frame:
  "fs_names (mm_advise m s) = fs_names s" "fs_nodes (mm_advise m s) = fs_nodes s" "fs_fds (mm_advise m s) = fs_fds s"
  "no_refusal s \<Longrightarrow> no_refusal (mm_advise m s)"
  using next_answer_frame[of s "fst (next_answer s)" "snd (next_answer s)"] by (simp_all add: mm_advise_def)

lemma mm_map_spec:
  assumes "fs_fds s (fh_handle h) = Some e" "fh_handle h \<ge> 0" "fs_nodes s (fd_ino e) = Some (Reg c)"
    "length c = unat n" "0 < length c" "mm_map h 0 n m s = (ok, m', s')"
  shows "ok \<Longrightarrow> m' = \<lparr>mm_data = Some (fd_ino e, 0), mm_size = n\<rparr>" "\<not> ok \<Longrightarrow> mm_data m' = None"
    "fs_names s' = fs_names s" "fs_nodes s' = fs_nodes s" "fs_fds s' = fs_fds s" "no_refusal s \<Longrightarrow> ok \<and> no_refusal s'"
proof -
  have valid: "fh_is_valid h" using assms(2) by (simp add: fh_is_valid_def INVALID_HANDLE_def)
  have n: "n \<noteq> 0" "of_nat (length c) = n" using assms(4,5) by auto
  obtain st t where stat: "sys_fstat (fh_handle h) s = (st, t)" by fastforce
  note fst = sys_fstat_spec[OF assms(1,3) stat]
  obtain a u where ans: "next_answer t = (a, u)" by fastforce
  note fr = next_answer_frame[OF ans]
  have closed: "mm_data (mm_close m) = None" by (cases "mm_data m") (auto simp: mm_close_def is_mapped_def)
  have "(ok \<longrightarrow> m' = \<lparr>mm_data = Some (fd_ino e, 0), mm_size = n\<rparr>) \<and> (\<not> ok \<longrightarrow> mm_data m' = None) \<and> fs_names s' = fs_names s
    \<and> fs_nodes s' = fs_nodes s \<and> fs_fds s' = fs_fds s \<and> (no_refusal s \<longrightarrow> ok \<and> no_refusal s')"
  proof (cases st)
    case None
    then show ?thesis using assms(6) valid stat fst closed
      by (simp add: mm_map_def fh_get_size_def same_files_def Let_def) auto
  next
    case (Some nd)
    with fst(2) have "fh_get_size h s = (n, t)" using valid stat n by (simp add: fh_get_size_def)
    then show ?thesis using assms(1,6) valid n ans fr fst(1,3) closed
      by (simp add: mm_map_def sys_mmap_def same_files_def Let_def split: if_splits) auto
  qed
  then show "ok \<Longrightarrow> m' = \<lparr>mm_data = Some (fd_ino e, 0), mm_size = n\<rparr>" "\<not> ok \<Longrightarrow> mm_data m' = None"
    "fs_names s' = fs_names s" "fs_nodes s' = fs_nodes s" "fs_fds s' = fs_fds s" "no_refusal s \<Longrightarrow> ok \<and> no_refusal s'" by auto
qed


lemma writer_repE:
  assumes "writer_rep base path bytes w s"
  obtains fd e c where "sw_file w = \<lparr>fh_handle = fd, fh_access = ReadWrite\<rparr>" "fd \<ge> 0" "base fd = None"
    "fs_fds s = base(fd \<mapsto> e)" "fd_writable e" "fs_names s path = Some (fd_ino e)" "fs_nodes s (fd_ino e) = Some (Reg c)"
    "sw_mmap w = \<lparr>mm_data = Some (fd_ino e, 0), mm_size = sw_capacity w\<rparr>" "length c = unat (sw_capacity w)" "0 < length c"
    "length c < 2 ^ 63" "unat (sw_offset w) = length bytes" "take (length bytes) c = bytes"
  using assms unfolding writer_rep_def by blast

text \<open>
  \<open>writer_open\<close>: the writer has \<open>path\<close> open and the file begins with \<open>bytes\<close>, but it may have lost its mapping, which
  is what a refused growth leaves behind.
\<close>

definition writer_open :: "(int \<Rightarrow> fd_entry option) \<Rightarrow> string \<Rightarrow> string \<Rightarrow> stream_writer \<Rightarrow> fs \<Rightarrow> bool" where
  "writer_open base path bytes w s \<longleftrightarrow> (\<exists>fd e c. sw_file w = \<lparr>fh_handle = fd, fh_access = ReadWrite\<rparr>
     \<and> fd \<ge> 0 \<and> base fd = None \<and> fs_fds s = base(fd \<mapsto> e) \<and> fd_writable e \<and> fs_names s path = Some (fd_ino e)
     \<and> fs_nodes s (fd_ino e) = Some (Reg c) \<and> length c < 2 ^ 63 \<and> unat (sw_offset w) = length bytes
     \<and> length bytes \<le> length c \<and> take (length bytes) c = bytes \<and> (is_mapped (sw_mmap w) \<longrightarrow> writer_rep base path bytes w s))"

lemma writer_openE:
  assumes "writer_open base path bytes w s"
  obtains fd e c where "sw_file w = \<lparr>fh_handle = fd, fh_access = ReadWrite\<rparr>" "fd \<ge> 0" "base fd = None"
    "fs_fds s = base(fd \<mapsto> e)" "fd_writable e" "fs_names s path = Some (fd_ino e)" "fs_nodes s (fd_ino e) = Some (Reg c)"
    "length c < 2 ^ 63" "unat (sw_offset w) = length bytes" "length bytes \<le> length c" "take (length bytes) c = bytes"
  using assms unfolding writer_open_def by blast

lemma writer_rep_open:
  assumes "writer_rep base path bytes w s"
  shows "writer_open base path bytes w s"
proof -
  from assms obtain fd e c where r: "sw_file w = \<lparr>fh_handle = fd, fh_access = ReadWrite\<rparr>" "fd \<ge> 0" "base fd = None"
    "fs_fds s = base(fd \<mapsto> e)" "fd_writable e" "fs_names s path = Some (fd_ino e)" "fs_nodes s (fd_ino e) = Some (Reg c)"
    "length c < 2 ^ 63" "unat (sw_offset w) = length bytes" "take (length bytes) c = bytes" by (rule writer_repE)
  have "length bytes \<le> length c" using r(10) by (metis length_take min.cobounded1)
  with r assms show ?thesis unfolding writer_open_def by blast
qed

lemma writer_open_mapped: "writer_open base path bytes w s \<Longrightarrow> is_mapped (sw_mmap w) \<Longrightarrow> writer_rep base path bytes w s"
  by (auto simp: writer_open_def)

lemma writer_length: "writer_rep base path bytes w s \<Longrightarrow> length bytes \<le> unat (sw_capacity w)"
  by (erule writer_repE) (metis length_take min.cobounded1)

lemma resize_map_spec:
  assumes h: "h = \<lparr>fh_handle = fd, fh_access = ReadWrite\<rparr>" "fd \<ge> 0" "fs_fds s fd = Some e" "fd_writable e"
    "fs_nodes s (fd_ino e) = Some (Reg c)" and n: "0 < unat n" "unat n < 2 ^ 63" "fh_resize n h s = (ok, t)"
    "mm_map h 0 n m t = (ok', m', u)"
  shows "fs_fds t = fs_fds s" "fs_names t = fs_names s" "no_refusal s \<Longrightarrow> ok \<and> no_refusal t"
    "ok \<Longrightarrow> fs_nodes u = (fs_nodes s)(fd_ino e \<mapsto> Reg (take (unat n) c @ replicate (unat n - length c) CHR 0x00))"
    "ok \<Longrightarrow> fs_fds u = fs_fds s" "ok \<Longrightarrow> fs_names u = fs_names s"
    "ok \<Longrightarrow> ok' \<Longrightarrow> m' = \<lparr>mm_data = Some (fd_ino e, 0), mm_size = n\<rparr>" "ok \<Longrightarrow> \<not> ok' \<Longrightarrow> mm_data m' = None"
    "no_refusal s \<Longrightarrow> ok' \<and> no_refusal u"
proof -
  have "sys_ftruncate fd (unat n) s = (ok, t)"
    using h(1,2) n(2,3) by (simp add: fh_resize_def fh_is_valid_def INVALID_HANDLE_def)
  note tr = sys_ftruncate_spec[OF h(3,5,4) this]
  show "fs_fds t = fs_fds s" "fs_names t = fs_names s" "no_refusal s \<Longrightarrow> ok \<and> no_refusal t" using tr by auto
  have len: "length (take (unat n) c @ replicate (unat n - length c) CHR 0x00) = unat n" by simp
  have mp: "ok \<Longrightarrow> (ok' \<longrightarrow> m' = \<lparr>mm_data = Some (fd_ino e, 0), mm_size = n\<rparr>) \<and> (\<not> ok' \<longrightarrow> mm_data m' = None)
      \<and> fs_names u = fs_names t \<and> fs_nodes u = fs_nodes t \<and> fs_fds u = fs_fds t \<and> (no_refusal t \<longrightarrow> ok' \<and> no_refusal u)"
  proof -
    assume ok
    then have "fs_nodes t (fd_ino e) = Some (Reg (take (unat n) c @ replicate (unat n - length c) CHR 0x00))" using tr(1) by simp
    from mm_map_spec[OF _ _ this len _ n(4)] h(1-3) tr(2) n(1)
    show ?thesis by simp
  qed
  then show "ok \<Longrightarrow> fs_nodes u = (fs_nodes s)(fd_ino e \<mapsto> Reg (take (unat n) c @ replicate (unat n - length c) CHR 0x00))"
    "ok \<Longrightarrow> fs_fds u = fs_fds s" "ok \<Longrightarrow> fs_names u = fs_names s"
    "ok \<Longrightarrow> ok' \<Longrightarrow> m' = \<lparr>mm_data = Some (fd_ino e, 0), mm_size = n\<rparr>" "ok \<Longrightarrow> \<not> ok' \<Longrightarrow> mm_data m' = None"
    "no_refusal s \<Longrightarrow> ok' \<and> no_refusal u"
    using tr by auto
qed

lemma grown_capacity_bounds:
  assumes "cap < needed" "unat needed \<le> 2 ^ 61"
  shows "unat needed \<le> unat (grown_capacity cap needed)" "unat (grown_capacity cap needed) \<le> 2 ^ 62"
proof -
  have "unat (cap * 2) = unat cap * 2" using assms by (simp add: unat_word_ariths word_less_nat_alt)
  with assms show "unat needed \<le> unat (grown_capacity cap needed)" "unat (grown_capacity cap needed) \<le> 2 ^ 62"
    by (auto simp: grown_capacity_def word_less_nat_alt)
qed

lemma sw_reserve_grow:
  assumes "\<not> sw_offset w + req \<le> sw_capacity w"
    "fh_resize (grown_capacity (sw_capacity w) (sw_offset w + req)) (sw_file w) s = (ok1, t)"
    "mm_map (sw_file w) 0 (grown_capacity (sw_capacity w) (sw_offset w + req)) (mm_close (sw_mmap w)) t = (ok2, m, u)"
  shows "sw_reserve_extra req w s =
    (if \<not> ok1 then (False, w\<lparr>sw_mmap := mm_close (sw_mmap w)\<rparr>, t)
     else if \<not> ok2 then (False, w\<lparr>sw_mmap := m\<rparr>, u)
     else (True, w\<lparr>sw_mmap := m, sw_capacity := grown_capacity (sw_capacity w) (sw_offset w + req)\<rparr>, mm_advise m u))"
  using assms by (cases ok1; cases ok2) (simp_all add: sw_reserve_extra_def Let_def)

lemma fh_resize_refused:
  assumes "fh_resize n h s = (ok, t)" "\<not> ok"
  shows "fs_nodes t = fs_nodes s"
proof -
  obtain a u where ans: "next_answer s = (a, u)" by fastforce
  show ?thesis using assms ans next_answer_frame[OF ans]
    by (auto simp: fh_resize_def sys_ftruncate_def split: if_splits option.splits node.splits)
qed

lemma mm_close_unmapped [simp]: "\<not> is_mapped (mm_close m)"
  by (cases "mm_data m") (auto simp: mm_close_def is_mapped_def)

lemma sw_grow_spec:
  assumes op: "writer_open base path bytes w s" and n: "length bytes + n \<le> 2 ^ 61"
    and grow: "\<not> sw_offset w + of_nat n \<le> sw_capacity w" and res: "sw_reserve_extra (of_nat n) w s = (ok, w', s')"
  shows "(ok \<longrightarrow> writer_rep base path bytes w' s' \<and> length bytes + n \<le> unat (sw_capacity w'))
    \<and> (\<not> ok \<longrightarrow> writer_open base path bytes w' s' \<and> \<not> is_mapped (sw_mmap w')) \<and> (no_refusal s \<longrightarrow> ok \<and> no_refusal s')"
proof -
  from op obtain fd e c where r: "sw_file w = \<lparr>fh_handle = fd, fh_access = ReadWrite\<rparr>" "fd \<ge> 0" "base fd = None"
    "fs_fds s = base(fd \<mapsto> e)" "fd_writable e" "fs_names s path = Some (fd_ino e)" "fs_nodes s (fd_ino e) = Some (Reg c)"
    "length c < 2 ^ 63" "unat (sw_offset w) = length bytes" "length bytes \<le> length c" "take (length bytes) c = bytes" by (rule writer_openE)
  let ?needed = "sw_offset w + of_nat n"
  let ?cap = "grown_capacity (sw_capacity w) ?needed"
  let ?w = "w\<lparr>sw_mmap := mm_close (sw_mmap w)\<rparr>"
  have needed: "unat ?needed = length bytes + n"
    using r(9) n by (subst unat_add_nowrap) (simp_all add: unat_of_nat_small)
  have cap: "length bytes + n \<le> unat ?cap" "unat ?cap \<le> 2 ^ 62"
    using grown_capacity_bounds[of "sw_capacity w" ?needed] grow needed n by simp_all
  moreover have "unat (sw_capacity w) < length bytes + n" using grow needed by (simp add: word_le_nat_alt)
  ultimately have bounds: "0 < unat ?cap" "unat ?cap < 2 ^ 63" "length bytes \<le> unat ?cap" by simp_all
  obtain ok1 t where rs: "fh_resize ?cap (sw_file w) s = (ok1, t)" by fastforce
  obtain ok2 m u where mp: "mm_map (sw_file w) 0 ?cap (mm_close (sw_mmap w)) t = (ok2, m, u)" by (metis prod_cases3)
  have at: "fs_fds s fd = Some e" using r(4) by simp
  note sp = resize_map_spec[OF r(1,2) at r(5,7) bounds(1,2) rs mp]
  let ?c = "take (unat ?cap) c @ replicate (unat ?cap - length c) CHR 0x00"
  have unfold: "(ok, w', s') = (if \<not> ok1 then (False, ?w, t) else if \<not> ok2 then (False, w\<lparr>sw_mmap := m\<rparr>, u)
      else (True, w\<lparr>sw_mmap := m, sw_capacity := ?cap\<rparr>, mm_advise m u))"
    using sw_reserve_grow[OF grow rs mp] res by simp
  have tk: "take (length bytes) ?c = bytes" using r(10,11) bounds(3) by (simp add: min_absorb1)
  have len: "length ?c = unat ?cap" by simp
  have grown: "writer_rep base path bytes (w\<lparr>sw_mmap := m, sw_capacity := ?cap\<rparr>) (mm_advise m u)" if ok1 ok2
    unfolding writer_rep_def using that sp r bounds(1,2) tk len
    by (intro exI[of _ fd] exI[of _ e] exI[of _ ?c]) (simp add: mm_advise_frame)
  have refused: "writer_open base path bytes ?w t" if "\<not> ok1"
    unfolding writer_open_def using that sp r fh_resize_refused[OF rs that]
    by (intro exI[of _ fd] exI[of _ e] exI[of _ c]) simp
  have unmapped: "writer_open base path bytes (w\<lparr>sw_mmap := m\<rparr>) u" if ok1 "\<not> ok2"
    unfolding writer_open_def using that sp r bounds(2,3) tk len
    by (intro exI[of _ fd] exI[of _ e] exI[of _ ?c]) (simp add: is_mapped_def)
  have "\<not> is_mapped m" if ok1 "\<not> ok2" using sp(8) that by (simp add: is_mapped_def)
  then show ?thesis using unfold sp(3,9) cap(1) grown refused unmapped mm_advise_frame(4)[of u m]
    by (auto split: if_splits)
qed

lemma sw_reserve_spec:
  assumes rep: "writer_rep base path bytes w s" and n: "length bytes + n \<le> 2 ^ 61"
    and res: "sw_reserve_extra (of_nat n) w s = (ok, w', s')"
  shows "ok \<Longrightarrow> writer_rep base path bytes w' s' \<and> length bytes + n \<le> unat (sw_capacity w')" "no_refusal s \<Longrightarrow> ok \<and> no_refusal s'"
    "\<not> ok \<Longrightarrow> writer_open base path bytes w' s' \<and> \<not> is_mapped (sw_mmap w')"
proof -
  have "unat (sw_offset w) = length bytes" using rep by (rule writer_repE)
  then have needed: "unat (sw_offset w + of_nat n) = length bytes + n"
    using n by (subst unat_add_nowrap) (simp_all add: unat_of_nat_small)
  have "(ok \<longrightarrow> writer_rep base path bytes w' s' \<and> length bytes + n \<le> unat (sw_capacity w'))
    \<and> (\<not> ok \<longrightarrow> writer_open base path bytes w' s' \<and> \<not> is_mapped (sw_mmap w')) \<and> (no_refusal s \<longrightarrow> ok \<and> no_refusal s')"
  proof (cases "sw_offset w + of_nat n \<le> sw_capacity w")
    case True
    then show ?thesis using res rep needed by (auto simp: sw_reserve_extra_def word_le_nat_alt)
  next
    case False
    then show ?thesis by (rule sw_grow_spec[OF writer_rep_open[OF rep] n _ res])
  qed
  then show "ok \<Longrightarrow> writer_rep base path bytes w' s' \<and> length bytes + n \<le> unat (sw_capacity w')" "no_refusal s \<Longrightarrow> ok \<and> no_refusal s'"
    "\<not> ok \<Longrightarrow> writer_open base path bytes w' s' \<and> \<not> is_mapped (sw_mmap w')"
    by auto
qed

lemma store_prefix:
  assumes "take k c = bytes" "k = length bytes" "k + length d \<le> length c"
  shows "length (store_at k d c) = length c" "take (k + length d) (store_at k d c) = bytes @ d"
  using assms by (auto simp: store_at_def)

lemma sw_write_spec:
  assumes rep: "writer_rep base path bytes w s" and n: "length bytes + length d \<le> 2 ^ 61"
  obtains ok w' s' where "sw_write d w s = Some (ok, w', s')" "ok \<Longrightarrow> writer_rep base path (bytes @ d) w' s'"
    "no_refusal s \<Longrightarrow> ok \<and> no_refusal s'" "\<not> ok \<Longrightarrow> writer_open base path bytes w' s' \<and> \<not> is_mapped (sw_mmap w')"
proof -
  obtain ok w1 s1 where res: "sw_reserve_extra (of_nat (length d)) w s = (ok, w1, s1)" by (metis prod_cases3)
  note sp = sw_reserve_spec[OF rep n res]
  show ?thesis
  proof (cases ok)
    case False
    then show ?thesis using res sp by (intro that[of False w1 s1]) (auto simp: sw_write_def)
  next
    case True
    with sp(1) have rep1: "writer_rep base path bytes w1 s1" and cap: "length bytes + length d \<le> unat (sw_capacity w1)" by auto
    from rep1 obtain fd e c where r: "sw_file w1 = \<lparr>fh_handle = fd, fh_access = ReadWrite\<rparr>" "fd \<ge> 0" "base fd = None"
      "fs_fds s1 = base(fd \<mapsto> e)" "fd_writable e" "fs_names s1 path = Some (fd_ino e)" "fs_nodes s1 (fd_ino e) = Some (Reg c)"
      "sw_mmap w1 = \<lparr>mm_data = Some (fd_ino e, 0), mm_size = sw_capacity w1\<rparr>" "length c = unat (sw_capacity w1)" "0 < length c"
      "length c < 2 ^ 63" "unat (sw_offset w1) = length bytes" "take (length bytes) c = bytes" by (rule writer_repE)
    let ?c = "store_at (length bytes) d c"
    let ?s = "s1\<lparr>fs_nodes := (fs_nodes s1)(fd_ino e \<mapsto> Reg ?c)\<rparr>"
    let ?w = "w1\<lparr>sw_offset := sw_offset w1 + of_nat (length d)\<rparr>"
    have off: "unat (sw_offset w1 + of_nat (length d)) = length bytes + length d"
      using r(12) n by (subst unat_add_nowrap) (simp_all add: unat_of_nat_small)
    have keep: "length ?c = length c" "take (length bytes + length d) ?c = bytes @ d"
      using store_prefix[OF r(13) refl] cap r(9) by simp_all
    have "mm_store (sw_mmap w1) (length bytes) d s1 = Some ?s"
    proof (cases "d = []")
      case True
      then have "?c = c" using cap r(9) by (simp add: store_at_def)
      then show ?thesis using True r(7) by (simp add: mm_store_def fun_upd_idem)
    next
      case False
      then show ?thesis using r(7,8,9) cap by (simp add: mm_store_def)
    qed
    then have "sw_write d w s = Some (True, ?w, ?s)" using res True r(12) by (simp add: sw_write_def)
    moreover have "writer_rep base path (bytes @ d) ?w ?s"
      unfolding writer_rep_def using r off keep
      by (intro exI[of _ fd] exI[of _ e] exI[of _ ?c]) simp
    ultimately show ?thesis using sp(2) True by (intro that[of True ?w ?s]) (auto simp: no_refusal_def)
  qed
qed

lemma sw_reserve_mono:
  assumes rep: "writer_rep base path bytes w s" and n: "length bytes + n \<le> 2 ^ 61"
    and res: "sw_reserve_extra (of_nat n) w s = (True, w', s')"
  shows "sw_capacity w \<le> sw_capacity w'"
proof (cases "sw_offset w + of_nat n \<le> sw_capacity w")
  case True
  then show ?thesis using res by (simp add: sw_reserve_extra_def)
next
  case False
  let ?needed = "sw_offset w + of_nat n"
  have "unat ?needed \<le> 2 ^ 61"
    using rep n by (auto elim!: writer_repE simp: unat_add_nowrap unat_of_nat_small)
  with grown_capacity_bounds(1)[of "sw_capacity w" ?needed] False
  have "sw_capacity w \<le> grown_capacity (sw_capacity w) ?needed" by (simp add: word_le_nat_alt word_less_nat_alt)
  moreover have "sw_capacity w' = grown_capacity (sw_capacity w) ?needed"
    using res False by (auto simp: sw_reserve_extra_def Let_def split: prod.splits if_splits)
  ultimately show ?thesis by simp
qed

text \<open>A line stored through \<^verbatim>\<open>prepare_write_buffer\<close>: one that fits is stored whole, and without refusals it is.\<close>

lemma sw_prepare_spec:
  assumes rep: "writer_rep base path bytes w s" and fits: "length line \<le> limit" "length bytes + limit \<le> 2 ^ 61"
    and prep: "sw_prepare (of_nat limit) w s = (dest, w1, s1)"
  shows "dest = Nullptr \<and> \<not> no_refusal s \<or> (\<exists>off s2. dest = Into off \<and> mm_store (sw_mmap w1) off (take limit line) s1 = Some s2
    \<and> sw_capacity w \<le> sw_capacity w1
    \<and> writer_rep base path (bytes @ line) (sw_commit (of_nat (length line)) w1) s2 \<and> (no_refusal s \<longrightarrow> no_refusal s2))"
proof -
  obtain ok w' s' where res: "sw_reserve_extra (of_nat limit) w s = (ok, w', s')" by (metis prod_cases3)
  note sp = sw_reserve_spec[OF rep fits(2) res]
  show ?thesis
  proof (cases ok)
    case False
    then show ?thesis using sp(2) prep res by (auto simp: sw_prepare_def)
  next
    case True
    with sp(1) have rep1: "writer_rep base path bytes w' s'" "length bytes + limit \<le> unat (sw_capacity w')" by auto
    have off: "unat (sw_offset w') = length bytes" "is_mapped (sw_mmap w')"
      and fit: "sw_offset w' + of_nat (length line) \<le> sw_capacity w'"
      using rep1 fits by (auto elim!: writer_repE simp: word_le_nat_alt unat_add_nowrap unat_of_nat_small is_mapped_def)
    have "length bytes + length line \<le> 2 ^ 61" using fits by simp
    from sw_write_spec[OF rep1(1) this] obtain ok2 w2 s2 where wr: "sw_write line w' s' = Some (ok2, w2, s2)"
      "ok2 \<Longrightarrow> writer_rep base path (bytes @ line) w2 s2" "no_refusal s' \<Longrightarrow> ok2 \<and> no_refusal s2" by blast
    have "ok2" "mm_store (sw_mmap w') (length bytes) line s' = Some s2" "w2 = sw_commit (of_nat (length line)) w'"
      using wr(1) fit off by (auto simp: sw_write_def sw_reserve_extra_def sw_commit_def bind_eq_Some_conv)
    then show ?thesis using prep res True off wr sp(2) fits(1) sw_reserve_mono[OF rep fits(2)] by (auto simp: sw_prepare_def)
  qed
qed

text \<open>
  A write from any state of an open writer: it reports success and appends, or reports failure and leaves the
  writer without a mapping; without a mapping a write that fits the old capacity stores nowhere.
\<close>

lemma sw_write_open:
  assumes op: "writer_open base path bytes w s" and n: "length bytes + length d \<le> 2 ^ 61"
  shows "(\<exists>ok w' s'. sw_write d w s = Some (ok, w', s') \<and> writer_open base path (bytes @ (if ok then d else [])) w' s'
      \<and> (is_mapped (sw_mmap w) \<longrightarrow> is_mapped (sw_mmap w') \<or> \<not> ok)
      \<and> (no_refusal s \<and> is_mapped (sw_mmap w) \<longrightarrow> ok \<and> no_refusal s'))
    \<or> sw_write d w s = None \<and> \<not> is_mapped (sw_mmap w) \<and> d \<noteq> []"
proof (cases "is_mapped (sw_mmap w)")
  case True
  from sw_write_spec[OF writer_open_mapped[OF op True] n] obtain ok w' s' where wr: "sw_write d w s = Some (ok, w', s')"
    "ok \<Longrightarrow> writer_rep base path (bytes @ d) w' s'" "no_refusal s \<Longrightarrow> ok \<and> no_refusal s'"
    "\<not> ok \<Longrightarrow> writer_open base path bytes w' s' \<and> \<not> is_mapped (sw_mmap w')" by blast
  have "ok \<Longrightarrow> is_mapped (sw_mmap w')" using wr(2) by (auto elim!: writer_repE simp: is_mapped_def)
  then show ?thesis using wr writer_rep_open by (cases ok) auto
next
  case False
  show ?thesis
  proof (cases "sw_offset w + of_nat (length d) \<le> sw_capacity w")
    case True
    then have "sw_write d w s = (if d = [] then Some (True, w, s) else None)"
      using False by (cases "mm_data (sw_mmap w)") (auto simp: sw_write_def sw_reserve_extra_def mm_store_def is_mapped_def)
    then show ?thesis using False op by auto
  next
    case grow: False
    obtain ok w1 s1 where res: "sw_reserve_extra (of_nat (length d)) w s = (ok, w1, s1)" by (metis prod_cases3)
    note sp = sw_grow_spec[OF op n grow res]
    show ?thesis
    proof (cases ok)
      case True
      then have rep: "writer_rep base path bytes w1 s1" "length bytes + length d \<le> unat (sw_capacity w1)" using sp by auto
      then have "sw_offset w1 + of_nat (length d) \<le> sw_capacity w1"
        using n by (auto elim!: writer_repE simp: word_le_nat_alt unat_add_nowrap unat_of_nat_small)
      then have "sw_write d w s = sw_write d w1 s1" using res True by (simp add: sw_write_def sw_reserve_extra_def)
      moreover from sw_write_spec[OF rep(1) n] obtain ok' w' s' where "sw_write d w1 s1 = Some (ok', w', s')"
        "ok' \<Longrightarrow> writer_rep base path (bytes @ d) w' s'" "\<not> ok' \<Longrightarrow> writer_open base path bytes w' s'" by blast
      ultimately show ?thesis using False writer_rep_open by (cases ok') auto
    next
      case notok: False
      then have "sw_write d w s = Some (False, w1, s1)" using res by (simp add: sw_write_def)
      then show ?thesis using sp notok False by auto
    qed
  qed
qed

definition written :: "string list \<Rightarrow> bool list \<Rightarrow> string" where
  "written ds oks = concat (map fst (filter snd (zip ds oks)))"

lemma written_simps [simp]: "written [] oks = []" "written (d # ds) (ok # oks) = (if ok then d else []) @ written ds oks"
  by (simp_all add: written_def)

lemma written_all: "length oks = length ds \<Longrightarrow> False \<notin> set oks \<Longrightarrow> written ds oks = concat ds"
  by (induction oks ds rule: list_induct2) auto

lemma sw_write_all_spec:
  "writer_open base path bytes w s \<Longrightarrow> length bytes + length (concat ds) \<le> 2 ^ 61 \<Longrightarrow>
   (\<exists>oks w' s'. sw_write_all ds w s = Some (oks, w', s') \<and> length oks = length ds
      \<and> writer_open base path (bytes @ written ds oks) w' s'
      \<and> (no_refusal s \<and> is_mapped (sw_mmap w) \<longrightarrow> False \<notin> set oks \<and> no_refusal s'))
   \<or> sw_write_all ds w s = None \<and> \<not> (no_refusal s \<and> is_mapped (sw_mmap w))
     \<and> (\<exists>ds1 d ds2 oks w' s'. ds = ds1 @ d # ds2 \<and> sw_write_all ds1 w s = Some (oks, w', s') \<and> sw_write d w' s' = None
          \<and> (is_mapped (sw_mmap w) \<longrightarrow> False \<in> set oks) \<and> \<not> is_mapped (sw_mmap w') \<and> d \<noteq> [])"
proof (induction ds arbitrary: bytes w s)
  case (Cons d ds)
  have "length bytes + length d \<le> 2 ^ 61" using Cons.prems(2) by simp
  from sw_write_open[OF Cons.prems(1) this] show ?case
  proof (elim disjE exE conjE)
    fix ok w1 s1
    assume st: "sw_write d w s = Some (ok, w1, s1)" "writer_open base path (bytes @ (if ok then d else [])) w1 s1"
      "is_mapped (sw_mmap w) \<longrightarrow> is_mapped (sw_mmap w1) \<or> \<not> ok" "no_refusal s \<and> is_mapped (sw_mmap w) \<longrightarrow> ok \<and> no_refusal s1"
    have "length (bytes @ (if ok then d else [])) + length (concat ds) \<le> 2 ^ 61" using Cons.prems(2) by simp
    from Cons.IH[OF st(2) this] show ?thesis
    proof (elim disjE exE conjE)
      fix oks w' s'
      assume "sw_write_all ds w1 s1 = Some (oks, w', s')" "length oks = length ds"
        "writer_open base path ((bytes @ (if ok then d else [])) @ written ds oks) w' s'"
        "no_refusal s1 \<and> is_mapped (sw_mmap w1) \<longrightarrow> False \<notin> set oks \<and> no_refusal s'"
      then show ?thesis using st by (intro disjI1 exI[of _ "ok # oks"] exI[of _ w'] exI[of _ s']) auto
    next
      fix ds1 d' ds2 oks w' s'
      assume b: "sw_write_all ds w1 s1 = None" "\<not> (no_refusal s1 \<and> is_mapped (sw_mmap w1))" "ds = ds1 @ d' # ds2"
        "sw_write_all ds1 w1 s1 = Some (oks, w', s')" "sw_write d' w' s' = None" "is_mapped (sw_mmap w1) \<longrightarrow> False \<in> set oks"
        "\<not> is_mapped (sw_mmap w')" "d' \<noteq> []"
      have "sw_write_all (d # ds1) w s = Some (ok # oks, w', s')" using st(1) b(4) by simp
      moreover have "is_mapped (sw_mmap w) \<longrightarrow> False \<in> set (ok # oks)" using st(3) b(6) by auto
      moreover have "d # ds = (d # ds1) @ d' # ds2" using b(3) by simp
      moreover have "sw_write_all (d # ds) w s = None" "\<not> (no_refusal s \<and> is_mapped (sw_mmap w))"
        using st b(1,2) by auto
      ultimately show ?thesis using b(5,7,8) by blast
    qed
  next
    assume "sw_write d w s = None" "\<not> is_mapped (sw_mmap w)" "d \<noteq> []"
    then show ?thesis by (intro disjI2 conjI exI[of _ "[]"] exI[of _ d] exI[of _ ds] exI[of _ w] exI[of _ s]) auto
  qed
qed auto

lemma sw_finish_open:
  assumes op: "writer_open base path bytes w s" and fin: "sw_finish w s = (w', s')"
  shows "fs_fds s' = base" "no_refusal s \<Longrightarrow> content path s' = Some bytes"
    "\<not> is_mapped (sw_mmap w')" "\<not> fh_is_valid (sw_file w')" "sw_capacity w' = sw_capacity w" "sw_offset w' = sw_offset w"
proof -
  from op obtain fd e c where r: "sw_file w = \<lparr>fh_handle = fd, fh_access = ReadWrite\<rparr>" "fd \<ge> 0" "base fd = None"
    "fs_fds s = base(fd \<mapsto> e)" "fd_writable e" "fs_names s path = Some (fd_ino e)" "fs_nodes s (fd_ino e) = Some (Reg c)"
    "length c < 2 ^ 63" "unat (sw_offset w) = length bytes" "length bytes \<le> length c" "take (length bytes) c = bytes" by (rule writer_openE)
  obtain flushed t where fl: "mm_flush (sw_mmap w) s = (flushed, t)" by fastforce
  have fr: "fs_names t = fs_names s" "fs_nodes t = fs_nodes s" "fs_fds t = fs_fds s" "no_refusal s \<Longrightarrow> no_refusal t"
    using fl next_answer_frame[of s "fst (next_answer s)" "snd (next_answer s)"]
    by (auto simp: mm_flush_def split: if_splits prod.splits)
  obtain ok u where tr: "sys_ftruncate fd (length bytes) t = (ok, u)" by fastforce
  have "fs_fds t fd = Some e" "fs_nodes t (fd_ino e) = Some (Reg c)" using fr r by simp_all
  note sp = sys_ftruncate_spec[OF this r(5) tr]
  have res: "s' = sys_close fd u" "w' = w\<lparr>sw_mmap := mm_close (sw_mmap w), sw_file := \<lparr>fh_handle = - 1, fh_access = ReadWrite\<rparr>\<rparr>"
    using fin r(1,2,8,9,10) fl tr
    by (simp_all add: sw_finish_def fh_is_valid_def INVALID_HANDLE_def fh_resize_def fh_close_def)
  show "fs_fds s' = base" using res(1) sp(2) fr(3) r(3,4) by (simp add: sys_close_def fun_upd_idem)
  show "content path s' = Some bytes" if "no_refusal s"
    using that res(1) sp(1,3,4) fr r(6,10,11) by (simp add: content_def node_of_def sys_close_def)
  show "\<not> is_mapped (sw_mmap w')" "\<not> fh_is_valid (sw_file w')" "sw_capacity w' = sw_capacity w" "sw_offset w' = sw_offset w"
    using res(2) by (simp_all add: fh_is_valid_def INVALID_HANDLE_def)
qed

lemmas sw_finish_spec = sw_finish_open[OF writer_rep_open]

lemma sys_open_rw:
  assumes ok: "fs_ok s" and op: "sys_open path \<lparr>of_write = True, of_creat = True, of_trunc = False, of_excl = False\<rparr> s = (fd, s')"
  obtains (refused) "fd = - 1" "\<not> no_refusal s \<or> node_of path s = Some Dir"
    | (opened) e c where "fd \<ge> 0" "fs_fds s fd = None" "fs_fds s' = (fs_fds s)(fd \<mapsto> e)" "fd_writable e"
      "fs_nodes s' (fd_ino e) = Some (Reg c)" "fs_names s' path = Some (fd_ino e)" "no_refusal s \<Longrightarrow> no_refusal s'"
proof -
  obtain a t where ans: "next_answer s = (a, t)" by fastforce
  note fr = next_answer_frame[OF ans]
  have fresh: "fs_fds s (int (fs_next_fd s)) = None" by (rule fs_ok_fresh[OF ok])
  consider "a = Refuse" | "a \<noteq> Refuse" "fs_names s path = None"
    | ino c where "a \<noteq> Refuse" "fs_names s path = Some ino" "fs_nodes s ino = Some (Reg c)"
    | ino where "a \<noteq> Refuse" "fs_names s path = Some ino" "fs_nodes s ino = Some Dir"
    using ok by (metis fs_ok_def node.exhaust not_None_eq)
  then show ?thesis
  proof cases
    case 2
    then show ?thesis using op ans fr fresh
      by (intro opened[of "\<lparr>fd_ino = fs_next_ino s, fd_offset = 0, fd_writable = True\<rparr>" "[]"])
        (auto simp: sys_open_def new_fd_def no_refusal_def)
  next
    case (3 ino c)
    then show ?thesis using op ans fr fresh
      by (intro opened[of "\<lparr>fd_ino = ino, fd_offset = 0, fd_writable = True\<rparr>" c])
        (auto simp: sys_open_def new_fd_def no_refusal_def)
  qed (use op ans fr in \<open>auto intro!: refused simp: sys_open_def node_of_def\<close>)
qed

lemma sw_open_spec:
  assumes ok: "fs_ok s" and cap: "0 < unat cap" "unat cap < 2 ^ 63" and op: "sw_open path cap empty_writer s = (r, w, s')"
  shows "r \<Longrightarrow> writer_rep (fs_fds s) path [] w s'" "no_refusal s \<Longrightarrow> node_of path s \<noteq> Some Dir \<Longrightarrow> r \<and> no_refusal s'"
proof -
  obtain fd t where so: "sys_open path \<lparr>of_write = True, of_creat = True, of_trunc = False, of_excl = False\<rparr> s = (fd, t)" by fastforce
  let ?h = "\<lparr>fh_handle = fd, fh_access = ReadWrite\<rparr>"
  have fo: "fh_open path ReadWrite empty_handle s = (fd \<ge> 0, ?h, t)"
    using so by (simp add: fh_open_def fh_close_def fh_is_valid_def empty_handle_def INVALID_HANDLE_def)
  have "(r \<longrightarrow> writer_rep (fs_fds s) path [] w s') \<and> (no_refusal s \<longrightarrow> node_of path s \<noteq> Some Dir \<longrightarrow> r \<and> no_refusal s')"
    using ok so
  proof (cases rule: sys_open_rw)
    case refused
    then show ?thesis using op fo by (auto simp: sw_open_def empty_writer_def)
  next
    case (opened e c)
    obtain ok1 u where rs: "fh_resize cap ?h t = (ok1, u)" by fastforce
    obtain ok2 m v where mp: "mm_map ?h 0 cap empty_mmap u = (ok2, m, v)" by (metis prod_cases3)
    have "fs_fds t fd = Some e" using opened by simp
    note sp = resize_map_spec[OF refl opened(1) this opened(4,5) cap rs mp]
    let ?c = "take (unat cap) c @ replicate (unat cap - length c) CHR 0x00"
    have len: "min (length c) (unat cap) + (unat cap - length c) = unat cap" by simp
    have unfold: "ok1 \<Longrightarrow> ok2 \<Longrightarrow> r \<and> w = \<lparr>sw_file = ?h, sw_mmap = m, sw_capacity = cap, sw_offset = 0\<rparr> \<and> s' = mm_advise m v"
      "\<not> ok1 \<or> \<not> ok2 \<Longrightarrow> \<not> r"
      using op fo opened(1) rs mp by (cases ok1; cases ok2; auto simp: sw_open_def empty_writer_def split: prod.splits)+
    have "writer_rep (fs_fds s) path [] \<lparr>sw_file = ?h, sw_mmap = m, sw_capacity = cap, sw_offset = 0\<rparr> (mm_advise m v)" if ok1 ok2
      unfolding writer_rep_def using that sp opened cap len
      by (intro exI[of _ fd] exI[of _ e] exI[of _ ?c]) (simp add: mm_advise_frame)
    then show ?thesis using unfold sp(3,9) opened(7) mm_advise_frame(4)[of v m] by (cases ok1; cases ok2) auto
  qed
  then show "r \<Longrightarrow> writer_rep (fs_fds s) path [] w s'" "no_refusal s \<Longrightarrow> node_of path s \<noteq> Some Dir \<Longrightarrow> r \<and> no_refusal s'" by auto
qed


section \<open>Properties\<close>

text \<open>
  C17. A stream writer opened on a name that is not a directory, from any positive initial capacity below
  \<open>2 ^ 63\<close>, and given any list of writes (together at most \<open>2 ^ 61\<close> bytes), each made whatever the ones before
  reported. As long as the kernel refuses nothing, every write succeeds, however often the writer has to grow
  and remap. Otherwise either every write returns, storing only inside the mapping and the file, and
  \<^verbatim>\<open>finish\<close> closes the descriptor and, unless the kernel then refuses the truncation, leaves a file that holds
  exactly the bytes of the writes that reported success, in order; or a write that is not empty, after one that
  failed, stores through the mapping the failed growth gave up.
\<close>

theorem stream_writer_exact:
  assumes "fs_ok s" and "0 < unat cap" and "unat cap < 2 ^ 63" and "length (concat ds) \<le> 2 ^ 61"
  shows "\<exists>opened w s1. sw_open path cap empty_writer s = (opened, w, s1)
     \<and> (no_refusal s \<and> node_of path s \<noteq> Some Dir \<longrightarrow> opened \<and> no_refusal s1)
     \<and> (opened \<longrightarrow>
          (\<exists>oks w' s2 w'' s3. sw_write_all ds w s1 = Some (oks, w', s2) \<and> length oks = length ds
             \<and> sw_finish w' s2 = (w'', s3) \<and> fs_fds s3 = fs_fds s
             \<and> (no_refusal s2 \<longrightarrow> content path s3 = Some (written ds oks))
             \<and> (no_refusal s1 \<longrightarrow> False \<notin> set oks \<and> no_refusal s2 \<and> written ds oks = concat ds))
        \<or> \<not> no_refusal s1 \<and> (\<exists>ds1 d ds2 oks w' s2. ds = ds1 @ d # ds2 \<and> sw_write_all ds1 w s1 = Some (oks, w', s2)
             \<and> False \<in> set oks \<and> \<not> is_mapped (sw_mmap w') \<and> d \<noteq> [] \<and> sw_write d w' s2 = None))"
proof -
  obtain opened w s1 where op: "sw_open path cap empty_writer s = (opened, w, s1)" by (metis prod_cases3)
  note so = sw_open_spec[OF assms(1-3) op]
  show ?thesis
  proof (cases opened)
    case True
    have rep: "writer_rep (fs_fds s) path [] w s1" by (rule so(1)[OF True])
    then have m: "is_mapped (sw_mmap w)" by (auto elim!: writer_repE simp: is_mapped_def)
    have "length ([] :: string) + length (concat ds) \<le> 2 ^ 61" using assms(4) by simp
    from sw_write_all_spec[OF writer_rep_open[OF rep] this, unfolded append_Nil] show ?thesis
    proof (elim disjE exE conjE)
      fix oks w' s2
      assume wr: "sw_write_all ds w s1 = Some (oks, w', s2)" "length oks = length ds"
        "writer_open (fs_fds s) path (written ds oks) w' s2" "no_refusal s1 \<and> is_mapped (sw_mmap w) \<longrightarrow> False \<notin> set oks \<and> no_refusal s2"
      obtain w'' s3 where fin: "sw_finish w' s2 = (w'', s3)" by fastforce
      show ?thesis using op so(2) wr fin sw_finish_open(1,2)[OF wr(3) fin] m written_all[OF wr(2)] by blast
    qed (use op so(2) m in blast)+
  qed (use op so(2) in auto)
qed

theorem stream_writer_exact_witness:
  "fs_ok (empty_fs []) \<and> (\<exists>w s1 w' s2 w'' s3. sw_open ''log'' 4 empty_writer (empty_fs []) = (True, w, s1)
     \<and> sw_write_all [''abc'', ''defg''] w s1 = Some ([True, True], w', s2) \<and> sw_finish w' s2 = (w'', s3)
     \<and> content ''log'' s3 = Some ''abcdefg'')"
proof -
  have "no_refusal (empty_fs [])" "node_of ''log'' (empty_fs []) \<noteq> Some Dir"
    by (simp_all add: no_refusal_def empty_fs_def node_of_def)
  moreover have "length oks = 2 \<Longrightarrow> False \<notin> set oks \<Longrightarrow> oks = [True, True]" for oks :: "bool list" by (auto simp: length_Suc_conv numeral_2_eq_2)
  ultimately show ?thesis
    using stream_writer_exact[OF empty_fs_ok, of 4 "[''abc'', ''defg'']" "''log''" "[]"] empty_fs_ok by fastforce
qed

text \<open>
  When a write needs the file to grow and the kernel refuses, \<^verbatim>\<open>reserve_extra\<close> has already given up the mapping
  but keeps the old capacity: the write reports failure, and the next write that fits the old capacity stores
  through the null mapping.
\<close>

lemma writer_failed_growth:
  assumes "writer_rep base path bytes w s" and "fs_answers s = Refuse # as"
    and "unat (sw_capacity w) < length bytes + length d1" and "length bytes + length d1 \<le> 2 ^ 61"
    and "d2 \<noteq> []" and "length bytes + length d2 \<le> unat (sw_capacity w)"
  shows "\<exists>w' s'. sw_write d1 w s = Some (False, w', s') \<and> sw_write d2 w' s' = None"
proof -
  from assms(1) obtain fd e c where r: "sw_file w = \<lparr>fh_handle = fd, fh_access = ReadWrite\<rparr>" "fd \<ge> 0" "base fd = None"
    "fs_fds s = base(fd \<mapsto> e)" "fd_writable e" "fs_names s path = Some (fd_ino e)" "fs_nodes s (fd_ino e) = Some (Reg c)"
    "sw_mmap w = \<lparr>mm_data = Some (fd_ino e, 0), mm_size = sw_capacity w\<rparr>" "length c = unat (sw_capacity w)" "0 < length c"
    "length c < 2 ^ 63" "unat (sw_offset w) = length bytes" "take (length bytes) c = bytes" by (rule writer_repE)
  have needed: "unat (sw_offset w + of_nat (length d)) = length bytes + length d" if "length bytes + length d \<le> 2 ^ 63" for d :: string
    using r(12) that by (subst unat_add_nowrap) (simp_all add: unat_of_nat_small)
  let ?w = "w\<lparr>sw_mmap := mm_close (sw_mmap w)\<rparr>" and ?s = "s\<lparr>fs_answers := as\<rparr>"
  have grow: "\<not> sw_offset w + of_nat (length d1) \<le> sw_capacity w"
    using needed[of d1] assms(3,4) by (simp add: word_le_nat_alt)
  have "fh_resize n (sw_file w) s = (False, ?s) \<or> fh_resize n (sw_file w) s = (False, s)" for n
    using r(1) assms(2) by (simp add: fh_resize_def sys_ftruncate_def next_answer_def)
  then have "sw_reserve_extra (of_nat (length d1)) w s = (False, ?w, ?s)
      \<or> sw_reserve_extra (of_nat (length d1)) w s = (False, ?w, s)"
    using sw_reserve_grow[OF grow] by (metis prod_cases3)
  then obtain s' where "sw_write d1 w s = Some (False, ?w, s')" by (auto simp: sw_write_def)
  moreover have "sw_write d2 ?w t = None" for t
    using needed[of d2] assms(5,6) r(8,11) r(9)
    by (simp add: sw_write_def sw_reserve_extra_def word_le_nat_alt mm_store_def mm_close_def is_mapped_def)
  ultimately show ?thesis by blast
qed

lemma writer_failed_growth_witness:
  "\<exists>w s as. fs_answers s = Refuse # as \<and> (\<exists>w' s'. sw_write ''abcde'' w s = Some (False, w', s') \<and> sw_write ''x'' w' s' = None)"
proof -
  let ?f = "\<lparr>fs_names = [''log'' \<mapsto> 0], fs_nodes = [0 \<mapsto> Reg ''....''], fs_fds = [3 \<mapsto> \<lparr>fd_ino = 0, fd_offset = 0, fd_writable = True\<rparr>],
    fs_next_ino = 1, fs_next_fd = 4, fs_answers = [Refuse]\<rparr>"
  let ?w = "\<lparr>sw_file = \<lparr>fh_handle = 3, fh_access = ReadWrite\<rparr>, sw_mmap = \<lparr>mm_data = Some (0, 0), mm_size = 4\<rparr>,
    sw_capacity = 4, sw_offset = 0\<rparr>"
  have "writer_rep Map.empty ''log'' [] ?w ?f"
    unfolding writer_rep_def
    by (intro exI[of _ 3] exI[of _ "\<lparr>fd_ino = 0, fd_offset = 0, fd_writable = True\<rparr>"] exI[of _ "''....''"]) simp
  from writer_failed_growth[OF this, of "[]" "''abcde''" "''x''"] show ?thesis
    by (intro exI[of _ ?w] exI[of _ ?f]) simp
qed

end
