(* ===== verification/Sinks.thy ===== *)
theory Sinks
  imports Async_Logger Stream_Writer
begin

text \<open>
  The sinks (\<^verbatim>\<open>include/fpag/logging/sink\<close>): \<^verbatim>\<open>FdSink\<close> writes lines to a standard descriptor, through a buffer
  or directly; \<^verbatim>\<open>FileSink\<close> and \<^verbatim>\<open>JsonLinesSink\<close> format a line straight into the mapping of a stream writer;
  \<^verbatim>\<open>NullSink\<close> drops everything and \<^verbatim>\<open>CompositeSink\<close> hands every call to its members in order. The members of a
  tuple have their own types in the code; here one datatype holds every kind of sink. A store through a pointer
  that is not a mapping has no result. \<^verbatim>\<open>fmt::format_to_n\<close> stores at most the bytes it is allowed and reports the
  length of the whole text.
\<close>

section \<open>Definitions\<close>

subsection \<open>FdSink\<close>

record fd_sink =
  fk_fd :: int
  fk_has_buffer :: bool
  fk_buffer :: string
  fk_capacity :: nat
  fk_style :: color_style
  fk_use_buffer :: bool

definition fd_sink_new :: "bool \<Rightarrow> int \<Rightarrow> bool \<Rightarrow> nat \<Rightarrow> color_style \<Rightarrow> bool \<Rightarrow> fd_sink option" where
  "fd_sink_new dbg fd has_buffer buffer_capacity style use_buffer = do {
     let k = \<lparr>fk_fd = fd, fk_has_buffer = has_buffer, fk_buffer = [], fk_capacity = buffer_capacity, fk_style = style,
              fk_use_buffer = use_buffer\<rparr>;
     (if use_buffer
      then do { fpag_dcheck dbg has_buffer; fpag_dcheck dbg (buffer_capacity > 0); Some k }
      else Some k)
   }"

definition fd_available :: "fd_sink \<Rightarrow> nat" where "fd_available k = fk_capacity k - length (fk_buffer k)"

definition directly_write :: "string \<Rightarrow> string \<Rightarrow> fd_sink \<Rightarrow> fs \<Rightarrow> fs" where
  "directly_write pre message k s =
     io_write (fk_fd k) NEWLINE (io_write (fk_fd k) message (io_write (fk_fd k) pre s))"

definition fd_flush :: "fd_sink \<Rightarrow> fs \<Rightarrow> fd_sink \<times> fs" where
  "fd_flush k s =
     (if fk_buffer k \<noteq> [] \<and> fk_use_buffer k then (k\<lparr>fk_buffer := []\<rparr>, io_write (fk_fd k) (fk_buffer k) s) else (k, s))"

definition fd_log :: "log_entry \<Rightarrow> fd_sink \<Rightarrow> fs \<Rightarrow> (fd_sink \<times> fs) option" where
  "fd_log entry k s =
     (let pre = log_prefix (en_level entry) (fk_style k);
          message = text_of (en_message entry) in
      if \<not> fk_use_buffer k \<and> pre \<noteq> [] then Some (k, directly_write pre message k s)
      else let total_len = length pre + length message + 1 in
      if total_len \<le> fd_available k
      then (if fk_has_buffer k then Some (k\<lparr>fk_buffer := fk_buffer k @ pre @ message @ NEWLINE\<rparr>, s) else None)
      else let (k, s) = fd_flush k s in
      if total_len \<le> fk_capacity k then Some (k, s) else Some (k, directly_write pre message k s))"

subsection \<open>FileSink and JsonLinesSink\<close>

definition MAX_LOG_LINE_SIZE :: nat where "MAX_LOG_LINE_SIZE = 2048"
definition MAX_LOG_JSON_SIZE :: nat where "MAX_LOG_JSON_SIZE = 4096"

definition file_line :: "log_entry \<Rightarrow> string" where
  "file_line entry = ''['' @ nat_to_string (unat (en_timestamp_ns entry)) @ '']['' @
     log_level_to_string_with_padding_upper (en_level entry) @ ''] '' @ text_of (en_message entry) @ NEWLINE"

definition json_line :: "log_entry \<Rightarrow> string" where
  "json_line entry = [CHR ''{'', CHR 0x22] @ ''ts'' @ [CHR 0x22, CHR '':''] @ nat_to_string (unat (en_timestamp_ns entry)) @
     [CHR '','', CHR 0x22] @ ''level'' @ [CHR 0x22, CHR '':'', CHR 0x22] @ log_level_to_string (en_level entry) @
     [CHR 0x22, CHR '','', CHR 0x22] @ ''msg'' @ [CHR 0x22, CHR '':'', CHR 0x22] @ text_of (en_message entry) @
     [CHR 0x22, CHR ''}''] @ NEWLINE"

definition format_line :: "nat \<Rightarrow> string \<Rightarrow> stream_writer \<Rightarrow> fs \<Rightarrow> (stream_writer \<times> fs) option" where
  "format_line limit line w s =
     (let (dest, w, s) = sw_prepare (of_nat limit) w s in
      case dest of
        Nullptr \<Rightarrow> Some (w, s)
      | Wild \<Rightarrow> None
      | Into off \<Rightarrow> do {
          s \<leftarrow> mm_store (sw_mmap w) off (take limit line) s;
          Some (sw_commit (of_nat (length line)) w, s)
        })"

definition file_sink_new :: "string \<Rightarrow> usize \<Rightarrow> fs \<Rightarrow> stream_writer \<times> fs" where
  "file_sink_new path initial_capacity s = snd (sw_open path initial_capacity empty_writer s)"

definition file_sink_log :: "log_entry \<Rightarrow> stream_writer \<Rightarrow> fs \<Rightarrow> (stream_writer \<times> fs) option" where
  "file_sink_log entry w s = format_line MAX_LOG_LINE_SIZE (file_line entry) w s"

definition file_sink_flush :: "stream_writer \<Rightarrow> fs \<Rightarrow> stream_writer \<times> fs" where
  "file_sink_flush w s = sw_finish w s"

definition json_sink_new :: "string \<Rightarrow> usize \<Rightarrow> fs \<Rightarrow> stream_writer \<times> fs" where
  "json_sink_new path initial_capacity s = snd (sw_open path initial_capacity empty_writer s)"

definition json_sink_open :: "string \<Rightarrow> usize \<Rightarrow> stream_writer \<Rightarrow> fs \<Rightarrow> bool \<times> stream_writer \<times> fs" where
  "json_sink_open path initial_capacity w s = sw_open path initial_capacity w s"

definition json_sink_log :: "log_entry \<Rightarrow> stream_writer \<Rightarrow> fs \<Rightarrow> (stream_writer \<times> fs) option" where
  "json_sink_log entry w s = format_line MAX_LOG_JSON_SIZE (json_line entry) w s"

definition json_sink_flush :: "stream_writer \<Rightarrow> fs \<Rightarrow> stream_writer \<times> fs" where
  "json_sink_flush w s = sw_finish w s"

subsection \<open>NullSink and CompositeSink\<close>

datatype sink = Fd_Sink fd_sink | File_Sink stream_writer | Json_Sink stream_writer | Null_Sink | Composite_Sink "sink list"

fun sink_log :: "log_entry \<Rightarrow> sink \<Rightarrow> fs \<Rightarrow> (sink \<times> fs) option"
  and sinks_log :: "log_entry \<Rightarrow> sink list \<Rightarrow> fs \<Rightarrow> (sink list \<times> fs) option" where
  "sink_log entry (Fd_Sink k) s = map_option (map_prod Fd_Sink id) (fd_log entry k s)"
| "sink_log entry (File_Sink w) s = map_option (map_prod File_Sink id) (file_sink_log entry w s)"
| "sink_log entry (Json_Sink w) s = map_option (map_prod Json_Sink id) (json_sink_log entry w s)"
| "sink_log entry Null_Sink s = Some (Null_Sink, s)"
| "sink_log entry (Composite_Sink ks) s = map_option (map_prod Composite_Sink id) (sinks_log entry ks s)"
| "sinks_log entry [] s = Some ([], s)"
| "sinks_log entry (k # ks) s = do {
     (k, s) \<leftarrow> sink_log entry k s;
     (ks, s) \<leftarrow> sinks_log entry ks s;
     Some (k # ks, s)
   }"

fun sink_flush :: "sink \<Rightarrow> fs \<Rightarrow> sink \<times> fs" and sinks_flush :: "sink list \<Rightarrow> fs \<Rightarrow> sink list \<times> fs" where
  "sink_flush (Fd_Sink k) s = map_prod Fd_Sink id (fd_flush k s)"
| "sink_flush (File_Sink w) s = map_prod File_Sink id (file_sink_flush w s)"
| "sink_flush (Json_Sink w) s = map_prod Json_Sink id (json_sink_flush w s)"
| "sink_flush Null_Sink s = (Null_Sink, s)"
| "sink_flush (Composite_Sink ks) s = map_prod Composite_Sink id (sinks_flush ks s)"
| "sinks_flush [] s = ([], s)"
| "sinks_flush (k # ks) s =
     (let (k, s) = sink_flush k s; (ks, s) = sinks_flush ks s in (k # ks, s))"

fun log_all :: "log_entry list \<Rightarrow> sink \<Rightarrow> fs \<Rightarrow> (sink \<times> fs) option" where
  "log_all [] k s = Some (k, s)"
| "log_all (e # es) k s = do { (k, s) \<leftarrow> sink_log e k s; log_all es k s }"

section \<open>A standard descriptor\<close>

text \<open>
  The lines a buffered sink keeps are found by going through them with the fill level of the buffer.
\<close>

definition fd_line :: "color_style \<Rightarrow> log_entry \<Rightarrow> string" where
  "fd_line style entry = log_prefix (en_level entry) style @ text_of (en_message entry) @ NEWLINE"

fun kept_lines :: "nat \<Rightarrow> nat \<Rightarrow> string list \<Rightarrow> string list" where
  "kept_lines cap used [] = []"
| "kept_lines cap used (l # ls) =
     (if used + length l \<le> cap then l # kept_lines cap (used + length l) ls
      else if length l \<le> cap then kept_lines cap 0 ls
      else l # kept_lines cap 0 ls)"

lemma directly_write_stream:
  "stream_at (fk_fd k) out s \<Longrightarrow> stream_at (fk_fd k) (out @ pre @ message @ NEWLINE) (directly_write pre message k s)"
  unfolding directly_write_def by (metis append_assoc io_write_stream)

lemma fd_flush_stream:
  assumes "stream_at (fk_fd k) out s" "fk_use_buffer k" "fd_flush k s = (k', s')"
  shows "stream_at (fk_fd k) (out @ fk_buffer k) s'" "k' = k\<lparr>fk_buffer := []\<rparr>"
  using assms io_write_stream[OF assms(1), of "fk_buffer k"] by (cases "fk_buffer k = []"; auto simp: fd_flush_def)+


lemma fd_log_stream:
  assumes st: "stream_at (fk_fd k) out s" and buf: "fk_use_buffer k" "fk_has_buffer k" "length (fk_buffer k) \<le> fk_capacity k"
  obtains k' s' new where "fd_log e k s = Some (k', s')" "stream_at (fk_fd k) new s'"
    "k' = k\<lparr>fk_buffer := fk_buffer k'\<rparr>" "length (fk_buffer k') \<le> fk_capacity k"
    "new @ fk_buffer k' @ concat (kept_lines (fk_capacity k) (length (fk_buffer k')) ls)
      = out @ fk_buffer k @ concat (kept_lines (fk_capacity k) (length (fk_buffer k)) (fd_line (fk_style k) e # ls))"
proof -
  let ?pre = "log_prefix (en_level e) (fk_style k)" and ?msg = "text_of (en_message e)" and ?l = "fd_line (fk_style k) e"
  have len: "length ?l = length ?pre + length ?msg + 1" by (simp add: fd_line_def NEWLINE_def)
  obtain k1 s1 where fl: "fd_flush k s = (k1, s1)" by fastforce
  note flushed = fd_flush_stream[OF st buf(1) fl]
  consider (fits) "length (fk_buffer k) + length ?l \<le> fk_capacity k"
    | (lost) "\<not> length (fk_buffer k) + length ?l \<le> fk_capacity k" "length ?l \<le> fk_capacity k"
    | (direct) "\<not> length ?l \<le> fk_capacity k" by linarith
  then show ?thesis
  proof cases
    case fits
    then have "length ?pre + length ?msg + 1 \<le> fd_available k" using len by (simp add: fd_available_def)
    then have "fd_log e k s = Some (k\<lparr>fk_buffer := fk_buffer k @ ?l\<rparr>, s)"
      using buf by (simp add: fd_log_def Let_def fd_line_def)
    then show ?thesis using fits st by (intro that[of "k\<lparr>fk_buffer := fk_buffer k @ ?l\<rparr>" s out]) (simp_all add: ac_simps)
  next
    case lost
    then have "fd_log e k s = Some (k1, s1)" using buf len fl flushed(2) by (simp add: fd_log_def fd_available_def Let_def)
    then show ?thesis using lost flushed by (intro that[of k1 s1 "out @ fk_buffer k"]) simp_all
  next
    case direct
    then have "fd_log e k s = Some (k1, directly_write ?pre ?msg k1 s1)"
      using buf len fl flushed(2) by (simp add: fd_log_def fd_available_def Let_def)
    moreover have "stream_at (fk_fd k) (out @ fk_buffer k @ ?l) (directly_write ?pre ?msg k1 s1)"
      using directly_write_stream[of k1 "out @ fk_buffer k" s1 ?pre ?msg] flushed by (simp add: fd_line_def)
    ultimately show ?thesis using direct flushed(2) buf(3)
      by (intro that[of k1 "directly_write ?pre ?msg k1 s1" "out @ fk_buffer k @ ?l"]) simp_all
  qed
qed

lemma fd_sink_output:
  assumes "stream_at (fk_fd k) out s" "fk_use_buffer k" "fk_has_buffer k" "length (fk_buffer k) \<le> fk_capacity k"
  shows "\<exists>k' s' k'' s''. log_all es (Fd_Sink k) s = Some (k', s') \<and> sink_flush k' s' = (k'', s'')
    \<and> stream_at (fk_fd k) (out @ fk_buffer k @ concat (kept_lines (fk_capacity k) (length (fk_buffer k)) (map (fd_line (fk_style k)) es))) s''"
  using assms
proof (induction es arbitrary: k out s)
  case Nil
  obtain k1 s1 where fl: "fd_flush k s = (k1, s1)" by fastforce
  with fd_flush_stream[OF Nil(1,2) fl] show ?case by auto
next
  case (Cons e es)
  obtain k1 s1 new where st: "fd_log e k s = Some (k1, s1)" "stream_at (fk_fd k) new s1" "k1 = k\<lparr>fk_buffer := fk_buffer k1\<rparr>"
    "length (fk_buffer k1) \<le> fk_capacity k"
    "new @ fk_buffer k1 @ concat (kept_lines (fk_capacity k) (length (fk_buffer k1)) (map (fd_line (fk_style k)) es))
      = out @ fk_buffer k @ concat (kept_lines (fk_capacity k) (length (fk_buffer k)) (fd_line (fk_style k) e # map (fd_line (fk_style k)) es))"
    using fd_log_stream[OF Cons.prems] by blast
  have same: "fk_fd k1 = fk_fd k" "fk_use_buffer k1" "fk_has_buffer k1" "fk_capacity k1 = fk_capacity k" "fk_style k1 = fk_style k"
    using Cons.prems(2,3) by (subst st(3); simp)+
  have "stream_at (fk_fd k1) new s1" "length (fk_buffer k1) \<le> fk_capacity k1" using st(2,4) same by simp_all
  from Cons.IH[OF this(1) same(2,3) this(2)] st(1,5) same show ?case by auto
qed

section \<open>A mapped file\<close>

lemma format_line_spec:
  assumes rep: "writer_rep base path bytes w s" and fits: "length line \<le> limit" "length bytes + limit \<le> 2 ^ 61" and nr: "no_refusal s"
  obtains w' s' where "format_line limit line w s = Some (w', s')" "writer_rep base path (bytes @ line) w' s'" "no_refusal s'"
    "sw_capacity w \<le> sw_capacity w'"
proof -
  obtain dest w1 s1 where prep: "sw_prepare (of_nat limit) w s = (dest, w1, s1)" by (metis prod_cases3)
  from sw_prepare_spec[OF rep fits prep] nr obtain off s2 where st: "dest = Into off"
    "mm_store (sw_mmap w1) off (take limit line) s1 = Some s2" "sw_capacity w \<le> sw_capacity w1"
    "writer_rep base path (bytes @ line) (sw_commit (of_nat (length line)) w1) s2" "no_refusal s2" by blast
  with that[of "sw_commit (of_nat (length line)) w1" s2] prep show ?thesis by (simp add: format_line_def sw_commit_def)
qed

lemma file_sink_exact:
  "writer_rep base path bytes w s \<Longrightarrow> no_refusal s \<Longrightarrow> list_all (\<lambda>e. length (file_line e) \<le> MAX_LOG_LINE_SIZE) es \<Longrightarrow>
   length bytes + (length es + 1) * MAX_LOG_LINE_SIZE \<le> 2 ^ 61 \<Longrightarrow>
   \<exists>w' s'. log_all es (File_Sink w) s = Some (File_Sink w', s') \<and> no_refusal s'
     \<and> writer_rep base path (bytes @ concat (map file_line es)) w' s' \<and> sw_capacity w \<le> sw_capacity w'"
proof (induction es arbitrary: bytes w s)
  case (Cons e es)
  have "length (file_line e) \<le> MAX_LOG_LINE_SIZE" "length bytes + MAX_LOG_LINE_SIZE \<le> 2 ^ 61" using Cons.prems(3,4) by simp_all
  from format_line_spec[OF Cons.prems(1) this Cons.prems(2)] obtain w1 s1 where
    st: "file_sink_log e w s = Some (w1, s1)" "writer_rep base path (bytes @ file_line e) w1 s1" "no_refusal s1"
    "sw_capacity w \<le> sw_capacity w1"
    unfolding file_sink_log_def by blast
  have "length (bytes @ file_line e) + (length es + 1) * MAX_LOG_LINE_SIZE \<le> 2 ^ 61" using Cons.prems(3,4) by simp
  from Cons.IH[OF st(2,3) _ this] Cons.prems(3) st show ?case by (auto intro: order_trans)
qed auto

text \<open>
  A line formatted after \<^verbatim>\<open>finish\<close>: with room in the capacity the writer still remembers it goes through a pointer
  into no mapping, without it the growth fails on the closed file and the line is dropped.
\<close>

lemma format_after_finish:
  assumes rep: "writer_rep base path bytes w s" and "bytes \<noteq> []" and "length bytes + limit \<le> 2 ^ 61"
    and fin: "sw_finish w s = (w', s')"
  shows "format_line limit line w' s' = (if length bytes + limit \<le> unat (sw_capacity w) then None else Some (w', s'))"
proof -
  note sp = sw_finish_spec[OF rep fin]
  have off: "unat (sw_offset w') = length bytes" using sp(6) rep by (auto elim!: writer_repE)
  then have sum: "unat (sw_offset w' + of_nat limit) = length bytes + limit"
    using assms(3) by (subst unat_add_nowrap) (simp_all add: unat_of_nat_small)
  have m: "mm_close (sw_mmap w') = sw_mmap w'" using sp(3) by (simp add: mm_close_def)
  show ?thesis
  proof (cases "length bytes + limit \<le> unat (sw_capacity w)")
    case True
    then show ?thesis using sum off sp(3,5) assms(2)
      by (auto simp: format_line_def sw_prepare_def sw_reserve_extra_def word_le_nat_alt)
  next
    case False
    then have "\<not> sw_offset w' + of_nat limit \<le> sw_capacity w'" using sum sp(5) by (simp add: word_le_nat_alt)
    then show ?thesis using False m sp(4)
      by (simp add: format_line_def sw_prepare_def sw_reserve_extra_def fh_resize_def)
  qed
qed

lemma kept_all: "used + length (concat ls) \<le> cap \<Longrightarrow> kept_lines cap used ls = ls"
  by (induction cap used ls rule: kept_lines.induct) auto

section \<open>Properties\<close>

text \<open>
  A buffered standard-descriptor sink whose buffer is empty, on a stream that takes everything: entries whose
  lines together fit the buffer come out complete and in order after a flush. But of two entries that each fit
  the buffer and do not fit it together, the second is lost: \<^verbatim>\<open>log\<close> flushes the first, finds that the second
  fits the capacity, and the branch that should store it is empty.
\<close>

lemma fd_sink_loses_record:
  assumes "stream_at (fk_fd k) out s" and "fk_use_buffer k" and "fk_has_buffer k" and "fk_buffer k = []"
  shows "(length (concat (map (fd_line (fk_style k)) es)) \<le> fk_capacity k \<longrightarrow>
      (\<exists>k' s' k'' s''. log_all es (Fd_Sink k) s = Some (k', s') \<and> sink_flush k' s' = (k'', s'')
        \<and> stream_at (fk_fd k) (out @ concat (map (fd_line (fk_style k)) es)) s''))
    \<and> (length (fd_line (fk_style k) e1) \<le> fk_capacity k \<longrightarrow> length (fd_line (fk_style k) e2) \<le> fk_capacity k \<longrightarrow>
       length (fd_line (fk_style k) e1) + length (fd_line (fk_style k) e2) > fk_capacity k \<longrightarrow>
      (\<exists>k' s' k'' s''. log_all [e1, e2] (Fd_Sink k) s = Some (k', s') \<and> sink_flush k' s' = (k'', s'')
        \<and> stream_at (fk_fd k) (out @ fd_line (fk_style k) e1) s''))"
proof (intro conjI impI)
  assume "length (concat (map (fd_line (fk_style k)) es)) \<le> fk_capacity k"
  then have "kept_lines (fk_capacity k) 0 (map (fd_line (fk_style k)) es) = map (fd_line (fk_style k)) es" by (simp add: kept_all)
  with fd_sink_output[OF assms(1-3), of es] assms(4)
  show "\<exists>k' s' k'' s''. log_all es (Fd_Sink k) s = Some (k', s') \<and> sink_flush k' s' = (k'', s'')
    \<and> stream_at (fk_fd k) (out @ concat (map (fd_line (fk_style k)) es)) s''" by simp
next
  assume "length (fd_line (fk_style k) e1) \<le> fk_capacity k" "length (fd_line (fk_style k) e2) \<le> fk_capacity k"
    "length (fd_line (fk_style k) e1) + length (fd_line (fk_style k) e2) > fk_capacity k"
  then have "kept_lines (fk_capacity k) 0 (map (fd_line (fk_style k)) [e1, e2]) = [fd_line (fk_style k) e1]" by simp
  with fd_sink_output[OF assms(1-3), of "[e1, e2]"] assms(4)
  show "\<exists>k' s' k'' s''. log_all [e1, e2] (Fd_Sink k) s = Some (k', s') \<and> sink_flush k' s' = (k'', s'')
    \<and> stream_at (fk_fd k) (out @ fd_line (fk_style k) e1) s''" by simp
qed

definition stdout_fs :: fs where
  "stdout_fs = \<lparr>fs_names = Map.empty, fs_nodes = [0 \<mapsto> Reg []], fs_fds = [1 \<mapsto> \<lparr>fd_ino = 0, fd_offset = 0, fd_writable = True\<rparr>],
     fs_next_ino = 1, fs_next_fd = 2, fs_answers = []\<rparr>"

definition small_sink :: fd_sink where
  "small_sink = \<lparr>fk_fd = STDOUT_FD, fk_has_buffer = True, fk_buffer = [], fk_capacity = 12, fk_style = Off, fk_use_buffer = True\<rparr>"

definition info_entry :: log_entry where
  "info_entry = \<lparr>en_level = Info, en_message = [65, 66], en_timestamp_ns = 7\<rparr>"

lemma fd_sink_loses_record_witness:
  "stream_at (fk_fd small_sink) [] stdout_fs \<and>
   (\<exists>k' s' k'' s''. log_all [info_entry, info_entry] (Fd_Sink small_sink) stdout_fs = Some (k', s')
      \<and> sink_flush k' s' = (k'', s'') \<and> stream_at STDOUT_FD (fd_line Off info_entry) s'')"
proof -
  have st: "stream_at (fk_fd small_sink) [] stdout_fs"
    by (simp add: stream_at_def small_sink_def stdout_fs_def STDOUT_FD_def)
  have "length (fd_line Off info_entry) = 10"
    by (simp add: fd_line_def info_entry_def text_of_def NEWLINE_def log_prefix_def PLAIN_PREFIXES_def)
  then show ?thesis
    using fd_sink_loses_record[OF st, of "[]" info_entry info_entry] st by (simp add: small_sink_def)
qed

text \<open>
  C35. A file sink opened with a positive capacity, on a kernel that refuses nothing, and given entries whose
  lines are at most 2048 bytes long each: the lines of the entries logged are exactly what the file holds after
  \<^verbatim>\<open>flush\<close>, and the descriptor is closed. But \<^verbatim>\<open>flush\<close> finishes the writer and keeps its capacity and offset, so
  the first entry logged after a flush is formatted through a pointer into no mapping when 2048 more bytes fit
  the capacity, which is never less than the initial one, and is silently dropped when they do not.
\<close>

theorem file_sink_log_after_flush:
  assumes "fs_ok s" and "no_refusal s" and "node_of path s \<noteq> Some Dir"
    and "list_all (\<lambda>e. length (file_line e) \<le> MAX_LOG_LINE_SIZE) es" and "es \<noteq> []"
    and "0 < unat cap" "unat cap \<le> 2 ^ 61" "(length es + 1) * MAX_LOG_LINE_SIZE \<le> 2 ^ 61"
  shows "\<exists>w s1 w' s2 w'' s3. file_sink_new path cap s = (w, s1) \<and> log_all es (File_Sink w) s1 = Some (File_Sink w', s2)
     \<and> sink_flush (File_Sink w') s2 = (File_Sink w'', s3)
     \<and> content path s3 = Some (concat (map file_line es)) \<and> fs_fds s3 = fs_fds s \<and> cap \<le> sw_capacity w''
     \<and> sink_log e (File_Sink w'') s3 =
         (if length (concat (map file_line es)) + MAX_LOG_LINE_SIZE \<le> unat (sw_capacity w'') then None
          else Some (File_Sink w'', s3))"
proof -
  obtain r w s1 where op: "sw_open path cap empty_writer s = (r, w, s1)" by (metis prod_cases3)
  have "unat cap < 2 ^ 63" using assms(7) by simp
  note so = sw_open_spec[OF assms(1,6) this op]
  have r: "writer_rep (fs_fds s) path [] w s1" "no_refusal s1" using so assms(2,3) by auto
  have cap: "sw_capacity w = cap" using op so(2) assms(2,3)
    by (auto simp: sw_open_def empty_writer_def Let_def split: prod.splits if_splits)
  from file_sink_exact[OF r(1,2) assms(4)] assms(8) obtain w' s2 where
    lg: "log_all es (File_Sink w) s1 = Some (File_Sink w', s2)" "no_refusal s2"
    "writer_rep (fs_fds s) path (concat (map file_line es)) w' s2" "sw_capacity w \<le> sw_capacity w'" by auto
  obtain w'' s3 where fin: "sw_finish w' s2 = (w'', s3)" by fastforce
  have len: "length (concat (map file_line xs)) \<le> length xs * MAX_LOG_LINE_SIZE"
    if "list_all (\<lambda>e. length (file_line e) \<le> MAX_LOG_LINE_SIZE) xs" for xs
    using that by (induction xs) auto
  have "concat (map file_line es) \<noteq> []" using assms(5) by (cases es) (auto simp: file_line_def)
  moreover have "length (concat (map file_line es)) + MAX_LOG_LINE_SIZE \<le> 2 ^ 61" using len[OF assms(4)] assms(8) by simp
  ultimately have "sink_log e (File_Sink w'') s3 =
      (if length (concat (map file_line es)) + MAX_LOG_LINE_SIZE \<le> unat (sw_capacity w'') then None else Some (File_Sink w'', s3))"
    using format_after_finish[OF lg(3) _ _ fin, of MAX_LOG_LINE_SIZE] sw_finish_spec(5)[OF lg(3) fin] by (simp add: file_sink_log_def)
  moreover have "file_sink_new path cap s = (w, s1)" using op by (simp add: file_sink_new_def)
  ultimately show ?thesis using lg fin sw_finish_spec[OF lg(3) fin] cap by (simp add: file_sink_flush_def)
qed

theorem file_sink_log_after_flush_witness:
  "fs_ok (empty_fs []) \<and> (\<exists>w s1 w' s2 w'' s3. file_sink_new ''log'' 4096 (empty_fs []) = (w, s1)
     \<and> log_all [info_entry] (File_Sink w) s1 = Some (File_Sink w', s2)
     \<and> sink_flush (File_Sink w') s2 = (File_Sink w'', s3) \<and> content ''log'' s3 = Some (file_line info_entry)
     \<and> sink_log info_entry (File_Sink w'') s3 = None)"
proof -
  have "no_refusal (empty_fs [])" "node_of ''log'' (empty_fs []) \<noteq> Some Dir"
    by (simp_all add: no_refusal_def empty_fs_def node_of_def)
  moreover have "length (file_line info_entry) \<le> MAX_LOG_LINE_SIZE"
    by (simp add: file_line_def info_entry_def text_of_def NEWLINE_def MAX_LOG_LINE_SIZE_def nat_to_string.simps[of 7])
  ultimately show ?thesis
    using file_sink_log_after_flush[OF empty_fs_ok, of "[]" "''log''" "[info_entry]" 4096 info_entry] empty_fs_ok
    by (auto simp: MAX_LOG_LINE_SIZE_def word_le_nat_alt)
qed

end
