(* ===== verification/Profiler.thy ===== *)
theory Profiler
  imports Sinks
begin

text \<open>
  The profiler (\<^verbatim>\<open>src/debug/profiler\<close>): \<^verbatim>\<open>Profiler\<close> collects events while it is enabled, \<^verbatim>\<open>ProfileSection\<close> and
  \<^verbatim>\<open>ProfileScope\<close> measure a span, and \<^verbatim>\<open>TimeTraceFormatter\<close> writes events as a JSON trace through a stream writer.
  An event names its section by ids of the profiler's interner. Each call of the profiler is one step: the list of
  events is only touched under its mutex. Times and thread and process ids come from the caller of a step. A
  section refers to its file by a string literal. The text fmt gives a floating point number is a parameter, from
  the nanoseconds it is computed from.
\<close>

section \<open>Definitions\<close>

subsection \<open>Profiler\<close>

definition INVALID_STRING_POOL_ID :: pool_id where "INVALID_STRING_POOL_ID = 0xFFFFFFFF"

type_synonym call_site = "string \<times> u32"

record profile_event =
  pe_name :: pool_id
  pe_category :: pool_id
  pe_location :: call_site
  pe_start_time_ns :: u64
  pe_duration_ns :: u64
  pe_thread_id :: u64
  pe_process_id :: u32

record profiler =
  pf_enabled :: bool
  pf_events :: "profile_event list"
  pf_interner :: "interner \<times> vm"

record profiler_env =
  pr_rounds :: nat
  pr_hash :: "name \<Rightarrow> u64"
  pr_dbg :: bool
  pr_os :: os

definition Profiler_new :: "profiler_env \<Rightarrow> usize \<Rightarrow> usize \<Rightarrow> vm \<Rightarrow> profiler option" where
  "Profiler_new env interner_names interner_pool_bytes v = do {
     si \<leftarrow> StringInterner (pr_dbg env) (pr_os env) interner_names interner_pool_bytes v;
     Some \<lparr>pf_enabled = False, pf_events = [], pf_interner = si\<rparr>
   }"

definition record_event :: "profile_event \<Rightarrow> profiler \<Rightarrow> profiler" where
  "record_event event p = (if \<not> pf_enabled p then p else p\<lparr>pf_events := pf_events p @ [event]\<rparr>)"

definition profiler_start :: "profiler \<Rightarrow> profiler" where
  "profiler_start p = (p\<lparr>pf_events := []\<rparr>)\<lparr>pf_enabled := True\<rparr>"

definition profiler_stop :: "profiler \<Rightarrow> profiler" where "profiler_stop p = p\<lparr>pf_enabled := False\<rparr>"

definition profiler_clear :: "profiler \<Rightarrow> profiler" where "profiler_clear p = p\<lparr>pf_events := []\<rparr>"

definition copy_events :: "profiler \<Rightarrow> profile_event list" where "copy_events p = pf_events p"

definition profiler_intern :: "profiler_env \<Rightarrow> name \<Rightarrow> profiler \<Rightarrow> (pool_id \<times> profiler) option" where
  "profiler_intern env n p = do {
     (i, si) \<leftarrow> interner_store (pr_rounds env) (pr_hash env) (pr_dbg env) (pr_os env) n (pf_interner p);
     Some (i, p\<lparr>pf_interner := si\<rparr>)
   }"

subsection \<open>ProfileSection and ProfileScope\<close>

record profile_section =
  se_profiler :: bool
  se_name :: pool_id
  se_category :: pool_id
  se_location :: call_site
  se_start_time_ns :: u64
  se_is_running :: bool

text \<open>A section may be built on no profiler at all.\<close>

definition section_new :: "profiler_env \<Rightarrow> bool \<Rightarrow> name \<Rightarrow> call_site \<Rightarrow> name \<Rightarrow> profiler \<Rightarrow> (profile_section \<times> profiler) option" where
  "section_new env has_profiler n loc category p =
     (let se = \<lparr>se_profiler = has_profiler, se_name = INVALID_STRING_POOL_ID, se_category = INVALID_STRING_POOL_ID,
                se_location = loc, se_start_time_ns = 0, se_is_running = False\<rparr>
      in if \<not> has_profiler then Some (se, p)
         else do {
           (i, p) \<leftarrow> profiler_intern env n p;
           (j, p) \<leftarrow> profiler_intern env category p;
           Some (se\<lparr>se_name := i, se_category := j\<rparr>, p)
         })"

definition section_start :: "u64 \<Rightarrow> profile_section \<Rightarrow> profiler \<Rightarrow> profile_section" where
  "section_start now se p =
     (if se_profiler se \<and> pf_enabled p then se\<lparr>se_start_time_ns := now, se_is_running := True\<rparr> else se)"

definition section_stop :: "u64 \<Rightarrow> u64 \<Rightarrow> u32 \<Rightarrow> profile_section \<Rightarrow> profiler \<Rightarrow> profile_section \<times> profiler" where
  "section_stop now tid pid se p =
     (if \<not> se_is_running se then (se, p)
      else let p = record_event \<lparr>pe_name = se_name se, pe_category = se_category se, pe_location = se_location se,
                     pe_start_time_ns = se_start_time_ns se, pe_duration_ns = now - se_start_time_ns se,
                     pe_thread_id = tid, pe_process_id = pid\<rparr> p
           in (se\<lparr>se_is_running := False\<rparr>, p))"

definition scope_new :: "profiler_env \<Rightarrow> bool \<Rightarrow> name \<Rightarrow> call_site \<Rightarrow> name \<Rightarrow> u64 \<Rightarrow> profiler \<Rightarrow> (profile_section \<times> profiler) option" where
  "scope_new env has_profiler n loc category now p = do {
     (se, p) \<leftarrow> section_new env has_profiler n loc category p;
     Some (section_start now se p, p)
   }"

definition scope_end :: "u64 \<Rightarrow> u64 \<Rightarrow> u32 \<Rightarrow> profile_section \<Rightarrow> profiler \<Rightarrow> profiler" where
  "scope_end now tid pid se p = snd (section_stop now tid pid se p)"

subsection \<open>TimeTraceFormatter\<close>

definition quoted :: "string \<Rightarrow> string" where "quoted s = [CHR 0x22] @ s @ [CHR 0x22]"

definition json_field :: "string \<Rightarrow> string \<Rightarrow> string" where "json_field k v = quoted k @ '':'' @ v"

definition MAX_SINGLE_EVENT_WRITE_SIZE :: nat where "MAX_SINGLE_EVENT_WRITE_SIZE = 1024"

definition TRACE_HEADER :: string where "TRACE_HEADER = ''{'' @ json_field ''traceEvents'' ''['' @ NEWLINE"
definition TRACE_FOOTER :: string where "TRACE_FOOTER = '']}'' @ NEWLINE"

record text_event =
  te_name :: string
  te_category :: string
  te_location :: call_site
  te_start :: u64
  te_duration :: u64
  te_thread_id :: u64
  te_process_id :: u32

definition event_line :: "(u64 \<Rightarrow> string) \<Rightarrow> bool \<Rightarrow> text_event \<Rightarrow> string" where
  "event_line us_text comma e =
     ''  {'' @ json_field ''name'' (quoted (te_name e)) @ '','' @ json_field ''cat'' (quoted (te_category e)) @ '','' @
     json_field ''ph'' (quoted ''X'') @ '','' @ json_field ''ts'' (us_text (te_start e)) @ '','' @
     json_field ''dur'' (us_text (te_duration e)) @ '','' @
     json_field ''pid'' (nat_to_string (unat (te_process_id e))) @ '','' @
     json_field ''tid'' (nat_to_string (unat (te_thread_id e))) @ '','' @
     json_field ''args'' (''{'' @ json_field ''file'' (quoted (fst (te_location e))) @ '','' @
       json_field ''line'' (nat_to_string (unat (snd (te_location e)))) @ ''}'') @ ''}'' @
     (if comma then '','' else []) @ NEWLINE"

definition event_text :: "interner \<Rightarrow> profile_event \<Rightarrow> text_event" where
  "event_text si e =
     \<lparr>te_name = (if pe_name e = INVALID_STRING_POOL_ID then ''unnamed'' else text_of (interner_get si (pe_name e))),
      te_category = (if pe_category e = INVALID_STRING_POOL_ID then ''default'' else text_of (interner_get si (pe_category e))),
      te_location = pe_location e, te_start = pe_start_time_ns e, te_duration = pe_duration_ns e,
      te_thread_id = pe_thread_id e, te_process_id = pe_process_id e\<rparr>"

fun write_events :: "(u64 \<Rightarrow> string) \<Rightarrow> interner \<Rightarrow> profile_event list \<Rightarrow> stream_writer \<Rightarrow> fs \<Rightarrow> (bool \<times> stream_writer \<times> fs) option" where
  "write_events us_text si [] w s = Some (True, w, s)"
| "write_events us_text si (e # es) w s =
     (let (dest, w, s) = sw_prepare (of_nat MAX_SINGLE_EVENT_WRITE_SIZE) w s;
          line = event_line us_text (es \<noteq> []) (event_text si e) in
      case dest of
        Nullptr \<Rightarrow> Some (False, w, s)
      | Wild \<Rightarrow> None
      | Into off \<Rightarrow> do {
          s \<leftarrow> mm_store (sw_mmap w) off (take MAX_SINGLE_EVENT_WRITE_SIZE line) s;
          write_events us_text si es (sw_commit (of_nat (length line)) w) s
        })"

text \<open>The writer is a local object: its destructor finishes it on every way out.\<close>

definition write_to_file ::
  "(u64 \<Rightarrow> string) \<Rightarrow> string \<Rightarrow> profile_event list \<Rightarrow> interner \<Rightarrow> fs \<Rightarrow> (bool \<times> fs) option" where
  "write_to_file us_text path events si s =
     (let (ok, w, s) = sw_open path (of_nat (length events) * 200 + 512) empty_writer s in
      if \<not> ok then Some (False, snd (sw_finish w s))
      else do {
        (ok, w, s) \<leftarrow> sw_write TRACE_HEADER w s;
        if \<not> ok then Some (False, snd (sw_finish w s))
        else do {
          (ok, w, s) \<leftarrow> write_events us_text si events w s;
          if \<not> ok then Some (False, snd (sw_finish w s))
          else do {
            (ok, w, s) \<leftarrow> sw_write TRACE_FOOTER w s;
            if \<not> ok then Some (False, snd (sw_finish w s))
            else let (w, s) = sw_finish w s in Some (True, snd (sw_finish w s))
          }
        }
      })"

section \<open>Events by name\<close>

text \<open>
  The abstract profiler keeps names instead of ids. Its actions name a section by a number; a number is used for
  one section at a time.
\<close>

datatype prof_action =
    Prof_Start
  | Prof_Stop
  | Prof_Clear
  | Section_New nat name call_site name
  | Section_Start nat u64
  | Section_Stop nat u64 u64 u32

type_synonym prof_state = "profiler \<times> (nat \<Rightarrow> profile_section option)"

fun prof_step :: "profiler_env \<Rightarrow> prof_action \<Rightarrow> prof_state \<Rightarrow> prof_state option" where
  "prof_step env Prof_Start (p, ses) = Some (profiler_start p, ses)"
| "prof_step env Prof_Stop (p, ses) = Some (profiler_stop p, ses)"
| "prof_step env Prof_Clear (p, ses) = Some (profiler_clear p, ses)"
| "prof_step env (Section_New k n loc category) (p, ses) =
     map_option (\<lambda>(se, p). (p, ses(k \<mapsto> se))) (section_new env True n loc category p)"
| "prof_step env (Section_Start k now) (p, ses) =
     Some (p, case ses k of None \<Rightarrow> ses | Some se \<Rightarrow> ses(k \<mapsto> section_start now se p))"
| "prof_step env (Section_Stop k now tid pid) (p, ses) =
     Some (case ses k of None \<Rightarrow> (p, ses) | Some se \<Rightarrow> (let (se, p) = section_stop now tid pid se p in (p, ses(k \<mapsto> se))))"

fun prof_run :: "profiler_env \<Rightarrow> prof_action list \<Rightarrow> prof_state \<Rightarrow> prof_state option" where
  "prof_run env [] st = Some st"
| "prof_run env (a # as) st = do { st \<leftarrow> prof_step env a st; prof_run env as st }"

record span =
  sp_name :: string
  sp_category :: string
  sp_location :: call_site
  sp_begun :: "u64 option"
  
record trace_spec =
  ts_enabled :: bool
  ts_events :: "text_event list"
  ts_spans :: "nat \<Rightarrow> span option"

fun span_step :: "prof_action \<Rightarrow> trace_spec \<Rightarrow> trace_spec" where
  "span_step Prof_Start t = t\<lparr>ts_enabled := True, ts_events := []\<rparr>"
| "span_step Prof_Stop t = t\<lparr>ts_enabled := False\<rparr>"
| "span_step Prof_Clear t = t\<lparr>ts_events := []\<rparr>"
| "span_step (Section_New k n loc category) t =
     t\<lparr>ts_spans := (ts_spans t)(k \<mapsto> \<lparr>sp_name = text_of n, sp_category = text_of category, sp_location = loc, sp_begun = None\<rparr>)\<rparr>"
| "span_step (Section_Start k now) t =
     (case ts_spans t k of
        Some sp \<Rightarrow> if ts_enabled t then t\<lparr>ts_spans := (ts_spans t)(k \<mapsto> sp\<lparr>sp_begun := Some now\<rparr>)\<rparr> else t
      | None \<Rightarrow> t)"
| "span_step (Section_Stop k now tid pid) t =
     (case ts_spans t k of
        Some sp \<Rightarrow>
          (case sp_begun sp of
             Some begun \<Rightarrow>
               t\<lparr>ts_spans := (ts_spans t)(k \<mapsto> sp\<lparr>sp_begun := None\<rparr>),
                 ts_events := (if ts_enabled t
                   then ts_events t @ [\<lparr>te_name = sp_name sp, te_category = sp_category sp, te_location = sp_location sp,
                          te_start = begun, te_duration = now - begun, te_thread_id = tid, te_process_id = pid\<rparr>]
                   else ts_events t)\<rparr>
           | None \<Rightarrow> t)
      | None \<Rightarrow> t)"


definition names_it :: "interner \<Rightarrow> pool_id \<Rightarrow> string \<Rightarrow> bool" where
  "names_it si i n \<longleftrightarrow> pool_valid (si_pool si) i \<and> i \<noteq> INVALID_STRING_POOL_ID \<and> text_of (interner_get si i) = n"

definition section_rep :: "interner \<Rightarrow> profile_section \<Rightarrow> span \<Rightarrow> bool" where
  "section_rep si se sp \<longleftrightarrow> se_profiler se \<and> names_it si (se_name se) (sp_name sp) \<and> names_it si (se_category se) (sp_category sp)
     \<and> se_location se = sp_location sp \<and> sp_begun sp = (if se_is_running se then Some (se_start_time_ns se) else None)"

definition event_rep :: "interner \<Rightarrow> profile_event \<Rightarrow> text_event \<Rightarrow> bool" where
  "event_rep si e te \<longleftrightarrow> names_it si (pe_name e) (te_name te) \<and> names_it si (pe_category e) (te_category te)
     \<and> pe_location e = te_location te \<and> pe_start_time_ns e = te_start te \<and> pe_duration_ns e = te_duration te
     \<and> pe_thread_id e = te_thread_id te \<and> pe_process_id e = te_process_id te"

definition prof_rep :: "os \<Rightarrow> prof_state \<Rightarrow> trace_spec \<Rightarrow> bool" where
  "prof_rep os = (\<lambda>(p, ses) t. interner_ok os (pf_interner p) \<and> pf_enabled p = ts_enabled t
     \<and> list_all2 (event_rep (fst (pf_interner p))) (pf_events p) (ts_events t)
     \<and> (\<forall>k. rel_option (section_rep (fst (pf_interner p))) (ses k) (ts_spans t k)))"

definition keeps_names :: "interner \<Rightarrow> interner \<Rightarrow> bool" where
  "keeps_names si si' \<longleftrightarrow> (\<forall>i n. names_it si i n \<longrightarrow> names_it si' i n)"

lemma keeps_event: "keeps_names si si' \<Longrightarrow> event_rep si e te \<Longrightarrow> event_rep si' e te"
  by (simp add: keeps_names_def event_rep_def)

lemma keeps_section: "keeps_names si si' \<Longrightarrow> section_rep si se sp \<Longrightarrow> section_rep si' se sp"
  by (simp add: keeps_names_def section_rep_def)

lemma event_rep_text: "event_rep si e te \<Longrightarrow> event_text si e = te"
  by (simp add: event_rep_def event_text_def names_it_def)

text \<open>No id the pool hands out is the invalid one, as the pool ends at a page boundary below it.\<close>

lemma valid_id:
  assumes "interner_ok os s" "os_page_size os \<noteq> 1" "pool_valid (si_pool (fst s)) i"
  shows "i \<noteq> INVALID_STRING_POOL_ID"
proof
  assume i: "i = INVALID_STRING_POOL_ID"
  let ?ca = "sp_arena (si_pool (fst s))" and ?p = "unat (os_page_size os)"
  have ok: "pool_ok os (si_pool (fst s)) (snd s)" using assms(1) by (simp add: interner_ok_def)
  then have cap: "unat (ca_capacity ?ca) < 2 ^ 32" "?p dvd 2 ^ 18" "?p dvd unat (ca_capacity ?ca)"
      "unat (ca_size ?ca) \<le> unat (ca_capacity ?ca)"
    by (auto simp: pool_ok_def ca_inv_def word_le_nat_alt)
  have "unat (ca_capacity ?ca) = 2 ^ 32 - 1"
    using assms(3) cap(1,4) by (simp add: i pool_valid_def INVALID_STRING_POOL_ID_def)
  moreover have "is_power_of_two (os_page_size os)" using ok by (simp add: pool_ok_def ca_inv_def os_ok_def)
  then obtain k where k: "?p = 2 ^ k" by (rule is_power_of_twoD)
  ultimately have "2 ^ k dvd (2 ^ 32 - 1 :: nat)" using cap(3) by simp
  then have "k = 0" by (cases k) (auto dest: dvd_mult_left)
  then have "?p = 1" using k by simp
  then show False using assms(2) by (metis unat_1 word_unat_eq_iff)
qed

lemma profiler_intern_spec:
  assumes "interner_ok (pr_os env) (pf_interner p)" "os_page_size (pr_os env) \<noteq> 1" "name_ok n"
    and "profiler_intern env n p = Some (i, p')"
  shows "interner_ok (pr_os env) (pf_interner p')" "names_it (fst (pf_interner p')) i (text_of n)"
    and "keeps_names (fst (pf_interner p)) (fst (pf_interner p'))" "p' = p\<lparr>pf_interner := pf_interner p'\<rparr>"
proof -
  obtain si where st: "interner_store (pr_rounds env) (pr_hash env) (pr_dbg env) (pr_os env) n (pf_interner p) = Some (i, si)"
      and p': "p' = p\<lparr>pf_interner := si\<rparr>"
    using assms(4) by (auto simp: profiler_intern_def bind_eq_Some_conv)
  note inv = si.append_inv [OF assms(1,3) st] and got = si.append_get [OF assms(1,3) st]
    and keeps = si.append_keeps [OF assms(1,3) st]
  show "interner_ok (pr_os env) (pf_interner p')" "p' = p\<lparr>pf_interner := pf_interner p'\<rparr>" using inv by (simp_all add: p')
  show "names_it (fst (pf_interner p')) i (text_of n)"
    using got valid_id [OF inv assms(2)] by (simp add: p' names_it_def)
  show "keeps_names (fst (pf_interner p)) (fst (pf_interner p'))"
    using keeps by (auto simp: p' keeps_names_def names_it_def)
qed

fun action_ok :: "prof_action \<Rightarrow> bool" where
  "action_ok (Section_New k n loc category) \<longleftrightarrow> name_ok n \<and> name_ok category"
| "action_ok _ \<longleftrightarrow> True"

lemma prof_rep_put:
  assumes "prof_rep os (p, ses) t" "section_rep (fst (pf_interner p)) se sp"
  shows "prof_rep os (p, ses(k \<mapsto> se)) (t\<lparr>ts_spans := (ts_spans t)(k \<mapsto> sp)\<rparr>)"
  using assms by (simp add: prof_rep_def)

lemma prof_step_refines:
  assumes rep: "prof_rep (pr_os env) st t" and page: "os_page_size (pr_os env) \<noteq> 1" and a: "action_ok a"
    and step: "prof_step env a st = Some st'"
  shows "prof_rep (pr_os env) st' (span_step a t)"
proof -
  obtain p ses where st: "st = (p, ses)" by (cases st)
  note r = rep [unfolded prof_rep_def st prod.case]
  show ?thesis
  proof (cases a)
    case (Section_New k n loc category)
    from step obtain i p1 j p2 where i: "profiler_intern env n p = Some (i, p1)"
        and j: "profiler_intern env category p1 = Some (j, p2)"
        and st': "st' = (p2, ses(k \<mapsto> \<lparr>se_profiler = True, se_name = i, se_category = j, se_location = loc,
                       se_start_time_ns = 0, se_is_running = False\<rparr>))"
      by (auto simp: st Section_New section_new_def bind_eq_Some_conv Let_def)
    note n = profiler_intern_spec [OF _ page _ i] and c = profiler_intern_spec [OF _ page _ j]
    have ok: "interner_ok (pr_os env) (pf_interner p)" "name_ok n" "name_ok category" using r a Section_New by simp_all
    note n = n [OF ok(1,2)]
    note c = c [OF n(1) ok(3)]
    have keeps: "keeps_names (fst (pf_interner p)) (fst (pf_interner p2))" using n(3) c(3) by (simp add: keeps_names_def)
    have same: "pf_enabled p2 = pf_enabled p" "pf_events p2 = pf_events p"
      using n(4) c(4) by (metis profiler.select_convs(1) profiler.surjective profiler.update_convs(3),
          metis profiler.select_convs(2) profiler.surjective profiler.update_convs(3))
    have "names_it (fst (pf_interner p2)) i (text_of n)" using n(2) c(3) by (simp add: keeps_names_def)
    then have new: "section_rep (fst (pf_interner p2)) \<lparr>se_profiler = True, se_name = i, se_category = j, se_location = loc,
                       se_start_time_ns = 0, se_is_running = False\<rparr>
                     \<lparr>sp_name = text_of n, sp_category = text_of category, sp_location = loc, sp_begun = None\<rparr>"
      using c(2) by (simp add: section_rep_def)
    have "list_all2 (event_rep (fst (pf_interner p2))) (pf_events p) (ts_events t)"
      using r keeps_event [OF keeps] by (auto elim: list_all2_mono)
    moreover have "rel_option (section_rep (fst (pf_interner p2))) (ses k) (ts_spans t k)" for k
      using r keeps_section [OF keeps] by (auto intro: option.rel_mono_strong)
    ultimately show ?thesis using r c(1) new by (simp add: st' Section_New prof_rep_def same)
  next
    case (Section_Start k now)
    consider (none) "ses k = None" "ts_spans t k = None"
      | (some) se sp where "ses k = Some se" "ts_spans t k = Some sp" "section_rep (fst (pf_interner p)) se sp"
      using r by (metis option.rel_cases)
    then show ?thesis
    proof cases
      case none
      then show ?thesis using rep step by (simp add: st Section_Start)
    next
      case some
      have "section_rep (fst (pf_interner p)) (section_start now se p) (if ts_enabled t then sp\<lparr>sp_begun := Some now\<rparr> else sp)"
        using some(3) r by (simp add: section_rep_def section_start_def)
      from prof_rep_put [OF rep [unfolded st] this, of k] show ?thesis
        using some step by (auto simp: st Section_Start fun_upd_idem split: if_splits)
    qed
  next
    case (Section_Stop k now tid pid)
    consider (none) "ses k = None" "ts_spans t k = None"
      | (some) se sp where "ses k = Some se" "ts_spans t k = Some sp" "section_rep (fst (pf_interner p)) se sp"
      using r by (metis option.rel_cases)
    then show ?thesis
    proof cases
      case none
      then show ?thesis using rep step by (simp add: st Section_Stop)
    next
      case some
      show ?thesis
      proof (cases "se_is_running se")
        case False
        then have "st' = (p, ses)" "sp_begun sp = None"
          using some step by (auto simp: st Section_Stop section_stop_def section_rep_def)
        then show ?thesis using rep some(2) by (simp add: st Section_Stop)
      next
        case True
        have "section_rep (fst (pf_interner p)) (se\<lparr>se_is_running := False\<rparr>) (sp\<lparr>sp_begun := None\<rparr>)"
          using some(3) by (simp add: section_rep_def)
        from prof_rep_put [OF rep [unfolded st] this, of k] show ?thesis
          using some step True r
          by (auto simp: st Section_Stop section_stop_def record_event_def section_rep_def prof_rep_def event_rep_def
              intro!: list_all2_appendI)
      qed
    qed
  qed (use r step in \<open>auto simp: st prof_rep_def profiler_start_def profiler_stop_def profiler_clear_def\<close>)
qed


lemma prof_run_refines:
  assumes "prof_rep (pr_os env) st t" "os_page_size (pr_os env) \<noteq> 1" "list_all action_ok as" "prof_run env as st = Some st'"
  shows "prof_rep (pr_os env) st' (fold span_step as t)"
  using assms(1,3,4)
proof (induction as arbitrary: st t)
  case (Cons a as)
  then obtain st1 where "prof_step env a st = Some st1" "prof_run env as st1 = Some st'"
    by (auto simp: bind_eq_Some_conv)
  moreover from this(1) have "prof_rep (pr_os env) st1 (span_step a t)"
    using Cons.prems(1,2) assms(2) by (intro prof_step_refines) simp_all
  ultimately show ?case using Cons.IH Cons.prems(2) by simp
qed simp

section \<open>The trace file\<close>

fun event_lines :: "(u64 \<Rightarrow> string) \<Rightarrow> text_event list \<Rightarrow> string" where
  "event_lines us_text [] = []"
| "event_lines us_text (e # es) = event_line us_text (es \<noteq> []) e @ event_lines us_text es"

definition trace_json :: "(u64 \<Rightarrow> string) \<Rightarrow> text_event list \<Rightarrow> string" where
  "trace_json us_text es = TRACE_HEADER @ event_lines us_text es @ TRACE_FOOTER"

lemma write_events_spec:
  assumes "writer_rep base path bytes w s"
    and "list_all (\<lambda>e. length (event_line us_text True e) \<le> MAX_SINGLE_EVENT_WRITE_SIZE) (map (event_text si) es)"
    and "length bytes + (length es + 1) * MAX_SINGLE_EVENT_WRITE_SIZE \<le> 2 ^ 61"
  shows "\<exists>ok w' s'. write_events us_text si es w s = Some (ok, w', s') \<and> (no_refusal s \<longrightarrow> ok \<and> no_refusal s')
    \<and> (ok \<longrightarrow> writer_rep base path (bytes @ event_lines us_text (map (event_text si) es)) w' s')"
  using assms
proof (induction es arbitrary: bytes w s)
  case (Cons e es)
  let ?l = "event_line us_text (es \<noteq> []) (event_text si e)"
  have len: "length ?l \<le> MAX_SINGLE_EVENT_WRITE_SIZE"
  proof -
    have "length ?l \<le> length (event_line us_text True (event_text si e))" by (simp add: event_line_def)
    then show ?thesis using Cons.prems(2) by simp
  qed
  have room: "length bytes + MAX_SINGLE_EVENT_WRITE_SIZE \<le> 2 ^ 61" using Cons.prems(3) by simp
  obtain dest w1 s1 where prep: "sw_prepare (of_nat MAX_SINGLE_EVENT_WRITE_SIZE) w s = (dest, w1, s1)" by (metis prod_cases3)
  from sw_prepare_spec [OF Cons.prems(1) len room prep] show ?case
  proof (elim disjE exE conjE)
    assume "dest = Nullptr" "\<not> no_refusal s"
    then show ?thesis using prep by auto
  next
    fix off s2
    assume st: "dest = Into off" "mm_store (sw_mmap w1) off (take MAX_SINGLE_EVENT_WRITE_SIZE ?l) s1 = Some s2"
      "writer_rep base path (bytes @ ?l) (sw_commit (of_nat (length ?l)) w1) s2" "no_refusal s \<longrightarrow> no_refusal s2"
    have "length (bytes @ ?l) + (length es + 1) * MAX_SINGLE_EVENT_WRITE_SIZE \<le> 2 ^ 61" using Cons.prems(3) len by simp
    from Cons.IH [OF st(3) _ this] Cons.prems(2) prep st show ?thesis by (auto simp: Let_def)
  qed
qed auto

lemma event_line_comma: "length (event_line us_text comma e) \<le> length (event_line us_text True e)"
  by (simp add: event_line_def)

lemma event_lines_length:
  "list_all (\<lambda>e. length (event_line us_text True e) \<le> n) es \<Longrightarrow> length (event_lines us_text es) \<le> length es * n"
proof (induction es)
  case (Cons e es)
  then show ?case using event_line_comma [of us_text "es \<noteq> []" e] by simp
qed simp


lemma write_to_file_spec:
  assumes ok: "fs_ok s" and small: "(length es + 2) * MAX_SINGLE_EVENT_WRITE_SIZE \<le> 2 ^ 60"
    and lines: "list_all (\<lambda>e. length (event_line us_text True e) \<le> MAX_SINGLE_EVENT_WRITE_SIZE) (map (event_text si) es)"
  shows "\<exists>r s'. write_to_file us_text path es si s = Some (r, s')
    \<and> (no_refusal s \<and> node_of path s \<noteq> Some Dir \<longrightarrow>
        r \<and> content path s' = Some (trace_json us_text (map (event_text si) es)) \<and> fs_fds s' = fs_fds s)"
proof -
  let ?json = "TRACE_HEADER @ event_lines us_text (map (event_text si) es)"
  have header: "length TRACE_HEADER = 17" "length TRACE_FOOTER = 3"
    by (simp_all add: TRACE_HEADER_def TRACE_FOOTER_def json_field_def quoted_def NEWLINE_def)
  have n: "length es * 200 + 512 < 2 ^ 63" using small by (simp add: MAX_SINGLE_EVENT_WRITE_SIZE_def)
  have "(of_nat (length es) * 200 + 512 :: usize) = of_nat (length es * 200 + 512)" by simp
  moreover have "unat (of_nat (length es * 200 + 512) :: usize) = length es * 200 + 512"
    by (rule unat_of_nat_small) (use n in simp)
  ultimately have cap: "unat (of_nat (length es) * 200 + 512 :: usize) = length es * 200 + 512" by (simp only:)
  obtain opened w s1 where op: "sw_open path (of_nat (length es) * 200 + 512) empty_writer s = (opened, w, s1)" by (metis prod_cases3)
  note so = sw_open_spec [OF ok _ _ op, unfolded cap]
  show ?thesis
  proof (cases opened)
    case False
    then show ?thesis using so(2) n op by (auto simp: write_to_file_def)
  next
    case True
    then have rep: "writer_rep (fs_fds s) path [] w s1" using so(1) n by simp
    have lh: "length ([] :: string) + length TRACE_HEADER \<le> 2 ^ 61" by (simp add: header)
    obtain ok1 w1 s2 where 1: "sw_write TRACE_HEADER w s1 = Some (ok1, w1, s2)"
        "ok1 \<Longrightarrow> writer_rep (fs_fds s) path ([] @ TRACE_HEADER) w1 s2" "no_refusal s1 \<Longrightarrow> ok1 \<and> no_refusal s2"
      using sw_write_spec [OF rep lh] by blast
    show ?thesis
    proof (cases ok1)
      case False
      then show ?thesis using so(2) n op \<open>opened\<close> 1 by (auto simp: write_to_file_def)
    next
      case True
      have le: "length TRACE_HEADER + (length es + 1) * MAX_SINGLE_EVENT_WRITE_SIZE \<le> 2 ^ 61"
        using small by (simp add: header MAX_SINGLE_EVENT_WRITE_SIZE_def)
      obtain ok2 w2 s3 where 2: "write_events us_text si es w1 s2 = Some (ok2, w2, s3)"
          "ok2 \<Longrightarrow> writer_rep (fs_fds s) path ?json w2 s3" "no_refusal s2 \<Longrightarrow> ok2 \<and> no_refusal s3"
        using write_events_spec [OF 1(2) [OF True, unfolded append_Nil] lines le] by blast
      show ?thesis
      proof (cases ok2)
        case False
        then show ?thesis using so(2) n op \<open>opened\<close> \<open>ok1\<close> 1 2 by (auto simp: write_to_file_def)
      next
        case True
        have "length ?json + length TRACE_FOOTER \<le> 2 ^ 61"
          using event_lines_length [OF lines] small by (simp add: header MAX_SINGLE_EVENT_WRITE_SIZE_def)
        then obtain ok3 w3 s4 where 3: "sw_write TRACE_FOOTER w2 s3 = Some (ok3, w3, s4)"
            "ok3 \<Longrightarrow> writer_rep (fs_fds s) path (?json @ TRACE_FOOTER) w3 s4" "no_refusal s3 \<Longrightarrow> ok3 \<and> no_refusal s4"
          using sw_write_spec 2(2) True by blast
        obtain w4 s5 where fin: "sw_finish w3 s4 = (w4, s5)" by fastforce
        note f = sw_finish_spec [OF 3(2) fin]
        have again: "sw_finish w4 s5 = (w4, s5)" if ok3 using f(4) that by (simp add: sw_finish_def)
        show ?thesis
          using so(2) n op \<open>opened\<close> \<open>ok1\<close> \<open>ok2\<close> 1 2 3 fin f again
          by (cases ok3) (auto simp: write_to_file_def trace_json_def)
      qed
    qed
  qed
qed

definition idle_spec :: trace_spec where
  "idle_spec = \<lparr>ts_enabled = False, ts_events = [], ts_spans = (\<lambda>_. None)\<rparr>"

definition profiler_idle :: "os \<Rightarrow> profiler \<Rightarrow> bool" where
  "profiler_idle os p \<longleftrightarrow> interner_ok os (pf_interner p) \<and> \<not> pf_enabled p \<and> pf_events p = []"

lemma Profiler_new_idle:
  assumes os: "os_ok (pr_os env)" "unat (os_page_size (pr_os env)) dvd 2 ^ 18" "os_mmap (pr_os env) pool_bytes \<noteq> None" "pool_bytes \<noteq> 0"
    and run: "Profiler_new env names pool_bytes v = Some p"
  shows "profiler_idle (pr_os env) p"
proof -
  obtain v1 where p: "StringPool (pr_dbg env) (pr_os env) pool_bytes v = Some (si_pool (fst (pf_interner p)), v1)"
    and t: "itable_reserve (pr_dbg env) (pr_os env) names empty_itable v1 = Some (si_table (fst (pf_interner p)), snd (pf_interner p))"
    and rest: "\<not> pf_enabled p" "pf_events p = []"
    using run os(4) by (auto simp: Profiler_new_def StringInterner_def bind_eq_Some_conv)
  have "pool_ok (pr_os env) (si_pool (fst (pf_interner p))) (snd (pf_interner p))"
    using reserve_keeps_pool [OF t] StringPool_ok [OF os(1-3) p] by blast
  then show ?thesis using reserve_shape [OF t] rest
    by (auto simp: profiler_idle_def interner_ok_def entries_ok_def list_all_iff)
qed

text \<open>
  C19. A trace file says what happened. After any sequence of starting, stopping and clearing the profiler and of
  building, starting and stopping sections on it, its events are the spans that were started and stopped while it
  was enabled, in the order they stopped, under the names they were built with: no later name, start or clear
  changes what an event is called. Writing them gives a file of exactly those events as lines of JSON, when each
  line fits its buffer and the kernel refuses nothing; whatever the kernel refuses, nothing is stored outside the
  mapping.
\<close>

theorem profile_trace_exact:
  assumes "profiler_idle (pr_os env) p" "os_page_size (pr_os env) \<noteq> 1" "list_all action_ok as"
    and "prof_run env as (p, \<lambda>_. None) = Some (p', ses)" "fs_ok s"
    and "(length (copy_events p') + 2) * MAX_SINGLE_EVENT_WRITE_SIZE \<le> 2 ^ 60"
    and "list_all (\<lambda>e. length (event_line us_text True e) \<le> MAX_SINGLE_EVENT_WRITE_SIZE) (ts_events (fold span_step as idle_spec))"
  shows "map (event_text (fst (pf_interner p'))) (copy_events p') = ts_events (fold span_step as idle_spec)
    \<and> (\<exists>r s'. write_to_file us_text path (copy_events p') (fst (pf_interner p')) s = Some (r, s')
        \<and> (no_refusal s \<and> node_of path s \<noteq> Some Dir \<longrightarrow>
            r \<and> content path s' = Some (trace_json us_text (ts_events (fold span_step as idle_spec))) \<and> fs_fds s' = fs_fds s))"
proof -
  have "prof_rep (pr_os env) (p, \<lambda>_. None) idle_spec"
    using assms(1) by (simp add: profiler_idle_def prof_rep_def idle_spec_def)
  from prof_run_refines [OF this assms(2-4)]
  have "list_all2 (event_rep (fst (pf_interner p'))) (copy_events p') (ts_events (fold span_step as idle_spec))"
    by (simp add: prof_rep_def copy_events_def)
  then have texts: "map (event_text (fst (pf_interner p'))) (copy_events p') = ts_events (fold span_step as idle_spec)"
    by (induction rule: list_all2_induct) (simp_all add: event_rep_text)
  with write_to_file_spec [OF assms(5,6), of us_text "fst (pf_interner p')" path] assms(7) show ?thesis by simp
qed

text \<open>
  The durations are differences of a clock that may be set back: a section that stops at an earlier reading than it
  started has a duration that wraps.
\<close>

lemma section_clock_set_back:
  assumes "se_is_running se" "pf_enabled p" "now < se_start_time_ns se" "section_stop now tid pid se p = (se', p')"
  shows "unat (pe_duration_ns (last (pf_events p'))) = 2 ^ 64 - (unat (se_start_time_ns se) - unat now)"
proof -
  have "pe_duration_ns (last (pf_events p')) = now - se_start_time_ns se"
    using assms by (auto simp: section_stop_def record_event_def)
  moreover have "unat (now - se_start_time_ns se) = 2 ^ 64 - (unat (se_start_time_ns se) - unat now)"
    using assms(3) unat_lt2p [of "se_start_time_ns se"] by (simp add: unat_sub_if' word_less_nat_alt)
  ultimately show ?thesis by simp
qed

section \<open>Witness\<close>

definition sample_prof_env :: profiler_env where
  "sample_prof_env = \<lparr>pr_rounds = 4, pr_hash = (\<lambda>_. 0), pr_dbg = False, pr_os = sample_os\<rparr>"

definition sample_profiler :: profiler where
  "sample_profiler = \<lparr>pf_enabled = False, pf_events = [], pf_interner = sample_interner\<rparr>"

definition sample_actions :: "prof_action list" where
  "sample_actions = [Prof_Start, Section_New 0 [102] (''f.cc'', 3) [103], Section_Start 0 1000, Section_Stop 0 3000 7 9]"

definition sample_spec_event :: text_event where
  "sample_spec_event = \<lparr>te_name = ''f'', te_category = ''g'', te_location = (''f.cc'', 3), te_start = 1000,
     te_duration = 2000, te_thread_id = 7, te_process_id = 9\<rparr>"

theorem profile_trace_exact_witness:
  "\<exists>p' ses s'. prof_run sample_prof_env sample_actions (sample_profiler, \<lambda>_. None) = Some (p', ses)
    \<and> write_to_file (\<lambda>_. ''1.000'') ''t'' (copy_events p') (fst (pf_interner p')) (empty_fs []) = Some (True, s')
    \<and> content ''t'' s' = Some (trace_json (\<lambda>_. ''1.000'') [sample_spec_event])"
proof -
  have "prof_run sample_prof_env sample_actions (sample_profiler, \<lambda>_. None) \<noteq> None" by code_simp
  then obtain p' ses where run: "prof_run sample_prof_env sample_actions (sample_profiler, \<lambda>_. None) = Some (p', ses)" by auto
  have spec: "ts_events (fold span_step sample_actions idle_spec) = [sample_spec_event]" by code_simp
  have idle: "profiler_idle (pr_os sample_prof_env) sample_profiler"
    using sample_interner_ok by (simp add: profiler_idle_def sample_profiler_def sample_prof_env_def)
  have page: "os_page_size (pr_os sample_prof_env) \<noteq> 1" by code_simp
  have ok: "list_all action_ok sample_actions" by (simp add: sample_actions_def name_ok_def)
  have fits: "list_all (\<lambda>e. length (event_line (\<lambda>_. ''1.000'') True e) \<le> MAX_SINGLE_EVENT_WRITE_SIZE) [sample_spec_event]"
    by code_simp
  have one: "(length (copy_events p') + 2) * MAX_SINGLE_EVENT_WRITE_SIZE \<le> 2 ^ 60"
  proof -
    have "prof_rep sample_os (p', ses) (fold span_step sample_actions idle_spec)"
      using prof_run_refines [OF _ page ok run, of idle_spec] idle
      by (simp add: profiler_idle_def prof_rep_def idle_spec_def sample_prof_env_def)
    then have "length (pf_events p') = 1" using spec by (auto simp: prof_rep_def dest: list_all2_lengthD)
    then show ?thesis by (simp add: copy_events_def MAX_SINGLE_EVENT_WRITE_SIZE_def)
  qed
  have "no_refusal (empty_fs [])" "node_of ''t'' (empty_fs []) \<noteq> Some Dir"
    by (simp_all add: no_refusal_def empty_fs_def node_of_def)
  with profile_trace_exact [OF idle page ok run empty_fs_ok one, of "\<lambda>_. ''1.000''" "''t''", unfolded spec, OF fits, of "[]"] run
  show ?thesis by auto
qed

end
