(* ===== verification/Symbolizer.thy ===== *)
theory Symbolizer
  imports Dwarf_Module Text "HOL-Library.Monad_Syntax"
begin

text \<open>
  From a running program to names (\<^verbatim>\<open>src/debug/stack_trace\<close>): the three ways \<^verbatim>\<open>capture_stack_addresses.cc\<close> has
  of collecting return addresses, \<^verbatim>\<open>demangle.cc\<close>, and \<^verbatim>\<open>symbolicator.cc\<close>, which asks the object's own tables
  first and the dynamic table after that. The unwinders, \<^verbatim>\<open>dladdr\<close> and \<^verbatim>\<open>__cxa_demangle\<close> are not part of the
  repository: the stack is a list of return addresses, innermost first, and the other two are parameters. Only the
  POSIX branches are modelled.
\<close>

section \<open>Definitions\<close>

subsection \<open>Capturing\<close>

text \<open>
  \<^verbatim>\<open>backtrace(3)\<close> gives at most as many addresses as it is asked for. Reading an element of the temporary buffer
  that was never filled has no result.
\<close>

definition MAX_TMP :: usize where "MAX_TMP = 512"

definition capture_posix :: "(nat \<Rightarrow> u64 list) \<Rightarrow> usize \<Rightarrow> usize \<Rightarrow> u64 list option" where
  "capture_posix backtrace max_depth to_skip =
     (let fetch_count = (if max_depth + to_skip < MAX_TMP then max_depth + to_skip else MAX_TMP);
          tmp_buf = backtrace (unat fetch_count)
      in if int (length tmp_buf) \<le> sint (ucast to_skip :: 32 word) then Some []
         else let available = of_nat (length tmp_buf) - to_skip;
                  count = (if available < max_depth then available else max_depth)
              in those (map (\<lambda>i. if unat (to_skip + of_nat i) < length tmp_buf then Some (tmp_buf ! unat (to_skip + of_nat i)) else None)
                   [0..<unat count]))"

datatype unwind_reason = URC_NO_REASON | URC_END_OF_STACK

record unwind_state =
  us_frames :: "u64 list"
  us_max_depth :: usize
  us_count :: usize
  us_skip :: usize

definition unwind_callback_libgcc :: "u64 \<Rightarrow> unwind_state \<Rightarrow> unwind_reason \<times> unwind_state" where
  "unwind_callback_libgcc ip state =
     (if ip = 0 then (URC_END_OF_STACK, state)
      else if us_skip state > 0 then (URC_NO_REASON, state\<lparr>us_skip := us_skip state - 1\<rparr>)
      else if us_count state \<ge> us_max_depth state then (URC_END_OF_STACK, state)
      else (URC_NO_REASON, state\<lparr>us_frames := us_frames state @ [ip], us_count := us_count state + 1\<rparr>))"

text \<open>\<^verbatim>\<open>_Unwind_Backtrace\<close> calls back for each frame until one answer is not \<open>URC_NO_REASON\<close>.\<close>

fun unwind_backtrace :: "u64 list \<Rightarrow> unwind_state \<Rightarrow> unwind_state" where
  "unwind_backtrace [] state = state"
| "unwind_backtrace (ip # ips) state =
     (case unwind_callback_libgcc ip state of
        (URC_NO_REASON, state') \<Rightarrow> unwind_backtrace ips state'
      | (URC_END_OF_STACK, state') \<Rightarrow> state')"

definition capture_libgcc :: "u64 list \<Rightarrow> usize \<Rightarrow> usize \<Rightarrow> u64 list" where
  "capture_libgcc stack max_depth to_skip =
     us_frames (unwind_backtrace stack \<lparr>us_frames = [], us_max_depth = max_depth, us_count = 0, us_skip = to_skip\<rparr>)"

text \<open>
  libunwind: a cursor on the current frame, of which the address may not be readable, and a step to the next one.
  The empty stack stands for the cursor that could not be had.
\<close>

fun libunwind_loop :: "u64 option list \<Rightarrow> usize \<Rightarrow> usize \<Rightarrow> u64 list \<Rightarrow> u64 list" where
  "libunwind_loop [] max_depth to_skip out = out"
| "libunwind_loop (frame # outer) max_depth to_skip out =
     (if to_skip > 0 then libunwind_loop outer max_depth (to_skip - 1) out
      else if of_nat (length out) \<ge> max_depth then out
      else case frame of
             None \<Rightarrow> out
           | Some ip \<Rightarrow> if ip = 0 then out else libunwind_loop outer max_depth to_skip (out @ [ip]))"

definition capture_libunwind :: "u64 option list \<Rightarrow> usize \<Rightarrow> usize \<Rightarrow> u64 list" where
  "capture_libunwind stack max_depth to_skip = libunwind_loop stack max_depth to_skip []"

subsection \<open>Demangling\<close>

text \<open>\<^verbatim>\<open>__cxa_demangle\<close> gives a name or a failure.\<close>

definition demangle :: "(u8 list \<Rightarrow> u8 list option) \<Rightarrow> u8 list \<Rightarrow> u8 list" where
  "demangle cxa_demangle mangled_name =
     (if mangled_name = [] then []
      else case cxa_demangle mangled_name of Some result \<Rightarrow> result | None \<Rightarrow> mangled_name)"

subsection \<open>Symbolicator\<close>

record symbol_info =
  si_function :: "u8 list"
  si_file :: "u8 list"
  si_line :: u32
  si_column :: u32
  si_resolved :: bool

definition no_symbol :: symbol_info where
  "no_symbol = \<lparr>si_function = [], si_file = [], si_line = 0, si_column = 0, si_resolved = False\<rparr>"

record dl_info =
  dli_fname :: "u8 list option"
  dli_fbase :: u64
  dli_sname :: "u8 list option"

type_synonym module_cache = "(u8 list \<times> module) list"

text \<open>Whether a C string is there and not empty.\<close>

definition nonempty_name :: "u8 list option \<Rightarrow> bool" where
  "nonempty_name s \<longleftrightarrow> s \<noteq> None \<and> s \<noteq> Some []"

definition module_symbol :: "nat \<Rightarrow> (u8 list \<Rightarrow> u8 list option) \<Rightarrow> module \<Rightarrow> u64 \<Rightarrow> u64 \<Rightarrow> symbol_info run" where
  "module_symbol fuel cxa mo address fbase =
     (let link_address = address - load_bias_to mo fbase;
          info = (case function_at mo link_address of
                    Some name \<Rightarrow> no_symbol\<lparr>si_function := demangle cxa name, si_resolved := True\<rparr>
                  | None \<Rightarrow> no_symbol)
      in case source_at fuel mo link_address of
           Running \<Rightarrow> Running
         | Returned None \<Rightarrow> Returned info
         | Returned (Some position) \<Rightarrow>
             Returned (info\<lparr>si_file := ps_file position, si_line := ps_line position, si_column := ps_column position\<rparr>))"

definition dynamic_symbol :: "(u8 list \<Rightarrow> u8 list option) \<Rightarrow> dl_info \<Rightarrow> symbol_info \<Rightarrow> symbol_info" where
  "dynamic_symbol cxa dl info =
     (let info = (if \<not> si_resolved info \<and> nonempty_name (dli_sname dl)
                  then info\<lparr>si_function := demangle cxa (the (dli_sname dl)), si_resolved := True\<rparr> else info)
      in if \<not> si_resolved info \<and> nonempty_name (dli_fname dl) then info\<lparr>si_resolved := True\<rparr> else info)"

definition resolve_posix ::
  "nat \<Rightarrow> (u8 list \<Rightarrow> module) \<Rightarrow> (u64 \<Rightarrow> dl_info option) \<Rightarrow> (u8 list \<Rightarrow> u8 list option) \<Rightarrow> u64 \<Rightarrow> module_cache
     \<Rightarrow> symbol_info run \<times> module_cache" where
  "resolve_posix fuel load dladdr cxa address cache =
     (case dladdr address of
        None \<Rightarrow> (Returned no_symbol, cache)
      | Some dl \<Rightarrow>
          let (info, cache) =
            (if nonempty_name (dli_fname dl)
             then case cache_at load (the (dli_fname dl)) cache of
                    (None, cache) \<Rightarrow> (Returned no_symbol, cache)
                  | (Some mo, cache) \<Rightarrow>
                      if mo_loaded mo then (module_symbol fuel cxa mo address (dli_fbase dl), cache)
                      else (Returned no_symbol, cache)
             else (Returned no_symbol, cache))
          in (case info of Running \<Rightarrow> Running | Returned info \<Rightarrow> Returned (dynamic_symbol cxa dl info), cache))"

section \<open>Capturing\<close>

lemma those_map_Some: "(\<And>x. x \<in> set xs \<Longrightarrow> f x = Some (g x)) \<Longrightarrow> those (map f xs) = Some (map g xs)"
  by (induction xs) auto

lemma capture_posix_spec:
  assumes bt: "\<And>n. backtrace n = take n stack" and room: "unat depth + unat sk \<le> 512"
  shows "capture_posix backtrace depth sk = Some (take (unat depth) (drop (unat sk) stack))"
proof -
  have sum: "unat (depth + sk) = unat depth + unat sk" using room by (simp add: unat_add_nowrap)
  let ?fetch = "if depth + sk < MAX_TMP then depth + sk else MAX_TMP"
  have fetch: "unat ?fetch = unat depth + unat sk"
    using room sum by (auto simp: MAX_TMP_def word_less_nat_alt)
  let ?tmp = "take (unat depth + unat sk) stack"
  have "uint sk = int (unat sk)" by simp
  then have small: "0 \<le> uint sk" "uint sk \<le> 512" using room by linarith+
  have "signed_take_bit 31 (uint sk) = uint sk"
    by (rule signed_take_bit_int_eq_self) (use order_trans [OF _ small(1), of "- (2 ^ 31)"] small(2) in simp_all)
  then have skip32: "sint (ucast sk :: 32 word) = int (unat sk)" using small(1) by (simp add: signed_ucast_eq)
  let ?count = "if of_nat (length ?tmp) - sk < depth then of_nat (length ?tmp) - sk else depth"
  let ?at = "\<lambda>i. if unat (sk + of_nat i) < length ?tmp then Some (?tmp ! unat (sk + of_nat i)) else None"
  have unfolded: "capture_posix backtrace depth sk
      = (if length ?tmp \<le> unat sk then Some [] else those (map ?at [0..<unat ?count]))"
    unfolding capture_posix_def Let_def bt fetch skip32 of_nat_le_iff ..
  show ?thesis
  proof (cases "length stack \<le> unat sk")
    case True
    then have "length ?tmp \<le> unat sk" by simp
    then show ?thesis using True by (simp only: unfolded) simp
  next
    case False
    define n where "n = min (unat depth) (length stack - unat sk)"
    have len: "length ?tmp = unat sk + n" using False by (auto simp: n_def)
    have avail: "unat (of_nat (length ?tmp) - sk :: usize) = n"
      unfolding len using room by (simp add: n_def unat_of_nat_small)
    have cnt: "unat ?count = n"
      using avail by (auto simp: word_less_nat_alt n_def)
    have idx: "unat (sk + of_nat i) = unat sk + i" if "i < n" for i
      using that room unat_add_nowrap [of sk "of_nat i"] by (simp add: n_def unat_of_nat_small)
    have "those (map ?at [0..<n]) = Some (map (\<lambda>i. ?tmp ! (unat sk + i)) [0..<n])"
      by (rule those_map_Some) (use False in \<open>auto simp: idx n_def\<close>)
    also have "map (\<lambda>i. ?tmp ! (unat sk + i)) [0..<n] = take (unat depth) (drop (unat sk) stack)"
      by (rule nth_equalityI) (auto simp: n_def)
    finally have found: "those (map ?at [0..<n]) = Some (take (unat depth) (drop (unat sk) stack))" .
    have "unat depth = 0" if "length ?tmp \<le> unat sk" using that False by (simp add: min_def split: if_splits)
    then show ?thesis unfolding unfolded cnt found by auto
  qed
qed

lemma libgcc_run:
  assumes "0 \<notin> set stack" "unat (us_count st) = length (us_frames st)" "us_count st \<le> us_max_depth st"
  shows "us_frames (unwind_backtrace stack st)
    = us_frames st @ take (unat (us_max_depth st) - length (us_frames st)) (drop (unat (us_skip st)) stack)"
  using assms
proof (induction stack arbitrary: st)
  case (Cons ip stack)
  consider (skip) "us_skip st > 0" | (full) "us_skip st = 0" "us_count st = us_max_depth st"
    | (take) "us_skip st = 0" "us_count st < us_max_depth st"
    using Cons.prems(3) by (auto simp: word_le_less_eq word_gt_0)
  then show ?case
  proof cases
    case skip
    then have "unat (us_skip st) = Suc (unat (us_skip st - 1))" by (metis unat_gt_0 word_gt_0 Suc_pred' unat_minus_one)
    then show ?thesis using skip Cons.prems Cons.IH [of "st\<lparr>us_skip := us_skip st - 1\<rparr>"]
      by (simp add: unwind_callback_libgcc_def)
  next
    case full
    then show ?thesis using Cons.prems by (simp add: unwind_callback_libgcc_def)
  next
    case take
    then have "unat (us_count st + 1) = Suc (unat (us_count st))" "unat (us_count st) < unat (us_max_depth st)"
      using unat_lt2p [of "us_max_depth st"] by (auto simp: word_less_nat_alt unat_add_nowrap)
    then show ?thesis
      using take Cons.prems Cons.IH [of "st\<lparr>us_frames := us_frames st @ [ip], us_count := us_count st + 1\<rparr>"]
      by (auto simp: unwind_callback_libgcc_def word_le_nat_alt word_less_nat_alt take_Cons' Suc_diff_Suc)
  qed
qed simp

lemma libunwind_run:
  assumes "0 \<notin> set stack" "length out \<le> unat depth"
  shows "libunwind_loop (map Some stack) depth sk out
    = out @ take (unat depth - length out) (drop (unat sk) stack)"
  using assms
proof (induction stack arbitrary: sk out)
  case (Cons ip stack)
  have cnt: "unat (of_nat (length out) :: usize) = length out"
    using Cons.prems(2) unat_lt2p [of depth] by (intro unat_of_nat_small) simp
  consider (skip) "sk > 0" | (full) "sk = 0" "length out = unat depth" | (take) "sk = 0" "length out < unat depth"
    using Cons.prems(2) by (cases "sk = 0") (auto simp: word_gt_0 le_less)
  then show ?case
  proof cases
    case skip
    then have "unat sk = Suc (unat (sk - 1))" by (metis unat_gt_0 word_gt_0 Suc_pred' unat_minus_one)
    then show ?thesis using skip Cons by simp
  next
    case full
    then show ?thesis by (simp add: word_le_nat_alt cnt)
  next
    case take
    then show ?thesis using Cons.prems Cons.IH [of "out @ [ip]" 0]
      by (auto simp: word_le_nat_alt cnt take_Cons' Suc_diff_Suc)
  qed
qed simp


text \<open>The cache never changes an answer: an object read before is the object that would be read now.\<close>

definition cache_ok :: "(u8 list \<Rightarrow> module) \<Rightarrow> module_cache \<Rightarrow> bool" where
  "cache_ok load cache \<longleftrightarrow> list_all (\<lambda>(path, mo). mo = load path) cache"

lemma cache_at_load:
  assumes "cache_ok load cache" "path \<noteq> []" "cache_at load path cache = (mo, cache')"
  shows "mo = Some (load path)" "cache_ok load cache'"
proof -
  have f: "snd e = load path" if "find (\<lambda>e. fst e = path) cache = Some e" for e
    using that assms(1) by (auto simp: find_Some_iff cache_ok_def list_all_length)
  show "mo = Some (load path)" "cache_ok load cache'"
    using assms f by (auto simp: cache_at_def cache_ok_def split: option.splits)
qed

text \<open>What resolving an address means, without the cache.\<close>

definition symbol_of ::
  "nat \<Rightarrow> (u8 list \<Rightarrow> module) \<Rightarrow> (u64 \<Rightarrow> dl_info option) \<Rightarrow> (u8 list \<Rightarrow> u8 list option) \<Rightarrow> u64 \<Rightarrow> symbol_info run" where
  "symbol_of fuel load dladdr cxa address = fst (resolve_posix fuel load dladdr cxa address [])"

lemma resolve_cached:
  assumes "cache_ok load cache" "resolve_posix fuel load dladdr cxa address cache = (info, cache')"
  shows "info = symbol_of fuel load dladdr cxa address" "cache_ok load cache'"
proof -
  have empty: "cache_at load path [] = (Some (load path), [(path, load path)])" if "path \<noteq> []" for path
    using that by (simp add: cache_at_def)
  show "info = symbol_of fuel load dladdr cxa address" "cache_ok load cache'"
    using assms cache_at_load [OF assms(1)]
    by (auto simp: resolve_posix_def symbol_of_def nonempty_name_def empty Let_def
        split: option.splits prod.splits if_splits)
qed


text \<open>
  The address of a frame is the one its call returns to. When the call is the last instruction of its function, as
  a call that does not return may be, that address is the start of the next function, and the frame gets its name:
  here the frame of the function \<open>f\<close> at \<open>0x1000\<close>, whose last instruction is the call, is named \<open>g\<close>.
\<close>

definition adjacent_functions :: "func list" where
  "adjacent_functions = [\<lparr>fn_address = 0x1000, fn_size = 0x20, fn_name = [102]\<rparr>, \<lparr>fn_address = 0x1020, fn_size = 0x10, fn_name = [103]\<rparr>]"

lemma return_address_names_next:
  "module_symbol 0 (\<lambda>_. None) (empty_module\<lparr>mo_functions := adjacent_functions, mo_position_independent := True\<rparr>)
     (0x7000 + 0x1000 + 0x20) 0x7000 = Returned (no_symbol\<lparr>si_function := [103], si_resolved := True\<rparr>)"
  by code_simp



end
