(* ===== verification/Stack_Trace.thy ===== *)
theory Stack_Trace
  imports Symbolizer File_System
begin

text \<open>
  A stack trace (\<^verbatim>\<open>src/debug/stack_trace/stack_trace.cc\<close>) and its text (\<^verbatim>\<open>formatter.cc\<close>). The frames point into
  a vector of characters, so the vector is modelled with its capacity and a count of its reallocations: a pointer
  is the count it was taken at and an offset, and reading through one that a reallocation has left behind has no
  result. The vector's growth is the standard's: it reallocates when, and only when, the new size exceeds the
  capacity. The raw trace of the signal path is the text in a fixed buffer and the writes it is given to.
  The width fmt counts a name with is a parameter; for plain characters it is the length.
\<close>

section \<open>Definitions\<close>

subsection \<open>The string buffer\<close>

record char_vec =
  cv_data :: "u8 list"
  cv_capacity :: nat
  cv_moves :: nat

definition cv_empty :: char_vec where "cv_empty = \<lparr>cv_data = [], cv_capacity = 0, cv_moves = 0\<rparr>"

definition cv_clear :: "char_vec \<Rightarrow> char_vec" where "cv_clear v = v\<lparr>cv_data := []\<rparr>"

definition cv_reserve :: "nat \<Rightarrow> char_vec \<Rightarrow> char_vec" where
  "cv_reserve n v = (if n > cv_capacity v then v\<lparr>cv_capacity := n, cv_moves := cv_moves v + 1\<rparr> else v)"

definition cv_append :: "u8 list \<Rightarrow> char_vec \<Rightarrow> char_vec" where
  "cv_append bs v =
     (let n = length (cv_data v) + length bs
      in if n > cv_capacity v
         then v\<lparr>cv_data := cv_data v @ bs, cv_capacity := max n (2 * cv_capacity v), cv_moves := cv_moves v + 1\<rparr>
         else v\<lparr>cv_data := cv_data v @ bs\<rparr>)"

text \<open>A pointer to the empty literal, or into the vector as it was after some reallocation.\<close>

datatype char_ptr = Empty_Literal | In_Buffer nat nat

definition read_c_string :: "char_vec \<Rightarrow> char_ptr \<Rightarrow> u8 list option" where
  "read_c_string v p =
     (case p of
        Empty_Literal \<Rightarrow> Some []
      | In_Buffer moves offset \<Rightarrow> if moves = cv_moves v then c_string (drop offset (cv_data v)) else None)"

subsection \<open>StackTrace\<close>

datatype trace_status = Uninitialized | Initialized | Collected | Failed

record location =
  lo_file :: char_ptr
  lo_function :: char_ptr
  lo_line :: u32
  lo_column :: u32

record stack_frame =
  fr_address :: u64
  fr_index :: nat
  fr_location :: location

record stack_trace =
  st_frames :: "stack_frame list"
  st_depth :: usize
  st_skip :: usize
  st_count :: nat
  st_string_buffer :: char_vec
  st_status :: trace_status

definition blank_frame :: stack_frame where
  "blank_frame = \<lparr>fr_address = 0, fr_index = 0, fr_location = \<lparr>lo_file = Empty_Literal, lo_function = Empty_Literal,
     lo_line = 0, lo_column = 0\<rparr>\<rparr>"

definition MAX_TRACE_DEPTH :: usize where "MAX_TRACE_DEPTH = 256"

definition empty_trace :: stack_trace where
  "empty_trace = \<lparr>st_frames = [], st_depth = MAX_TRACE_DEPTH, st_skip = 0, st_count = 0, st_string_buffer = cv_empty,
     st_status = Uninitialized\<rparr>"

definition trace_init :: "bool \<Rightarrow> stack_frame list \<Rightarrow> usize \<Rightarrow> usize \<Rightarrow> stack_trace \<Rightarrow> stack_trace option" where
  "trace_init dbg frames_buf depth to_skip st = do {
     let st = st\<lparr>st_frames := frames_buf, st_depth := depth, st_skip := to_skip\<rparr>;
     fpag_check (depth \<le> MAX_TRACE_DEPTH);
     fpag_dcheck dbg (to_skip \<le> depth);
     Some (st\<lparr>st_status := Initialized\<rparr>)
   }"

definition trace_intern :: "u8 list \<Rightarrow> char_vec \<Rightarrow> char_ptr \<times> char_vec" where
  "trace_intern str v =
     (if str = [] then (Empty_Literal, v)
      else let offset = length (cv_data v);
               v = cv_append [0] (cv_append str v)
           in (In_Buffer (cv_moves v) offset, v))"

text \<open>The names of all frames, resolved before any of them is stored.\<close>

fun resolve_frames ::
  "(u64 \<Rightarrow> module_cache \<Rightarrow> symbol_info run \<times> module_cache) \<Rightarrow> u64 list \<Rightarrow> module_cache \<Rightarrow> symbol_info list run" where
  "resolve_frames resolve [] cache = Returned []"
| "resolve_frames resolve (addr # addrs) cache =
     (case resolve addr cache of
        (Running, cache) \<Rightarrow> Running
      | (Returned info, cache) \<Rightarrow>
          (case resolve_frames resolve addrs cache of
             Running \<Rightarrow> Running
           | Returned infos \<Rightarrow> Returned (info # infos)))"

definition needed_bytes :: "symbol_info list \<Rightarrow> nat" where
  "needed_bytes infos = sum_list (map (\<lambda>info. length (si_function info) + length (si_file info) + 2) infos)"

text \<open>Storing into the caller's array past its end has no result.\<close>

fun fill_frames :: "nat \<Rightarrow> (u64 \<times> symbol_info) list \<Rightarrow> stack_frame list \<Rightarrow> char_vec \<Rightarrow> (stack_frame list \<times> char_vec) option" where
  "fill_frames i [] frames v = Some (frames, v)"
| "fill_frames i ((addr, info) # rest) frames v =
     (if i < length frames then
        let (function, v) = trace_intern (si_function info) v;
            (file, v) = trace_intern (si_file info) v;
            frame = \<lparr>fr_address = addr, fr_index = i,
                     fr_location = \<lparr>lo_file = file, lo_function = function, lo_line = si_line info,
                                    lo_column = si_column info\<rparr>\<rparr>
        in fill_frames (i + 1) rest (frames[i := frame]) v
      else None)"

text \<open>
  The capture takes the depth and the skip. \<open>None\<close> is a failed check or an access outside an array; \<open>Running\<close> is a
  lookup that has not returned.
\<close>

definition collect_trace ::
  "bool \<Rightarrow> (usize \<Rightarrow> usize \<Rightarrow> u64 list option) \<Rightarrow> (u64 \<Rightarrow> module_cache \<Rightarrow> symbol_info run \<times> module_cache)
     \<Rightarrow> stack_trace \<Rightarrow> stack_trace option run" where
  "collect_trace dbg capture resolve st =
     (if dbg \<and> st_status st \<noteq> Initialized then Returned None
      else case capture (st_depth st) (st_skip st) of
        None \<Rightarrow> Returned None
      | Some raw_addrs \<Rightarrow>
          if raw_addrs = [] then Returned (Some (st\<lparr>st_count := 0, st_status := Failed\<rparr>))
          else case resolve_frames resolve raw_addrs [] of
            Running \<Rightarrow> Running
          | Returned infos \<Rightarrow>
              let v = cv_reserve (needed_bytes infos) (cv_clear (st_string_buffer st))
              in Returned (map_option (\<lambda>(frames, v).
                   st\<lparr>st_count := length raw_addrs, st_frames := frames, st_string_buffer := v, st_status := Collected\<rparr>)
                   (fill_frames 0 (zip raw_addrs infos) (st_frames st) v)))"

subsection \<open>The formatter\<close>

fun hex_digit :: "nat \<Rightarrow> char" where "hex_digit d = ''0123456789abcdef'' ! d"

fun hex_text :: "nat \<Rightarrow> string" where
  "hex_text n = (if n < 16 then [hex_digit n] else hex_text (n div 16) @ [hex_digit (n mod 16)])"

declare hex_text.simps [simp del]

text \<open>fmt's integer with a width, and its hexadecimal with a prefix, filled with zeros to a width.\<close>

definition pad_left :: "char \<Rightarrow> nat \<Rightarrow> string \<Rightarrow> string" where
  "pad_left c width s = replicate (width - length s) c @ s"

definition fmt_index :: "nat \<Rightarrow> string" where "fmt_index n = pad_left CHR '' '' 3 (nat_to_string n)"

definition fmt_address :: "u64 \<Rightarrow> string" where
  "fmt_address a = ''0x'' @ pad_left CHR ''0'' 16 (hex_text (unat a))"

record format_options =
  fo_show_index :: bool
  fo_show_address :: bool
  fo_show_function :: bool
  fo_show_file_line :: bool
  fo_show_module :: bool

definition default_options :: format_options where
  "default_options = \<lparr>fo_show_index = True, fo_show_address = True, fo_show_function = True,
     fo_show_file_line = True, fo_show_module = False\<rparr>"

definition position_text :: "u32 \<Rightarrow> u32 \<Rightarrow> string" where
  "position_text line column =
     (if line > 0 then '':'' @ nat_to_string (unat line) @ (if column > 0 then '':'' @ nat_to_string (unat column) else [])
      else [])"

definition append_frame :: "(string \<Rightarrow> nat) \<Rightarrow> char_vec \<Rightarrow> format_options \<Rightarrow> stack_frame \<Rightarrow> string \<Rightarrow> string option" where
  "append_frame cols v opts frame out = do {
     let out = (if fo_show_index opts then out @ ''#'' @ fmt_index (fr_index frame) @ ''  '' else out);
     let out = (if fo_show_address opts then out @ fmt_address (fr_address frame) @ ''  '' else out);
     file \<leftarrow> map_option text_of (read_c_string v (lo_file (fr_location frame)));
     func \<leftarrow> map_option text_of (read_c_string v (lo_function (fr_location frame)));
     let with_file = (fo_show_file_line opts \<and> file \<noteq> []);
     let out =
       (if fo_show_function opts then
          (let func = (if func = [] then ''(unknown)'' else func)
           in if with_file then out @ func @ replicate (60 - cols func) CHR '' '' else out @ func)
        else out);
     Some (if with_file
           then out @ '' at '' @ file @ position_text (lo_line (fr_location frame)) (lo_column (fr_location frame))
           else out)
   }"

fun append_frames :: "(string \<Rightarrow> nat) \<Rightarrow> char_vec \<Rightarrow> format_options \<Rightarrow> stack_frame list \<Rightarrow> string \<Rightarrow> string option" where
  "append_frames cols v opts [] out = Some out"
| "append_frames cols v opts (f # fs) out = do {
     out \<leftarrow> append_frame cols v opts f out;
     append_frames cols v opts fs (out @ NEWLINE)
   }"

definition format_frames ::
  "(string \<Rightarrow> nat) \<Rightarrow> char_vec \<Rightarrow> stack_frame list \<Rightarrow> nat \<Rightarrow> string \<Rightarrow> format_options \<Rightarrow> string option" where
  "format_frames cols v frames count prefix_line opts =
     append_frames cols v opts (take count frames) (if prefix_line \<noteq> [] then prefix_line @ NEWLINE else [])"

definition trace_to_string :: "(string \<Rightarrow> nat) \<Rightarrow> bool \<Rightarrow> stack_trace \<Rightarrow> string option" where
  "trace_to_string cols dbg st =
     (if st_status st = Failed then Some ''stack trace collection failed''
      else do {
        fpag_dcheck dbg (st_status st = Collected);
        format_frames cols (st_string_buffer st) (st_frames st) (st_count st) [] default_options
      })"

definition print_trace :: "(string \<Rightarrow> nat) \<Rightarrow> bool \<Rightarrow> string \<Rightarrow> stack_trace \<Rightarrow> fs \<Rightarrow> fs option" where
  "print_trace cols dbg prefix_line st s =
     (if st_status st = Failed then Some (io_write STDERR_FD ''stack trace collection failed'' s)
      else do {
        fpag_dcheck dbg (st_status st = Collected);
        out \<leftarrow> format_frames cols (st_string_buffer st) (st_frames st) (st_count st) prefix_line default_options;
        Some (io_write STDERR_FD out s)
      })"

definition print_stack_trace_from_here ::
  "(string \<Rightarrow> nat) \<Rightarrow> bool \<Rightarrow> (usize \<Rightarrow> usize \<Rightarrow> u64 list option) \<Rightarrow> (u64 \<Rightarrow> module_cache \<Rightarrow> symbol_info run \<times> module_cache)
     \<Rightarrow> fs \<Rightarrow> fs option run" where
  "print_stack_trace_from_here cols dbg capture resolve s =
     (case trace_init dbg (replicate (unat MAX_TRACE_DEPTH) blank_frame) MAX_TRACE_DEPTH 4 empty_trace of
        None \<Rightarrow> Returned None
      | Some st \<Rightarrow> (case collect_trace dbg capture resolve st of
          Running \<Rightarrow> Running
        | Returned None \<Rightarrow> Returned None
        | Returned (Some st) \<Rightarrow> Returned (print_trace cols dbg [] st s)))"

subsection \<open>The raw trace\<close>

definition RAW_FRAME_COUNT :: usize where "RAW_FRAME_COUNT = 64"
definition RAW_BUFFER_BYTES :: nat where "RAW_BUFFER_BYTES = 4096"

definition append_text :: "string \<Rightarrow> string \<Rightarrow> string" where
  "append_text buffer txt = buffer @ take (RAW_BUFFER_BYTES - length buffer) txt"

text \<open>The digits, the lowest first, as the loop collects them; then written from the last.\<close>

function hex_loop :: "u64 \<Rightarrow> string \<Rightarrow> string" where
  "hex_loop x digits =
     (let digits = digits @ [hex_digit (unat (x AND 0xF))]; x = drop_bit 4 x
      in if x \<noteq> 0 then hex_loop x digits else digits)"
  by auto
termination
  by (relation "measure (\<lambda>(x, _). unat x)")
    (auto simp: unat_drop_bit_eq drop_bit_nat_def unat_gt_0 intro!: div_less_dividend)

declare hex_loop.simps [simp del]

fun append_digits :: "string \<Rightarrow> string \<Rightarrow> string" where
  "append_digits buffer [] = buffer"
| "append_digits buffer (d # ds) = append_digits (append_text buffer [d]) ds"

definition append_hex :: "string \<Rightarrow> u64 \<Rightarrow> string" where
  "append_hex buffer x = append_digits (append_text buffer ''0x'') (rev (hex_loop x []))"

fun raw_loop :: "nat \<Rightarrow> u64 list \<Rightarrow> string \<Rightarrow> fs \<Rightarrow> fs" where
  "raw_loop i [] buffer s = io_write STDERR_FD buffer s"
| "raw_loop i (frame # frames) buffer s =
     (let buffer = append_text buffer ''  #'';
          buffer = append_hex buffer (of_nat i);
          buffer = append_text buffer ''  '';
          buffer = append_hex buffer frame;
          buffer = append_text buffer NEWLINE
      in if length buffer + (2 * 8 * 2 + 8) > RAW_BUFFER_BYTES
         then raw_loop (i + 1) frames [] (io_write STDERR_FD buffer s)
         else raw_loop (i + 1) frames buffer s)"

definition print_raw_stack :: "u64 list \<Rightarrow> fs \<Rightarrow> fs" where
  "print_raw_stack stack s =
     raw_loop 0 (capture_libgcc stack RAW_FRAME_COUNT 2) (append_text [] (''stack (raw, unresolved):'' @ NEWLINE)) s"


section \<open>Names in the buffer\<close>

lemma c_string_terminated: "c_string (bs @ 0 # rest) = Some (takeWhile (\<lambda>b. b \<noteq> 0) bs)"
  by (induction bs) (auto simp: c_string_def)

abbreviation c_part :: "u8 list \<Rightarrow> u8 list" where "c_part \<equiv> takeWhile (\<lambda>b. b \<noteq> 0)"

text \<open>A later state of the buffer with no reallocation in between.\<close>

definition extends :: "char_vec \<Rightarrow> char_vec \<Rightarrow> bool" where
  "extends v v' \<longleftrightarrow> cv_moves v' = cv_moves v \<and> cv_capacity v' = cv_capacity v \<and> (\<exists>more. cv_data v' = cv_data v @ more)"

lemma extends_refl [simp]: "extends v v"
  by (simp add: extends_def)

lemma extends_trans: "extends u v \<Longrightarrow> extends v w \<Longrightarrow> extends u w"
  by (auto simp: extends_def)

lemma trace_intern_spec:
  assumes "length (cv_data v) + length str + 1 \<le> cv_capacity v" "trace_intern str v = (p, v')"
  shows "extends v v'" "length (cv_data v') \<le> length (cv_data v) + length str + 1"
    and "extends v' w \<Longrightarrow> read_c_string w p = Some (c_part str)"
  using assms
  by (auto simp: trace_intern_def cv_append_def extends_def read_c_string_def c_string_terminated Let_def
      split: if_splits)

definition frame_shows :: "char_vec \<Rightarrow> nat \<Rightarrow> u64 \<times> symbol_info \<Rightarrow> stack_frame \<Rightarrow> bool" where
  "frame_shows v i = (\<lambda>(addr, info) f. fr_address f = addr \<and> fr_index f = i
     \<and> read_c_string v (lo_function (fr_location f)) = Some (c_part (si_function info))
     \<and> read_c_string v (lo_file (fr_location f)) = Some (c_part (si_file info))
     \<and> lo_line (fr_location f) = si_line info \<and> lo_column (fr_location f) = si_column info)"

lemma needed_Cons: "needed_bytes (info # infos) = length (si_function info) + length (si_file info) + 2 + needed_bytes infos"
  by (simp add: needed_bytes_def)

lemma fill_frames_spec:
  assumes "i + length xs \<le> length frames" "length (cv_data v) + needed_bytes (map snd xs) \<le> cv_capacity v"
  obtains frames' v' where "fill_frames i xs frames v = Some (frames', v')" "extends v v'"
    "length frames' = length frames" "take i frames' = take i frames"
    "\<And>w k. extends v' w \<Longrightarrow> k < length xs \<Longrightarrow> frame_shows w (i + k) (xs ! k) (frames' ! (i + k))"
  using assms
proof (induction xs arbitrary: i frames v thesis)
  case Nil
  show ?case by (rule Nil.prems(1)) auto
next
  case (Cons x xs)
  obtain addr info where x: "x = (addr, info)" by (cases x)
  obtain func_p v1 where i1: "trace_intern (si_function info) v = (func_p, v1)" by fastforce
  obtain file_p v2 where i2: "trace_intern (si_file info) v1 = (file_p, v2)" by fastforce
  have room: "length (cv_data v) + length (si_function info) + 1 \<le> cv_capacity v"
    using Cons.prems(3) by (simp add: x needed_Cons)
  note s1 = trace_intern_spec [OF room i1]
  have room1: "length (cv_data v1) + length (si_file info) + 1 \<le> cv_capacity v1"
    using Cons.prems(3) s1 by (simp add: x needed_Cons extends_def)
  note s2 = trace_intern_spec [OF room1 i2]
  let ?f = "\<lparr>fr_address = addr, fr_index = i, fr_location = \<lparr>lo_file = file_p, lo_function = func_p,
      lo_line = si_line info, lo_column = si_column info\<rparr>\<rparr>"
  have len: "Suc i + length xs \<le> length (frames[i := ?f])" using Cons.prems(2) by simp
  have cap: "length (cv_data v2) + needed_bytes (map snd xs) \<le> cv_capacity v2"
    using Cons.prems(3) s1(1,2) s2(1,2) by (simp add: x needed_Cons extends_def)
  obtain frames' v' where r: "fill_frames (Suc i) xs (frames[i := ?f]) v2 = Some (frames', v')" "extends v2 v'"
      "length frames' = length frames" "take (Suc i) frames' = take (Suc i) (frames[i := ?f])"
      and sh: "\<And>w k. extends v' w \<Longrightarrow> k < length xs \<Longrightarrow> frame_shows w (Suc i + k) (xs ! k) (frames' ! (Suc i + k))"
    using Cons.IH [OF _ len cap] by (metis length_list_update)
  have i: "i < length frames" using Cons.prems(2) by simp
  have at: "frames' ! i = ?f"
    using arg_cong [OF r(4), of "\<lambda>l. l ! i"] i r(3) by simp
  show ?case
  proof (rule Cons.prems(1))
    show "fill_frames i (x # xs) frames v = Some (frames', v')" using r(1) i by (simp add: x i1 i2)
    show "extends v v'" using s1(1) s2(1) r(2) extends_trans by blast
    show "take i frames' = take i frames"
      using arg_cong [OF r(4), of "take i"] by (simp add: min_def)
    show "frame_shows w (i + k) ((x # xs) ! k) (frames' ! (i + k))" if w: "extends v' w" and k: "k < length (x # xs)" for w k
    proof (cases k)
      case 0
      have "extends v2 w" "extends v1 w" using r(2) w s2(1) extends_trans by blast+
      then show ?thesis using s1(3) s2(3) 0 by (simp add: frame_shows_def at x)
    next
      case (Suc j)
      then show ?thesis using sh [OF w, of j] k by simp
    qed
  qed (rule r(3))
qed

section \<open>The text of a trace\<close>

text \<open>The line a frame should have, from its address and what it resolves to.\<close>

definition frame_line :: "(string \<Rightarrow> nat) \<Rightarrow> nat \<Rightarrow> u64 \<times> symbol_info \<Rightarrow> string" where
  "frame_line cols i = (\<lambda>(addr, info).
     (let file = text_of (c_part (si_file info));
          name = text_of (c_part (si_function info));
          func = (if name = [] then ''(unknown)'' else name)
      in ''#'' @ fmt_index i @ ''  '' @ fmt_address addr @ ''  '' @ func @
         (if file = [] then []
          else replicate (60 - cols func) CHR '' '' @ '' at '' @ file @ position_text (si_line info) (si_column info))))"

lemma append_frame_line:
  assumes "frame_shows v i x f"
  shows "append_frame cols v default_options f out = Some (out @ frame_line cols i x)"
  using assms by (cases x) (auto simp: append_frame_def frame_shows_def frame_line_def default_options_def Let_def)

fun trace_lines :: "(string \<Rightarrow> nat) \<Rightarrow> nat \<Rightarrow> (u64 \<times> symbol_info) list \<Rightarrow> string" where
  "trace_lines cols i [] = []"
| "trace_lines cols i (x # xs) = frame_line cols i x @ NEWLINE @ trace_lines cols (i + 1) xs"

lemma append_frames_lines:
  assumes "length fs = length xs" "\<And>k. k < length xs \<Longrightarrow> frame_shows v (i + k) (xs ! k) (fs ! k)"
  shows "append_frames cols v default_options fs out = Some (out @ trace_lines cols i xs)"
  using assms
proof (induction xs arbitrary: i fs out)
  case (Cons x xs)
  then obtain f fs' where fs: "fs = f # fs'" by (cases fs) auto
  have "frame_shows v i x f" using Cons.prems(2) [of 0] by (simp add: fs)
  moreover have "frame_shows v (Suc i + k) (xs ! k) (fs' ! k)" if "k < length xs" for k
    using that Cons.prems(2) [of "Suc k"] by (simp add: fs)
  ultimately show ?case using Cons.IH [of fs' "Suc i"] Cons.prems(1) by (simp add: fs append_frame_line)
qed simp

lemma resolve_frames_symbols:
  assumes "cache_ok load cache" "list_all2 (\<lambda>a info. symbol_of fuel load dladdr cxa a = Returned info) addrs infos"
  shows "resolve_frames (resolve_posix fuel load dladdr cxa) addrs cache = Returned infos"
  using assms(2,1)
proof (induction arbitrary: cache rule: list_all2_induct)
  case (Cons a addrs info infos)
  obtain r cache' where res: "resolve_posix fuel load dladdr cxa a cache = (r, cache')" by fastforce
  show ?case using resolve_cached [OF Cons.prems res] Cons.IH [of cache'] Cons.hyps by (simp add: res)
qed simp

lemma collect_trace_spec:
  assumes "st_status st = Initialized" "capture (st_depth st) (st_skip st) = Some addrs" "addrs \<noteq> []"
    and "length addrs \<le> length (st_frames st)"
    and "list_all2 (\<lambda>a info. symbol_of fuel load dladdr cxa a = Returned info) addrs infos"
  obtains st' where "collect_trace dbg capture (resolve_posix fuel load dladdr cxa) st = Returned (Some st')"
    "st_status st' = Collected" "st_count st' = length addrs" "length (st_frames st') = length (st_frames st)"
    "\<And>k. k < length addrs \<Longrightarrow> frame_shows (st_string_buffer st') k (addrs ! k, infos ! k) (st_frames st' ! k)"
proof -
  let ?v = "cv_reserve (needed_bytes infos) (cv_clear (st_string_buffer st))"
  have len: "length infos = length addrs" using assms(5) list_all2_lengthD by metis
  have cap: "length (cv_data ?v) + needed_bytes (map snd (zip addrs infos)) \<le> cv_capacity ?v"
    by (auto simp: len cv_reserve_def cv_clear_def)
  have fits: "0 + length (zip addrs infos) \<le> length (st_frames st)" using assms(4) len by simp
  obtain frames' v' where r: "fill_frames 0 (zip addrs infos) (st_frames st) ?v = Some (frames', v')"
      "length frames' = length (st_frames st)"
      and sh: "\<And>w k. extends v' w \<Longrightarrow> k < length (zip addrs infos) \<Longrightarrow> frame_shows w (0 + k) (zip addrs infos ! k) (frames' ! (0 + k))"
    using fill_frames_spec [OF fits cap] by metis
  let ?st = "st\<lparr>st_count := length addrs, st_frames := frames', st_string_buffer := v', st_status := Collected\<rparr>"
  have res: "resolve_frames (resolve_posix fuel load dladdr cxa) addrs [] = Returned infos"
    by (rule resolve_frames_symbols [OF _ assms(5)]) (simp add: cache_ok_def)
  show thesis
  proof (rule that)
    show "collect_trace dbg capture (resolve_posix fuel load dladdr cxa) st = Returned (Some ?st)"
      using assms(1-3) r(1) by (simp add: collect_trace_def res)
    show "frame_shows (st_string_buffer ?st) k (addrs ! k, infos ! k) (st_frames ?st ! k)" if "k < length addrs" for k
      using sh [OF extends_refl, of k] that len by simp
  qed (use r(2) in simp_all)
qed


text \<open>
  C18. A stack trace is the stack: a trace initialised with a depth, a skip and an array of that many frames, then
  collected with \<^verbatim>\<open>backtrace\<close>, prints one line for each frame after the skipped ones, in order, with its address and
  the function, file, line and column it resolves to. No line is lost or cut, no name is read through a pointer a
  growing buffer left behind, nothing is stored past the caller's array, and the module cache changes no answer.
\<close>

theorem stack_trace_exact:
  assumes "trace_init dbg buf depth sk st = Some st1" "sk \<le> depth" "unat depth \<le> length buf"
    and "\<And>n. backtrace n = take n stack" "take (unat depth) (drop (unat sk) stack) \<noteq> []"
    and "list_all2 (\<lambda>a info. symbol_of fuel load dladdr cxa a = Returned info) (take (unat depth) (drop (unat sk) stack)) infos"
  shows "\<exists>st2. collect_trace dbg (capture_posix backtrace) (resolve_posix fuel load dladdr cxa) st1 = Returned (Some st2)
    \<and> st_count st2 = length infos
    \<and> trace_to_string cols dbg st2 = Some (trace_lines cols 0 (zip (take (unat depth) (drop (unat sk) stack)) infos))"
proof -
  let ?addrs = "take (unat depth) (drop (unat sk) stack)"
  have depth: "unat depth \<le> 256" and st1: "st_status st1 = Initialized" "st_depth st1 = depth" "st_skip st1 = sk" "st_frames st1 = buf"
    using assms(1) by (auto simp: trace_init_def MAX_TRACE_DEPTH_def word_le_nat_alt checks)
  have "unat depth + unat sk \<le> 512" using depth assms(2) by (simp add: word_le_nat_alt)
  then have cap: "capture_posix backtrace (st_depth st1) (st_skip st1) = Some ?addrs"
    unfolding st1(2,3) by (rule capture_posix_spec [OF assms(4)])
  have fits: "length ?addrs \<le> length (st_frames st1)" using assms(3) by (simp add: st1)
  have len: "length infos = length ?addrs" using assms(6) list_all2_lengthD by metis
  obtain st2 where st2: "collect_trace dbg (capture_posix backtrace) (resolve_posix fuel load dladdr cxa) st1 = Returned (Some st2)"
      "st_status st2 = Collected" "st_count st2 = length ?addrs" "length (st_frames st2) = length (st_frames st1)"
      and sh: "\<And>k. k < length ?addrs \<Longrightarrow> frame_shows (st_string_buffer st2) k (?addrs ! k, infos ! k) (st_frames st2 ! k)"
    using collect_trace_spec [where dbg = dbg and capture = "capture_posix backtrace", OF st1(1) cap assms(5) fits assms(6)]
    by blast
  have "append_frames cols (st_string_buffer st2) default_options (take (length ?addrs) (st_frames st2)) []
      = Some ([] @ trace_lines cols 0 (zip ?addrs infos))"
    by (rule append_frames_lines) (use fits st2(4) sh len in auto)
  then show ?thesis using st2 len by (simp add: trace_to_string_def format_frames_def)
qed

section \<open>Hexadecimal\<close>

definition hex_digit_val :: "char \<Rightarrow> nat" where
  "hex_digit_val c = (if is_digit c then digit_val c else of_char c - 87)"

definition hex_val :: "string \<Rightarrow> nat" where
  "hex_val ds = foldl (\<lambda>n c. 16 * n + hex_digit_val c) 0 ds"

lemma hex_digit_val_digit:
  assumes "d < 16"
  shows "hex_digit_val (hex_digit d) = d"
proof -
  have "list_all (\<lambda>d. hex_digit_val (hex_digit d) = d) [0..<16]" by code_simp
  then show ?thesis using assms by (simp add: list_all_iff del: hex_digit.simps)
qed

lemma hex_val_text: "hex_val (hex_text n) = n"
proof (induction n rule: hex_text.induct)
  case (1 n)
  then show ?case
    by (subst hex_text.simps) (auto simp: hex_val_def hex_digit_val_digit simp del: hex_digit.simps)
qed

lemma hex_text_length: "n < 16 ^ k \<Longrightarrow> 0 < k \<Longrightarrow> length (hex_text n) \<le> k"
proof (induction k arbitrary: n)
  case (Suc k)
  show ?case
  proof (cases "n < 16")
    case True
    then show ?thesis by (subst hex_text.simps) simp
  next
    case False
    then have "0 < k" using Suc.prems(1) by (cases k) auto
    moreover have "n div 16 < 16 ^ k" using Suc.prems(1) by (simp add: less_mult_imp_div_less mult.commute)
    ultimately show ?thesis using False Suc.IH by (subst hex_text.simps) simp
  qed
qed simp

lemma hex_loop_text: "rev (hex_loop x digits) = hex_text (unat x) @ rev digits"
proof (induction x digits rule: hex_loop.induct)
  case (1 x digits)
  have low: "unat (x AND 0xF) = unat x mod 16"
    using unat_and_mask [of x 4] by (simp add: mask_eq_exp_minus_1)
  have high: "unat (drop_bit 4 x) = unat x div 16" by (simp add: unat_drop_bit_eq drop_bit_nat_def)
  show ?case
  proof (cases "drop_bit 4 x = 0")
    case True
    then have "unat x < 16" using high by (simp add: div_eq_0_iff)
    then show ?thesis using True
      by (subst hex_loop.simps, subst hex_text.simps) (simp add: low del: hex_digit.simps)
  next
    case False
    then have "\<not> unat x < 16" using high by (metis div_less unat_eq_zero)
    then show ?thesis using False 1
      by (subst hex_loop.simps, subst hex_text.simps) (simp add: low high del: hex_digit.simps)
  qed
qed

section \<open>The raw trace\<close>

lemma append_text_fits: "length buffer + length txt \<le> RAW_BUFFER_BYTES \<Longrightarrow> append_text buffer txt = buffer @ txt"
  by (simp add: append_text_def)

lemma append_digits_fits:
  "length buffer + length ds \<le> RAW_BUFFER_BYTES \<Longrightarrow> append_digits buffer ds = buffer @ ds"
  by (induction ds arbitrary: buffer) (simp_all add: append_text_fits)

lemma append_hex_fits:
  "length buffer + 2 + length (hex_text (unat x)) \<le> RAW_BUFFER_BYTES \<Longrightarrow> append_hex buffer x = buffer @ ''0x'' @ hex_text (unat x)"
  by (simp add: append_hex_def append_text_fits append_digits_fits hex_loop_text)

definition raw_line :: "nat \<Rightarrow> u64 \<Rightarrow> string" where
  "raw_line i frame = ''  #0x'' @ hex_text i @ ''  0x'' @ hex_text (unat frame) @ NEWLINE"

fun raw_lines :: "nat \<Rightarrow> u64 list \<Rightarrow> string" where
  "raw_lines i [] = []"
| "raw_lines i (frame # frames) = raw_line i frame @ raw_lines (i + 1) frames"

lemma raw_line_length:
  assumes "i < 16 ^ 14"
  shows "length (raw_line i frame) \<le> 40"
proof -
  have "unat frame < 16 ^ 16" using unat_lt2p [of frame] by simp
  then have "length (hex_text (unat frame)) \<le> 16" by (rule hex_text_length) simp
  moreover have "length (hex_text i) \<le> 14" using assms by (rule hex_text_length) simp
  ultimately show ?thesis by (simp add: raw_line_def NEWLINE_def)
qed

lemma raw_loop_output:
  assumes "stream_at STDERR_FD out s" "length buffer + 40 \<le> RAW_BUFFER_BYTES" "i + length frames \<le> 16 ^ 14"
  shows "stream_at STDERR_FD (out @ buffer @ raw_lines i frames) (raw_loop i frames buffer s)"
  using assms
proof (induction frames arbitrary: i buffer out s)
  case Nil
  then show ?case by (simp add: io_write_stream)
next
  case (Cons frame frames)
  let ?b = "buffer @ raw_line i frame"
  have i: "i < 16 ^ 14" using Cons.prems(3) by simp
  then have word: "unat (of_nat i :: u64) = i" by (intro unat_of_nat_small) simp
  have len: "length buffer + length (raw_line i frame) \<le> RAW_BUFFER_BYTES"
    using Cons.prems(2) raw_line_length [OF i, of frame] by simp
  have b: "append_text (append_hex (append_text (append_hex (append_text buffer ''  #'') (of_nat i)) ''  '') frame) NEWLINE = ?b"
    using len by (simp add: append_text_fits append_hex_fits word raw_line_def NEWLINE_def)
  have rest: "Suc i + length frames \<le> 16 ^ 14" using Cons.prems(3) by simp
  show ?case
  proof (cases "length ?b + 40 > RAW_BUFFER_BYTES")
    case True
    have "stream_at STDERR_FD ((out @ ?b) @ [] @ raw_lines (Suc i) frames) (raw_loop (Suc i) frames [] (io_write STDERR_FD ?b s))"
      by (rule Cons.IH [OF io_write_stream [OF Cons.prems(1)] _ rest]) (simp add: RAW_BUFFER_BYTES_def)
    then show ?thesis using True by (simp add: b Let_def)
  next
    case False
    then show ?thesis using Cons.IH [OF Cons.prems(1) _ rest, of ?b] by (simp add: b Let_def)
  qed
qed

lemma raw_stack_stream:
  assumes "stream_at STDERR_FD out s" "0 \<notin> set stack"
  shows "stream_at STDERR_FD (out @ ''stack (raw, unresolved):'' @ NEWLINE @ raw_lines 0 (take 64 (drop 2 stack))) (print_raw_stack stack s)"
proof -
  let ?h = "''stack (raw, unresolved):'' @ NEWLINE"
  have frames: "capture_libgcc stack RAW_FRAME_COUNT 2 = take 64 (drop 2 stack)"
    using libgcc_run [OF assms(2)] by (simp add: capture_libgcc_def RAW_FRAME_COUNT_def)
  have h: "append_text [] ?h = ?h" by (simp add: append_text_fits RAW_BUFFER_BYTES_def NEWLINE_def)
  have "stream_at STDERR_FD (out @ ?h @ raw_lines 0 (take 64 (drop 2 stack))) (print_raw_stack stack s)"
    unfolding print_raw_stack_def frames h
    by (rule raw_loop_output [OF assms(1)]) (simp_all add: RAW_BUFFER_BYTES_def NEWLINE_def)
  then show ?thesis by simp
qed

text \<open>
  C38. The raw trace of the signal path is complete: standard error gets the header and a line for each of the up
  to 64 frames after the first two, in order; the fixed buffer never cuts a line, and the digits of a line read
  back as the frame's address.
\<close>

theorem raw_stack_exact:
  assumes "stream_at STDERR_FD out s" "0 \<notin> set stack"
  shows "stream_at STDERR_FD (out @ ''stack (raw, unresolved):'' @ NEWLINE @ raw_lines 0 (take 64 (drop 2 stack)))
      (print_raw_stack stack s)
    \<and> map (\<lambda>a. hex_val (hex_text (unat a))) (take 64 (drop 2 stack)) = map unat (take 64 (drop 2 stack))"
  using raw_stack_stream [OF assms] by (simp add: hex_val_text)


section \<open>Witnesses\<close>

definition sample_dladdr :: "u64 \<Rightarrow> dl_info option" where
  "sample_dladdr a = Some \<lparr>dli_fname = None, dli_fbase = 0, dli_sname = (if a = 20 then Some [102] else None)\<rparr>"

definition sample_infos :: "symbol_info list" where
  "sample_infos = [no_symbol\<lparr>si_function := [102], si_resolved := True\<rparr>, no_symbol]"

theorem stack_trace_exact_witness:
  "\<exists>st1 st2. trace_init True [blank_frame, blank_frame] 2 1 empty_trace = Some st1
    \<and> collect_trace True (capture_posix (\<lambda>n. take n [10, 20, 30])) (resolve_posix 0 (\<lambda>_. empty_module) sample_dladdr (\<lambda>_. None)) st1
        = Returned (Some st2)
    \<and> trace_to_string length True st2
        = Some (''#  0  0x0000000000000014  f'' @ NEWLINE @ ''#  1  0x000000000000001e  (unknown)'' @ NEWLINE)"
proof -
  obtain st1 where init: "trace_init True [blank_frame, blank_frame] 2 1 empty_trace = Some st1"
    by (simp add: trace_init_def MAX_TRACE_DEPTH_def)
  have frames: "take (unat (2 :: usize)) (drop (unat (1 :: usize)) [10, 20, 30]) = [20, 30 :: u64]" by simp
  have syms: "list_all2 (\<lambda>a info. symbol_of 0 (\<lambda>_. empty_module) sample_dladdr (\<lambda>_. None) a = Returned info) [20, 30] sample_infos"
    by (simp add: symbol_of_def resolve_posix_def sample_dladdr_def nonempty_name_def dynamic_symbol_def sample_infos_def
        demangle_def no_symbol_def)
  have lines: "trace_lines length 0 (zip [20, 30] sample_infos)
      = ''#  0  0x0000000000000014  f'' @ NEWLINE @ ''#  1  0x000000000000001e  (unknown)'' @ NEWLINE"
    by code_simp
  show ?thesis
    using stack_trace_exact [where stack = "[10, 20, 30]" and backtrace = "\<lambda>n. take n [10, 20, 30]" and cols = length,
        OF init _ _ refl, unfolded frames, OF _ _ _ syms] init lines
    by auto
qed

definition stderr_fs :: fs where
  "stderr_fs = (empty_fs [])\<lparr>fs_nodes := [0 \<mapsto> Reg []], fs_next_ino := 1,
     fs_fds := [2 \<mapsto> \<lparr>fd_ino = 0, fd_offset = 0, fd_writable = True\<rparr>]\<rparr>"

theorem raw_stack_exact_witness:
  "stream_at STDERR_FD (''stack (raw, unresolved):'' @ NEWLINE @ ''  #0x0  0x2a'' @ NEWLINE) (print_raw_stack [1, 2, 42] stderr_fs)"
proof -
  have "stream_at STDERR_FD [] stderr_fs" by (simp add: stream_at_def stderr_fs_def empty_fs_def STDERR_FD_def)
  moreover have "raw_lines 0 (take 64 (drop 2 [1, 2, 42])) = ''  #0x0  0x2a'' @ NEWLINE" by code_simp
  ultimately show ?thesis using raw_stack_exact [of "[]" stderr_fs "[1, 2, 42]"] by simp
qed

end
