(* ===== verification/Module_Map.thy ===== *)
theory Module_Map
  imports Stack_Trace
begin

text \<open>
  The lookup of the module that holds an address (\<^verbatim>\<open>src/debug/stack_trace/module_map.cc\<close>, Linux): the dynamic
  linker is asked first, and the memory map of the process is searched when it does not know. What the
  linker answers and the text of the map, if it opens, are arguments. \<^verbatim>\<open>fgets\<close> and the directives of
  \<^verbatim>\<open>sscanf\<close> the code uses are modelled as the C standard describes them, a number too large for
  \<^verbatim>\<open>unsigned long\<close> as its greatest value.
\<close>

section \<open>Definitions\<close>

subsection \<open>Scanning\<close>

definition is_space :: "char \<Rightarrow> bool" where
  "is_space c \<longleftrightarrow> (let n = of_char c :: nat in n = 32 \<or> 9 \<le> n \<and> n \<le> 13)"

definition is_xdigit :: "char \<Rightarrow> bool" where
  "is_xdigit c \<longleftrightarrow> is_digit c \<or> (let n = of_char c :: nat in 97 \<le> n \<and> n \<le> 102 \<or> 65 \<le> n \<and> n \<le> 70)"

definition xdigit_val :: "char \<Rightarrow> nat" where
  "xdigit_val c = (if is_digit c then digit_val c else if of_char c \<ge> (97::nat) then of_char c - 87 else of_char c - 55)"

definition base_digit :: "nat \<Rightarrow> char \<Rightarrow> bool" where
  "base_digit b c \<longleftrightarrow> (if b = 16 then is_xdigit c else is_digit c)"

definition base_val :: "nat \<Rightarrow> string \<Rightarrow> nat" where
  "base_val b ds = foldl (\<lambda>n c. b * n + xdigit_val c) 0 ds"

definition hex_prefixed :: "nat \<Rightarrow> string \<Rightarrow> bool" where
  "hex_prefixed b s \<longleftrightarrow> b = 16 \<and> (take 2 s = ''0x'' \<or> take 2 s = ''0X'')"

definition scan_number :: "nat \<Rightarrow> string \<Rightarrow> (u64 \<times> string) option" where
  "scan_number b s =
     (let s = dropWhile is_space s;
          neg = (take 1 s = ''-'');
          s = (if neg \<or> take 1 s = ''+'' then drop 1 s else s);
          s = (if hex_prefixed b s then drop 2 s else s);
          ds = takeWhile (base_digit b) s;
          n = base_val b ds
      in if ds = [] then None
         else Some (if n \<ge> 2 ^ 64 then - 1 else if neg then - of_nat n else of_nat n, drop (length ds) s))"

definition scan_string :: "nat \<Rightarrow> string \<Rightarrow> (string \<times> string) option" where
  "scan_string width s =
     (let s = dropWhile is_space s; w = takeWhile (\<lambda>c. \<not> is_space c) (take width s)
      in if w = [] then None else Some (w, drop (length w) s))"

datatype 'f directive =
  Blank | Literal char | Number nat "u64 \<Rightarrow> 'f \<Rightarrow> 'f" | String nat "string \<Rightarrow> 'f \<Rightarrow> 'f"

fun sscanf :: "'f directive list \<Rightarrow> string \<Rightarrow> nat \<times> 'f \<Rightarrow> nat \<times> 'f" where
  "sscanf [] s r = r"
| "sscanf (Blank # ds) s r = sscanf ds (dropWhile is_space s) r"
| "sscanf (Literal c # ds) s r = (if take 1 s = [c] then sscanf ds (drop 1 s) r else r)"
| "sscanf (Number b store # ds) s (k, f) =
     (case scan_number b s of None \<Rightarrow> (k, f) | Some (n, s) \<Rightarrow> sscanf ds s (k + 1, store n f))"
| "sscanf (String width store # ds) s (k, f) =
     (case scan_string width s of None \<Rightarrow> (k, f) | Some (w, s) \<Rightarrow> sscanf ds s (k + 1, store w f))"

definition fgets :: "nat \<Rightarrow> string \<Rightarrow> string \<times> string" where
  "fgets n s =
     (let piece = take (n - 1) s; line = takeWhile (\<lambda>c. c \<noteq> CHR 0x0A) piece;
          used = (if length line < length piece then length line + 1 else length piece)
      in (take used s, drop used s))"

subsection \<open>The lookup\<close>

record module_info =
  mi_module_path :: string
  mi_module_base :: u64
  mi_offset :: u64

record maps_line =
  ml_start :: u64
  ml_end :: u64
  ml_perms :: string
  ml_file_offset :: u64
  ml_dev_major :: u32
  ml_dev_minor :: u32
  ml_inode :: u64
  ml_path :: string

definition empty_maps_line :: maps_line where
  "empty_maps_line = \<lparr>ml_start = 0, ml_end = 0, ml_perms = [], ml_file_offset = 0, ml_dev_major = 0,
     ml_dev_minor = 0, ml_inode = 0, ml_path = []\<rparr>"

definition maps_format :: "maps_line directive list" where
  "maps_format =
     [Number 16 (\<lambda>n l. l\<lparr>ml_start := n\<rparr>), Literal CHR ''-'', Number 16 (\<lambda>n l. l\<lparr>ml_end := n\<rparr>), Blank,
      String 7 (\<lambda>w l. l\<lparr>ml_perms := w\<rparr>), Blank, Number 16 (\<lambda>n l. l\<lparr>ml_file_offset := n\<rparr>), Blank,
      Number 16 (\<lambda>n l. l\<lparr>ml_dev_major := ucast n\<rparr>), Literal CHR '':'', Number 16 (\<lambda>n l. l\<lparr>ml_dev_minor := ucast n\<rparr>),
      Blank, Number 10 (\<lambda>n l. l\<lparr>ml_inode := n\<rparr>), Blank, String 255 (\<lambda>w l. l\<lparr>ml_path := w\<rparr>)]"

lemma fgets_shorter: "s \<noteq> [] \<Longrightarrow> 1 < n \<Longrightarrow> length (snd (fgets n s)) < length s"
  by (cases s) (auto simp: fgets_def Let_def)

function search_maps :: "u64 \<Rightarrow> string \<Rightarrow> module_info option" where
  "search_maps target maps =
     (if maps = [] then None
      else
        let (line, maps') = fgets 512 maps;
            (parsed, l) = sscanf maps_format line (0, empty_maps_line)
        in if parsed < 5 then search_maps target maps'
           else if target < ml_start l \<or> target \<ge> ml_end l then search_maps target maps'
           else Some \<lparr>mi_module_path = (if parsed \<ge> 8 \<and> ml_path l \<noteq> [] then ml_path l else []),
                      mi_module_base = ml_start l, mi_offset = target - ml_start l\<rparr>)"
  by pat_completeness auto
termination
  by (relation "measure (length \<circ> snd)") (auto simp: prod_eq_iff intro: fgets_shorter)

declare search_maps.simps [simp del]

definition lookup_in_maps :: "string option \<Rightarrow> u64 \<Rightarrow> module_info \<Rightarrow> bool \<times> module_info" where
  "lookup_in_maps maps target out =
     (case maps of
        None \<Rightarrow> (False, out)
      | Some text \<Rightarrow> (case search_maps target text of None \<Rightarrow> (False, out) | Some m \<Rightarrow> (True, m)))"

definition lookup_module_for_address_linux :: "(u64 \<Rightarrow> dl_info option) \<Rightarrow> string option
    \<Rightarrow> u64 \<Rightarrow> module_info \<Rightarrow> bool \<times> module_info" where
  "lookup_module_for_address_linux dladdr maps address out =
     (case dladdr address of
        Some info \<Rightarrow>
          (case dli_fname info of
             Some fname \<Rightarrow>
               if dli_fbase info \<noteq> 0
               then (True, \<lparr>mi_module_path = text_of fname, mi_module_base = dli_fbase info, mi_offset = address - dli_fbase info\<rparr>)
               else lookup_in_maps maps address out
           | None \<Rightarrow> lookup_in_maps maps address out)
      | None \<Rightarrow> lookup_in_maps maps address out)"

definition lookup_module_for_address :: "(u64 \<Rightarrow> dl_info option) \<Rightarrow> string option
    \<Rightarrow> u64 \<Rightarrow> module_info \<Rightarrow> bool \<times> module_info" where
  "lookup_module_for_address dladdr maps address out = lookup_module_for_address_linux dladdr maps address out"

section \<open>Reading back what the kernel writes\<close>

text \<open>
  A mapping and its line in \<^verbatim>\<open>/proc/self/maps\<close>: addresses and the offset in at least eight hexadecimal
  digits, the permissions, the device, the inode, and after some blanks the name, if there is one.
\<close>

record region =
  rg_start :: u64
  rg_end :: u64
  rg_perms :: string
  rg_offset :: u64
  rg_major :: u32
  rg_minor :: u32
  rg_inode :: u64
  rg_blanks :: nat
  rg_name :: string

definition hex_field :: "nat \<Rightarrow> nat \<Rightarrow> string" where
  "hex_field w n = pad_left CHR ''0'' w (hex_text n)"

definition region_text :: "region \<Rightarrow> string" where
  "region_text r =
     hex_field 8 (unat (rg_start r)) @ ''-'' @ hex_field 8 (unat (rg_end r)) @ '' '' @ rg_perms r @ '' ''
     @ hex_field 8 (unat (rg_offset r)) @ '' '' @ hex_field 2 (unat (rg_major r)) @ '':''
     @ hex_field 2 (unat (rg_minor r)) @ '' '' @ nat_to_string (unat (rg_inode r)) @ '' ''
     @ spaces (rg_blanks r) @ rg_name r"

definition region_ok :: "region \<Rightarrow> bool" where
  "region_ok r \<longleftrightarrow> rg_perms r \<noteq> [] \<and> length (rg_perms r) \<le> 7 \<and> list_all (\<lambda>c. \<not> is_space c) (rg_perms r)
     \<and> (rg_name r \<noteq> [] \<longrightarrow> \<not> is_space (hd (rg_name r))) \<and> CHR 0x0A \<notin> set (rg_name r)
     \<and> length (region_text r) < 511"

definition region_name :: "region \<Rightarrow> string" where
  "region_name r = takeWhile (\<lambda>c. \<not> is_space c) (take 255 (rg_name r))"

lemma xdigit_not_space: "is_xdigit c \<Longrightarrow> \<not> is_space c"
  by (auto simp: is_xdigit_def is_space_def is_digit_def Let_def)

lemma base_digit_plain:
  assumes "base_digit b c"
  shows "\<not> is_space c" "c \<noteq> CHR ''-''" "c \<noteq> CHR ''+''" "c \<noteq> CHR ''x''" "c \<noteq> CHR ''X''" "c \<noteq> CHR 0x0A"
proof -
  have x: "is_xdigit c" using assms by (auto simp: base_digit_def is_xdigit_def split: if_splits)
  then show "\<not> is_space c" by (rule xdigit_not_space)
  show "c \<noteq> CHR ''-''" "c \<noteq> CHR ''+''" "c \<noteq> CHR ''x''" "c \<noteq> CHR ''X''" "c \<noteq> CHR 0x0A"
    using x by (auto simp: is_xdigit_def is_digit_def Let_def)
qed

lemma scan_number_digits:
  assumes ds: "ds \<noteq> []" "\<forall>d \<in> set ds. base_digit b d" and n: "base_val b ds < 2 ^ 64"
    and c: "\<not> base_digit b c" "c \<noteq> CHR ''x''" "c \<noteq> CHR ''X''"
  shows "scan_number b (ds @ c # rest) = Some (of_nat (base_val b ds), c # rest)"
proof -
  obtain d ds' where d: "ds = d # ds'" using ds(1) by (cases ds) auto
  have bd: "base_digit b d" using ds(2) d by simp
  have tw: "takeWhile (base_digit b) (ds @ c # rest) = ds" using ds(2) c(1) by simp
  have "hd (ds' @ c # rest) \<noteq> CHR ''x''" "hd (ds' @ c # rest) \<noteq> CHR ''X''"
    using ds(2) c d base_digit_plain(4,5) [of b "hd ds'"] by (cases ds'; auto)+
  then have pre: "\<not> hex_prefixed b (ds @ c # rest)"
    by (cases ds') (auto simp: hex_prefixed_def d)
  show ?thesis
    unfolding scan_number_def Let_def using pre tw n ds(1) base_digit_plain [OF bd]
    by (simp add: d del: takeWhile.simps)
qed

lemma base_val_append: "base_val b (ds @ [c]) = b * base_val b ds + xdigit_val c"
  by (simp add: base_val_def)

lemma base_val_zeros: "base_val b (replicate k CHR ''0'' @ ds) = base_val b ds"
  by (induction k) (simp_all add: base_val_def xdigit_val_def is_digit_def digit_val_def)

lemma hex_digit_facts:
  assumes "d < 16"
  shows "is_xdigit (hex_digit d)" "xdigit_val (hex_digit d) = d"
proof -
  have "list_all (\<lambda>d. is_xdigit (hex_digit d) \<and> xdigit_val (hex_digit d) = d) [0..<16]" by code_simp
  then show "is_xdigit (hex_digit d)" "xdigit_val (hex_digit d) = d"
    using assms by (simp_all add: list_all_iff del: hex_digit.simps)
qed

lemma hex_text_base: "list_all is_xdigit (hex_text n) \<and> base_val 16 (hex_text n) = n \<and> hex_text n \<noteq> []"
proof (induction n rule: hex_text.induct)
  case (1 n)
  show ?case
  proof (cases "n < 16")
    case True
    then show ?thesis
      by (subst (1 2 3) hex_text.simps) (simp add: hex_digit_facts base_val_def del: hex_digit.simps)
  next
    case False
    then show ?thesis using 1
      by (subst (1 2 3) hex_text.simps) (simp add: hex_digit_facts base_val_append del: hex_digit.simps)
  qed
qed

lemma base_val_decimal: "\<forall>c \<in> set ds. is_digit c \<Longrightarrow> base_val 10 ds = digits_val ds"
  by (induction ds rule: rev_induct) (simp_all add: base_val_append digits_val_snoc xdigit_val_def base_val_def digits_val_def)

lemma hex_field_digits: "\<forall>d \<in> set (hex_field w n). base_digit 16 d" "hex_field w n \<noteq> []" "base_val 16 (hex_field w n) = n"
  using hex_text_base [of n]
  by (auto simp: hex_field_def pad_left_def base_val_zeros list_all_iff base_digit_def is_xdigit_def is_digit_def)

lemma scan_hex_field:
  "n < 2 ^ 64 \<Longrightarrow> \<not> is_xdigit c \<Longrightarrow> c \<noteq> CHR ''x'' \<Longrightarrow> c \<noteq> CHR ''X''
    \<Longrightarrow> scan_number 16 (hex_field w n @ c # rest) = Some (of_nat n, c # rest)"
  using scan_number_digits [of "hex_field w n" 16 c rest] hex_field_digits [of w n]
  by (simp add: base_digit_def)

lemma scan_hex_word:
  assumes "\<not> is_xdigit c" "c \<noteq> CHR ''x''" "c \<noteq> CHR ''X''"
  shows "scan_number 16 (hex_field w (unat (x :: u64)) @ c # rest) = Some (x, c # rest)"
    and "scan_number 16 (hex_field w (unat (y :: u32)) @ c # rest) = Some (ucast y, c # rest)"
proof -
  have y: "(word_of_nat (unat y) :: u64) = ucast y" by simp
  show "scan_number 16 (hex_field w (unat x) @ c # rest) = Some (x, c # rest)"
    using scan_hex_field [OF _ assms] unat_lt2p [of x] by simp
  show "scan_number 16 (hex_field w (unat y) @ c # rest) = Some (ucast y, c # rest)"
    using scan_hex_field [OF _ assms, of "unat y"] unat_lt2p [of y] unfolding y by simp
qed

lemma scan_decimal:
  "scan_number 10 (nat_to_string (unat (x :: u64)) @ CHR '' '' # rest) = Some (x, CHR '' '' # rest)"
  using scan_number_digits [of "nat_to_string (unat x)" 10 "CHR '' ''" rest] nat_to_string_digits [of "unat x"]
    base_val_decimal [of "nat_to_string (unat x)"] unat_lt2p [of x]
  by (simp add: base_digit_def is_digit_def)

lemma space_facts: "is_space CHR '' ''" "is_space CHR 0x0A" by (simp_all add: is_space_def)

lemma scan_number_space: "scan_number b (CHR '' '' # s) = scan_number b s"
  by (simp add: scan_number_def space_facts)

lemma scan_string_space: "scan_string w (CHR '' '' # s) = scan_string w s"
  by (simp add: scan_string_def space_facts)

lemma dropWhile_spaces: "dropWhile is_space (spaces n @ s) = dropWhile is_space s"
  by (induction n) (simp_all add: spaces_def space_facts)

lemma scan_string_spaces: "scan_string w (spaces n @ s) = scan_string w s"
  by (simp add: scan_string_def dropWhile_spaces)

lemma dropWhile_idem: "dropWhile P (dropWhile P xs) = dropWhile P xs"
  by (induction xs) auto

lemma sscanf_blank:
  "sscanf (Blank # Number b f # ds) s r = sscanf (Number b f # ds) s r"
  "sscanf (Blank # String w g # ds) s r = sscanf (String w g # ds) s r"
  by (cases r; simp add: scan_number_def scan_string_def dropWhile_idem)+

lemma scan_perms:
  assumes "p \<noteq> []" "length p \<le> 7" "list_all (\<lambda>c. \<not> is_space c) p"
  shows "scan_string 7 (p @ CHR '' '' # s) = Some (p, CHR '' '' # s)"
proof -
  have "dropWhile is_space (p @ CHR '' '' # s) = p @ CHR '' '' # s"
    using assms(1,3) by (cases p) auto
  moreover have "takeWhile (\<lambda>c. \<not> is_space c) (take 7 (p @ CHR '' '' # s)) = p"
    using assms(2,3) by (cases "7 - length p") (auto simp: list_all_iff space_facts)
  ultimately show ?thesis using assms(1) by (simp add: scan_string_def)
qed

lemma scan_name:
  assumes "name \<noteq> [] \<Longrightarrow> \<not> is_space (hd name)"
  shows "scan_string 255 (name @ NEWLINE) = (if name = [] then None
    else Some (takeWhile (\<lambda>c. \<not> is_space c) (take 255 name),
               drop (length (takeWhile (\<lambda>c. \<not> is_space c) (take 255 name))) (name @ NEWLINE)))"
proof (cases name)
  case Nil
  then show ?thesis by (simp add: scan_string_def NEWLINE_def space_facts)
next
  case (Cons c cs)
  have "takeWhile (\<lambda>c. \<not> is_space c) (take 255 (name @ NEWLINE)) = takeWhile (\<lambda>c. \<not> is_space c) (take 255 name)"
    by (cases "255 - length name") (auto simp: NEWLINE_def space_facts takeWhile_append intro: takeWhile_eq_all_conv [THEN iffD2, symmetric])
  then show ?thesis using Cons assms by (simp add: scan_string_def del: take_Suc_Cons)
qed

definition line_of :: "region \<Rightarrow> maps_line" where
  "line_of r = \<lparr>ml_start = rg_start r, ml_end = rg_end r, ml_perms = rg_perms r, ml_file_offset = rg_offset r,
     ml_dev_major = rg_major r, ml_dev_minor = rg_minor r, ml_inode = rg_inode r, ml_path = region_name r\<rparr>"

lemma region_scanned:
  assumes "region_ok r"
  shows "sscanf maps_format (region_text r @ NEWLINE) (0, empty_maps_line)
    = (if rg_name r = [] then 7 else 8, line_of r)"
proof -
  have sep: "\<not> is_xdigit CHR ''-''" "\<not> is_xdigit CHR '' ''" "\<not> is_xdigit CHR '':''"
    by (simp_all add: is_xdigit_def is_digit_def)
  have u: "ucast (ucast y :: u64) = (y :: u32)" for y
    using unat_lt2p [of y]
    by (simp add: word_eq_iff_unsigned unsigned_ucast_eq take_bit_nat_eq_self take_bit_word_eq_self)
  show ?thesis
    using assms scan_name [of "[]"]
    by (simp add: region_text_def maps_format_def sscanf_blank scan_number_space scan_string_space
        scan_string_spaces scan_hex_word scan_decimal scan_perms scan_name sep u region_ok_def
        empty_maps_line_def line_of_def region_name_def del: sscanf.simps(2))
qed

lemma region_text_no_newline:
  assumes "region_ok r"
  shows "CHR 0x0A \<notin> set (region_text r)"
proof -
  have "CHR 0x0A \<notin> set (hex_field w n)" for w n
    using hex_field_digits(1) [of w n] base_digit_plain(6) by blast
  moreover have "CHR 0x0A \<notin> set (nat_to_string n)" for n
    using nat_to_string_digits [of n] by (auto simp: is_digit_def)
  ultimately show ?thesis
    using assms by (auto simp: region_text_def region_ok_def list_all_iff space_facts spaces_def)
qed

lemma fgets_region:
  assumes "region_ok r"
  shows "fgets 512 (region_text r @ NEWLINE @ rest) = (region_text r @ NEWLINE, rest)"
proof -
  have len: "length (region_text r) < 511" using assms by (simp add: region_ok_def)
  then have "511 - length (region_text r) = Suc (510 - length (region_text r))" by simp
  with len have "take 511 (region_text r @ NEWLINE @ rest)
      = region_text r @ CHR 0x0A # take (510 - length (region_text r)) rest"
    by (simp add: NEWLINE_def)
  moreover have "takeWhile (\<lambda>c. c \<noteq> CHR 0x0A) (region_text r @ CHR 0x0A # s) = region_text r" for s
    using region_text_no_newline [OF assms] by (subst takeWhile_append2) auto
  ultimately show ?thesis by (simp add: fgets_def Let_def NEWLINE_def)
qed

definition found_in :: "region \<Rightarrow> u64 \<Rightarrow> module_info" where
  "found_in r target = \<lparr>mi_module_path = region_name r, mi_module_base = rg_start r, mi_offset = target - rg_start r\<rparr>"

lemma search_maps_regions:
  assumes "\<forall>r \<in> set rs. region_ok r"
  shows "search_maps target (concat (map (\<lambda>r. region_text r @ NEWLINE) rs)) =
    map_option (\<lambda>r. found_in r target) (find (\<lambda>r. rg_start r \<le> target \<and> target < rg_end r) rs)"
  using assms
proof (induction rs)
  case Nil
  then show ?case by (simp add: search_maps.simps)
next
  case (Cons r rs)
  have ne: "region_text r @ NEWLINE @ concat (map (\<lambda>r. region_text r @ NEWLINE) rs) \<noteq> []"
    by (simp add: NEWLINE_def)
  have "rg_name r = [] \<Longrightarrow> region_name r = []" by (simp add: region_name_def)
  then show ?case
    using Cons ne region_scanned [of r] fgets_region [of r "concat (map (\<lambda>r. region_text r @ NEWLINE) rs)"]
    by (subst search_maps.simps) (auto simp: line_of_def found_in_def not_le not_less)
qed

section \<open>Properties\<close>

text \<open>
  C40. An address the dynamic linker does not know is found in the memory map of the process as the kernel writes
  it exactly when some mapping holds it: the lookup returns the start of the first such mapping, the
  distance from it and the mapping's name, up to its first blank and of at most 255 characters, and
  otherwise false with the output as it was.
\<close>

theorem maps_lookup_exact:
  assumes "dladdr address = None" and "\<forall>r \<in> set rs. region_ok r"
  shows "lookup_module_for_address dladdr (Some (concat (map (\<lambda>r. region_text r @ NEWLINE) rs))) address out =
    (case find (\<lambda>r. rg_start r \<le> address \<and> address < rg_end r) rs of
       None \<Rightarrow> (False, out)
     | Some r \<Rightarrow> (True, \<lparr>mi_module_path = takeWhile (\<lambda>c. \<not> is_space c) (take 255 (rg_name r)),
                         mi_module_base = rg_start r, mi_offset = address - rg_start r\<rparr>))"
  using assms(1)
  by (simp add: lookup_module_for_address_def lookup_module_for_address_linux_def lookup_in_maps_def search_maps_regions [OF assms(2)]
      found_in_def region_name_def split: option.split)

definition sample_region :: region where
  "sample_region = \<lparr>rg_start = 0x400000, rg_end = 0x452000, rg_perms = ''r-xp'', rg_offset = 0, rg_major = 8,
     rg_minor = 2, rg_inode = 173521, rg_blanks = 6, rg_name = ''/opt/my app/bin''\<rparr>"

theorem maps_lookup_exact_witness:
  "lookup_module_for_address (\<lambda>a. None) (Some (concat (map (\<lambda>r. region_text r @ NEWLINE) [sample_region])))
     0x400010 \<lparr>mi_module_path = [], mi_module_base = 0, mi_offset = 0\<rparr>
   = (True, \<lparr>mi_module_path = ''/opt/my'', mi_module_base = 0x400000, mi_offset = 0x10\<rparr>)"
proof -
  have "region_ok sample_region"
    by (simp add: sample_region_def region_ok_def region_text_def hex_field_def pad_left_def hex_text.simps
        nat_to_string.simps spaces_def is_space_def)
  then have ok: "\<forall>r \<in> set [sample_region]. region_ok r" by simp
  have found: "find (\<lambda>r. rg_start r \<le> 0x400010 \<and> 0x400010 < rg_end r) [sample_region] = Some sample_region"
    by (simp add: sample_region_def)
  have name: "takeWhile (\<lambda>c. \<not> is_space c) (take 255 (rg_name sample_region)) = ''/opt/my''"
    by (simp add: sample_region_def is_space_def)
  have start: "rg_start sample_region = 0x400000" by (simp add: sample_region_def)
  show ?thesis unfolding maps_lookup_exact [OF refl ok] found option.case name start by simp
qed

end
