(* ===== verification/Crash.thy ===== *)
theory Crash
  imports Stack_Trace Sinks Page_Allocator
begin

text \<open>
  How a program ends badly: the failure paths of the checks (\<^verbatim>\<open>src/debug/check.cc\<close>, \<^verbatim>\<open>fatal.cc\<close>), the signal handlers
  (\<^verbatim>\<open>signal_handler.cc\<close>), the terminate handler and the exit handler. A process is its descriptors, the sink of the debug
  logger, the flag that a trace was printed, and the signals the kernel holds back while their handler runs. The
  handlers are installed with an empty mask, so only a handler's own signal is held back. A trap of a debug build is
  the signal \<^verbatim>\<open>SIGILL\<close>; executing \<^verbatim>\<open>__builtin_unreachable\<close>, as a release build does in its place, has no defined
  behaviour. The symbolised trace is a parameter here; it is the subject of the theory of stack traces. So are the
  clock, the frames on the stack and the stack itself, each a function of the signals being handled: a handler
  that interrupts another runs later, above its frames.
\<close>

section \<open>Definitions\<close>

subsection \<open>Checks on two operands\<close>

text \<open>The right operand is converted to the type of the left one before it is compared.\<close>

definition fpag_check_op :: "('a::len word \<Rightarrow> 'a word \<Rightarrow> bool) \<Rightarrow> 'a word \<Rightarrow> 'b::len word \<Rightarrow> unit option" where
  "fpag_check_op cmp lhs rhs = fpag_check (cmp lhs (ucast rhs))"

subsection \<open>The process\<close>

datatype signal_no = SIGSEGV | SIGABRT | SIGFPE | SIGILL | SIGINT | SIGTERM | SIGBUS | SIGKILL | SIGSTOP | SIGALRM | Other_Signal

record process =
  ps_fs :: fs
  ps_logger :: "fd_sink option"
  ps_printed :: bool
  ps_blocked :: "signal_no list"

record crash_env =
  ce_debug :: bool
  ce_date :: "u64 \<Rightarrow> string"
  ce_now :: "signal_no list \<Rightarrow> u64"
  ce_pid :: u32
  ce_tid :: u64
  ce_stack :: "signal_no list \<Rightarrow> u64 list"
  ce_trace :: "fs \<Rightarrow> fs"
  ce_on_signal_stack :: "signal_no list \<Rightarrow> bool"
  ce_logger_file :: string

datatype ending = Default_Action signal_no | Undefined_Behaviour

text \<open>A step goes on, or stops where the process is about to crash.\<close>

datatype 'a step = Goes 'a | Stops 'a

definition init_debug_logger :: "color_style \<Rightarrow> process \<Rightarrow> process option" where
  "init_debug_logger style p = do {
     k \<leftarrow> fd_sink_new False STDERR_FD False 0 style False;
     Some (p\<lparr>ps_logger := Some k\<rparr>)
   }"

definition mark_stack_trace_printed :: "process \<Rightarrow> process" where
  "mark_stack_trace_printed p = p\<lparr>ps_printed := True\<rparr>"

definition stderr_writes :: "string list \<Rightarrow> process \<Rightarrow> process" where
  "stderr_writes ts p = p\<lparr>ps_fs := fold (io_write STDERR_FD) ts (ps_fs p)\<rparr>"

definition raw_check_fail :: "string \<Rightarrow> string \<Rightarrow> nat \<Rightarrow> string \<Rightarrow> string \<Rightarrow> process \<Rightarrow> process" where
  "raw_check_fail expr at_file line func msg p =
     (let p = stderr_writes [''fatal: RAW CHECK FAILED for '' @ [CHR 0x27], expr, [CHR 0x27] @ NEWLINE,
                '' at '', at_file, '' : '', nat_to_string line, '' ('', func, '')'' @ NEWLINE] p
      in if msg \<noteq> [] then stderr_writes [msg, NEWLINE] p else p)"

definition logger_log :: "crash_env \<Rightarrow> log_level \<Rightarrow> string \<Rightarrow> process \<Rightarrow> process step" where
  "logger_log env level msg p =
     (case ps_logger p of
        None \<Rightarrow>
          if ce_debug env then Stops (raw_check_fail ''sink_'' (ce_logger_file env) 105 ''log'' ''SyncLogger is used before init()'' p)
          else Goes p
      | Some k \<Rightarrow> (case fd_log \<lparr>en_level = level, en_message = ascii msg, en_timestamp_ns = ce_now env (ps_blocked p)\<rparr> k (ps_fs p) of
          None \<Rightarrow> Stops p
        | Some (k, s) \<Rightarrow> Goes (p\<lparr>ps_logger := Some k, ps_fs := s\<rparr>)))"

definition logger_flush :: "process \<Rightarrow> process" where
  "logger_flush p =
     (case ps_logger p of None \<Rightarrow> p | Some k \<Rightarrow> let (k, s) = fd_flush k (ps_fs p) in p\<lparr>ps_logger := Some k, ps_fs := s\<rparr>)"

definition print_trace_here :: "crash_env \<Rightarrow> process \<Rightarrow> process" where
  "print_trace_here env p = p\<lparr>ps_fs := ce_trace env (ps_fs p)\<rparr>"

subsection \<open>Signals\<close>

fun signal_to_string :: "signal_no \<Rightarrow> string" where
  "signal_to_string SIGSEGV = ''SIGSEGV (Invalid access to the storage)''"
| "signal_to_string SIGABRT = ''SIGABRT (Abnormal termination)''"
| "signal_to_string SIGFPE = ''SIGFPE (Floating point exception)''"
| "signal_to_string SIGILL = ''SIGILL (Illegal instruction)''"
| "signal_to_string SIGINT = ''SIGINT (Interactive attention signal)''"
| "signal_to_string SIGTERM = ''SIGTERM (Termination request)''"
| "signal_to_string SIGBUS = ''SIGBUS (Bus error)''"
| "signal_to_string SIGKILL = ''SIGKILL (Kill signal)''"
| "signal_to_string SIGSTOP = ''SIGSTOP (Stop signal)''"
| "signal_to_string SIGALRM = ''SIGALRM (Alarm clock)''"
| "signal_to_string Other_Signal = ''Unknown signal''"

definition SIGNAL_STACK_NOTE :: string where "SIGNAL_STACK_NOTE = ''handler ran on the signal stack'' @ NEWLINE"
definition THREAD_STACK_NOTE :: string where "THREAD_STACK_NOTE = ''handler ran on the thread stack'' @ NEWLINE"

definition handler_message :: "crash_env \<Rightarrow> signal_no list \<Rightarrow> signal_no \<Rightarrow> string" where
  "handler_message env handling sg =
     ''Aborted at '' @ ce_date env (ce_now env handling) @ NEWLINE @ ''('' @ nat_to_string (unat (ce_now env handling)) @ '' in UNIX Time)'' @ NEWLINE @
     signal_to_string sg @ '' Received by PID '' @ nat_to_string (unat (ce_pid env)) @ ''  (TID '' @
     nat_to_string (unat (ce_tid env)) @ '')'' @ NEWLINE"

definition signal_handler :: "crash_env \<Rightarrow> signal_no \<Rightarrow> process \<Rightarrow> process" where
  "signal_handler env sg p =
     (case logger_log env Fatal (handler_message env (ps_blocked p) sg) p of
        Stops p \<Rightarrow> p
      | Goes p \<Rightarrow>
          (let p = (if \<not> ps_printed p then p\<lparr>ps_fs := print_raw_stack (ce_stack env (ps_blocked p)) (ps_fs p)\<rparr> else p);
               origin = (if ce_on_signal_stack env (ps_blocked p) then SIGNAL_STACK_NOTE else THREAD_STACK_NOTE);
               p = stderr_writes [origin] p
           in logger_flush p))"

definition registered :: "bool \<Rightarrow> signal_no list" where
  "registered dbg = [SIGSEGV, SIGABRT, SIGFPE, SIGILL, SIGBUS, SIGALRM] @ (if dbg then [SIGINT] else [])"

lemma stderr_writes_blocked [simp]: "ps_blocked (stderr_writes ts p) = ps_blocked p"
  by (simp add: stderr_writes_def)

lemma raw_check_fail_blocked [simp]: "ps_blocked (raw_check_fail expr at_file line func msg p) = ps_blocked p"
  by (simp add: raw_check_fail_def Let_def)

lemma logger_flush_blocked [simp]: "ps_blocked (logger_flush p) = ps_blocked p"
  by (simp add: logger_flush_def split: option.split prod.split)

lemma signal_handler_blocked [simp]: "ps_blocked (signal_handler env sg p) = ps_blocked p"
proof (cases "logger_log env Fatal (handler_message env (ps_blocked p) sg) p")
  case (Goes q)
  then have "ps_blocked q = ps_blocked p" by (auto simp: logger_log_def split: option.splits if_splits)
  then show ?thesis by (simp add: signal_handler_def Goes Let_def)
next
  case (Stops q)
  then have "ps_blocked q = ps_blocked p" by (auto simp: logger_log_def split: option.splits if_splits)
  then show ?thesis by (simp add: signal_handler_def Stops)
qed

text \<open>The kernel delivers a signal; every handler ends in a crash, which in a debug build is the next signal.\<close>

definition free_signals :: "signal_no list \<Rightarrow> nat" where
  "free_signals blocked = length (filter (\<lambda>s. s \<notin> set blocked) (registered True))"

function deliver :: "crash_env \<Rightarrow> signal_no \<Rightarrow> process \<Rightarrow> ending \<times> process" where
  "deliver env sg p =
     (if sg \<in> set (ps_blocked p) \<or> sg \<notin> set (registered (ce_debug env)) then (Default_Action sg, p)
      else let p = signal_handler env sg (p\<lparr>ps_blocked := sg # ps_blocked p\<rparr>)
           in if ce_debug env then deliver env SIGILL p else (Undefined_Behaviour, p))"
  by auto
termination
proof (relation "measure (\<lambda>(_, _, p). free_signals (ps_blocked p))", goal_cases)
  case (2 env sg p q)
  have "ps_blocked q = sg # ps_blocked p"
    unfolding 2(2) by simp
  moreover have "sg \<in> set (filter (\<lambda>s. s \<notin> set (ps_blocked p)) (registered True))"
    using 2(1) by (auto simp: registered_def split: if_splits)
  then have "length (filter (\<lambda>s. s \<noteq> sg) (filter (\<lambda>s. s \<notin> set (ps_blocked p)) (registered True))) < free_signals (ps_blocked p)"
    unfolding free_signals_def by (rule length_filter_less) simp
  ultimately show ?case by (simp add: free_signals_def conj_commute)
qed simp

declare deliver.simps [simp del]

definition fatal_crash :: "crash_env \<Rightarrow> process \<Rightarrow> ending \<times> process" where
  "fatal_crash env p = (if ce_debug env then deliver env SIGILL p else (Undefined_Behaviour, p))"

definition SIGNAL_STACK_BYTES :: usize where "SIGNAL_STACK_BYTES = 64 * 1024"

definition install_signal_stack :: "bool \<Rightarrow> os \<Rightarrow> (usize \<Rightarrow> bool) \<Rightarrow> vm \<Rightarrow> ((usize \<times> usize) \<times> vm) option" where
  "install_signal_stack dbg os sigaltstack_ok v = do {
     (stack, v) \<leftarrow> allocate_pages dbg os SIGNAL_STACK_BYTES v;
     if stack = 0 then Some ((0, 0), v)
     else if \<not> sigaltstack_ok stack then do { v \<leftarrow> free_pages dbg os stack SIGNAL_STACK_BYTES v; Some ((0, 0), v) }
     else Some ((stack, SIGNAL_STACK_BYTES), v)
   }"

definition running_on_signal_stack :: "usize \<times> usize \<Rightarrow> usize \<Rightarrow> bool" where
  "running_on_signal_stack = (\<lambda>(low, bytes) here. if low = 0 then False else here \<ge> low \<and> here < low + bytes)"

subsection \<open>Failing checks and the other handlers\<close>

definition report_and_crash :: "crash_env \<Rightarrow> string \<Rightarrow> process \<Rightarrow> ending \<times> process" where
  "report_and_crash env msg p =
     (case logger_log env Fatal msg p of
        Stops p \<Rightarrow> fatal_crash env p
      | Goes p \<Rightarrow> fatal_crash env (logger_flush (mark_stack_trace_printed (print_trace_here env p))))"

definition location_text :: "string \<Rightarrow> nat \<Rightarrow> string \<Rightarrow> string" where
  "location_text at_file line func = ''  at '' @ at_file @ '':'' @ nat_to_string line @ '' ('' @ func @ '')''"

definition check_fail :: "crash_env \<Rightarrow> string \<Rightarrow> string \<Rightarrow> nat \<Rightarrow> string \<Rightarrow> string \<Rightarrow> process \<Rightarrow> ending \<times> process" where
  "check_fail env expr at_file line func msg p =
     (if ps_logger p = None then fatal_crash env (raw_check_fail expr at_file line func msg p)
      else report_and_crash env
        (''Check failed!'' @ NEWLINE @ ''Expected: '' @ [CHR 0x27] @ expr @ [CHR 0x27] @ NEWLINE @ location_text at_file line func @
         (if msg = [] then [] else NEWLINE @ msg)) p)"

definition check_op_fail :: "crash_env \<Rightarrow> string \<Rightarrow> string \<Rightarrow> string \<Rightarrow> string \<Rightarrow> nat \<Rightarrow> string \<Rightarrow> string \<Rightarrow> process \<Rightarrow> ending \<times> process" where
  "check_op_fail env expected lhs rhs at_file line func msg p =
     (if ps_logger p = None then fatal_crash env (raw_check_fail expected at_file line func msg p)
      else report_and_crash env
        (''Check failed!'' @ NEWLINE @ ''Expected: '' @ [CHR 0x27] @ expected @ [CHR 0x27] @ '', Actual: '' @ lhs @ '' vs '' @ rhs @
         NEWLINE @ location_text at_file line func @ (if msg = [] then [] else NEWLINE @ msg)) p)"

definition unreachable_fail :: "crash_env \<Rightarrow> string \<Rightarrow> nat \<Rightarrow> string \<Rightarrow> string \<Rightarrow> process \<Rightarrow> ending \<times> process" where
  "unreachable_fail env at_file line func msg p =
     (if ps_logger p = None then fatal_crash env (raw_check_fail ''FPAG_UNREACHABLE()'' at_file line func msg p)
      else report_and_crash env
        (''UNREACHABLE'' @ NEWLINE @ msg @ NEWLINE @ location_text at_file line func) p)"

definition terminate_handler :: "crash_env \<Rightarrow> process \<Rightarrow> ending \<times> process" where
  "terminate_handler env p =
     (case logger_log env Fatal ''Program terminated unexpectedly'' p of
        Stops p \<Rightarrow> fatal_crash env p
      | Goes p \<Rightarrow> fatal_crash env (mark_stack_trace_printed (print_trace_here env p)))"

definition dlog :: "crash_env \<Rightarrow> string \<Rightarrow> string \<Rightarrow> nat \<Rightarrow> string \<Rightarrow> process \<Rightarrow> process step" where
  "dlog env formatted_msg at_file line func p =
     (case logger_log env Debug (formatted_msg @ ''   [on '' @ func @ '' ('' @ at_file @ '':'' @ nat_to_string line @ '')]'') p of
        Stops p \<Rightarrow> Stops p
      | Goes p \<Rightarrow> Goes (logger_flush p))"

definition reset_console_colors :: "bool \<Rightarrow> bool \<Rightarrow> fs \<Rightarrow> fs" where
  "reset_console_colors stdout_ansi stderr_ansi s =
     (let s = (if stdout_ansi then io_write STDOUT_FD RESET s else s)
      in if stderr_ansi then io_write STDERR_FD RESET s else s)"

section \<open>What reaches standard error\<close>

text \<open>The debug logger as its initialisation leaves it: unbuffered, on standard error.\<close>

definition debug_sink :: "fd_sink \<Rightarrow> bool" where
  "debug_sink k \<longleftrightarrow> fk_fd k = STDERR_FD \<and> \<not> fk_use_buffer k"

lemma init_debug_logger_sink:
  "init_debug_logger style p = Some p' \<Longrightarrow> \<exists>k. ps_logger p' = Some k \<and> debug_sink k \<and> fk_style k = style"
  by (auto simp: init_debug_logger_def fd_sink_new_def debug_sink_def bind_eq_Some_conv)

lemma fold_writes_stream: "stream_at STDERR_FD out s \<Longrightarrow> stream_at STDERR_FD (out @ concat ts) (fold (io_write STDERR_FD) ts s)"
proof (induction ts arbitrary: out s)
  case (Cons x ts)
  from Cons.IH [OF io_write_stream [OF Cons.prems, of x]] show ?case by simp
qed simp

lemma text_of_ascii: "text_of (ascii msg) = msg"
proof -
  have "unat (of_nat (of_char c) :: u8) = (of_char c :: nat)" for c :: char
    by (intro unat_of_nat_small) simp
  then show ?thesis by (simp add: text_of_def ascii_def map_idI)
qed

lemma log_prefix_Fatal: "log_prefix Fatal style \<noteq> []"
  by (cases style; simp only:) code_simp+

lemma logger_log_stream:
  assumes "ps_logger p = Some k" "debug_sink k" "stream_at STDERR_FD out (ps_fs p)"
  obtains s where "logger_log env Fatal msg p = Goes (p\<lparr>ps_logger := Some k, ps_fs := s\<rparr>)"
    "stream_at STDERR_FD (out @ log_prefix Fatal (fk_style k) @ msg @ NEWLINE) s"
proof -
  have fd: "fk_fd k = STDERR_FD" "\<not> fk_use_buffer k" using assms(2) by (simp_all add: debug_sink_def)
  have "stream_at STDERR_FD (out @ log_prefix Fatal (fk_style k) @ msg @ NEWLINE)
      (directly_write (log_prefix Fatal (fk_style k)) msg k (ps_fs p))"
    using directly_write_stream [of k out "ps_fs p"] assms(3) fd(1) by simp
  then show thesis using that assms(1) fd(2) by (simp add: logger_log_def fd_log_def Let_def text_of_ascii log_prefix_Fatal)
qed

definition raw_text :: "crash_env \<Rightarrow> signal_no list \<Rightarrow> string" where
  "raw_text env handling = ''stack (raw, unresolved):'' @ NEWLINE @ raw_lines 0 (take 64 (drop 2 (ce_stack env handling)))"

text \<open>What a handler prints, by the signals being handled, its own first.\<close>

definition report_text :: "crash_env \<Rightarrow> color_style \<Rightarrow> bool \<Rightarrow> signal_no list \<Rightarrow> signal_no \<Rightarrow> string" where
  "report_text env style printed handling sg =
     log_prefix Fatal style @ handler_message env handling sg @ NEWLINE @ (if printed then [] else raw_text env handling) @
     (if ce_on_signal_stack env handling then SIGNAL_STACK_NOTE else THREAD_STACK_NOTE)"

text \<open>A raw report, and the one of a logger that is used before it has a sink.\<close>

definition raw_report :: "string \<Rightarrow> string \<Rightarrow> nat \<Rightarrow> string \<Rightarrow> string \<Rightarrow> string" where
  "raw_report expr at_file line func msg =
     ''fatal: RAW CHECK FAILED for '' @ [CHR 0x27] @ expr @ [CHR 0x27] @ NEWLINE @
     '' at '' @ at_file @ '' : '' @ nat_to_string line @ '' ('' @ func @ '')'' @ NEWLINE @
     (if msg = [] then [] else msg @ NEWLINE)"

definition no_sink_report :: "crash_env \<Rightarrow> string" where
  "no_sink_report env = raw_report ''sink_'' (ce_logger_file env) 105 ''log'' ''SyncLogger is used before init()''"

text \<open>What standard error shows, and the style of the debug logger, if it is set up.\<close>

definition shows_text :: "process \<Rightarrow> color_style option \<Rightarrow> string \<Rightarrow> bool" where
  "shows_text p style out \<longleftrightarrow> stream_at STDERR_FD out (ps_fs p)
     \<and> (case ps_logger p of None \<Rightarrow> style = None | Some k \<Rightarrow> debug_sink k \<and> style = Some (fk_style k))"

lemma shows_textE:
  assumes "shows_text p (Some style) out"
  obtains k where "ps_logger p = Some k" "debug_sink k" "fk_style k = style" "stream_at STDERR_FD out (ps_fs p)"
  using assms by (auto simp: shows_text_def split: option.splits)

lemma shows_text_blocked [simp]: "shows_text (p\<lparr>ps_blocked := b\<rparr>) style out = shows_text p style out"
  by (simp add: shows_text_def)

lemma flush_unbuffered: "ps_logger p = Some k \<Longrightarrow> debug_sink k \<Longrightarrow> logger_flush p = p"
  by (simp add: logger_flush_def fd_flush_def debug_sink_def)

lemma raw_check_fail_shows:
  assumes "shows_text p style out"
  shows "shows_text (raw_check_fail expr at_file line func msg p) style (out @ raw_report expr at_file line func msg)"
    "ps_printed (raw_check_fail expr at_file line func msg p) = ps_printed p"
proof -
  have st: "shows_text (stderr_writes ts q) style (out' @ concat ts)" if "shows_text q style out'" for ts q out'
    using that fold_writes_stream [of out' "ps_fs q" ts] by (simp add: shows_text_def stderr_writes_def)
  define ts where "ts = [''fatal: RAW CHECK FAILED for '' @ [CHR 0x27], expr, [CHR 0x27] @ NEWLINE,
    '' at '', at_file, '' : '', nat_to_string line, '' ('', func, '')'' @ NEWLINE]"
  have "raw_check_fail expr at_file line func msg p
      = (if msg \<noteq> [] then stderr_writes [msg, NEWLINE] (stderr_writes ts p) else stderr_writes ts p)"
    by (simp add: raw_check_fail_def ts_def Let_def)
  moreover have "raw_report expr at_file line func msg = concat ts @ (if msg = [] then [] else concat [msg, NEWLINE])"
    by (simp add: raw_report_def ts_def)
  ultimately show "shows_text (raw_check_fail expr at_file line func msg p) style (out @ raw_report expr at_file line func msg)"
    using st [OF assms, of ts] st [OF st [OF assms, of ts], of "[msg, NEWLINE]"] by simp
  show "ps_printed (raw_check_fail expr at_file line func msg p) = ps_printed p"
    by (simp add: raw_check_fail_def stderr_writes_def Let_def)
qed

text \<open>What one handler adds: its report, or that the logger has no sink.\<close>

definition handler_text :: "crash_env \<Rightarrow> color_style option \<Rightarrow> bool \<Rightarrow> signal_no list \<Rightarrow> signal_no \<Rightarrow> string" where
  "handler_text env style printed handling sg =
     (case style of Some c \<Rightarrow> report_text env c printed handling sg | None \<Rightarrow> no_sink_report env)"

lemma signal_handler_reports:
  assumes "shows_text p (Some style) out" "0 \<notin> set (ce_stack env (ps_blocked p))"
  shows "shows_text (signal_handler env sg p) (Some style) (out @ report_text env style (ps_printed p) (ps_blocked p) sg)"
    "ps_printed (signal_handler env sg p) = ps_printed p"
proof -
  obtain k where k: "ps_logger p = Some k" "debug_sink k" "fk_style k = style" and out: "stream_at STDERR_FD out (ps_fs p)"
    using assms(1) by (rule shows_textE)
  let ?h = "ps_blocked p"
  obtain s where log: "logger_log env Fatal (handler_message env ?h sg) p = Goes (p\<lparr>ps_logger := Some k, ps_fs := s\<rparr>)"
      "stream_at STDERR_FD (out @ log_prefix Fatal style @ handler_message env ?h sg @ NEWLINE) s"
    using logger_log_stream [OF k(1,2) out] k(3) by blast
  let ?s = "if ps_printed p then s else print_raw_stack (ce_stack env ?h) s"
  let ?note = "if ce_on_signal_stack env ?h then SIGNAL_STACK_NOTE else THREAD_STACK_NOTE"
  have raw: "stream_at STDERR_FD (out @ log_prefix Fatal style @ handler_message env ?h sg @ NEWLINE @ (if ps_printed p then [] else raw_text env ?h)) ?s"
    using log(2) raw_stack_stream [OF log(2) assms(2)] by (simp add: raw_text_def)
  define q where "q = p\<lparr>ps_logger := Some k, ps_fs := io_write STDERR_FD ?note ?s\<rparr>"
  have "signal_handler env sg p = logger_flush q"
    by (simp add: signal_handler_def log(1) q_def stderr_writes_def Let_def)
  also have "logger_flush q = q" using k(2) by (intro flush_unbuffered) (simp_all add: q_def)
  finally have run: "signal_handler env sg p = q" .
  show "shows_text (signal_handler env sg p) (Some style) (out @ report_text env style (ps_printed p) ?h sg)"
    using io_write_stream [OF raw, of ?note] k(2,3) unfolding run by (simp add: shows_text_def q_def report_text_def)
  show "ps_printed (signal_handler env sg p) = ps_printed p" unfolding run by (simp add: q_def)
qed

lemma handler_reports:
  assumes "ce_debug env" "shows_text p style out" "\<And>handling. 0 \<notin> set (ce_stack env handling)"
  shows "shows_text (signal_handler env sg p) style (out @ handler_text env style (ps_printed p) (ps_blocked p) sg)
    \<and> ps_printed (signal_handler env sg p) = ps_printed p"
proof (cases style)
  case None
  then have "ps_logger p = None" using assms(2) by (auto simp: shows_text_def split: option.splits)
  then have "signal_handler env sg p = raw_check_fail ''sink_'' (ce_logger_file env) 105 ''log'' ''SyncLogger is used before init()'' p"
    using assms(1) by (simp add: signal_handler_def logger_log_def)
  then show ?thesis using raw_check_fail_shows [OF assms(2)] None by (simp add: handler_text_def no_sink_report_def)
next
  case (Some c)
  then show ?thesis using signal_handler_reports [of p c out env sg] assms(2,3) by (simp add: handler_text_def)
qed

text \<open>In a debug build the handler's own trap brings one more report, unless it was already handling a trap.\<close>

definition fault_text :: "crash_env \<Rightarrow> color_style option \<Rightarrow> bool \<Rightarrow> signal_no \<Rightarrow> string" where
  "fault_text env style printed sg = handler_text env style printed [sg] sg
     @ (if sg = SIGILL then [] else handler_text env style printed [SIGILL, sg] SIGILL)"

lemma deliver_reports:
  assumes dbg: "ce_debug env" and sg: "sg \<in> set (registered True)" "ps_blocked p = []"
    and p: "shows_text p style out" "\<And>handling. 0 \<notin> set (ce_stack env handling)"
  obtains q where "deliver env sg p = (Default_Action SIGILL, q)" "shows_text q style (out @ fault_text env style (ps_printed p) sg)"
proof -
  define p1 where "p1 = signal_handler env sg (p\<lparr>ps_blocked := [sg]\<rparr>)"
  have "shows_text (p\<lparr>ps_blocked := [sg]\<rparr>) style out" using p(1) by simp
  note r1 = handler_reports [OF dbg this p(2), of sg, folded p1_def]
  have b1: "ps_blocked p1 = [sg]" by (simp add: p1_def)
  have d1: "deliver env sg p = deliver env SIGILL p1"
    by (subst deliver.simps) (use sg dbg in \<open>simp add: p1_def\<close>)
  have ill: "SIGILL \<in> set (registered True)" by (simp add: registered_def)
  show thesis
  proof (cases "sg = SIGILL")
    case True
    have "deliver env SIGILL p1 = (Default_Action SIGILL, p1)" by (subst deliver.simps) (simp add: b1 True)
    then show thesis using that [of p1] d1 r1 True by (simp add: fault_text_def)
  next
    case False
    define p2 where "p2 = signal_handler env SIGILL (p1\<lparr>ps_blocked := [SIGILL, sg]\<rparr>)"
    have "shows_text (p1\<lparr>ps_blocked := [SIGILL, sg]\<rparr>) style (out @ handler_text env style (ps_printed p) [sg] sg)"
      using r1 by simp
    note r2 = handler_reports [OF dbg this p(2), of SIGILL, folded p2_def]
    have b2: "ps_blocked p2 = [SIGILL, sg]" by (simp add: p2_def)
    have "deliver env SIGILL p1 = deliver env SIGILL p2"
      by (subst deliver.simps) (use False ill dbg in \<open>simp add: p2_def b1\<close>)
    also have "deliver env SIGILL p2 = (Default_Action SIGILL, p2)" by (subst deliver.simps) (simp add: b2)
    finally show thesis using that [of p2] d1 r1 r2 False by (simp add: fault_text_def)
  qed
qed

section \<open>Every fatal path\<close>

datatype fatal_path =
    Check_Failed string string nat string string
  | Check_Op_Failed string string string string nat string string
  | Unreachable string nat string string
  | Terminate
  | Fault signal_no

fun take_path :: "crash_env \<Rightarrow> fatal_path \<Rightarrow> process \<Rightarrow> ending \<times> process" where
  "take_path env (Check_Failed expr at_file line func msg) p = check_fail env expr at_file line func msg p"
| "take_path env (Check_Op_Failed expected lhs rhs at_file line func msg) p = check_op_fail env expected lhs rhs at_file line func msg p"
| "take_path env (Unreachable at_file line func msg) p = unreachable_fail env at_file line func msg p"
| "take_path env Terminate p = terminate_handler env p"
| "take_path env (Fault sg) p = deliver env sg p"

text \<open>The message of a path, and its raw report where the logger has no sink.\<close>

fun path_message :: "fatal_path \<Rightarrow> string" where
  "path_message (Check_Failed expr at_file line func msg) =
     ''Check failed!'' @ NEWLINE @ ''Expected: '' @ [CHR 0x27] @ expr @ [CHR 0x27] @ NEWLINE @ location_text at_file line func @
     (if msg = [] then [] else NEWLINE @ msg)"
| "path_message (Check_Op_Failed expected lhs rhs at_file line func msg) =
     ''Check failed!'' @ NEWLINE @ ''Expected: '' @ [CHR 0x27] @ expected @ [CHR 0x27] @ '', Actual: '' @ lhs @ '' vs '' @ rhs @
     NEWLINE @ location_text at_file line func @ (if msg = [] then [] else NEWLINE @ msg)"
| "path_message (Unreachable at_file line func msg) = ''UNREACHABLE'' @ NEWLINE @ msg @ NEWLINE @ location_text at_file line func"
| "path_message _ = ''Program terminated unexpectedly''"

fun path_raw :: "crash_env \<Rightarrow> fatal_path \<Rightarrow> string" where
  "path_raw env (Check_Failed expr at_file line func msg) = raw_report expr at_file line func msg"
| "path_raw env (Check_Op_Failed expected lhs rhs at_file line func msg) = raw_report expected at_file line func msg"
| "path_raw env (Unreachable at_file line func msg) = raw_report ''FPAG_UNREACHABLE()'' at_file line func msg"
| "path_raw env _ = no_sink_report env"

definition path_text :: "crash_env \<Rightarrow> color_style option \<Rightarrow> string \<Rightarrow> fatal_path \<Rightarrow> string" where
  "path_text env style trace_text path =
     (case path of
        Fault sg \<Rightarrow> fault_text env style False sg
      | _ \<Rightarrow> (case style of
          Some c \<Rightarrow> log_prefix Fatal c @ path_message path @ NEWLINE @ trace_text @ report_text env c True [SIGILL] SIGILL
        | None \<Rightarrow> path_raw env path @ no_sink_report env))"

lemma trap_reports:
  assumes "ce_debug env" "ps_blocked p = []" "shows_text p style out" "\<And>handling. 0 \<notin> set (ce_stack env handling)"
  obtains q where "fatal_crash env p = (Default_Action SIGILL, q)"
    "shows_text q style (out @ handler_text env style (ps_printed p) [SIGILL] SIGILL)"
  using deliver_reports [of env SIGILL p style out] assms by (auto simp: fatal_crash_def registered_def fault_text_def)

lemma raw_path_reports:
  assumes "ce_debug env" "ps_blocked p = []" "shows_text p None out" "\<And>handling. 0 \<notin> set (ce_stack env handling)"
  shows "\<exists>q. fatal_crash env (raw_check_fail expr at_file line func msg p) = (Default_Action SIGILL, q)
    \<and> shows_text q None (out @ raw_report expr at_file line func msg @ no_sink_report env)"
  using trap_reports [of env "raw_check_fail expr at_file line func msg p" None] raw_check_fail_shows [OF assms(3)] assms(1,2,4)
  by (metis append.assoc handler_text_def option.simps(4) raw_check_fail_blocked)

lemma logged_path_reports:
  assumes dbg: "ce_debug env" "ps_blocked p = []" and p: "shows_text p (Some style) out" "\<And>handling. 0 \<notin> set (ce_stack env handling)"
    and trace: "\<And>out s. stream_at STDERR_FD out s \<Longrightarrow> stream_at STDERR_FD (out @ trace_text) (ce_trace env s)"
  obtains p1 q where "logger_log env Fatal msg p = Goes p1"
    "logger_flush (mark_stack_trace_printed (print_trace_here env p1)) = mark_stack_trace_printed (print_trace_here env p1)"
    "fatal_crash env (mark_stack_trace_printed (print_trace_here env p1)) = (Default_Action SIGILL, q)"
    "shows_text q (Some style) (out @ log_prefix Fatal style @ msg @ NEWLINE @ trace_text @ report_text env style True [SIGILL] SIGILL)"
proof -
  obtain k where k: "ps_logger p = Some k" "debug_sink k" "fk_style k = style" and out: "stream_at STDERR_FD out (ps_fs p)"
    using p(1) by (rule shows_textE)
  obtain s where log: "logger_log env Fatal msg p = Goes (p\<lparr>ps_logger := Some k, ps_fs := s\<rparr>)"
      "stream_at STDERR_FD (out @ log_prefix Fatal style @ msg @ NEWLINE) s"
    using logger_log_stream [OF k(1,2) out] k(3) by blast
  let ?p1 = "p\<lparr>ps_logger := Some k, ps_fs := s\<rparr>"
  define p2 where "p2 = mark_stack_trace_printed (print_trace_here env ?p1)"
  have p2: "ps_printed p2" "ps_blocked p2 = []" "ps_logger p2 = Some k"
    using dbg(2) by (simp_all add: p2_def mark_stack_trace_printed_def print_trace_here_def)
  have st: "shows_text p2 (Some style) (out @ log_prefix Fatal style @ msg @ NEWLINE @ trace_text)"
    using trace [OF log(2)] k by (simp add: shows_text_def p2_def mark_stack_trace_printed_def print_trace_here_def)
  obtain q where "fatal_crash env p2 = (Default_Action SIGILL, q)"
      "shows_text q (Some style) ((out @ log_prefix Fatal style @ msg @ NEWLINE @ trace_text) @ handler_text env (Some style) (ps_printed p2) [SIGILL] SIGILL)"
    by (rule trap_reports [OF dbg(1) p2(2) st p(2)])
  then show thesis using that [OF log(1)] flush_unbuffered [OF p2(3) k(2)] p2(1) by (simp add: p2_def handler_text_def)
qed

text \<open>
  C21. In a debug build with the handlers registered, every fatal path ends the process by the default action of the
  trap, and what it leaves on a standard error that takes everything is complete. The paths are a failed check, a
  failed comparison, a point marked unreachable, each with or without a message, the terminate handler, and any
  signal that has a handler. With the debug logger set up, one of the first four prints its message, then the
  trace, and then one report of the trap, without a list of frames; a signal prints its own report with the raw
  frames, and then a second report, of the illegal instruction with which its own handler ended, unless it was
  that signal itself. Before the logger is set up the failed checks print their raw report without a trace, and
  every handler that runs, as the terminate handler, prints only that the logger was used too early.
\<close>

theorem crash_reports:
  assumes "ce_debug env" "shows_text p style out" "ps_blocked p = []" "\<not> ps_printed p"
    and "\<And>handling. 0 \<notin> set (ce_stack env handling)"
    and "\<And>out s. stream_at STDERR_FD out s \<Longrightarrow> stream_at STDERR_FD (out @ trace_text) (ce_trace env s)"
    and "\<And>sg. path = Fault sg \<Longrightarrow> sg \<in> set (registered True)"
  shows "\<exists>q. take_path env path p = (Default_Action SIGILL, q)
    \<and> stream_at STDERR_FD (out @ path_text env style trace_text path) (ps_fs q)"
proof (cases "\<exists>sg. path = Fault sg")
  case True
  then obtain sg where sg: "path = Fault sg" by blast
  obtain q where "deliver env sg p = (Default_Action SIGILL, q)" "shows_text q style (out @ fault_text env style (ps_printed p) sg)"
    by (rule deliver_reports [OF assms(1) assms(7) [OF sg] assms(3,2,5)])
  then show ?thesis using assms(4) by (auto simp: sg shows_text_def path_text_def)
next
  case other: False
  show ?thesis
  proof (cases style)
    case None
    then have np: "ps_logger p = None" using assms(2) by (auto simp: shows_text_def split: option.splits)
    have raw: "\<exists>q. fatal_crash env (raw_check_fail expr at_file line func msg p) = (Default_Action SIGILL, q)
        \<and> stream_at STDERR_FD (out @ raw_report expr at_file line func msg @ no_sink_report env) (ps_fs q)" for expr at_file line func msg
      using raw_path_reports [OF assms(1,3) assms(2) [unfolded None] assms(5), of expr at_file line func msg]
      by (auto simp: shows_text_def)
    show ?thesis using raw other np assms(1)
      by (cases path) (auto simp: None path_text_def check_fail_def check_op_fail_def unreachable_fail_def terminate_handler_def
          logger_log_def no_sink_report_def)
  next
    case (Some c)
    then have has: "ps_logger p \<noteq> None" using assms(2) by (auto simp: shows_text_def split: option.splits)
    obtain p1 q where run: "logger_log env Fatal (path_message path) p = Goes p1"
      "logger_flush (mark_stack_trace_printed (print_trace_here env p1)) = mark_stack_trace_printed (print_trace_here env p1)"
      "fatal_crash env (mark_stack_trace_printed (print_trace_here env p1)) = (Default_Action SIGILL, q)"
      "shows_text q (Some c) (out @ log_prefix Fatal c @ path_message path @ NEWLINE @ trace_text @ report_text env c True [SIGILL] SIGILL)"
      by (rule logged_path_reports [OF assms(1,3) assms(2) [unfolded Some] assms(5,6)])
    have "take_path env path p = (Default_Action SIGILL, q)"
      using run(1-3) has other
      by (cases path) (auto simp: check_fail_def check_op_fail_def unreachable_fail_def terminate_handler_def report_and_crash_def)
    then show ?thesis using run(4) other by (cases path) (auto simp: Some path_text_def shows_text_def)
  qed
qed

section \<open>Checks that say something else\<close>

text \<open>
  A check of two operands of different widths compares the right one after it was cut to the left one's: four equals
  260 as bytes, and three is not less than 258.
\<close>

lemma check_op_narrows:
  "fpag_check_op (=) (4 :: u8) (260 :: u64) = Some ()"
  "fpag_check_op (<) (3 :: u8) (258 :: u64) = None"
  by (simp_all add: fpag_check_op_def)

text \<open>The signal stack is either registered or given back.\<close>

lemma install_signal_stack_no_leak:
  assumes run: "install_signal_stack dbg os sigaltstack_ok v = Some ((low, bytes), v')" and os: "os_ok os"
    and fresh: "\<forall>r \<in> set (vm_mapped v). \<forall>q. os_mmap os SIGNAL_STACK_BYTES = Some q \<longrightarrow> outside q SIGNAL_STACK_BYTES r"
  shows "vm_mapped v' = (if low = 0 then vm_mapped v else (low, SIGNAL_STACK_BYTES) # vm_mapped v)"
proof -
  obtain stack v1 where a: "allocate_pages dbg os SIGNAL_STACK_BYTES v = Some (stack, v1)"
    using run by (auto simp: install_signal_stack_def bind_eq_Some_conv)
  show ?thesis
  proof (cases "stack = 0")
    case True
    then show ?thesis using run a allocate_pages_null [OF _ os fresh] by (auto simp: install_signal_stack_def)
  next
    case False
    have m: "vm_mapped v1 = (stack, SIGNAL_STACK_BYTES) # vm_mapped v" "os_mmap os SIGNAL_STACK_BYTES = Some stack"
      using a False by (auto simp: allocate_pages_def reserve_pages_def commit_pages_def bind_eq_Some_conv checks split: option.splits if_splits)
    have "filter (outside stack SIGNAL_STACK_BYTES) ((stack, SIGNAL_STACK_BYTES) # vm_mapped v) = vm_mapped v"
      by (rule munmap_fresh) (use fresh m(2) in \<open>auto simp: SIGNAL_STACK_BYTES_def\<close>)
    then show ?thesis using run a False m(1)
      by (auto simp: install_signal_stack_def free_pages_def munmap_def bind_eq_Some_conv checks split: if_splits)
  qed
qed

section \<open>Witness\<close>

definition sample_crash_env :: crash_env where
  "sample_crash_env = \<lparr>ce_debug = True, ce_date = (\<lambda>_. ''2026-01-01 00:00:00''), ce_now = (\<lambda>_. 1767225600), ce_pid = 7, ce_tid = 8,
     ce_stack = (\<lambda>handling. map (\<lambda>_. 9) handling @ [1, 2, 42]), ce_trace = io_write STDERR_FD ''trace'',
     ce_on_signal_stack = (\<lambda>_. True), ce_logger_file = ''sync_logger.h''\<rparr>"

definition sample_process :: process where
  "sample_process = \<lparr>ps_fs = stderr_fs, ps_logger = Some \<lparr>fk_fd = STDERR_FD, fk_has_buffer = False, fk_buffer = [], fk_capacity = 0,
     fk_style = Off, fk_use_buffer = False\<rparr>, ps_printed = False, ps_blocked = []\<rparr>"

theorem crash_reports_witness:
  "(\<exists>q. take_path sample_crash_env (Fault SIGSEGV) sample_process = (Default_Action SIGILL, q)
    \<and> stream_at STDERR_FD (report_text sample_crash_env Off False [SIGSEGV] SIGSEGV
        @ report_text sample_crash_env Off False [SIGILL, SIGSEGV] SIGILL) (ps_fs q))
   \<and> (\<exists>q. take_path sample_crash_env (Check_Failed ''x > 0'' ''f.cc'' 3 ''main'' ''msg'') sample_process = (Default_Action SIGILL, q))"
proof -
  have "stream_at STDERR_FD [] stderr_fs" by (simp add: stream_at_def stderr_fs_def empty_fs_def STDERR_FD_def)
  then have p: "shows_text sample_process (Some Off) []" by (simp add: shows_text_def sample_process_def debug_sink_def)
  have trace: "stream_at STDERR_FD (out @ ''trace'') (ce_trace sample_crash_env s)" if "stream_at STDERR_FD out s" for out s
    using io_write_stream [OF that] by (simp add: sample_crash_env_def)
  have env: "ce_debug sample_crash_env" "ps_blocked sample_process = []" "\<not> ps_printed sample_process"
    "\<And>handling. 0 \<notin> set (ce_stack sample_crash_env handling)"
    by (auto simp: sample_crash_env_def sample_process_def)
  have sg: "sg \<in> set (registered True)" if "Fault SIGSEGV = Fault sg" for sg using that by (simp add: registered_def)
  show ?thesis
    using crash_reports [OF env(1) p env(2,3,4) trace, of "Fault SIGSEGV"] sg
      crash_reports [OF env(1) p env(2,3,4) trace, of "Check_Failed ''x > 0'' ''f.cc'' 3 ''main'' ''msg''"]
    by (auto simp: path_text_def fault_text_def handler_text_def)
qed

end
