(* ===== verification/Temp_Dir.thy ===== *)
theory Temp_Dir
  imports Text "HOL-Library.Sublist" "HOL-Library.Monad_Syntax"
begin

text \<open>
  Temporary files and directories (\<^verbatim>\<open>src/io/temp_file.cc\<close>, \<^verbatim>\<open>src/io/temp_dir.cc\<close>), the POSIX branch. The directory
  tree is a list of entries, each with the names that lead to it from the root: a file, a symbolic link, or a
  directory. A path is resolved as the kernel does it, following at most forty links and taking \<^verbatim>\<open>.\<close> and \<^verbatim>\<open>..\<close> for the
  directory reached so far and its parent; a link leads to an absolute path. What the kernel refuses is a
  parameter: any policy over calls and resolved paths. A listing shows the entries a directory had when it was
  opened, without the names \<^verbatim>\<open>.\<close> and \<^verbatim>\<open>..\<close> that the code skips. No other process changes the tree.
\<close>

section \<open>Definitions\<close>

subsection \<open>The directory tree\<close>

datatype entry_kind = Plain string | Link "string list" | Directory

type_synonym tree = "(string list \<times> entry_kind) list"

datatype tree_call = Mkdir | Opendir | Lstat | Rmdir | Remove | Fopen | Fwrite | Fclose

type_synonym policy = "tree_call \<Rightarrow> string list \<Rightarrow> bool"

fun split_path :: "string \<Rightarrow> string list" where
  "split_path [] = [[]]"
| "split_path (c # cs) =
     (if c = CHR ''/'' then [] # split_path cs
      else case split_path cs of [] \<Rightarrow> [[c]] | p # ps \<Rightarrow> (c # p) # ps)"

definition components :: "string \<Rightarrow> string list" where
  "components path = filter (\<lambda>n. n \<noteq> []) (split_path path)"

definition kind_at :: "tree \<Rightarrow> string list \<Rightarrow> entry_kind option" where
  "kind_at t p = (if p = [] then Some Directory else map_of t p)"

definition MAX_LINKS :: nat where "MAX_LINKS = 40"

function canon :: "nat \<Rightarrow> tree \<Rightarrow> bool \<Rightarrow> string list \<Rightarrow> string list \<Rightarrow> string list option" where
  "canon links t follow walked [] = Some walked"
| "canon links t follow walked (n # ns) =
     (if n = ''.'' then (if kind_at t walked = Some Directory then canon links t follow walked ns else None)
      else if n = ''..'' then (if kind_at t walked = Some Directory then canon links t follow (butlast walked) ns else None)
      else case kind_at t (walked @ [n]) of
        Some (Link target) \<Rightarrow>
          if ns = [] \<and> \<not> follow then Some (walked @ [n])
          else (case links of 0 \<Rightarrow> None | Suc links \<Rightarrow> canon links t follow [] (target @ ns))
      | _ \<Rightarrow> canon links t follow (walked @ [n]) ns)"
  by pat_completeness auto
termination
  by (relation "measures [\<lambda>(links, _). links, \<lambda>(_, _, _, _, ns). length ns]") auto

definition resolve_path :: "tree \<Rightarrow> bool \<Rightarrow> string \<Rightarrow> string list option" where
  "resolve_path t follow path = canon MAX_LINKS t follow [] (components path)"

definition sys_mkdir_at :: "policy \<Rightarrow> string \<Rightarrow> tree \<Rightarrow> tree" where
  "sys_mkdir_at deny path t =
     (case resolve_path t False path of
        Some p \<Rightarrow> if kind_at t p = None \<and> kind_at t (butlast p) = Some Directory \<and> \<not> deny Mkdir p then (p, Directory) # t else t
      | None \<Rightarrow> t)"

definition children :: "tree \<Rightarrow> string list \<Rightarrow> string list" where
  "children t p = map (\<lambda>e. last (fst e)) (filter (\<lambda>e. fst e \<noteq> [] \<and> butlast (fst e) = p) t)"

definition sys_opendir :: "policy \<Rightarrow> string \<Rightarrow> tree \<Rightarrow> string list option" where
  "sys_opendir deny path t =
     (case resolve_path t True path of
        Some p \<Rightarrow> if kind_at t p = Some Directory \<and> \<not> deny Opendir p then Some (children t p) else None
      | None \<Rightarrow> None)"

definition sys_lstat :: "policy \<Rightarrow> string \<Rightarrow> tree \<Rightarrow> entry_kind option" where
  "sys_lstat deny path t =
     (case resolve_path t False path of Some p \<Rightarrow> if deny Lstat p then None else kind_at t p | None \<Rightarrow> None)"

text \<open>A directory cannot be removed by a path that ends in a dot.\<close>

definition ends_in_dot :: "string \<Rightarrow> bool" where
  "ends_in_dot path = (case rev (components path) of [] \<Rightarrow> False | n # ns \<Rightarrow> n = ''.'')"

definition sys_rmdir_at :: "policy \<Rightarrow> string \<Rightarrow> tree \<Rightarrow> tree" where
  "sys_rmdir_at deny path t =
     (case resolve_path t False path of
        Some p \<Rightarrow>
          if p \<noteq> [] \<and> \<not> ends_in_dot path \<and> kind_at t p = Some Directory \<and> children t p = [] \<and> \<not> deny Rmdir p
          then filter (\<lambda>e. fst e \<noteq> p) t else t
      | None \<Rightarrow> t)"

definition sys_unlink_at :: "policy \<Rightarrow> string \<Rightarrow> tree \<Rightarrow> tree" where
  "sys_unlink_at deny path t =
     (case resolve_path t False path of
        Some p \<Rightarrow>
          if kind_at t p \<noteq> Some Directory \<and> \<not> deny Remove p then filter (\<lambda>e. fst e \<noteq> p) t else t
      | None \<Rightarrow> t)"

text \<open>\<^verbatim>\<open>std::remove\<close> unlinks a file or a link, and removes an empty directory.\<close>

definition sys_remove :: "policy \<Rightarrow> string \<Rightarrow> tree \<Rightarrow> tree" where
  "sys_remove deny path t =
     (if Option.bind (resolve_path t False path) (kind_at t) = Some Directory then sys_rmdir_at deny path t
      else sys_unlink_at deny path t)"

definition put_file :: "string list \<Rightarrow> string \<Rightarrow> tree \<Rightarrow> tree" where
  "put_file p bytes t = (p, Plain bytes) # filter (\<lambda>e. fst e \<noteq> p) t"

text \<open>\<^verbatim>\<open>fopen(path, "wb")\<close>: the file is there and empty afterwards.\<close>

definition sys_fopen :: "policy \<Rightarrow> string \<Rightarrow> tree \<Rightarrow> string list option \<times> tree" where
  "sys_fopen deny path t =
     (case resolve_path t True path of
        Some p \<Rightarrow>
          if kind_at t p \<noteq> Some Directory \<and> kind_at t (butlast p) = Some Directory \<and> \<not> deny Fopen p
          then (Some p, put_file p [] t) else (None, t)
      | None \<Rightarrow> (None, t))"

subsection \<open>TempDir\<close>

record temp_dir =
  td_path :: string
  td_files :: "string list"
  td_dirs :: "string list"

fun make_dirs_loop :: "policy \<Rightarrow> string \<Rightarrow> string \<Rightarrow> tree \<Rightarrow> tree" where
  "make_dirs_loop deny current [] t = (if current \<noteq> [] then sys_mkdir_at deny current t else t)"
| "make_dirs_loop deny current (c # cs) t =
     make_dirs_loop deny (current @ [c]) cs
       (if c = CHR ''/'' \<and> current \<noteq> [] then sys_mkdir_at deny current t else t)"

definition make_dirs :: "policy \<Rightarrow> string \<Rightarrow> tree \<Rightarrow> tree" where
  "make_dirs deny path t = make_dirs_loop deny [] path t"

text \<open>The recursion goes as deep as the tree; a call that has used up its fuel has no result.\<close>

fun remove_all :: "nat \<Rightarrow> policy \<Rightarrow> string \<Rightarrow> tree \<Rightarrow> tree option"
  and remove_each :: "nat \<Rightarrow> policy \<Rightarrow> string \<Rightarrow> string list \<Rightarrow> tree \<Rightarrow> tree option" where
  "remove_all 0 deny path t = None"
| "remove_all (Suc fuel) deny path t =
     (case sys_opendir deny path t of None \<Rightarrow> Some t | Some names \<Rightarrow> remove_each fuel deny path names t)"
| "remove_each fuel deny path [] t = Some t"
| "remove_each fuel deny path (n # ns) t =
     (let full = path @ ''/'' @ n in
      case sys_lstat deny full t of
        None \<Rightarrow> remove_each fuel deny path ns t
      | Some Directory \<Rightarrow> do {
          t \<leftarrow> remove_all fuel deny full t;
          remove_each fuel deny path ns (sys_rmdir_at deny full t)
        }
      | Some _ \<Rightarrow> remove_each fuel deny path ns (sys_remove deny full t))"

definition remove_dir :: "policy \<Rightarrow> string \<Rightarrow> tree \<Rightarrow> tree" where
  "remove_dir deny path t = sys_rmdir_at deny path t"

definition temp_base :: "string option \<Rightarrow> string" where
  "temp_base tmpdir =
     (let base = (case tmpdir of Some tmp \<Rightarrow> if tmp \<noteq> [] then tmp else ''/tmp'' | None \<Rightarrow> ''/tmp'')
      in if base \<noteq> [] \<and> last base \<noteq> CHR ''/'' then base @ ''/'' else base)"

definition td_new :: "nat \<Rightarrow> policy \<Rightarrow> string option \<Rightarrow> string \<Rightarrow> tree \<Rightarrow> (temp_dir \<times> tree) option" where
  "td_new fuel deny tmpdir n t = do {
     let path = temp_base tmpdir @ n;
     t \<leftarrow> remove_all fuel deny path t;
     Some (\<lparr>td_path = path, td_files = [], td_dirs = []\<rparr>, make_dirs deny path t)
   }"

definition UNIQUE_CHARS :: string where
  "UNIQUE_CHARS = ''abcdefghijklmnopqrstuvwxyzABCDEFGHIJKLMNOPQRSTUVWXYZ0123456789''"

text \<open>The draws of the random generator come as a list, each below the number of characters.\<close>

definition td_create_unique :: "nat \<Rightarrow> policy \<Rightarrow> string option \<Rightarrow> string \<Rightarrow> nat list \<Rightarrow> tree \<Rightarrow> (temp_dir \<times> tree) option" where
  "td_create_unique fuel deny tmpdir name_prefix draws t =
     td_new fuel deny tmpdir (name_prefix @ map (\<lambda>d. UNIQUE_CHARS ! d) (take 16 draws)) t"

definition td_remove :: "nat \<Rightarrow> policy \<Rightarrow> temp_dir \<Rightarrow> tree \<Rightarrow> (temp_dir \<times> tree) option" where
  "td_remove fuel deny d t =
     (if td_path d = [] then Some (d, t)
      else do {
        t \<leftarrow> remove_all fuel deny (td_path d) t;
        Some (\<lparr>td_path = [], td_files = [], td_dirs = []\<rparr>, remove_dir deny (td_path d) t)
      })"

definition td_move :: "temp_dir \<Rightarrow> temp_dir \<times> temp_dir" where
  "td_move other = (other, \<lparr>td_path = [], td_files = [], td_dirs = []\<rparr>)"

definition td_move_assign :: "nat \<Rightarrow> policy \<Rightarrow> temp_dir \<Rightarrow> temp_dir \<Rightarrow> tree \<Rightarrow> (temp_dir \<times> temp_dir \<times> tree) option" where
  "td_move_assign fuel deny this other t = do {
     (this, t) \<leftarrow> td_remove fuel deny this t;
     let (this, other) = td_move other;
     Some (this, other, t)
   }"

definition td_join :: "temp_dir \<Rightarrow> string \<Rightarrow> string" where
  "td_join d child = td_path d @ ''/'' @ child"

definition td_make_dir :: "policy \<Rightarrow> string \<Rightarrow> temp_dir \<Rightarrow> tree \<Rightarrow> bool \<times> temp_dir \<times> tree" where
  "td_make_dir deny rel d t =
     (let full = td_join d rel; t = make_dirs deny full t in (True, d\<lparr>td_dirs := td_dirs d @ [full]\<rparr>, t))"

text \<open>The path up to the last slash, if there is one.\<close>

definition before_last_slash :: "string \<Rightarrow> string option" where
  "before_last_slash path =
     (if CHR ''/'' \<in> set path then Some (rev (tl (dropWhile (\<lambda>c. c \<noteq> CHR ''/'') (rev path)))) else None)"

text \<open>
  \<^verbatim>\<open>fwrite\<close> fills the stream's buffer; a refusal it meets itself shows in its count, one at \<^verbatim>\<open>fclose\<close> does not.
\<close>

definition td_write_file :: "policy \<Rightarrow> string \<Rightarrow> string \<Rightarrow> temp_dir \<Rightarrow> tree \<Rightarrow> bool \<times> temp_dir \<times> tree" where
  "td_write_file deny rel bytes d t =
     (let full = td_join d rel;
          t = (case before_last_slash full of Some dir \<Rightarrow> make_dirs deny dir t | None \<Rightarrow> t)
      in case sys_fopen deny full t of
           (None, t) \<Rightarrow> (False, d, t)
         | (Some p, t) \<Rightarrow>
             let written = (if deny Fwrite p then 0 else length bytes);
                 t = (if deny Fclose p then t else put_file p (take written bytes) t)
             in if written \<noteq> length bytes then (False, d, t)
                else (True, d\<lparr>td_files := td_files d @ [full]\<rparr>, t))"

subsection \<open>TempFile\<close>

text \<open>\<^verbatim>\<open>mkstemp\<close> replaces the last six characters of its template so that the name is new, and creates the file, or fails.\<close>

definition temp_file_create :: "(string \<Rightarrow> string option) \<Rightarrow> string \<Rightarrow> string \<Rightarrow> tree \<Rightarrow> bool \<times> string \<times> tree" where
  "temp_file_create mkstemp name_prefix path t =
     (let template_path = ''/tmp/'' @ name_prefix @ ''XXXXXX'' in
      case mkstemp template_path of
        None \<Rightarrow> (False, path, t)
      | Some created \<Rightarrow> (True, created, put_file (components created) [] t))"

definition temp_file_remove :: "policy \<Rightarrow> string \<Rightarrow> tree \<Rightarrow> string \<times> tree" where
  "temp_file_remove deny path t = (if path = [] then (path, t) else ([], sys_unlink_at deny path t))"

definition temp_file_new :: "(string \<Rightarrow> string option) \<Rightarrow> string option \<Rightarrow> tree \<Rightarrow> string \<times> tree" where
  "temp_file_new mkstemp name_prefix t =
     snd (temp_file_create mkstemp (case name_prefix of Some p \<Rightarrow> p | None \<Rightarrow> ''temp_file_'') [] t)"

definition temp_file_move :: "string \<Rightarrow> string \<times> string" where
  "temp_file_move other = (other, [])"

definition temp_file_move_assign :: "policy \<Rightarrow> string \<Rightarrow> string \<Rightarrow> tree \<Rightarrow> string \<times> string \<times> tree" where
  "temp_file_move_assign deny this other t =
     (let (_, t) = temp_file_remove deny this t; (this, other) = temp_file_move other in (this, other, t))"

section \<open>Paths\<close>

lemma split_path_nonempty [simp]: "split_path s \<noteq> []"
  by (induction s rule: split_path.induct) (auto split: list.splits)

lemma split_path_slash: "split_path (a @ CHR ''/'' # b) = split_path a @ split_path b"
  by (induction a) (auto split: list.splits)

lemma split_path_name: "CHR ''/'' \<notin> set n \<Longrightarrow> split_path n = [n]"
  by (induction n) auto

text \<open>A name an entry can have, and a path that leads through such names only.\<close>

definition ordinary :: "string \<Rightarrow> bool" where "ordinary n \<longleftrightarrow> n \<noteq> ''.'' \<and> n \<noteq> ''..''"

definition name_part :: "string \<Rightarrow> bool" where "name_part n \<longleftrightarrow> n \<noteq> [] \<and> CHR ''/'' \<notin> set n \<and> ordinary n"

lemma components_child: "name_part n \<Longrightarrow> components (path @ CHR ''/'' # n) = components path @ [n]"
  by (simp add: components_def name_part_def split_path_slash split_path_name)

section \<open>Well-formed trees\<close>

text \<open>Every entry has a name and lies in a directory; no two are in the same place.\<close>

definition tree_ok :: "tree \<Rightarrow> bool" where
  "tree_ok t \<longleftrightarrow> distinct (map fst t)
     \<and> (\<forall>e \<in> set t. fst e \<noteq> [] \<and> name_part (last (fst e)) \<and> kind_at t (butlast (fst e)) = Some Directory)"

text \<open>Ordinary names on the way to \<open>p\<close>, and no link, nor one at its end.\<close>

definition clean :: "tree \<Rightarrow> string list \<Rightarrow> bool" where
  "clean t p \<longleftrightarrow> list_all ordinary p \<and> (\<forall>q target. prefix q p \<longrightarrow> kind_at t q \<noteq> Some (Link target))"

definition trims :: "string list \<Rightarrow> tree \<Rightarrow> tree \<Rightarrow> bool" where
  "trims p t t' \<longleftrightarrow> tree_ok t' \<and> (\<exists>keep. t' = filter (\<lambda>e. keep (fst e)) t \<and> (\<forall>q. \<not> strict_prefix p q \<longrightarrow> keep q))"

lemma canon_clean:
  "list_all ordinary p \<Longrightarrow> (\<And>q target. prefix walked q \<Longrightarrow> prefix q (walked @ p) \<Longrightarrow> q \<noteq> walked \<Longrightarrow> kind_at t q \<noteq> Some (Link target)) \<Longrightarrow>
   canon links t follow walked p = Some (walked @ p)"
proof (induction p arbitrary: walked)
  case (Cons n ns)
  have "kind_at t (walked @ [n]) \<noteq> Some (Link target)" for target
    by (rule Cons.prems) auto
  moreover have "canon links t follow (walked @ [n]) ns = Some ((walked @ [n]) @ ns)"
    using Cons.prems(1) by (intro Cons.IH, simp, intro Cons.prems(2)) (auto simp: prefix_def)
  ultimately show ?case using Cons.prems(1) by (auto simp: ordinary_def split: option.splits entry_kind.splits)
qed simp

lemma resolve_clean: "clean t (components path) \<Longrightarrow> resolve_path t follow path = Some (components path)"
  unfolding resolve_path_def by (subst canon_clean) (auto simp: clean_def)

lemma canon_last:
  "list_all ordinary p \<Longrightarrow> ordinary n \<Longrightarrow> (\<And>q target. prefix walked q \<Longrightarrow> prefix q (walked @ p) \<Longrightarrow> q \<noteq> walked \<Longrightarrow> kind_at t q \<noteq> Some (Link target)) \<Longrightarrow>
   canon links t False walked (p @ [n]) = Some (walked @ p @ [n])"
proof (induction p arbitrary: walked)
  case Nil
  then show ?case by (auto simp: ordinary_def split: option.splits entry_kind.splits)
next
  case (Cons m ns)
  have "kind_at t (walked @ [m]) \<noteq> Some (Link target)" for target
    by (rule Cons.prems) auto
  moreover have "canon links t False (walked @ [m]) (ns @ [n]) = Some ((walked @ [m]) @ ns @ [n])"
    using Cons.prems(1,2) by (intro Cons.IH, simp, simp, intro Cons.prems(3)) (auto simp: prefix_def)
  ultimately show ?case using Cons.prems(1) by (auto simp: ordinary_def split: option.splits entry_kind.splits)
qed

lemma resolve_child:
  assumes "clean t (components path)" "name_part n"
  shows "resolve_path t False (path @ CHR ''/'' # n) = Some (components path @ [n])"
  unfolding resolve_path_def components_child [OF assms(2)]
  by (subst canon_last) (use assms in \<open>auto simp: clean_def name_part_def\<close>)

lemma not_ends_in_dot:
  "list_all ordinary (components path) \<Longrightarrow> \<not> ends_in_dot path"
  "name_part n \<Longrightarrow> \<not> ends_in_dot (path @ CHR ''/'' # n)"
proof -
  show "\<not> ends_in_dot path" if "list_all ordinary (components path)"
    using that by (cases "components path" rule: rev_cases) (auto simp: ends_in_dot_def ordinary_def)
  show "\<not> ends_in_dot (path @ CHR ''/'' # n)" if "name_part n"
    using that components_child [OF that, of path] by (auto simp: ends_in_dot_def name_part_def ordinary_def)
qed

lemma kind_at_filter:
  "kind_at (filter (\<lambda>e. keep (fst e)) t) q = (if q = [] \<or> keep q then kind_at t q else None)"
  by (induction t) (auto simp: kind_at_def)

lemma tree_ok_parent: "tree_ok t \<Longrightarrow> kind_at t (q @ [n]) \<noteq> None \<Longrightarrow> kind_at t q = Some Directory"
  by (force simp: tree_ok_def kind_at_def [of t "q @ [n]"] dest: map_of_SomeD)

text \<open>An entry that is not the parent of another can go.\<close>

lemma tree_ok_delete:
  assumes "tree_ok t" "p \<noteq> []" "kind_at t p \<noteq> Some Directory \<or> children t p = []"
  shows "tree_ok (filter (\<lambda>e. fst e \<noteq> p) t)"
proof -
  have "butlast (fst e) \<noteq> p" if "e \<in> set t" for e
    using that assms by (auto simp: tree_ok_def children_def filter_empty_conv)
  then show ?thesis using assms(1,2)
    by (auto simp: tree_ok_def kind_at_filter [of "\<lambda>q. q \<noteq> p"] distinct_map_filter)
qed

lemma trims_refl: "tree_ok t \<Longrightarrow> trims p t t"
  unfolding trims_def by (intro conjI exI [of _ "\<lambda>_. True"]) auto

lemma trims_trans: "trims p t u \<Longrightarrow> trims p u w \<Longrightarrow> trims p t w"
  unfolding trims_def
proof (elim conjE exE)
  fix k l assume "tree_ok w" "u = filter (\<lambda>e. k (fst e)) t" "\<forall>q. \<not> strict_prefix p q \<longrightarrow> k q"
    "w = filter (\<lambda>e. l (fst e)) u" "\<forall>q. \<not> strict_prefix p q \<longrightarrow> l q"
  then show "tree_ok w \<and> (\<exists>keep. w = filter (\<lambda>e. keep (fst e)) t \<and> (\<forall>q. \<not> strict_prefix p q \<longrightarrow> keep q))"
    by (intro conjI exI [of _ "\<lambda>q. k q \<and> l q"]) (auto simp: conj_commute)
qed

lemma trims_below: "trims (p @ [n]) t u \<Longrightarrow> trims p t u"
  by (auto simp: trims_def) (metis append_prefixD prefix_snocD strict_prefix_def strict_prefixI')

lemma trims_kind: "trims p t u \<Longrightarrow> \<not> strict_prefix p q \<Longrightarrow> kind_at u q = kind_at t q"
  by (auto simp: trims_def kind_at_filter)

lemma trims_none: "trims p t u \<Longrightarrow> kind_at t q = None \<Longrightarrow> kind_at u q = None"
  by (auto simp: trims_def kind_at_filter)

lemma trims_clean: "trims p t u \<Longrightarrow> clean t q \<Longrightarrow> clean u q"
  by (auto simp: trims_def clean_def kind_at_filter split: if_splits)

lemma trims_subset: "trims p t u \<Longrightarrow> set u \<subseteq> set t"
  by (auto simp: trims_def)

lemma kind_at_below:
  assumes "tree_ok t" "kind_at t p \<noteq> Some Directory" "strict_prefix p q"
  shows "kind_at t q = None"
  using assms(3)
proof (induction q rule: rev_induct)
  case (snoc n q)
  then have "prefix p q" by (auto simp: strict_prefix_def)
  then have "kind_at t q \<noteq> Some Directory" using snoc.IH assms(2) by (cases "p = q") (auto simp: strict_prefix_def)
  then show ?case using tree_ok_parent [OF assms(1)] by blast
qed simp

lemma children_nil: "tree_ok t \<Longrightarrow> (\<And>n. kind_at t (p @ [n]) = None) \<Longrightarrow> children t p = []"
proof (rule ccontr)
  assume t: "tree_ok t" "\<And>n. kind_at t (p @ [n]) = None" and "children t p \<noteq> []"
  then obtain e where e: "e \<in> set t" "fst e \<noteq> []" "butlast (fst e) = p" by (auto simp: children_def filter_empty_conv)
  then have "p @ [last (fst e)] = fst e" by auto
  then have "map_of t (p @ [last (fst e)]) \<noteq> None" using e(1) by (simp add: map_of_eq_None_iff)
  then show False using t(2) by (simp add: kind_at_def)
qed

lemma children_part: "tree_ok t \<Longrightarrow> n \<in> set (children t p) \<Longrightarrow> name_part n"
  by (auto simp: children_def tree_ok_def)

lemma children_at: "kind_at t (p @ [n]) \<noteq> None \<Longrightarrow> n \<in> set (children t p)"
  by (force simp: kind_at_def children_def dest: map_of_SomeD)

lemma trims_delete:
  assumes "tree_ok t" "kind_at t (p @ [n]) \<noteq> Some Directory \<or> children t (p @ [n]) = []"
  shows "trims p t (filter (\<lambda>e. fst e \<noteq> p @ [n]) t)"
  unfolding trims_def
  by (intro conjI tree_ok_delete exI [of _ "\<lambda>q. q \<noteq> p @ [n]"]) (use assms in \<open>auto simp: strict_prefix_def\<close>)

definition permissive :: "policy \<Rightarrow> bool" where "permissive deny \<longleftrightarrow> (\<forall>c q. \<not> deny c q)"

lemma rmdir_child:
  assumes "tree_ok t" "clean t (components path)" "name_part n"
  shows "trims (components path) t (sys_rmdir_at deny (path @ CHR ''/'' # n) t)"
    and "permissive deny \<Longrightarrow> kind_at t (components path @ [n]) = Some Directory \<Longrightarrow> children t (components path @ [n]) = [] \<Longrightarrow>
      kind_at (sys_rmdir_at deny (path @ CHR ''/'' # n) t) (components path @ [n]) = None"
  using trims_delete [OF assms(1)] trims_refl [OF assms(1)]
  by (auto simp: sys_rmdir_at_def resolve_child [OF assms(2,3)] not_ends_in_dot(2) [OF assms(3)] permissive_def
      kind_at_filter [of "\<lambda>q. q \<noteq> components path @ [n]"])

lemma unlink_child:
  assumes "tree_ok t" "clean t (components path)" "name_part n" "kind_at t (components path @ [n]) \<noteq> Some Directory"
  shows "trims (components path) t (sys_remove deny (path @ CHR ''/'' # n) t)"
    and "permissive deny \<Longrightarrow> kind_at (sys_remove deny (path @ CHR ''/'' # n) t) (components path @ [n]) = None"
  using trims_delete [OF assms(1)] trims_refl [OF assms(1)] assms(4)
  by (auto simp: sys_remove_def sys_unlink_at_def resolve_child [OF assms(2,3)] permissive_def
      kind_at_filter [of "\<lambda>q. q \<noteq> components path @ [n]"])

text \<open>The fuel that is enough: more than the entries below the path are deep.\<close>

definition deeper :: "string list \<Rightarrow> nat \<Rightarrow> tree \<Rightarrow> bool" where
  "deeper p fuel t \<longleftrightarrow> (\<forall>e \<in> set t. strict_prefix p (fst e) \<longrightarrow> length (fst e) < length p + fuel)"

lemma deeper_subset: "deeper p fuel t \<Longrightarrow> set u \<subseteq> set t \<Longrightarrow> deeper p fuel u"
  by (auto simp: deeper_def)

lemma deeper_child:
  assumes "deeper p (Suc fuel) t" "kind_at t (p @ [n]) \<noteq> None"
  shows "0 < fuel" "deeper (p @ [n]) fuel t"
proof -
  obtain e where "e \<in> set t" "fst e = p @ [n]" using assms(2) by (force simp: kind_at_def dest: map_of_SomeD)
  then show "0 < fuel" using assms(1) by (fastforce simp: deeper_def strict_prefix_def)
  have "strict_prefix p q" if "strict_prefix (p @ [n]) q" for q
    using that by (metis append_prefixD prefix_snocD strict_prefix_def strict_prefixI')
  then show "deeper (p @ [n]) fuel t" using assms(1) by (fastforce simp: deeper_def)
qed

definition emptied :: "policy \<Rightarrow> string list \<Rightarrow> tree \<Rightarrow> bool" where
  "emptied deny p t \<longleftrightarrow> (permissive deny \<longrightarrow> (\<forall>q. strict_prefix p q \<longrightarrow> kind_at t q = None))"

lemma clean_child:
  assumes "clean t p" "kind_at t (p @ [n]) = Some Directory" "name_part n"
  shows "clean t (p @ [n])"
  using assms by (auto simp: clean_def prefix_snoc name_part_def)

text \<open>What a pass over the names \<open>ns\<close> of the directory \<open>p\<close> achieves, and what it takes to go on to the next name.\<close>

definition each_done :: "policy \<Rightarrow> string list \<Rightarrow> string list \<Rightarrow> tree \<Rightarrow> tree option \<Rightarrow> bool" where
  "each_done deny p ns t r \<longleftrightarrow> (\<exists>u. r = Some u \<and> trims p t u
     \<and> (permissive deny \<longrightarrow> (\<forall>n \<in> set ns. \<forall>q. prefix (p @ [n]) q \<longrightarrow> kind_at u q = None)))"

lemma each_done_step:
  assumes t1: "trims p t t1" "permissive deny \<Longrightarrow> kind_at t1 (p @ [n]) = None" and rest: "each_done deny p ns t1 r"
  shows "each_done deny p (n # ns) t r"
proof -
  obtain u where u: "r = Some u" "trims p t1 u"
      "permissive deny \<longrightarrow> (\<forall>m \<in> set ns. \<forall>q. prefix (p @ [m]) q \<longrightarrow> kind_at u q = None)"
    using rest by (auto simp: each_done_def)
  have ok1: "tree_ok t1" using t1(1) by (simp add: trims_def)
  have "kind_at u q = None" if "permissive deny" "prefix (p @ [n]) q" for q
  proof (rule trims_none [OF u(2)])
    show "kind_at t1 q = None"
      using t1(2) [OF that(1)] kind_at_below [OF ok1, of "p @ [n]" q] that(2)
      by (cases "q = p @ [n]") (auto simp: strict_prefix_def)
  qed
  then show ?thesis using u trims_trans [OF t1(1) u(2)] by (auto simp: each_done_def)
qed

lemma each_done_children:
  assumes "each_done deny p (children t p) t r"
  obtains u where "r = Some u" "trims p t u" "emptied deny p u"
proof -
  obtain u where u: "r = Some u" "trims p t u"
      "permissive deny \<longrightarrow> (\<forall>n \<in> set (children t p). \<forall>q. prefix (p @ [n]) q \<longrightarrow> kind_at u q = None)"
    using assms by (auto simp: each_done_def)
  have "kind_at u q = None" if d: "permissive deny" and q: "strict_prefix p q" for q
  proof -
    obtain n r where q: "q = p @ [n] @ r" using q by (auto elim!: strict_prefixE')
    show ?thesis
    proof (cases "n \<in> set (children t p)")
      case True
      then show ?thesis using u(3) d by (simp add: q)
    next
      case False
      then have "kind_at t (p @ [n]) = None" using children_at by blast
      then have "kind_at u (p @ [n]) = None" using trims_none [OF u(2)] by blast
      then show ?thesis using kind_at_below [of u "p @ [n]"] u(2)
        by (cases r) (auto simp: q trims_def strict_prefix_def)
    qed
  qed
  then show thesis using u that by (auto simp: emptied_def)
qed

lemma remove_all_spec:
  "tree_ok t \<Longrightarrow> clean t (components path) \<Longrightarrow> 0 < fuel \<Longrightarrow> deeper (components path) fuel t \<Longrightarrow>
     \<exists>u. remove_all fuel deny path t = Some u \<and> trims (components path) t u \<and> emptied deny (components path) u"
  "tree_ok t \<Longrightarrow> clean t (components path) \<Longrightarrow> list_all name_part ns \<Longrightarrow> deeper (components path) (Suc fuel) t \<Longrightarrow>
     each_done deny (components path) ns t (remove_each fuel deny path ns t)"
proof (induction fuel deny path t and fuel deny path ns t rule: remove_all_remove_each.induct)
  case (2 fuel deny path t)
  let ?p = "components path"
  note res = resolve_clean [OF 2(3), of True]
  show ?case
  proof (cases "kind_at t ?p = Some Directory \<and> \<not> deny Opendir ?p")
    case False
    then have "emptied deny ?p t" using kind_at_below [OF 2(2)] by (auto simp: emptied_def permissive_def)
    moreover have "remove_all (Suc fuel) deny path t = Some t" using False by (auto simp: sys_opendir_def res)
    ultimately show ?thesis using trims_refl [OF 2(2)] by blast
  next
    case True
    then have ns: "sys_opendir deny path t = Some (children t ?p)" by (simp add: sys_opendir_def res)
    have "list_all name_part (children t ?p)" using children_part [OF 2(2)] by (auto simp: list_all_iff)
    from each_done_children [OF 2(1) [OF ns 2(2,3) this 2(5)]] show ?thesis using ns by auto
  qed
next
  case (3 fuel deny path t)
  then show ?case using trims_refl by (auto simp: each_done_def)
next
  case (4 fuel deny path n ns t)
  let ?p = "components path" and ?full = "path @ CHR ''/'' # n"
  have n: "name_part n" "list_all name_part ns" using "4.prems"(3) by simp_all
  note here = resolve_child [OF "4.prems"(2) n(1)] and part = components_child [OF n(1), of path]
  have after: "tree_ok t1 \<and> clean t1 ?p \<and> deeper ?p (Suc fuel) t1" if "trims ?p t t1" for t1
    using that trims_clean [OF that "4.prems"(2)] deeper_subset [OF "4.prems"(4) trims_subset [OF that]] by (simp add: trims_def)
  consider (gone) "sys_lstat deny ?full t = None" | (dir) "sys_lstat deny ?full t = Some Directory"
    | (other) k where "sys_lstat deny ?full t = Some k" "k \<noteq> Directory"
    by (cases "sys_lstat deny ?full t") auto
  then show ?case
  proof cases
    case gone
    then have "permissive deny \<Longrightarrow> kind_at t (?p @ [n]) = None" by (simp add: sys_lstat_def here permissive_def)
    moreover have "each_done deny ?p ns t (remove_each fuel deny path ns t)" using "4.IH"(1) "4.prems"(1,2,4) gone n(2) by simp
    ultimately show ?thesis using each_done_step [OF trims_refl [OF "4.prems"(1)]] gone by simp
  next
    case dir
    then have k: "kind_at t (?p @ [n]) = Some Directory" by (simp add: sys_lstat_def here split: if_splits)
    have cl: "clean t (components ?full)" unfolding part by (rule clean_child [OF "4.prems"(2) k n(1)])
    have fuel: "0 < fuel" "deeper (components ?full) fuel t" using deeper_child [OF "4.prems"(4), of n] k by (simp_all add: part)
    obtain u where u: "remove_all fuel deny ?full t = Some u" "trims (?p @ [n]) t u" "emptied deny (?p @ [n]) u"
      using "4.IH"(4) [OF _ dir _ "4.prems"(1)] cl fuel by (auto simp: part)
    have ok: "tree_ok u" "clean u ?p" using u(2) trims_clean [OF u(2) "4.prems"(2)] by (simp_all add: trims_def)
    have ku: "kind_at u (?p @ [n]) = Some Directory" using trims_kind [OF u(2), of "?p @ [n]"] k by simp
    have nil: "children u (?p @ [n]) = []" if "permissive deny"
      using that u(3) by (intro children_nil [OF ok(1)]) (auto simp: emptied_def strict_prefix_def)
    note rm = rmdir_child [OF ok n(1), of deny]
    have t1: "trims ?p t (sys_rmdir_at deny ?full u)" using trims_trans [OF trims_below [OF u(2)] rm(1)] .
    have "each_done deny ?p ns (sys_rmdir_at deny ?full u) (remove_each fuel deny path ns (sys_rmdir_at deny ?full u))"
      using "4.IH"(5) [OF _ dir _ u(1) [unfolded append_Cons append_Nil]] after [OF t1] n(2) by simp
    from each_done_step [OF t1 _ this] rm(2) ku nil dir u(1) show ?thesis by simp
  next
    case other
    have k: "kind_at t (?p @ [n]) \<noteq> Some Directory" using other by (auto simp: sys_lstat_def here split: if_splits)
    note rm = unlink_child [OF "4.prems"(1,2) n(1) k, of deny]
    have next_t: "remove_each fuel deny path (n # ns) t = remove_each fuel deny path ns (sys_remove deny ?full t)"
      using other by (cases k) simp_all
    have "each_done deny ?p ns (sys_remove deny ?full t) (remove_each fuel deny path ns (sys_remove deny ?full t))"
      using other after [OF rm(1)] n(2) "4.IH"(2,3) by (cases k) simp_all
    from each_done_step [OF rm(1) rm(2) this] show ?thesis by (simp only: next_t)
  qed
qed simp

section \<open>Making directories and files\<close>

lemma ancestor: "tree_ok t \<Longrightarrow> kind_at t q \<noteq> None \<Longrightarrow> strict_prefix c q \<Longrightarrow> kind_at t c = Some Directory"
  by (metis kind_at_below)

lemma kind_at_Cons: "p \<noteq> [] \<Longrightarrow> kind_at ((p, k) # t) q = (if q = p then Some k else kind_at t q)"
  by (auto simp: kind_at_def)

lemma components_slash: "components (a @ CHR ''/'' # b) = components a @ components b"
  by (simp add: components_def split_path_slash)

lemma components_parts: "list_all ordinary (components s) \<Longrightarrow> list_all name_part (components s)"
proof -
  have "\<forall>n \<in> set (split_path s). CHR ''/'' \<notin> set n" by (induction s) (auto split: list.splits)
  then show "list_all ordinary (components s) \<Longrightarrow> list_all name_part (components s)"
    by (auto simp: list_all_iff components_def name_part_def)
qed

lemma tree_ok_add:
  assumes "tree_ok t" "kind_at t p = None" "kind_at t (butlast p) = Some Directory" "name_part (last p)"
  shows "tree_ok ((p, k) # t)"
proof -
  have p: "p \<noteq> []" "p \<notin> fst ` set t" using assms(2) by (auto simp: kind_at_def map_of_eq_None_iff split: if_splits)
  then show ?thesis using assms by (auto simp: tree_ok_def kind_at_Cons)
qed

lemma tree_ok_put:
  assumes "tree_ok t" "p \<noteq> []" "kind_at t p \<noteq> Some Directory" "kind_at t (butlast p) = Some Directory" "name_part (last p)"
  shows "tree_ok (put_file p bytes t)"
  unfolding put_file_def
proof (rule tree_ok_add)
  show "tree_ok (filter (\<lambda>e. fst e \<noteq> p) t)" using assms by (intro tree_ok_delete) simp_all
  have "butlast p \<noteq> p" using assms(2) by (metis append_butlast_last_id append_self_conv list.distinct(1))
  then show "kind_at (filter (\<lambda>e. fst e \<noteq> p) t) p = None"
    "kind_at (filter (\<lambda>e. fst e \<noteq> p) t) (butlast p) = Some Directory"
    using assms by (simp_all add: kind_at_filter [of "\<lambda>q. q \<noteq> p"])
qed (rule assms(5))

lemma kind_at_put: "p \<noteq> [] \<Longrightarrow> kind_at (put_file p bytes t) q = (if q = p then Some (Plain bytes) else kind_at t q)"
  by (simp add: put_file_def kind_at_Cons kind_at_filter [of "\<lambda>q. q \<noteq> p"])

text \<open>
  \<open>inside p t u\<close>: the tree \<open>u\<close> has a directory at \<open>p\<close> with no links in it, and is \<open>t\<close> everywhere else.
\<close>

definition inside :: "string list \<Rightarrow> tree \<Rightarrow> tree \<Rightarrow> bool" where
  "inside p t u \<longleftrightarrow> tree_ok u \<and> kind_at u p = Some Directory \<and> (\<forall>q target. prefix p q \<longrightarrow> kind_at u q \<noteq> Some (Link target))
     \<and> (\<forall>q. \<not> prefix p q \<longrightarrow> kind_at u q = kind_at t q)"

definition on_the_way :: "string list \<Rightarrow> string list \<Rightarrow> bool" where
  "on_the_way p c \<longleftrightarrow> prefix c p \<or> prefix p c"

lemma inside_clean:
  assumes "inside p t u" "clean t p" "on_the_way p c" "list_all ordinary c"
  shows "clean u c"
  unfolding clean_def
proof (intro conjI allI impI)
  show "list_all ordinary c" by (rule assms(4))
  fix q target assume "prefix q c"
  then consider "prefix p q" | "prefix q p" "\<not> prefix p q"
    using assms(3) by (metis on_the_way_def prefix_order.trans prefix_same_cases)
  then show "kind_at u q \<noteq> Some (Link target)" using assms(1,2) by cases (auto simp: inside_def clean_def)
qed

lemma inside_resolve:
  "inside p t u \<Longrightarrow> clean t p \<Longrightarrow> on_the_way p (components s) \<Longrightarrow> list_all ordinary (components s)
     \<Longrightarrow> resolve_path u follow s = Some (components s)"
  using inside_clean resolve_clean by blast

lemma last_part: "list_all ordinary (components s) \<Longrightarrow> components s \<noteq> [] \<Longrightarrow> name_part (last (components s))"
  using components_parts [of s] by (simp add: list_all_iff)

lemma mkdir_inside:
  assumes "inside p t u" "clean t p" "on_the_way p (components s)" "list_all ordinary (components s)"
  shows "inside p t (sys_mkdir_at deny s u)"
proof (cases "kind_at u (components s) = None \<and> kind_at u (butlast (components s)) = Some Directory \<and> \<not> deny Mkdir (components s)")
  case True
  let ?c = "components s"
  have ok: "tree_ok u" "kind_at u p = Some Directory" using assms(1) by (simp_all add: inside_def)
  have "?c \<noteq> p" using True ok(2) by auto
  moreover have "\<not> strict_prefix ?c p" using True ok ancestor [OF ok(1), of p ?c] by auto
  ultimately have "\<not> prefix ?c p" by (simp add: strict_prefix_def)
  then have below: "prefix p ?c" "?c \<noteq> p" using assms(3) by (auto simp: on_the_way_def)
  have c: "?c \<noteq> []" using True by (auto simp: kind_at_def)
  have "tree_ok ((?c, Directory) # u)" using tree_ok_add [OF ok(1)] True last_part [OF assms(4) c] by blast
  then show ?thesis using True below c assms inside_resolve [OF assms]
    by (auto simp: sys_mkdir_at_def inside_def kind_at_Cons)
next
  case False
  then show ?thesis using assms inside_resolve [OF assms] by (auto simp: sys_mkdir_at_def)
qed

lemma make_dirs_inside:
  assumes "inside p t u" "clean t p" "on_the_way p (components path)" "list_all ordinary (components path)"
  shows "inside p t (make_dirs deny path u)"
proof -
  have plain: "list_all ordinary c" if "prefix c (components path)" for c
    using that assms(4) by (auto elim!: prefixE)
  have way: "on_the_way p c" if "prefix c (components path)" for c
    using that assms(3) unfolding on_the_way_def by (meson prefix_order.trans prefix_same_cases)
  have "inside p t (make_dirs_loop deny current rest w)" if "inside p t w" "current @ rest = path" for current rest w
    using that
  proof (induction rest arbitrary: current w)
    case Nil
    then show ?case using mkdir_inside [OF _ assms(2), of w current] assms(3,4) by auto
  next
    case (Cons c cs)
    have "inside p t (sys_mkdir_at deny current w)" if "c = CHR ''/''"
      by (rule mkdir_inside [OF Cons.prems(1) assms(2) way plain]) (simp_all add: Cons.prems(2) [symmetric] that components_slash)
    then show ?case using Cons by auto
  qed
  then show ?thesis using assms(1) by (simp add: make_dirs_def)
qed

lemma before_last_slash_path:
  assumes "before_last_slash s = Some dir"
  obtains rest where "s = dir @ CHR ''/'' # rest"
proof -
  let ?no = "\<lambda>c. c \<noteq> CHR ''/''"
  have sl: "CHR ''/'' \<in> set (rev s)" and dir: "dir = rev (tl (dropWhile ?no (rev s)))"
    using assms by (auto simp: before_last_slash_def split: if_splits)
  then have ne: "dropWhile ?no (rev s) \<noteq> []" by (auto simp: dropWhile_eq_Nil_conv)
  then have "rev s = takeWhile ?no (rev s) @ CHR ''/'' # tl (dropWhile ?no (rev s))"
    using hd_dropWhile [OF ne] by (metis list.collapse takeWhile_dropWhile_id)
  then have "s = rev (tl (dropWhile ?no (rev s))) @ CHR ''/'' # rev (takeWhile ?no (rev s))"
    by (metis rev.simps(2) rev_append rev_rev_ident append_assoc append_Cons append_Nil)
  then show thesis using that dir by blast
qed

lemma write_file_inside:
  assumes ins: "inside (components (td_path d)) t u" and cl: "clean t (components (td_path d))"
    and rel: "list_all ordinary (components rel)" and wr: "td_write_file deny rel bytes d u = (ok, d', u')"
  shows "inside (components (td_path d)) t u'" "td_path d' = td_path d"
    and "ok \<Longrightarrow> permissive deny \<Longrightarrow> kind_at u' (components (td_join d rel)) = Some (Plain bytes)"
proof -
  let ?p = "components (td_path d)" and ?full = "td_join d rel"
  let ?c = "components ?full"
  have c: "?c = ?p @ components rel" by (simp add: td_join_def components_slash)
  then have way: "on_the_way ?p ?c" "list_all ordinary ?c" using rel cl by (simp_all add: on_the_way_def clean_def)
  define v where "v = (case before_last_slash ?full of Some dir \<Rightarrow> make_dirs deny dir u | None \<Rightarrow> u)"
  have v: "inside ?p t v"
  proof (cases "before_last_slash ?full")
    case (Some dir)
    then obtain rest where "?full = dir @ CHR ''/'' # rest" by (rule before_last_slash_path)
    then have "prefix (components dir) ?c" by (simp add: components_slash)
    then have "on_the_way ?p (components dir)" "list_all ordinary (components dir)"
      using way unfolding on_the_way_def by (meson prefix_order.trans prefix_same_cases, auto elim!: prefixE)
    then show ?thesis using make_dirs_inside [OF ins cl] by (simp add: v_def Some)
  qed (simp add: v_def ins)
  have res: "resolve_path v True ?full = Some ?c" using inside_resolve [OF v cl way] .
  have store: "inside ?p t (put_file ?c bs w) \<and> kind_at (put_file ?c bs w) ?c = Some (Plain bs)"
    if "inside ?p t w" "kind_at w ?c \<noteq> Some Directory" "kind_at w (butlast ?c) = Some Directory" for bs w
  proof -
    have "?c \<noteq> []" using that(2) by (auto simp: kind_at_def)
    moreover have "?c \<noteq> ?p" using that(1,2) by (metis inside_def)
    ultimately have ne: "?c \<noteq> []" "?c \<noteq> ?p" .
    have "tree_ok (put_file ?c bs w)" using that tree_ok_put last_part [OF way(2) ne(1)] ne(1) by (simp add: inside_def)
    then show ?thesis using that ne c by (auto simp: inside_def kind_at_put)
  qed
  show "td_path d' = td_path d" using wr by (auto simp: td_write_file_def Let_def split: prod.splits option.splits if_splits)
  consider (refused) "u' = v" "\<not> ok"
    | (opened) "kind_at v ?c \<noteq> Some Directory" "kind_at v (butlast ?c) = Some Directory"
        "u' = (if deny Fclose ?c then put_file ?c [] v else put_file ?c (take (if deny Fwrite ?c then 0 else length bytes) bytes) (put_file ?c [] v))"
    using wr by (auto simp: td_write_file_def v_def [symmetric] Let_def sys_fopen_def res split: if_splits)
  then have "inside ?p t u' \<and> (ok \<longrightarrow> permissive deny \<longrightarrow> kind_at u' ?c = Some (Plain bytes))"
  proof cases
    case refused
    then show ?thesis using v by simp
  next
    case opened
    note e = store [OF v opened(1,2), of "[]"]
    have "?c \<noteq> []" using opened(1) by (auto simp: kind_at_def)
    then have "kind_at (put_file ?c [] v) (butlast ?c) = Some Directory"
      using opened(2) by (metis append_butlast_last_id append_self_conv kind_at_put list.distinct(1))
    then show ?thesis using e store [of "put_file ?c [] v"] opened(3) by (auto simp: permissive_def)
  qed
  then show "inside ?p t u'" "ok \<Longrightarrow> permissive deny \<Longrightarrow> kind_at u' ?c = Some (Plain bytes)" by auto
qed

section \<open>The life of a temporary directory\<close>

datatype dir_op = Make_Dir string | Write_File string string

fun td_ops :: "policy \<Rightarrow> dir_op list \<Rightarrow> temp_dir \<Rightarrow> tree \<Rightarrow> temp_dir \<times> tree" where
  "td_ops deny [] d t = (d, t)"
| "td_ops deny (Make_Dir rel # ops) d t = (let (_, d, t) = td_make_dir deny rel d t in td_ops deny ops d t)"
| "td_ops deny (Write_File rel bytes # ops) d t = (let (_, d, t) = td_write_file deny rel bytes d t in td_ops deny ops d t)"

fun op_ordinary :: "dir_op \<Rightarrow> bool" where
  "op_ordinary (Make_Dir rel) = list_all ordinary (components rel)"
| "op_ordinary (Write_File rel bytes) = list_all ordinary (components rel)"

lemma td_ops_inside:
  assumes "inside (components (td_path d)) t u" "clean t (components (td_path d))" "td_ops deny ops d u = (d', u')"
    and "list_all op_ordinary ops"
  shows "inside (components (td_path d)) t u' \<and> td_path d' = td_path d"
  using assms(1,3,2,4)
proof (induction ops arbitrary: d u)
  case (Cons op ops)
  show ?case
  proof (cases op)
    case (Make_Dir rel)
    let ?full = "td_join d rel"
    have "on_the_way (components (td_path d)) (components ?full)" "list_all ordinary (components ?full)"
      using Cons.prems(3,4) by (simp_all add: on_the_way_def td_join_def components_slash clean_def Make_Dir)
    from Cons.IH [of "d\<lparr>td_dirs := td_dirs d @ [?full]\<rparr>" "make_dirs deny ?full u"] make_dirs_inside [OF Cons.prems(1,3) this]
    show ?thesis using Cons.prems by (simp add: Make_Dir td_make_dir_def Let_def)
  next
    case (Write_File rel bytes)
    obtain ok d1 u1 where w: "td_write_file deny rel bytes d u = (ok, d1, u1)" by (metis prod_cases3)
    from Cons.IH [of d1 u1] write_file_inside [OF Cons.prems(1,3) _ w] Cons.prems show ?thesis by (simp add: Write_File w)
  qed
qed simp

lemma make_dirs_last:
  assumes ok: "tree_ok t" "clean t (components path)" and p: "components path \<noteq> []" "path \<noteq> []"
    and parent: "kind_at t (butlast (components path)) = Some Directory"
    and free: "kind_at t (components path) = None \<or> kind_at t (components path) = Some Directory" and deny: "permissive deny"
  shows "tree_ok (make_dirs deny path t)"
    "kind_at (make_dirs deny path t) q = (if q = components path then Some Directory else kind_at t q)"
proof -
  let ?p = "components path"
  define J where "J = (\<lambda>u. tree_ok u \<and> (\<forall>q. q \<noteq> ?p \<longrightarrow> kind_at u q = kind_at t q) \<and> (kind_at u ?p = kind_at t ?p \<or> kind_at u ?p = Some Directory))"
  have up: "kind_at t c = Some Directory" if c: "strict_prefix c ?p" for c
  proof -
    have "prefix c (butlast ?p)" using c p(1) by (metis append_butlast_last_id prefix_snoc strict_prefix_def)
    then show ?thesis using parent ancestor [OF ok(1), of "butlast ?p" c] by (cases "c = butlast ?p") (auto simp: strict_prefix_def)
  qed
  have mk: "J (sys_mkdir_at deny s u) \<and> (components s = ?p \<longrightarrow> kind_at (sys_mkdir_at deny s u) ?p = Some Directory)"
    if u: "J u" and s: "prefix (components s) ?p" for s u
  proof -
    have k: "kind_at u ?p = None \<or> kind_at u ?p = Some Directory" using u free by (auto simp: J_def)
    have cl: "clean u (components s)"
      unfolding clean_def
    proof (intro conjI allI impI)
      show "list_all ordinary (components s)" using s ok(2) by (auto simp: clean_def elim!: prefixE)
      fix q target assume "prefix q (components s)"
      then have "prefix q ?p" using s prefix_order.trans by blast
      then show "kind_at u q \<noteq> Some (Link target)" using k up u by (cases "q = ?p") (auto simp: J_def strict_prefix_def)
    qed
    show ?thesis
    proof (cases "components s = ?p")
      case True
      have bl: "kind_at u (butlast ?p) = Some Directory"
        using u parent p(1) unfolding J_def by (metis append_butlast_last_id append_self_conv list.distinct(1))
      show ?thesis using k u bl deny tree_ok_add [of u ?p] last_part [OF _ p(1)] p(1) ok(2)
        by (auto simp: sys_mkdir_at_def resolve_clean [OF cl] True J_def permissive_def kind_at_Cons clean_def)
    next
      case False
      then have "kind_at u (components s) = Some Directory" using s up u by (auto simp: J_def strict_prefix_def)
      then show ?thesis using u False by (simp add: sys_mkdir_at_def resolve_clean [OF cl])
    qed
  qed
  have "J (make_dirs_loop deny current rest u) \<and> kind_at (make_dirs_loop deny current rest u) ?p = Some Directory"
    if "J u" "current @ rest = path" for current rest u
    using that
  proof (induction rest arbitrary: current u)
    case Nil
    then show ?case using mk [of u current] p(2) by auto
  next
    case (Cons c cs)
    have "J (sys_mkdir_at deny current u)" if "c = CHR ''/''"
      using mk [OF Cons.prems(1), of current] Cons.prems(2) that by (auto simp: components_slash)
    then show ?case using Cons by auto
  qed
  from this [of t "[]" path] show "tree_ok (make_dirs deny path t)"
    "kind_at (make_dirs deny path t) q = (if q = ?p then Some Directory else kind_at t q)"
    using ok by (auto simp: make_dirs_def J_def)
qed

lemma td_new_inside:
  assumes ok: "tree_ok t" "clean t (components path)" and path: "path = temp_base tmpdir @ n" "components path \<noteq> []"
    and parent: "kind_at t (butlast (components path)) = Some Directory"
    and free: "kind_at t (components path) = None \<or> kind_at t (components path) = Some Directory"
    and deny: "permissive deny" and fuel: "0 < fuel" "deeper (components path) fuel t"
  obtains t1 where "td_new fuel deny tmpdir n t = Some (\<lparr>td_path = path, td_files = [], td_dirs = []\<rparr>, t1)"
    "inside (components path) t t1"
proof -
  let ?p = "components path"
  obtain u where u: "remove_all fuel deny path t = Some u" "trims ?p t u" "emptied deny ?p u"
    using remove_all_spec(1) [OF ok fuel] by blast
  have "\<not> strict_prefix ?p (butlast ?p)" by (metis prefix_length_less length_butlast diff_le_self leD)
  then have ku: "kind_at u (butlast ?p) = Some Directory" "kind_at u ?p = kind_at t ?p"
    using trims_kind [OF u(2)] parent by simp_all
  have "path \<noteq> []" using path(2) by (auto simp: components_def)
  note mk = make_dirs_last [OF _ trims_clean [OF u(2) ok(2)] path(2) this ku(1) _ deny]
  have mk: "tree_ok (make_dirs deny path u)"
    "kind_at (make_dirs deny path u) q = (if q = ?p then Some Directory else kind_at u q)" for q
    using mk u(2) free ku(2) by (simp_all add: trims_def)
  have "inside ?p t (make_dirs deny path u)"
    using mk u(3) deny trims_kind [OF u(2)] by (auto simp: inside_def emptied_def strict_prefix_def)
  then show thesis using that u(1) by (simp add: td_new_def path(1) [symmetric])
qed

text \<open>Whatever the kernel refuses, removing a directory that no link leads to changes nothing outside it.\<close>

lemma td_remove_confined:
  assumes ok: "tree_ok t" "clean t (components (td_path d))" and path: "components (td_path d) \<noteq> []"
    and fuel: "0 < fuel" "deeper (components (td_path d)) fuel t"
  obtains d' u where "td_remove fuel deny d t = Some (d', u)" "\<And>q. \<not> prefix (components (td_path d)) q \<Longrightarrow> kind_at u q = kind_at t q"
    "permissive deny \<Longrightarrow> kind_at t (components (td_path d)) = Some Directory \<Longrightarrow>
      (\<And>q. prefix (components (td_path d)) q \<Longrightarrow> kind_at u q = None)"
proof -
  let ?p = "components (td_path d)"
  obtain v where v: "remove_all fuel deny (td_path d) t = Some v" "trims ?p t v" "emptied deny ?p v"
    using remove_all_spec(1) [OF ok fuel] by blast
  have okv: "tree_ok v" "clean v ?p" using v(2) trims_clean [OF v(2) ok(2)] by (simp_all add: trims_def)
  have dot: "\<not> ends_in_dot (td_path d)" using ok(2) by (intro not_ends_in_dot(1)) (simp add: clean_def)
  have "td_path d \<noteq> []" using path by (auto simp: components_def)
  then have run: "td_remove fuel deny d t = Some (\<lparr>td_path = [], td_files = [], td_dirs = []\<rparr>, remove_dir deny (td_path d) v)"
    using v(1) by (simp add: td_remove_def)
  show thesis
  proof (rule that [OF run])
    show "kind_at (remove_dir deny (td_path d) v) q = kind_at t q" if "\<not> prefix ?p q" for q
      using that trims_kind [OF v(2), of q]
      by (auto simp: remove_dir_def sys_rmdir_at_def resolve_clean [OF okv(2)] dot kind_at_filter [of "\<lambda>q. q \<noteq> ?p"] strict_prefix_def)
    show "kind_at (remove_dir deny (td_path d) v) q = None"
      if all: "permissive deny" "kind_at t ?p = Some Directory" and q: "prefix ?p q" for q
    proof -
      have kv: "kind_at v ?p = Some Directory" using trims_kind [OF v(2), of ?p] all(2) by simp
      have "children v ?p = []" using v(3) all(1) by (intro children_nil [OF okv(1)]) (auto simp: emptied_def strict_prefix_def)
      then show ?thesis using kv all(1) v(3) q path
        by (auto simp: remove_dir_def sys_rmdir_at_def resolve_clean [OF okv(2)] dot kind_at_filter [of "\<lambda>q. q \<noteq> ?p"]
            permissive_def emptied_def strict_prefix_def)
    qed
  qed
qed

lemma deeper_bound: "list_all (\<lambda>e. length (fst e) < fuel) t \<Longrightarrow> deeper p fuel t"
  by (auto simp: deeper_def list_all_iff trans_less_add2)

text \<open>
  C20. A temporary directory leaves nothing behind and disturbs nothing else, when its path and the relative paths
  it is given have no components \<^verbatim>\<open>.\<close> or \<^verbatim>\<open>..\<close>, no symbolic link is at its path or on the way to it, and the
  kernel refuses nothing. Where its parent exists and no file is in its place, building it succeeds; and after any
  directories and files made in it, at any depth and recorded or not, removing it takes away everything at or
  below its path and leaves every entry outside as it was before the directory was built. The recursion ends
  with fuel above the depth of the tree.
\<close>

theorem temp_dir_leaves_nothing:
  assumes "tree_ok t" "path = temp_base tmpdir @ n" "clean t (components path)" "components path \<noteq> []"
    and "kind_at t (butlast (components path)) = Some Directory"
    and "kind_at t (components path) = None \<or> kind_at t (components path) = Some Directory"
    and "permissive deny" "0 < fuel" "list_all (\<lambda>e. length (fst e) < fuel) t"
  shows "\<exists>d t1. td_new fuel deny tmpdir n t = Some (d, t1)
    \<and> (\<forall>ops d2 t2 fuel2. list_all op_ordinary ops \<and> td_ops deny ops d t1 = (d2, t2) \<and> 0 < fuel2 \<and> list_all (\<lambda>e. length (fst e) < fuel2) t2 \<longrightarrow>
        (\<exists>d3 t3. td_remove fuel2 deny d2 t2 = Some (d3, t3)
          \<and> (\<forall>q. kind_at t3 q = (if prefix (components path) q then None else kind_at t q))))"
proof -
  let ?p = "components path"
  obtain t1 where new: "td_new fuel deny tmpdir n t = Some (\<lparr>td_path = path, td_files = [], td_dirs = []\<rparr>, t1)" "inside ?p t t1"
    using td_new_inside [OF assms(1,3,2,4-8) deeper_bound [OF assms(9)]] by blast
  have "\<exists>d3 t3. td_remove fuel2 deny d2 t2 = Some (d3, t3) \<and> (\<forall>q. kind_at t3 q = (if prefix ?p q then None else kind_at t q))"
    if plain: "list_all op_ordinary ops" and ops: "td_ops deny ops \<lparr>td_path = path, td_files = [], td_dirs = []\<rparr> t1 = (d2, t2)"
      and fuel2: "0 < fuel2" "list_all (\<lambda>e. length (fst e) < fuel2) t2" for ops d2 t2 fuel2
  proof -
    have i: "inside ?p t t2" "td_path d2 = path" using td_ops_inside [OF _ _ ops plain] new(2) assms(3) by simp_all
    have "clean t2 (components (td_path d2))" using inside_clean [OF i(1) assms(3), of ?p] i(2) assms(3) by (simp add: on_the_way_def clean_def)
    then obtain d3 t3 where "td_remove fuel2 deny d2 t2 = Some (d3, t3)" "\<And>q. \<not> prefix ?p q \<Longrightarrow> kind_at t3 q = kind_at t2 q"
        "\<And>q. prefix ?p q \<Longrightarrow> kind_at t3 q = None"
      using td_remove_confined [of t2 d2 fuel2 deny] i assms(4,7) fuel2(1) deeper_bound [OF fuel2(2)]
      by (auto simp: inside_def)
    then show ?thesis using i(1) by (auto simp: inside_def)
  qed
  then show ?thesis using new(1) by blast
qed

definition sample_tree :: tree where
  "sample_tree = [([''tmp''], Directory), ([''tmp'', ''old''], Plain ''kept''), ([''tmp'', ''x''], Directory), ([''tmp'', ''x'', ''stale''], Plain [])]"

theorem temp_dir_leaves_nothing_witness:
  "\<exists>d t1 d2 t2 d3 t3. td_new 9 (\<lambda>_ _. False) None ''x'' sample_tree = Some (d, t1)
    \<and> td_ops (\<lambda>_ _. False) [Write_File ''a/b'' ''hello'', Make_Dir ''c''] d t1 = (d2, t2)
    \<and> td_remove 9 (\<lambda>_ _. False) d2 t2 = Some (d3, t3)
    \<and> kind_at t3 [''tmp'', ''x'', ''a''] = None \<and> kind_at t3 [''tmp'', ''old''] = Some (Plain ''kept'')"
proof -
  let ?deny = "\<lambda>_ _. False" and ?ops = "[Write_File ''a/b'' ''hello'', Make_Dir ''c'']"
  have path: "components (temp_base None @ ''x'') = [''tmp'', ''x'']" by (simp add: temp_base_def components_def)
  have ok: "tree_ok sample_tree" by (simp add: tree_ok_def sample_tree_def kind_at_def name_part_def ordinary_def)
  have cl: "clean sample_tree [''tmp'', ''x'']" by (auto simp: clean_def prefix_Cons sample_tree_def kind_at_def ordinary_def)
  have k: "kind_at sample_tree [''tmp''] = Some Directory" "kind_at sample_tree [''tmp'', ''x''] = Some Directory"
    by (simp_all add: sample_tree_def kind_at_def)
  from temp_dir_leaves_nothing [OF ok refl, of None "''x''" ?deny 9, unfolded path]
  obtain d t1 where new: "td_new 9 ?deny None ''x'' sample_tree = Some (d, t1)"
    and all: "\<And>ops d2 t2 fuel2. list_all op_ordinary ops \<and> td_ops ?deny ops d t1 = (d2, t2) \<and> 0 < fuel2 \<and> list_all (\<lambda>e. length (fst e) < fuel2) t2 \<Longrightarrow>
      \<exists>d3 t3. td_remove fuel2 ?deny d2 t2 = Some (d3, t3)
        \<and> (\<forall>q. kind_at t3 q = (if prefix [''tmp'', ''x''] q then None else kind_at sample_tree q))"
    using cl k by (auto simp: permissive_def sample_tree_def)
  obtain d2 t2 where ops: "td_ops ?deny ?ops d t1 = (d2, t2)" by fastforce
  have "list_all (\<lambda>e. length (fst e) < 9)
      (snd (case_prod (td_ops ?deny ?ops) (the (td_new 9 ?deny None ''x'' sample_tree))))" by code_simp
  then have "list_all (\<lambda>e. length (fst e) < 9) t2" by (simp only: new ops option.sel prod.case snd_conv)
  moreover have "list_all op_ordinary ?ops" by (simp add: components_def ordinary_def)
  ultimately obtain d3 t3 where "td_remove 9 ?deny d2 t2 = Some (d3, t3)"
    "\<forall>q. kind_at t3 q = (if prefix [''tmp'', ''x''] q then None else kind_at sample_tree q)" using all [of ?ops d2 t2 9] ops by auto
  moreover from this(2) have "kind_at t3 [''tmp'', ''x'', ''a''] = None" "kind_at t3 [''tmp'', ''old''] = Some (Plain ''kept'')"
    by (simp_all only:) (simp_all add: sample_tree_def kind_at_def)
  ultimately show ?thesis using new ops by blast
qed

text \<open>
  The exception is a link in the directory's own place: the walk of \<^verbatim>\<open>remove_all\<close> looks at its children without
  following links but opens the path itself through one, so that building a temporary directory under a name that is
  a link empties the directory the link leads to, and makes none.
\<close>

lemma temp_dir_through_link:
  "td_new 9 (\<lambda>_ _. False) None ''x''
     [([''tmp''], Directory), ([''tmp'', ''x''], Link [''home'']), ([''home''], Directory), ([''home'', ''letter''], Plain ''text'')]
   = Some (\<lparr>td_path = ''/tmp/x'', td_files = [], td_dirs = []\<rparr>,
       [([''tmp''], Directory), ([''tmp'', ''x''], Link [''home'']), ([''home''], Directory)])"
  by code_simp

text \<open>
  So is a relative path that climbs out of the directory: what is written through it stays behind.
\<close>

lemma temp_dir_escapes:
  "map_option (\<lambda>(d, t). td_remove 9 (\<lambda>_ _. False) (fst (td_ops (\<lambda>_ _. False) [Write_File ''../left'' ''text''] d t))
       (snd (td_ops (\<lambda>_ _. False) [Write_File ''../left'' ''text''] d t)))
     (td_new 9 (\<lambda>_ _. False) None ''x'' [([''tmp''], Directory)])
   = Some (Some (\<lparr>td_path = [], td_files = [], td_dirs = []\<rparr>, [([''tmp'', ''left''], Plain ''text''), ([''tmp''], Directory)]))"
  by code_simp

text \<open>A write the kernel refuses only when the stream is closed is reported as done.\<close>

lemma write_file_lost:
  "td_write_file (\<lambda>c _. c = Fclose) ''f'' ''text'' \<lparr>td_path = ''/t'', td_files = [], td_dirs = []\<rparr> [([''t''], Directory)]
   = (True, \<lparr>td_path = ''/t'', td_files = [''/t/f''], td_dirs = []\<rparr>, [([''t'', ''f''], Plain []), ([''t''], Directory)])"
  by code_simp

section \<open>The life of a temporary file\<close>

text \<open>A temporary file whose name is new is gone again after its removal, and the tree is as before.\<close>

lemma temp_file_gone:
  assumes "mkstemp (''/tmp/'' @ pre @ ''XXXXXX'') = Some created" "components created \<noteq> []"
    and "kind_at t (components created) = None" "clean t (butlast (components created))" "list_all ordinary (components created)"
    and "permissive deny"
    and "temp_file_new mkstemp (Some pre) t = (path, u)"
  shows "temp_file_remove deny path u = ([], t)"
proof -
  let ?c = "components created"
  have new: "path = created" "u = put_file ?c [] t"
    using assms(1,7) by (auto simp: temp_file_new_def temp_file_create_def)
  have fresh: "filter (\<lambda>e. fst e \<noteq> ?c) t = t"
    using assms(2,3) by (force simp: filter_id_conv kind_at_def map_of_eq_None_iff)
  have k: "kind_at u q = (if q = ?c then Some (Plain []) else kind_at t q)" for q
    using kind_at_put [OF assms(2)] by (simp add: new)
  have "clean u ?c"
    unfolding clean_def
  proof (intro conjI allI impI)
    show "list_all ordinary ?c" by (rule assms(5))
    fix q target assume "prefix q ?c"
    then have "q = ?c \<or> prefix q (butlast ?c)" using assms(2) by (metis append_butlast_last_id prefix_snoc)
    then show "kind_at u q \<noteq> Some (Link target)" using assms(4) by (auto simp: k clean_def)
  qed
  then have "resolve_path u False created = Some ?c" by (rule resolve_clean)
  moreover have "created \<noteq> []" using assms(2) by (auto simp: components_def)
  ultimately show ?thesis using k [of ?c] assms(6) fresh
    by (simp add: temp_file_remove_def sys_unlink_at_def new permissive_def) (simp add: put_file_def)
qed

end
