(* ===== verification/Spec2Isabelle.thy ===== *)
theory Spec2Isabelle
  imports Arg_Macro Backend_Worker Dwarf_Module Vec Tagged_Union Sinks Profiler Module_Map Crash Temp_Dir
begin

text \<open>
  \<^bold>\<open>fpag\<close>: a verification library for the C++ foundation library in this repository.

  The program is a set of layers. At the bottom are the assertion macros and the arithmetic of
  \<^verbatim>\<open>include/fpag/base/math_util.h\<close>. Over them the page allocator hands out virtual memory; the single-threaded
  and the concurrent arena cut it into blocks; the queue between two threads lives in an aliased mapping;
  the string pool stores names in a concurrent arena and the intern table finds them again. The asynchronous
  logger serializes a call into the queue, with its format string interned, and a backend thread reads it
  back and hands it to a sink, which writes to a descriptor or through a mapped file. Beside this stand the
  containers and unions of \<^verbatim>\<open>include/fpag/base\<close>, the command-line parser with its formatters and the macros
  that fill a struct from it, the debug-information reader that turns an address into a function and a
  source line, the stack traces over it, which the failing checks and the signal handlers print, the
  profiler, and the temporary files and directories.

  \<^bold>\<open>Theories and sources\<close>

  \<^item> \<open>Prelude\<close>: machine words, the macros \<^verbatim>\<open>FPAG_CHECK\<close> and \<^verbatim>\<open>FPAG_DCHECK\<close> of \<^verbatim>\<open>debug/check.h\<close> (a failed one is
    \<^term>\<open>None\<close>; the argument \<open>dbg\<close> chooses the build), lemmas on words, lists and little-endian numbers.
  \<^item> \<open>Math_Util\<close>: \<^verbatim>\<open>base/math_util.h\<close>; powers of two and alignment at every width.
  \<^item> \<open>Result\<close>, \<open>Text\<close>, \<open>Term\<close>: \<^verbatim>\<open>base/result.h\<close>; the string operations the sources use; the styles of
    \<^verbatim>\<open>src/term/console.cc\<close>.
  \<^item> \<open>Arg_Schema\<close>, \<open>Arg_Parser\<close>, \<open>Arg_Format\<close>, \<open>Arg_Macro\<close>: \<^verbatim>\<open>include/fpag/arg\<close> and \<^verbatim>\<open>src/arg\<close>; argument and
    command definitions with their builders, matches and converters, the parser, the help, error and
    version texts, and the binders and generated parse function of \<^verbatim>\<open>macro.h\<close>. The recursion of the parser is
    over the list of arguments, so it needs no fuel.
  \<^item> \<open>Page_Allocator\<close>, \<open>Arena\<close>, \<open>Concurrent_Arena\<close>: \<^verbatim>\<open>src/mem\<close>. The kernel is a record of its answers
    (\<open>os\<close>) and a state of mapped and writable ranges (\<open>vm\<close>). The operations of the concurrent arena are
    split at their atomic accesses, and \<open>arena_step\<close> interleaves any number of them.
  \<^item> \<open>Spsc_Queue\<close>: \<^verbatim>\<open>src/container/spsc_queue.cc\<close>; wrapping 64-bit indices over the bytes of the ring, and
    \<open>spsc_step\<close>, the interleaving of a producer and a consumer.
  \<^item> \<open>String_Pool\<close>, \<open>Intern_Table\<close>: \<^verbatim>\<open>src/str\<close> and \<^verbatim>\<open>include/fpag/str\<close>; names with their lengths in a concurrent arena,
    the open-addressing table over them, and \<open>intern_step\<close>, the interleaving of any number of interning
    and finding calls, one control byte at a time. The hash is an argument. \<open>try_intern\<close> counts its
    rounds; one is enough when no other writer holds a claim (\<open>try_intern_quiescent\<close>).
  \<^item> \<open>Dwarf_Cursor\<close>, \<open>Dwarf_Unit\<close>, \<open>Dwarf_Line\<close>, \<open>Dwarf_Module\<close>: \<^verbatim>\<open>src/debug/dwarf\<close>; bounded views and cursors
    with LEB128 numbers, abbreviations, forms, line headers, range lists and compilation units, the
    line program, and the ELF object around them. The loops that consume bytes are total. The line
    program takes fuel: as many rounds as the section has bytes are enough for a unit at the end of
    its section (\<open>line_position_ends\<close>), and no fuel is enough for a malformed unit
    (\<open>line_position_never_returns\<close>).
  \<^item> \<open>Symbolizer\<close>, \<open>Stack_Trace\<close>, \<open>Module_Map\<close>: \<^verbatim>\<open>src/debug/stack_trace\<close>; the three ways of capturing a stack, demangling
    and the resolution of an address through the module cache; a collected trace with the string buffer
    its frames point into, its text, and the raw trace of the signal path; the lookup of a module in the
    memory map of the process. The unwinder, the dynamic linker and the demangler are arguments; the fuel is
    the one of the line program.
  \<^item> \<open>Profiler\<close>: \<^verbatim>\<open>src/debug/profiler\<close>; the profiler, its sections and scopes, and the trace file.
  \<^item> \<open>Crash\<close>: \<^verbatim>\<open>check.cc\<close>, \<^verbatim>\<open>fatal.cc\<close>, \<^verbatim>\<open>signal_handler.cc\<close>, the terminate and exit handlers, and the debug log, in
    \<^verbatim>\<open>src/debug\<close>; what each fatal path writes and how the process ends. The clock and the frames on the
    stack are arguments and depend on the handlers that are running.
  \<^item> \<open>Log_Level\<close>, \<open>Log_Record\<close>, \<open>Async_Logger\<close>, \<open>Backend_Worker\<close>: \<^verbatim>\<open>include/fpag/logging\<close>; levels and prefixes, the
    bytes of a record with the codecs of its arguments, the synchronous logger and the two ends of the
    asynchronous one over the queue and the interner, and \<open>worker_step\<close>, the interleaving of the backend
    thread with the thread that logs, flushes and stops it, over a ring of bounded capacity that drops or
    blocks as its mode says. The fmt library is an argument. The loop of a batch counts its rounds, and
    one more than there are records is enough.
  \<^item> \<open>File_System\<close>, \<open>Stream_Writer\<close>, \<open>Sinks\<close>: \<^verbatim>\<open>src/io\<close>, \<^verbatim>\<open>include/fpag/io\<close> and \<^verbatim>\<open>include/fpag/logging/sink\<close>; whole-file reads
    and writes, file handles, mapped files and the stream writer, and the sinks over them. The kernel
    refuses calls and shortens transfers as a list of answers says.
  \<^item> \<open>Temp_Dir\<close>: \<^verbatim>\<open>src/io/temp_dir.cc\<close> and \<^verbatim>\<open>temp_file.cc\<close> over a tree of directories, files and symbolic links,
    with the components \<^verbatim>\<open>.\<close> and \<^verbatim>\<open>..\<close> of a path resolved as the kernel does. The recursive removal takes fuel; more than the depth of the tree is enough.
  \<^item> \<open>Soo_Vec\<close>, \<open>Vec\<close>, \<open>Tagged_Union\<close>: \<^verbatim>\<open>include/fpag/base\<close>; the vector with inline storage over a heap of cells
    that may or may not hold an object, typed indices at any width, slices, and tagged and untagged unions.

  \<^bold>\<open>What the lemmas show\<close>

  \<^item> The parser round-trips rendered options, records only values that belong to the selected commands,
    and its status agrees with the errors it met, unless help or version was asked for; the texts are aligned; integers convert exactly; a generated
    parse function gives the struct the command line spells.
  \<^item> Allocation is safe: blocks are aligned, writable, inside the reservation and disjoint, in sequence
    (locale \<open>bump_allocator\<close>) and under any interleaving; what a refused commit leaves is stated for both
    arenas; failed page allocations leave nothing behind.
  \<^item> The queue is first-in first-out under any interleaving, answers every offer and request as a list of
    bounded size does (locale \<open>message_queue\<close>), empty included, and is never stuck.
  \<^item> Names read back from their ids for ever (locale \<open>name_store\<close>), and two interning calls get the same id
    exactly for the same name.
  \<^item> LEB128 numbers and range lists read back from their encodings; a line lookup is the first row of a
    reference execution; function lookups are exact in an ordered table.
  \<^item> A stack trace prints exactly the frames below the skipped ones with what they resolve to, no name of
    it dangles, and the raw one fits its buffer; the ways of capturing agree; a module lookup is exact.
  \<^item> The profiler records the spans of its enabled time and its file holds exactly those when their
    lines fit; in a debug build the fatal paths end with the reports they owe.
  \<^item> The asynchronous logger hands its sink the entries the synchronous one does for the calls the ring
    accepts, but for escapes in a format without arguments; stopping the backend delivers every record
    the ring accepted, in every interleaving, and counts the others.
  \<^item> The vectors behave as lists without breaking a rule of object lifetime and without leaks (locale
    \<open>seq_container\<close>), slices as windows into them unless the sum of their bounds wraps; programs over
    tagged unions are type sound exactly when no empty member type has a destructor.
  \<^item> Files read back as written whatever the kernel does with the transfers; the stream writer stores only
    inside its mapping, but for a write after a failed growth, and leaves exactly what its successful writes
    were given; a temporary directory that is reached through no link and given no path with \<^verbatim>\<open>..\<close> leaves
    nothing behind and disturbs nothing else.

  Several lemmas state behaviour the sources do not intend: a wrapped room check and an ignored failed
  commit in the arena, members a move of the concurrent arena loses, default values that are never
  applied, tables reserved too small for the names asked for, a line base that is dropped, legacy range
  lists that are misread, the line program that does not return, a flush of the backend that returns
  early, records without arguments that are not formatted, copies and slices of vectors cut by the width
  of the index, empty union members that are destroyed without being constructed, records a buffered
  sink loses, stores through a mapping that a flush or a failed growth has given up, faults reported
  twice, checks that compare after narrowing, a clock set back under a section, a link that is followed
  when a temporary directory is emptied, relative paths that leave it, and module names cut at a blank.

  \<^bold>\<open>Not modelled\<close>

  \<^item> The memory model below sequential consistency: atomic accesses interleave but are not reordered. Some
    sequences of accesses are one step of an interleaving: in \<open>intern_step\<close> an append to the string pool
    (\<open>pool_append\<close>), whose own accesses to the arena are interleaved in \<open>arena_step\<close>; in \<open>worker_step\<close> the
    publication of a record and its removal, whose accesses are interleaved in \<open>spsc_step\<close>.
  \<^item> Undefined behaviour of some sums: the line register of a line program is a signed number in the source,
    where an overflow has no defined behaviour, and a word that wraps in \<open>Dwarf_Line\<close>. The positions of the
    ring do not wrap in \<open>Backend_Worker\<close>, nor, by a hypothesis, in the comparison of the two loggers; they do
    in \<open>Spsc_Queue\<close>.
  \<^item> Other processes that change the files, the directory tree or the mappings of this one.
  \<^item> The Windows, macOS and WebAssembly branches of the platform code, and 32-bit builds.
  \<^item> What is one call into the system, the compiler or a library, or a table of constants: the values of
    floating-point numbers, clocks, process and thread identifiers, third-party hashing, build
    configuration macros, numeric limits, and the test helpers.
  \<^item> How long a wait of the backend worker lasts (\<^verbatim>\<open>wait_strategy.h\<close>): in \<open>worker_step\<close> every wait may return at any
    moment.
  \<^item> \<^verbatim>\<open>vec_slice.h\<close> on its own: it is the text of \<^verbatim>\<open>soo_vec_slice.h\<close> under another class name.
\<close>

end
